(* ===== verification/Prelude.thy ===== *)
theory Prelude
  imports Main "HOL-Library.Word"
begin

text \<open>
  Shared vocabulary of the development: the integer widths of the C++ code, what a call can end
  with besides a value (an exception, a failed \<open>assert\<close>, undefined behaviour), the two
  combinators that sequence such calls, and generic facts about lists, words, decimal text and lines.

  A C++ \<open>int\<close> or \<open>long\<close> is a word read with \<open>sint\<close>; an unsigned integer is a word read with
  \<open>unat\<close>. Conversions between widths are \<open>ucast\<close> (truncation, or zero extension) and \<open>scast\<close>
  (sign extension). A \<open>std::string\<close> is a list of characters, each character one byte.
\<close>

type_synonym u8 = "8 word"
type_synonym u16 = "16 word"
type_synonym u32 = "32 word"
type_synonym u64 = "64 word"

type_synonym i32 = "32 word"
type_synonym i64 = "64 word"

section \<open>Outcomes of a call\<close>

text \<open>
  \<open>Runtime_Error\<close> is a thrown \<open>std::runtime_error\<close>, \<open>Runtime_Error_Ptr\<close> a thrown pointer to one
  (\<open>throw new runtime_error\<close>), which no \<open>catch (const exception &)\<close> of the program receives.
  \<open>Unix_Error\<close> is the exception of \<open>exception.hh\<close>, without the text of \<open>errno\<close>.
  \<open>Out_Of_Range\<close> is thrown by \<open>vector::at\<close> and \<open>stoul\<close>, \<open>Invalid_Argument\<close> by \<open>stoul\<close> and \<open>stod\<close>. \<open>Assert_Failed\<close> is the abort of a failed \<open>assert\<close>
  (the build does not define \<open>NDEBUG\<close>), \<open>Undefined\<close> is undefined behaviour.
\<close>

datatype exn =
    Runtime_Error string
  | Runtime_Error_Ptr string
  | Unix_Error string
  | Out_Of_Range
  | Invalid_Argument string
  | Assert_Failed string
  | Undefined string

type_synonym 'a res = "exn + 'a"

definition andThen :: "exn + 'a \<Rightarrow> ('a \<Rightarrow> exn + 'b) \<Rightarrow> exn + 'b" where
  "andThen m f = (case m of Inl e \<Rightarrow> Inl e | Inr x \<Rightarrow> f x)"

definition assertE :: "bool \<Rightarrow> string \<Rightarrow> exn + unit" where
  "assertE b msg = (if b then Inr () else Inl (Assert_Failed msg))"

definition nthE :: "'a list \<Rightarrow> nat \<Rightarrow> string \<Rightarrow> exn + 'a" where
  \<comment> \<open>\<open>v[i]\<close> on a \<open>std::vector\<close>: no check, undefined out of range\<close>
  "nthE xs i msg = (if i < length xs then Inr (xs ! i) else Inl (Undefined msg))"

definition atE :: "'a list \<Rightarrow> nat \<Rightarrow> exn + 'a" where
  \<comment> \<open>\<open>v.at(i)\<close>: throws out of range\<close>
  "atE xs i = (if i < length xs then Inr (xs ! i) else Inl Out_Of_Range)"

text \<open>
  A call that may also run forever has a value of type \<open>'a res option\<close>; \<open>None\<close> means it does not
  return.
\<close>

definition andThenO :: "'a res option \<Rightarrow> ('a \<Rightarrow> 'b res option) \<Rightarrow> 'b res option" where
  "andThenO m f =
     (case m of None \<Rightarrow> None | Some (Inl e) \<Rightarrow> Some (Inl e) | Some (Inr x) \<Rightarrow> f x)"

named_theorems exn_simps \<open>evaluation of sequenced calls\<close>

lemma andThen_simps [simp, exn_simps]:
  "andThen (Inl e) f = Inl e" "andThen (Inr x) f = f x"
  by (simp_all add: andThen_def)

lemma andThenO_simps [simp, exn_simps]:
  "andThenO None f = None" "andThenO (Some (Inl e)) f = Some (Inl e)"
  "andThenO (Some (Inr x)) g = g x"
  by (simp_all add: andThenO_def)

lemma assertE_simps [simp, exn_simps]:
  "assertE True msg = Inr ()" "assertE False msg = Inl (Assert_Failed msg)"
  by (simp_all add: assertE_def)

lemma assertE_Inr [simp]: "assertE b msg = Inr u \<longleftrightarrow> b"
  by (simp add: assertE_def)

lemma andThen_cong [fundef_cong]:
  "m = m' \<Longrightarrow> (\<And>x. m' = Inr x \<Longrightarrow> f x = f' x) \<Longrightarrow> andThen m f = andThen m' f'"
  by (simp add: andThen_def split: sum.split)

text \<open>Evaluation: the first call before what follows it.\<close>

lemma andThen_weak_cong: "m = m' \<Longrightarrow> andThen m f = andThen m' f"
  by simp

lemma andThenO_weak_cong: "m = m' \<Longrightarrow> andThenO m f = andThenO m' f"
  by simp

lemma andThen_Inr_iff: "andThen m f = Inr y \<longleftrightarrow> (\<exists>x. m = Inr x \<and> f x = Inr y)"
  by (simp add: andThen_def split: sum.split)

lemma andThen_Inl_iff:
  "andThen m f = Inl e \<longleftrightarrow> m = Inl e \<or> (\<exists>x. m = Inr x \<and> f x = Inl e)"
  by (simp add: andThen_def split: sum.split)

lemma andThenO_Some_Inr_iff:
  "andThenO m f = Some (Inr y) \<longleftrightarrow> (\<exists>x. m = Some (Inr x) \<and> f x = Some (Inr y))"
  by (simp add: andThenO_def split: option.split sum.split)

lemma nthE_in [simp]: "i < length xs \<Longrightarrow> nthE xs i msg = Inr (xs ! i)"
  by (simp add: nthE_def)

lemma nthE_Inr_iff: "nthE xs i msg = Inr x \<longleftrightarrow> i < length xs \<and> x = xs ! i"
  by (auto simp: nthE_def)

lemma atE_in [simp]: "i < length xs \<Longrightarrow> atE xs i = Inr (xs ! i)"
  by (simp add: atE_def)

lemma atE_Inr_iff: "atE xs i = Inr x \<longleftrightarrow> i < length xs \<and> x = xs ! i"
  by (auto simp: atE_def)

section \<open>Words\<close>

lemma unat_of_nat_small: "n < 2 ^ LENGTH('a) \<Longrightarrow> unat (of_nat n :: 'a::len word) = n"
  by (simp add: unat_of_nat take_bit_nat_eq_self)

lemma unat_of_nat_u64: "n < 2 ^ 64 \<Longrightarrow> unat (of_nat n :: u64) = n"
  by (simp add: unat_of_nat_small)

lemma unat_add_small:
  fixes a b :: "'a::len word"
  shows "unat a + unat b < 2 ^ LENGTH('a) \<Longrightarrow> unat (a + b) = unat a + unat b"
  by (simp add: unat_word_ariths)

lemma unat_diff_le:
  fixes a b :: "'a::len word"
  shows "b \<le> a \<Longrightarrow> unat (a - b) = unat a - unat b"
  by (simp add: unat_sub)

lemma uint_small_iff: "uint (a::'a::len word) < 2 ^ n \<longleftrightarrow> unat a < 2 ^ n"
proof -
  have "uint a < 2 ^ n \<longleftrightarrow> int (unat a) < int (2 ^ n)" by simp
  then show ?thesis by (simp only: of_nat_less_iff)
qed

lemma unat_u32_less: "unat (x :: u32) < 4294967296"
  using unsigned_less [of x, where ?'a = nat] by simp

lemma unat_u64_less: "unat (x :: u64) < 18446744073709551616"
  using unsigned_less [of x, where ?'a = nat] by simp

lemma ucast_u64_u32_back [simp]: "ucast (ucast (l :: u32) :: u64) = l"
  by (simp add: ucast_up_ucast_id is_up_def source_size target_size)

lemma sint_eq_iff: "sint a = sint b \<longleftrightarrow> a = b" for a b :: "'a::len word"
proof
  assume "sint a = sint b"
  then have "(word_of_int (sint a) :: 'a word) = word_of_int (sint b)" by (rule arg_cong)
  then show "a = b" by simp
qed simp

text \<open>A signed integer whose top bit is clear is its unsigned value.\<close>

lemma sint_uint_small:
  fixes a :: "'a::len word"
  assumes "unat a < 2 ^ (LENGTH('a) - 1)"
  shows "sint a = uint a"
proof -
  have "uint a < 2 ^ (LENGTH('a) - 1)" using assms by (simp only: uint_small_iff)
  moreover have "- (2 ^ (LENGTH('a) - 1)) \<le> uint a"
    by (rule order_trans [of _ 0]) simp_all
  ultimately have "signed_take_bit (LENGTH('a) - 1) (uint a) = uint a"
    by (intro signed_take_bit_int_eq_self)
  then show ?thesis by (simp add: sint_uint)
qed

lemma not_neg_small: "unat (a :: 32 word) < 2 ^ 31 \<Longrightarrow> \<not> sint a < 0"
  using sint_uint_small [of a] by simp

section \<open>Decimal text\<close>

text \<open>\<open>std::to_string\<close> and \<open>operator<<\<close> of an unsigned and of a signed integer.\<close>

definition digit_char :: "nat \<Rightarrow> char" where
  "digit_char n = char_of (48 + n)"

fun dec :: "nat \<Rightarrow> string" where
  "dec n = (if n < 10 then [digit_char n] else dec (n div 10) @ [digit_char (n mod 10)])"

declare dec.simps [simp del]

definition dec_int :: "int \<Rightarrow> string" where
  "dec_int i = (if i < 0 then CHR ''-'' # dec (nat (- i)) else dec (nat i))"

definition is_digit :: "char \<Rightarrow> bool" where
  "is_digit c \<longleftrightarrow> 48 \<le> (of_char c :: nat) \<and> (of_char c :: nat) \<le> 57"

definition digit_val :: "char \<Rightarrow> nat" where
  "digit_val c = of_char c - 48"

lemma digit_val_char [simp]: "n < 10 \<Longrightarrow> digit_val (digit_char n) = n"
  by (simp add: digit_val_def digit_char_def)

lemma is_digit_char [simp]: "n < 10 \<Longrightarrow> is_digit (digit_char n)"
  by (simp add: is_digit_def digit_char_def)

lemma dec_nonempty [simp]: "dec n \<noteq> []"
  by (subst dec.simps) simp

lemma dec_digits: "c \<in> set (dec n) \<Longrightarrow> is_digit c"
proof (induction n rule: dec.induct)
  case (1 n)
  then show ?case
    by (cases "n < 10") (auto simp: dec.simps [of n])
qed

lemma dec_foldl: "foldl (\<lambda>a c. a * 10 + digit_val c) 0 (dec n) = n"
proof (induction n rule: dec.induct)
  case (1 n)
  then show ?case
    by (cases "n < 10") (auto simp: dec.simps [of n])
qed

section \<open>Lines\<close>

text \<open>\<open>getline\<close> until it fails: a last line without the delimiter counts when it has a character.\<close>

fun getlines :: "char \<Rightarrow> string \<Rightarrow> string list" where
  "getlines d [] = []"
| "getlines d (c # cs) =
     (if c = d then [] # getlines d cs
      else (case getlines d cs of [] \<Rightarrow> [[c]] | l # ls \<Rightarrow> (c # l) # ls))"

definition newline :: char where "newline = char_of (10 :: nat)"

definition tab :: char where "tab = char_of (9 :: nat)"

lemma getlines_line: "d \<notin> set xs \<Longrightarrow> getlines d (xs @ d # ys) = xs # getlines d ys"
  by (induction xs) auto

end
