(* ===== verification/Float_Round.thy ===== *)
theory Float_Round
  imports Complex_Main Prelude "HOL-Library.Log_Nat"
begin

text \<open>
  Binary floating point as the code uses it: a finite \<open>float\<close> or \<open>double\<close> is the rational number it
  stands for, and each operation is the exact result rounded to nearest, ties to even, with
  gradual underflow. \<open>float\<close> has 24 significant bits and least quantum \<open>2^-149\<close>, \<open>double\<close> 53 and
  \<open>2^-1074\<close>. Overflow to infinity is not modelled: no value here reaches \<open>2^128\<close>. The conversions
  to integers truncate towards zero and are undefined out of range.
\<close>

section \<open>Rounding\<close>

definition rnd_int :: "rat \<Rightarrow> int" where
  "rnd_int x =
     (let f = \<lfloor>x\<rfloor>; d = x - of_int f
      in if d < 1 / 2 then f else if 1 / 2 < d then f + 1 else if even f then f else f + 1)"

text \<open>\<open>2 ^ ilog2 x \<le> x < 2 ^ (ilog2 x + 1)\<close> for positive \<open>x\<close>.\<close>

definition ilog2 :: "rat \<Rightarrow> int" where
  "ilog2 x =
     (let (a, b) = quotient_of x;
          e = int (floorlog 2 (nat a)) - int (floorlog 2 (nat b))
      in if 2 powi e \<le> x then e else e - 1)"

definition quantum :: "nat \<Rightarrow> int \<Rightarrow> rat \<Rightarrow> int" where
  "quantum p emin x = max (ilog2 \<bar>x\<bar> - int p + 1) emin"

definition fl :: "nat \<Rightarrow> int \<Rightarrow> rat \<Rightarrow> rat" where
  "fl p emin x =
     (if x = 0 then 0
      else of_int (rnd_int (x / 2 powi quantum p emin x)) * 2 powi quantum p emin x)"

definition fl32 :: "rat \<Rightarrow> rat" where "fl32 = fl 24 (-149)"

definition fl64 :: "rat \<Rightarrow> rat" where "fl64 = fl 53 (-1074)"

definition rat_trunc :: "rat \<Rightarrow> int" where
  "rat_trunc x = (if 0 \<le> x then \<lfloor>x\<rfloor> else - \<lfloor>- x\<rfloor>)"

text \<open>\<open>round\<close>: to the nearest integer, halves away from zero.\<close>

definition rat_round :: "rat \<Rightarrow> int" where
  "rat_round x = (if 0 \<le> x then \<lfloor>x + 1 / 2\<rfloor> else - \<lfloor>- x + 1 / 2\<rfloor>)"

text \<open>\<open>int(x)\<close> of a floating-point value.\<close>

definition float_to_int :: "rat \<Rightarrow> i32 res" where
  "float_to_int x =
     (let t = rat_trunc x
      in if - (2 ^ 31) \<le> t \<and> t < 2 ^ 31 then Inr (word_of_int t)
         else Inl (Undefined ''floating-point value out of the range of int''))"

section \<open>Monotonicity and exactness of rounding\<close>

lemma rnd_int_of_int [simp]: "rnd_int (of_int n) = n"
  by (simp add: rnd_int_def)

lemma rnd_int_bounds: "of_int (rnd_int x) \<le> x + 1 / 2" "x - 1 / 2 \<le> of_int (rnd_int x)"
  by (auto simp: rnd_int_def Let_def split: if_splits) linarith+

lemma rnd_int_floor: "\<lfloor>x\<rfloor> \<le> rnd_int x" "rnd_int x \<le> \<lfloor>x\<rfloor> + 1"
  by (auto simp: rnd_int_def Let_def)

lemma rnd_int_mono: "x \<le> y \<Longrightarrow> rnd_int x \<le> rnd_int y"
proof -
  assume le: "x \<le> y"
  then have f: "\<lfloor>x\<rfloor> \<le> \<lfloor>y\<rfloor>" by (rule floor_mono)
  show ?thesis
  proof (cases "\<lfloor>x\<rfloor> = \<lfloor>y\<rfloor>")
    case True
    with le show ?thesis by (auto simp: rnd_int_def Let_def)
  next
    case False
    with f have "\<lfloor>x\<rfloor> + 1 \<le> \<lfloor>y\<rfloor>" by simp
    with rnd_int_floor [of x] rnd_int_floor [of y] show ?thesis by linarith
  qed
qed

lemma rnd_int_minus: "rnd_int (- x) = - rnd_int x"
proof (cases "x = of_int \<lfloor>x\<rfloor>")
  case True
  then have "rnd_int (- x) = rnd_int (of_int (- \<lfloor>x\<rfloor>))" by simp
  also have "\<dots> = - \<lfloor>x\<rfloor>" by (rule rnd_int_of_int)
  also have "\<lfloor>x\<rfloor> = rnd_int x" using True rnd_int_of_int [of "\<lfloor>x\<rfloor>"] by simp
  finally show ?thesis .
next
  case False
  have "\<lfloor>- x\<rfloor> = - \<lfloor>x\<rfloor> - 1"
  proof (rule floor_unique)
    show "of_int (- \<lfloor>x\<rfloor> - 1) \<le> - x" by (simp; linarith)
    have "of_int \<lfloor>x\<rfloor> < x" using False of_int_floor_le [of x] by linarith
    then show "- x < of_int (- \<lfloor>x\<rfloor> - 1) + 1" by simp
  qed
  then show ?thesis by (auto simp: rnd_int_def Let_def)
qed


lemma powi_split: "(2::rat) powi i * 2 ^ n = 2 powi (i + int n)"
  by (simp add: power_int_add)

lemma ilog2_spec:
  assumes "0 < x"
  shows "2 powi ilog2 x \<le> x" "x < 2 powi (ilog2 x + 1)"
proof -
  obtain a b where q: "quotient_of x = (a, b)" by (cases "quotient_of x") auto
  have b: "0 < b" using quotient_of_denom_pos [OF q] .
  have x: "x = of_int a / of_int b" using quotient_of_div [OF q] .
  with assms b have a: "0 < a" by (simp add: zero_less_divide_iff)
  define la lb where "la = floorlog 2 (nat a)" and "lb = floorlog 2 (nat b)"
  have la: "2 ^ (la - 1) \<le> a" "a < 2 ^ la" and la0: "0 < la"
    using floorlog_bounds [of "nat a" 2] a floorlog_eq_zero_iff [of 2 "nat a"]
    by (auto simp: la_def nat_less_iff le_nat_iff zless_nat_eq_int_zless)
  have lb: "2 ^ (lb - 1) \<le> b" "b < 2 ^ lb" and lb0: "0 < lb"
    using floorlog_bounds [of "nat b" 2] b floorlog_eq_zero_iff [of 2 "nat b"]
    by (auto simp: lb_def nat_less_iff le_nat_iff zless_nat_eq_int_zless)
  define e where "e = int la - int lb"
  have up: "x < 2 powi (e + 1)"
  proof -
    have "x * of_int b = of_int a" using b by (simp add: x)
    also have "\<dots> < 2 ^ la" using la(2) by (metis of_int_less_iff of_int_numeral of_int_power)
    also have "\<dots> = 2 powi (e + 1) * 2 ^ (lb - 1)"
    proof -
      have "e + 1 + int (lb - 1) = int la" using lb0 by (simp add: e_def of_nat_diff)
      then show ?thesis by (simp only: powi_split power_int_of_nat)
    qed
    also have "\<dots> \<le> 2 powi (e + 1) * of_int b"
    proof (rule mult_left_mono)
      show "(2::rat) ^ (lb - 1) \<le> of_int b"
        using lb(1) by (metis of_int_le_iff of_int_numeral of_int_power)
    qed simp
    finally show ?thesis using b by simp
  qed
  have low: "2 powi (e - 1) \<le> x"
  proof -
    have "(2::rat) powi (e - 1) * of_int b \<le> 2 powi (e - 1) * 2 ^ lb"
    proof (rule mult_left_mono)
      show "of_int b \<le> (2::rat) ^ lb"
        using lb(2) by (metis less_imp_le of_int_le_iff of_int_numeral of_int_power)
    qed simp
    also have "\<dots> = 2 ^ (la - 1)"
    proof -
      have "e - 1 + int lb = int (la - 1)" using la0 by (simp add: e_def of_nat_diff)
      then show ?thesis by (simp only: powi_split power_int_of_nat)
    qed
    also have "\<dots> \<le> of_int a" using la(1) by (metis of_int_le_iff of_int_numeral of_int_power)
    also have "\<dots> = x * of_int b" using b by (simp add: x)
    finally show ?thesis using b by simp
  qed
  have il: "ilog2 x = (if 2 powi e \<le> x then e else e - 1)"
    by (simp add: ilog2_def q e_def la_def lb_def)
  show "2 powi ilog2 x \<le> x" using low by (simp add: il)
  show "x < 2 powi (ilog2 x + 1)" using up by (auto simp: il)
qed

definition round_to :: "int \<Rightarrow> rat \<Rightarrow> rat" where
  \<comment> \<open>to a multiple of \<open>2^k\<close>\<close>
  "round_to k x = of_int (rnd_int (x / 2 powi k)) * 2 powi k"

lemma round_to_mono: "x \<le> y \<Longrightarrow> round_to k x \<le> round_to k y"
  unfolding round_to_def
  by (intro mult_right_mono) (auto intro!: rnd_int_mono divide_right_mono)

lemma round_to_exact: "x = of_int n * 2 powi k \<Longrightarrow> round_to k x = x"
  by (simp add: round_to_def)

lemma round_to_power: "k \<le> e \<Longrightarrow> round_to k (2 powi e) = 2 powi e"
proof (rule round_to_exact [where n = "2 ^ nat (e - k)"])
  assume "k \<le> e"
  then have "k + int (nat (e - k)) = e" by simp
  then show "2 powi e = rat_of_int (2 ^ nat (e - k)) * 2 powi k"
    using powi_split [of k "nat (e - k)"] by (simp add: mult.commute)
qed

lemma fl_0 [simp]: "fl p emin 0 = 0"
  by (simp add: fl_def)

lemma fl_round_to: "x \<noteq> 0 \<Longrightarrow> fl p emin x = round_to (quantum p emin x) x"
  by (simp add: fl_def round_to_def)

lemma quantum_minus [simp]: "quantum p emin (- x) = quantum p emin x"
  by (simp add: quantum_def)

lemma fl_minus [simp]: "fl p emin (- x) = - fl p emin x"
  by (simp add: fl_def rnd_int_minus)

lemma powi_2_less_iff: "(2::rat) powi i < 2 powi j \<longleftrightarrow> i < j"
  using power_int_strict_increasing [of i j "2::rat"] power_int_increasing [of j i "2::rat"]
  by force

lemma powi_2_le_iff: "(2::rat) powi i \<le> 2 powi j \<longleftrightarrow> i \<le> j"
  using powi_2_less_iff [of j i] by (simp add: not_less [symmetric])

lemma ilog2_mono:
  assumes "0 < x" "x \<le> y"
  shows "ilog2 x \<le> ilog2 y"
proof -
  have "2 powi ilog2 x \<le> x" using assms by (intro ilog2_spec)
  also have "x \<le> y" by fact
  also have "y < 2 powi (ilog2 y + 1)" using assms by (intro ilog2_spec) simp
  finally show ?thesis by (simp add: powi_2_less_iff)
qed

lemma fl_nonneg:
  assumes "0 \<le> x"
  shows "0 \<le> fl p emin x"
proof (cases "x = 0")
  case False
  then show ?thesis
    using round_to_mono [OF assms, of "quantum p emin x"]
    by (simp add: fl_round_to round_to_def rnd_int_def)
qed simp

lemma fl_mono_pos:
  assumes "0 < x" "x \<le> y" "0 < p"
  shows "fl p emin x \<le> fl p emin y"
proof -
  let ?kx = "quantum p emin x" and ?ky = "quantum p emin y"
  have y: "0 < y" using assms by simp
  show ?thesis
  proof (cases "?kx = ?ky")
    case True
    then show ?thesis using assms y round_to_mono [OF assms(2)] by (simp add: fl_round_to)
  next
    case False
    then have lt: "?kx < ?ky" "ilog2 x < ilog2 y"
      using ilog2_mono [OF assms(1,2)] assms(1) y by (auto simp: quantum_def)
    then have ky: "?ky = ilog2 y - int p + 1" using y by (auto simp: quantum_def)
    define m where "m = max (ilog2 x + 1) ?kx"
    have "x \<le> 2 powi m"
    proof -
      have "x \<le> 2 powi (ilog2 x + 1)" using ilog2_spec(2) [OF assms(1)] by simp
      also have "\<dots> \<le> 2 powi m" by (simp only: powi_2_le_iff m_def max.cobounded1)
      finally show ?thesis .
    qed
    then have "fl p emin x \<le> round_to ?kx (2 powi m)"
      using assms by (simp add: fl_round_to round_to_mono)
    also have "\<dots> = 2 powi m" by (rule round_to_power) (simp add: m_def)
    also have "\<dots> \<le> 2 powi ilog2 y"
      using lt ky assms(3) by (simp add: powi_2_le_iff m_def)
    also have "\<dots> = round_to ?ky (2 powi ilog2 y)"
      using ky assms(3) by (simp add: round_to_power)
    also have "\<dots> \<le> fl p emin y"
      using y ilog2_spec(1) [OF y] by (simp add: fl_round_to round_to_mono)
    finally show ?thesis .
  qed
qed

lemma fl_mono:
  assumes "x \<le> y" "0 < p"
  shows "fl p emin x \<le> fl p emin y"
proof -
  consider "0 < x" | "x \<le> 0" "0 \<le> y" | "y < 0" using assms by linarith
  then show ?thesis
  proof cases
    case 1
    then show ?thesis using assms by (intro fl_mono_pos)
  next
    case 2
    then have "0 \<le> fl p emin (- x)" "0 \<le> fl p emin y" by (simp_all only: fl_nonneg neg_0_le_iff_le)
    then show ?thesis by simp
  next
    case 3
    then have "fl p emin (- y) \<le> fl p emin (- x)" using assms by (intro fl_mono_pos) auto
    then show ?thesis by simp
  qed
qed

lemma fl_of_int_pos:
  assumes "0 < n" "n \<le> 2 ^ p" "emin \<le> 0" "0 < p"
  shows "fl p emin (of_int n) = of_int n"
proof (cases "n = 2 ^ p")
  case True
  then have n: "of_int n = (2::rat) powi int p" by simp
  then have "(2::rat) powi ilog2 (of_int n) \<le> 2 powi int p"
    "(2::rat) powi int p < 2 powi (ilog2 (of_int n) + 1)"
    using ilog2_spec [of "of_int n"] assms(1) by simp_all
  then have "ilog2 (of_int n) = int p" by (simp only: powi_2_le_iff powi_2_less_iff)
  then have "quantum p emin (of_int n) \<le> int p" using assms by (simp add: quantum_def)
  from round_to_power [OF this] show ?thesis
    using assms(1) by (simp add: fl_round_to del: power_int_of_nat flip: n)
next
  case False
  let ?x = "of_int n :: rat"
  have "2 powi ilog2 ?x \<le> ?x" using assms(1) by (intro ilog2_spec) simp
  also have "?x < 2 ^ p" using False assms(2) by (metis of_int_less_iff of_int_numeral of_int_power order_le_less)
  also have "(2::rat) ^ p = 2 powi int p" by simp
  finally have "ilog2 ?x < int p" by (simp only: powi_2_less_iff)
  then have q: "quantum p emin ?x \<le> 0" using assms by (simp add: quantum_def)
  have "?x = of_int (n * 2 ^ nat (- quantum p emin ?x)) * 2 powi quantum p emin ?x"
    using q powi_split [of "quantum p emin ?x" "nat (- quantum p emin ?x)"]
    by (simp add: mult.assoc mult.commute)
  then have "round_to (quantum p emin ?x) ?x = ?x" by (rule round_to_exact)
  then show ?thesis using assms(1) by (simp add: fl_round_to)
qed

lemma fl_of_int:
  assumes "\<bar>n\<bar> \<le> 2 ^ p" "emin \<le> 0" "0 < p"
  shows "fl p emin (of_int n) = of_int n"
proof -
  consider "0 < n" | "n = 0" | "0 < - n" by linarith
  then show ?thesis
    using fl_of_int_pos [of n p emin] fl_of_int_pos [of "- n" p emin] assms by cases auto
qed

section \<open>The two formats\<close>

lemma fl32_mono: "x \<le> y \<Longrightarrow> fl32 x \<le> fl32 y"
  by (simp add: fl32_def fl_mono)

lemma fl64_mono: "x \<le> y \<Longrightarrow> fl64 x \<le> fl64 y"
  by (simp add: fl64_def fl_mono)

lemma fl32_of_int: "\<bar>n\<bar> \<le> 2 ^ 24 \<Longrightarrow> fl32 (of_int n) = of_int n"
  by (simp add: fl32_def fl_of_int)

lemma fl64_of_int: "\<bar>n\<bar> \<le> 2 ^ 53 \<Longrightarrow> fl64 (of_int n) = of_int n"
  by (simp add: fl64_def fl_of_int)

lemma fl_0_1 [simp]: "fl32 0 = 0" "fl64 0 = 0" "fl32 1 = 1" "fl64 1 = 1"
  using fl32_of_int [of 1] fl64_of_int [of 1] by (simp_all add: fl32_def fl64_def)

lemma fl_power2:
  assumes "0 < p" "emin \<le> 0"
  shows "fl p emin (2 ^ n) = 2 ^ n"
proof -
  let ?x = "2 ^ n :: rat"
  have x: "?x = 2 powi int n" by simp
  then have "(2::rat) powi ilog2 ?x \<le> 2 powi int n" using ilog2_spec(1) [of ?x] by simp
  then have "ilog2 ?x \<le> int n" by (simp only: powi_2_le_iff)
  then have "quantum p emin ?x \<le> int n" using assms by (simp add: quantum_def)
  from round_to_power [OF this] show ?thesis
    by (simp add: fl_round_to del: power_int_of_nat flip: x)
qed

lemma fl32_power2: "fl32 (2 ^ n) = 2 ^ n"
  by (simp add: fl32_def fl_power2)

lemma rat_trunc_of_int [simp]: "rat_trunc (of_int n) = n"
  by (simp add: rat_trunc_def)

lemma rat_trunc_mono:
  assumes "x \<le> y"
  shows "rat_trunc x \<le> rat_trunc y"
proof -
  have "\<lfloor>x\<rfloor> \<le> \<lfloor>y\<rfloor>" "\<lfloor>- y\<rfloor> \<le> \<lfloor>- x\<rfloor>" using assms by (auto intro: floor_mono)
  moreover have "- \<lfloor>- x\<rfloor> \<le> \<lfloor>y\<rfloor>" if "x < 0" "0 \<le> y"
  proof -
    have "0 \<le> \<lfloor>- x\<rfloor>" "0 \<le> \<lfloor>y\<rfloor>" using that by (simp_all only: zero_le_floor neg_0_le_iff_le less_imp_le)
    then show ?thesis by linarith
  qed
  ultimately show ?thesis using assms by (auto simp: rat_trunc_def)
qed

end
