(* ===== verification/Ezio.thy ===== *)
theory Ezio
  imports Main Prelude Float_Round
begin

text \<open>
  \<open>src/util/ezio.cc\<close>: \<open>myatoi\<close>, the checked front end of the C library's \<open>strtol\<close> that every
  trace file, queue argument and numeric option goes through. \<open>strtol\<close> is modelled as the code
  uses it: leading white space, an optional sign, the digits of the base (10, or 16 with an
  optional \<open>0x\<close>), \<open>ERANGE\<close> outside the 64-bit \<open>long\<close>, and the unparsed rest of the string.
\<close>

section \<open>strtol\<close>

definition is_space :: "char \<Rightarrow> bool" where
  "is_space c \<longleftrightarrow> (of_char c :: nat) = 32 \<or> (9 \<le> (of_char c :: nat) \<and> (of_char c :: nat) \<le> 13)"

definition digit_in_base :: "nat \<Rightarrow> char \<Rightarrow> nat option" where
  "digit_in_base b c =
     (let n = (of_char c :: nat);
          v = (if 48 \<le> n \<and> n \<le> 57 then n - 48
               else if 97 \<le> n \<and> n \<le> 122 then n - 87
               else if 65 \<le> n \<and> n \<le> 90 then n - 55 else 36)
      in if v < b then Some v else None)"

text \<open>The longest prefix of digits: its value from an accumulator, whether there was any, the rest.\<close>

fun scan_digits :: "nat \<Rightarrow> nat \<Rightarrow> bool \<Rightarrow> string \<Rightarrow> nat \<times> bool \<times> string" where
  "scan_digits b acc seen [] = (acc, seen, [])"
| "scan_digits b acc seen (c # cs) =
     (case digit_in_base b c of
        None \<Rightarrow> (acc, seen, c # cs)
      | Some v \<Rightarrow> scan_digits b (acc * b + v) True cs)"

fun skip_sign :: "string \<Rightarrow> bool \<times> string" where
  "skip_sign [] = (False, [])"
| "skip_sign (c # cs) =
     (if c = CHR ''-'' then (True, cs) else if c = CHR ''+'' then (False, cs) else (False, c # cs))"

fun skip_0x :: "nat \<Rightarrow> string \<Rightarrow> string" where
  "skip_0x b (z # x # d # cs) =
     (if b = 16 \<and> z = CHR ''0'' \<and> (x = CHR ''x'' \<or> x = CHR ''X'') \<and> digit_in_base 16 d \<noteq> None
      then d # cs else z # x # d # cs)"
| "skip_0x b s = s"

text \<open>\<open>errno = ERANGE\<close>?, the value returned, the string from \<open>*end\<close> on.\<close>

definition strtol :: "string \<Rightarrow> nat \<Rightarrow> bool \<times> i64 \<times> string" where
  "strtol str b =
     (let (neg, s) = skip_sign (dropWhile is_space str);
          (n, seen, rest) = scan_digits b 0 False (skip_0x b s);
          v = (if neg then - int n else int n)
      in if \<not> seen then (False, 0, str)
         else if v < - (2 ^ 63) then (True, word_of_int (- (2 ^ 63)), rest)
         else if 2 ^ 63 \<le> v then (True, word_of_int (2 ^ 63 - 1), rest)
         else (False, word_of_int v, rest))"

section \<open>myatoi\<close>

definition myatoi :: "string \<Rightarrow> nat \<Rightarrow> i64 res" where
  "myatoi str b =
     (if str = [] then Inl (Runtime_Error ''Invalid integer string: empty'')
      else
        let (erange, ret, rest) = strtol str b
        in if erange then Inl (Unix_Error ''strtol'')
           else if rest \<noteq> [] then Inl (Runtime_Error (''Invalid integer: '' @ str))
           else Inr ret)"

section \<open>strtod and myatof\<close>

text \<open>
  Decimal text with an optional fraction and exponent; \<open>ERANGE\<close> on overflow and on an inexact
  subnormal result. The names of infinities and NaNs and hexadecimal floats are outside the model.
\<close>

fun scan_fraction :: "nat \<Rightarrow> bool \<Rightarrow> string \<Rightarrow> nat \<times> bool \<times> nat \<times> string" where
  \<comment> \<open>the digits so far as a number, whether there was any, how many after the point, the rest\<close>
  "scan_fraction n seen [] = (n, seen, 0, [])"
| "scan_fraction n seen (c # cs) =
     (if c = CHR ''.'' then
        let (m, seen', rest) = scan_digits 10 n seen cs
        in if seen' then (m, True, length cs - length rest, rest) else (n, False, 0, c # cs)
      else (n, seen, 0, c # cs))"

fun scan_exponent :: "string \<Rightarrow> int \<times> string" where
  "scan_exponent [] = (0, [])"
| "scan_exponent (c # cs) =
     (if c = CHR ''e'' \<or> c = CHR ''E'' then
        let (neg, s) = skip_sign cs; (e, seen, rest) = scan_digits 10 0 False s
        in if seen then (if neg then - int e else int e, rest) else (0, c # cs)
      else (0, c # cs))"

definition strtod :: "string \<Rightarrow> bool \<times> rat \<times> string" where
  "strtod str =
     (let (neg, s) = skip_sign (dropWhile is_space str);
          (n, seen, r1) = scan_digits 10 0 False s;
          (m, seen', k, r2) = scan_fraction n seen r1;
          (e, rest) = scan_exponent r2;
          x = of_nat m * 10 powi (e - int k);
          v = (if neg then - x else x); r = fl64 v
      in if \<not> seen' then (False, 0, str)
         else (2 ^ 1024 \<le> \<bar>r\<bar> \<or> \<bar>r\<bar> < 2 powi (-1022) \<and> r \<noteq> v, r, rest))"

definition special_float_text :: "string \<Rightarrow> bool" where
  "special_float_text str =
     (case snd (skip_sign (dropWhile is_space str)) of
        [] \<Rightarrow> False
      | [c] \<Rightarrow> c \<in> set ''iInN''
      | c # d # _ \<Rightarrow> c \<in> set ''iInN'' \<or> c = CHR ''0'' \<and> d \<in> set ''xX'')"

definition myatof :: "string \<Rightarrow> rat res" where
  "myatof str =
     (if str = [] then Inl (Runtime_Error ''Invalid floating-point string: empty'')
      else if special_float_text str then Inl (Undefined ''not decimal text (outside the model)'')
      else
        let (erange, ret, rest) = strtod str
        in if erange then Inl (Unix_Error ''strtod'')
           else if rest \<noteq> [] then Inl (Runtime_Error (''Invalid floating-point number: '' @ str))
           else Inr ret)"

section \<open>Lemmas\<close>

lemma digit_in_base_10 [simp]: "is_digit c \<Longrightarrow> digit_in_base 10 c = Some (digit_val c)"
  by (auto simp: digit_in_base_def is_digit_def digit_val_def Let_def)

lemma scan_digits_all:
  "\<forall>c \<in> set ds. is_digit c \<Longrightarrow>
   scan_digits 10 acc seen ds = (foldl (\<lambda>a c. a * 10 + digit_val c) acc ds, seen \<or> ds \<noteq> [], [])"
  by (induction ds arbitrary: acc seen) auto

lemma scan_digits_rest_suffix: "scan_digits b acc seen s = (n, seen', rest) \<Longrightarrow> \<exists>p. s = p @ rest"
proof (induction s arbitrary: acc seen)
  case (Cons c cs)
  show ?case
  proof (cases "digit_in_base b c")
    case (Some v)
    with Cons.prems obtain p where "cs = p @ rest" using Cons.IH by fastforce
    then show ?thesis by (intro exI [of _ "c # p"]) simp
  qed (use Cons.prems in auto)
qed simp

lemma is_digit_not_special:
  assumes "is_digit c"
  shows "\<not> is_space c" "c \<noteq> CHR ''-''" "c \<noteq> CHR ''+''"
  using assms by (auto simp: is_digit_def is_space_def)

lemma skip_0x_10 [simp]: "skip_0x 10 s = s"
  by (induction "10::nat" s rule: skip_0x.induct) auto

lemma myatoi_digits:
  assumes "ds \<noteq> []" "\<forall>c \<in> set ds. is_digit c"
  shows "myatoi ds 10 =
    (if foldl (\<lambda>a c. a * 10 + digit_val c) 0 ds < 2 ^ 63
     then Inr (of_nat (foldl (\<lambda>a c. a * 10 + digit_val c) 0 ds)) else Inl (Unix_Error ''strtol''))"
proof -
  obtain c cs where ds: "ds = c # cs" using assms(1) by (cases ds) auto
  with assms(2) have c: "is_digit c" by simp
  have "dropWhile is_space ds = ds" by (simp add: ds is_digit_not_special [OF c])
  moreover have "skip_sign ds = (False, ds)" by (simp add: ds is_digit_not_special [OF c])
  ultimately show ?thesis
    using assms by (simp add: myatoi_def strtol_def scan_digits_all Let_def)
qed

lemma myatoi_dec: "n < 2 ^ 63 \<Longrightarrow> myatoi (dec n) 10 = Inr (of_nat n)"
  using myatoi_digits [of "dec n"] by (simp add: dec_foldl dec_digits)

text \<open>
  C20. \<open>myatoi\<close> reads back the decimal text of every number that fits a \<open>long\<close>, and reports the
  others (\<open>ERANGE\<close>) instead of truncating them.
\<close>

theorem integer_text:
  "myatoi (dec n) 10 = (if n < 2 ^ 63 then Inr (of_nat n) else Inl (Unix_Error ''strtol''))"
  using myatoi_digits [of "dec n"] by (simp add: dec_foldl dec_digits)

end
