(* ===== verification/Kernel.thy ===== *)
theory Kernel
  imports Main Prelude
begin

text \<open>
  What the program asks of the operating system: \<open>SystemCall\<close> (\<open>src/util/exception.hh\<close>), the
  clock (\<open>src/util/timestamp.cc\<close>), file descriptors (\<open>src/util/file_descriptor.cc\<close>) and the check
  of \<open>assert_not_root\<close> (\<open>src/util/util.cc\<close>). The kernel's answers are not the program's: a
  \<open>world\<close> holds, for each system call, the answer to its n-th invocation, and counts the
  invocations, so every run of the program is a function of the answers it gets. The bytes the
  kernel accepted are recorded in \<open>w_sent\<close>.
\<close>

section \<open>The world\<close>

record world =
  w_clock :: "nat \<Rightarrow> int \<times> u64 \<times> u64" \<comment> \<open>\<open>clock_gettime\<close>: return value, \<open>tv_sec\<close>, \<open>tv_nsec\<close>\<close>
  w_clock_calls :: nat
  w_initial :: "u64 option" \<comment> \<open>the static of \<open>initial_timestamp\<close>\<close>
  w_write :: "nat \<Rightarrow> nat \<Rightarrow> int" \<comment> \<open>\<open>write\<close>: return value, given the number of bytes offered\<close>
  w_write_calls :: nat
  w_sent :: "(int \<times> string) list" \<comment> \<open>the bytes each successful \<open>write\<close> took\<close>
  w_read :: "int \<Rightarrow> nat \<Rightarrow> int \<times> string" \<comment> \<open>\<open>read\<close> of a descriptor: return value, the bytes it put in the buffer\<close>
  w_read_calls :: nat
  w_received :: "(int \<times> string) list" \<comment> \<open>what each successful \<open>read\<close> returned\<close>
  w_euid :: nat
  w_egid :: nat
  w_files :: "string \<Rightarrow> string option" \<comment> \<open>the files that can be opened for reading\<close>
  w_creatable :: "string \<Rightarrow> bool"

definition SystemCall :: "string \<Rightarrow> int \<Rightarrow> int res" where
  "SystemCall s_attempt return_value =
     (if return_value \<ge> 0 then Inr return_value else Inl (Unix_Error s_attempt))"

lemma SystemCall_nonneg [simp]: "0 \<le> r \<Longrightarrow> SystemCall s r = Inr r"
  by (simp add: SystemCall_def)

definition assert_not_root :: "world \<Rightarrow> unit res" where
  "assert_not_root w =
     (if w_euid w = 0 \<or> w_egid w = 0
      then Inl (Runtime_Error ''BUG: privileges not dropped in sensitive region'') else Inr ())"

text \<open>
  The errors the kernel reports, as the program passes them on. A failed assertion, undefined
  behaviour or an index out of range is never one of them.
\<close>

fun kernel_error :: "exn \<Rightarrow> bool" where
  "kernel_error (Unix_Error s) = True"
| "kernel_error (Runtime_Error s) \<longleftrightarrow> s = ''write returned 0''"
| "kernel_error e = False"

section \<open>timestamp.cc\<close>

definition raw_timestamp :: "world \<Rightarrow> (u64 \<times> world) res" where
  "raw_timestamp w =
     (let (ret, tv_sec, tv_nsec) = w_clock w (w_clock_calls w);
          w' = w\<lparr>w_clock_calls := Suc (w_clock_calls w)\<rparr>
      in andThen (SystemCall ''clock_gettime'' ret) (\<lambda>_.
           let millis = tv_nsec div 1000000; millis = millis + tv_sec * 1000
           in Inr (millis, w')))"

definition initial_timestamp :: "world \<Rightarrow> (u64 \<times> world) res" where
  "initial_timestamp w =
     (case w_initial w of
        Some v \<Rightarrow> Inr (v, w)
      | None \<Rightarrow> andThen (raw_timestamp w) (\<lambda>(v, w'). Inr (v, w'\<lparr>w_initial := Some v\<rparr>)))"

definition timestamp :: "world \<Rightarrow> (u64 \<times> world) res" where
  \<comment> \<open>the operands are read left to right; the shell has called \<open>initial_timestamp\<close> before\<close>
  "timestamp w =
     andThen (raw_timestamp w) (\<lambda>(raw, w').
     andThen (initial_timestamp w') (\<lambda>(init, w''). Inr (raw - init, w'')))"

text \<open>
  The clock of a started shell: \<open>clock_gettime\<close> answers, the initial value is set, and no reading
  is \<open>2^62\<close> milliseconds or more past it. \<open>clock_at\<close> is the n-th reading.
\<close>

definition clock_at :: "world \<Rightarrow> nat \<Rightarrow> u64" where
  "clock_at w n = (case w_clock w n of (_, s, ns) \<Rightarrow> ns div 1000000 + s * 1000 - the (w_initial w))"

definition clock_ok :: "world \<Rightarrow> bool" where
  "clock_ok w \<longleftrightarrow> w_initial w \<noteq> None \<and>
     (\<forall>n. 0 \<le> fst (w_clock w n) \<and> unat (clock_at w n) < 2 ^ 62)"

definition clock_now :: "world \<Rightarrow> u64" where
  "clock_now w = clock_at w (w_clock_calls w)"

definition clock_tick :: "world \<Rightarrow> world" where
  "clock_tick w = w\<lparr>w_clock_calls := Suc (w_clock_calls w)\<rparr>"

lemma timestamp_ok: "clock_ok w \<Longrightarrow> timestamp w = Inr (clock_now w, clock_tick w)"
  by (cases "w_clock w (w_clock_calls w)")
    (auto simp: clock_ok_def timestamp_def raw_timestamp_def initial_timestamp_def clock_now_def
      clock_at_def clock_tick_def Let_def dest: spec [of _ "w_clock_calls w"])

lemma clock_now_bound: "clock_ok w \<Longrightarrow> unat (clock_now w) < 2 ^ 62"
  by (simp add: clock_ok_def clock_now_def)

lemma clock_ok_same:
  "w_clock w' = w_clock w \<Longrightarrow> w_initial w' = w_initial w \<Longrightarrow> clock_ok w' = clock_ok w"
  by (simp add: clock_ok_def clock_at_def)

lemma clock_ok_tick [simp]: "clock_ok (clock_tick w) = clock_ok w"
  by (rule clock_ok_same) (simp_all add: clock_tick_def)

lemma clock_tick_fields [simp]:
  "w_sent (clock_tick w) = w_sent w" "w_write (clock_tick w) = w_write w"
  "w_write_calls (clock_tick w) = w_write_calls w"
  "w_clock (clock_tick w) = w_clock w" "w_initial (clock_tick w) = w_initial w"
  "w_euid (clock_tick w) = w_euid w" "w_egid (clock_tick w) = w_egid w"
  "w_files (clock_tick w) = w_files w" "w_creatable (clock_tick w) = w_creatable w"
  by (simp_all add: clock_tick_def)

text \<open>A clock that does not run back between two readings.\<close>

definition clock_steady :: "world \<Rightarrow> bool" where
  "clock_steady w \<longleftrightarrow> clock_ok w \<and> (\<forall>m n. m \<le> n \<longrightarrow> clock_at w m \<le> clock_at w n)"

lemma clock_steady_ok [simp]: "clock_steady w \<Longrightarrow> clock_ok w"
  by (simp add: clock_steady_def)

lemma clock_steady_same:
  "w_clock w' = w_clock w \<Longrightarrow> w_initial w' = w_initial w \<Longrightarrow> clock_steady w' = clock_steady w"
  by (simp add: clock_steady_def clock_ok_def clock_at_def)

lemma clock_steady_tick [simp]: "clock_steady (clock_tick w) = clock_steady w"
  by (rule clock_steady_same) (simp_all add: clock_tick_def)

lemma clock_now_tick: "clock_steady w \<Longrightarrow> clock_now w \<le> clock_now (clock_tick w)"
  by (simp add: clock_steady_def clock_now_def clock_at_def clock_tick_def)

section \<open>file_descriptor.cc\<close>

record file_descriptor =
  fd_num :: int
  fd_eof :: bool
  fd_read_count :: u32
  fd_write_count :: u32

definition FileDescriptor :: "int \<Rightarrow> int \<Rightarrow> file_descriptor res" where
  \<comment> \<open>the second argument is what \<open>fcntl (fd, F_SETFD, FD_CLOEXEC)\<close> returns\<close>
  "FileDescriptor fd fcntl_ret =
     (if fd \<le> 2 then Inl (Unix_Error ''FileDescriptor: fd <= 2'')
      else andThen (SystemCall ''fcntl FD_CLOEXEC'' fcntl_ret) (\<lambda>_.
        Inr \<lparr>fd_num = fd, fd_eof = False, fd_read_count = 0, fd_write_count = 0\<rparr>))"

definition fd_move :: "file_descriptor \<Rightarrow> file_descriptor \<times> file_descriptor" where
  \<comment> \<open>the new descriptor and what is left of the old one\<close>
  "fd_move other = (other, other\<lparr>fd_num := -1\<rparr>)"

definition replace_fd :: "int \<Rightarrow> int \<Rightarrow> file_descriptor \<Rightarrow> file_descriptor res" where
  \<comment> \<open>the second argument is what \<open>fcntl\<close> returns; a failing \<open>close\<close> is only printed\<close>
  "replace_fd new_fd fcntl_ret fd =
     (if fd_num fd < 0 then Inr fd
      else
        let fd' = fd\<lparr>fd_num := new_fd, fd_write_count := 0, fd_read_count := 0, fd_eof := False\<rparr>
        in if new_fd \<le> 2 then Inl (Unix_Error ''FileDescriptor: fd <= 2'')
           else andThen (SystemCall ''fcntl FD_CLOEXEC'' fcntl_ret) (\<lambda>_. Inr fd'))"

definition register_read :: "file_descriptor \<Rightarrow> file_descriptor" where
  "register_read fd = fd\<lparr>fd_read_count := fd_read_count fd + 1\<rparr>"

definition register_write :: "file_descriptor \<Rightarrow> file_descriptor" where
  "register_write fd = fd\<lparr>fd_write_count := fd_write_count fd + 1\<rparr>"

definition BUFFER_SIZE :: nat where "BUFFER_SIZE = 1024 * 1024"

text \<open>\<open>write (begin, end)\<close>: one call of \<open>write\<close>; returns what is left to write.\<close>

definition fd_write_some ::
    "string \<Rightarrow> file_descriptor \<Rightarrow> world \<Rightarrow> (string \<times> file_descriptor \<times> world) res" where
  "fd_write_some s fd w =
     (if s = [] then Inl (Runtime_Error ''nothing to write'')
      else
        let ret = w_write w (w_write_calls w) (length s);
            w' = w\<lparr>w_write_calls := Suc (w_write_calls w)\<rparr>
        in andThen (SystemCall ''write'' ret) (\<lambda>bytes_written.
             if bytes_written = 0 then Inl (Runtime_Error ''write returned 0'')
             else if int (length s) < bytes_written then Inl (Undefined ''write past the buffer'')
             else Inr (drop (nat bytes_written) s, register_write fd,
                       w'\<lparr>w_sent := w_sent w' @ [(fd_num fd, take (nat bytes_written) s)]\<rparr>)))"

lemma fd_write_some_shorter:
  "fd_write_some s fd w = Inr (s', fd', w') \<Longrightarrow> length s' < length s"
  by (auto simp: fd_write_some_def Let_def andThen_Inr_iff SystemCall_def split: if_splits)

text \<open>\<open>write (buffer, write_all)\<close>.\<close>

function fd_write ::
    "string \<Rightarrow> bool \<Rightarrow> file_descriptor \<Rightarrow> world \<Rightarrow> (string \<times> file_descriptor \<times> world) res" where
  "fd_write buffer write_all fd w =
     andThen (fd_write_some buffer fd w) (\<lambda>r.
       if write_all \<and> fst r \<noteq> [] then fd_write (fst r) write_all (fst (snd r)) (snd (snd r))
       else Inr r)"
  by pat_completeness auto
termination
  by (relation "measure (\<lambda>(s, _). length s)") (auto dest: fd_write_some_shorter)

declare fd_write.simps [simp del]

definition fd_read :: "nat \<Rightarrow> file_descriptor \<Rightarrow> world \<Rightarrow> (string \<times> file_descriptor \<times> world) res" where
  "fd_read limit fd w =
     (let (ret, data) = w_read w (fd_num fd) (w_read_calls w);
          w' = w\<lparr>w_read_calls := Suc (w_read_calls w)\<rparr>
      in andThen (SystemCall ''read'' ret) (\<lambda>bytes_read.
           let fd' = (if bytes_read = 0 then fd\<lparr>fd_eof := True\<rparr> else fd);
               buffer = take (nat bytes_read) (take (min BUFFER_SIZE limit) data)
           in Inr (buffer, register_read fd',
                   w'\<lparr>w_received := w_received w' @ [(fd_num fd, buffer)]\<rparr>)))"

text \<open>
  What one \<open>read\<close> and one \<open>write\<close> do, of a kernel that never claims to have written more than it
  was given.
\<close>

definition honest_writes :: "world \<Rightarrow> bool" where
  "honest_writes w \<longleftrightarrow> (\<forall>n c. w_write w n c \<le> int c)"

definition sent_bytes :: "int \<Rightarrow> world \<Rightarrow> string" where
  "sent_bytes n w = concat (map snd (filter (\<lambda>x. fst x = n) (w_sent w)))"

definition received_bytes :: "int \<Rightarrow> world \<Rightarrow> string" where
  "received_bytes n w = concat (map snd (filter (\<lambda>x. fst x = n) (w_received w)))"

lemma fd_read_Inr:
  assumes "fd_read limit fd w = Inr (c, fd', w')"
  shows "length c \<le> limit \<and> fd_num fd' = fd_num fd \<and> honest_writes w' = honest_writes w \<and>
    received_bytes (fd_num fd) w' = received_bytes (fd_num fd) w @ c \<and>
    (\<forall>n. sent_bytes n w' = sent_bytes n w)"
  using assms
  by (auto simp: fd_read_def Let_def andThen_Inr_iff register_read_def received_bytes_def
      sent_bytes_def honest_writes_def split: prod.splits)

lemma fd_read_Inl: "fd_read limit fd w = Inl e \<Longrightarrow> e = Unix_Error ''read''"
  by (auto simp: fd_read_def Let_def andThen_Inl_iff SystemCall_def split: prod.splits if_splits)

lemma fd_write_some_Inr:
  assumes "fd_write_some s fd w = Inr (rest, fd', w')"
  shows "\<exists>m. 0 < m \<and> m \<le> length s \<and> rest = drop m s \<and> fd_num fd' = fd_num fd \<and>
    sent_bytes (fd_num fd) w' = sent_bytes (fd_num fd) w @ take m s \<and>
    honest_writes w' = honest_writes w \<and> (\<forall>n. received_bytes n w' = received_bytes n w)"
proof -
  from assms obtain ret where ret: "ret = w_write w (w_write_calls w) (length s)" "0 \<le> ret"
    "ret \<noteq> 0" "ret \<le> int (length s)" "rest = drop (nat ret) s" "fd' = register_write fd"
    "w' = w\<lparr>w_write_calls := Suc (w_write_calls w),
            w_sent := w_sent w @ [(fd_num fd, take (nat ret) s)]\<rparr>"
    by (auto simp: fd_write_some_def Let_def andThen_Inr_iff SystemCall_def split: if_splits)
  then show ?thesis
    by (intro exI [of _ "nat ret"])
      (auto simp: register_write_def sent_bytes_def received_bytes_def honest_writes_def)
qed

lemma fd_write_some_Inl:
  "fd_write_some s fd w = Inl e \<Longrightarrow> honest_writes w \<Longrightarrow> s \<noteq> [] \<Longrightarrow>
   e \<in> {Unix_Error ''write'', Runtime_Error ''write returned 0''}"
proof -
  assume e: "fd_write_some s fd w = Inl e" "honest_writes w" "s \<noteq> []"
  define ret where "ret = w_write w (w_write_calls w) (length s)"
  have "\<not> int (length s) < ret" using e(2) by (simp add: honest_writes_def ret_def not_less)
  with e(1,3) show ?thesis
    by (auto simp: fd_write_some_def Let_def andThen_Inl_iff SystemCall_def simp flip: ret_def
        split: if_splits)
qed

text \<open>
  A kernel that takes every buffer whole, as a TUN device does with a datagram.
\<close>

definition whole_writes :: "world \<Rightarrow> bool" where
  "whole_writes w \<longleftrightarrow> (\<forall>n c. w_write w n c = int c)"

definition sent_on :: "int \<Rightarrow> string \<Rightarrow> world \<Rightarrow> world" where
  \<comment> \<open>the world after one such write\<close>
  "sent_on fd s w =
     w\<lparr>w_write_calls := Suc (w_write_calls w), w_sent := w_sent w @ [(fd, s)]\<rparr>"

lemma sent_on_fields [simp]:
  "w_sent (sent_on fd s w) = w_sent w @ [(fd, s)]" "w_write (sent_on fd s w) = w_write w"
  "w_clock (sent_on fd s w) = w_clock w" "w_initial (sent_on fd s w) = w_initial w"
  "w_clock_calls (sent_on fd s w) = w_clock_calls w"
  by (simp_all add: sent_on_def)

lemma clock_ok_sent_on [simp]: "clock_ok (sent_on fd s w) = clock_ok w"
  by (rule clock_ok_same) simp_all

lemma clock_sent_on [simp]:
  "clock_steady (sent_on fd s w) = clock_steady w" "clock_now (sent_on fd s w) = clock_now w"
  by (rule clock_steady_same) (simp_all add: clock_now_def clock_at_def)

lemma whole_writes_sent_on [simp]:
  "whole_writes (sent_on fd s w) = whole_writes w" "whole_writes (clock_tick w) = whole_writes w"
  by (simp_all add: whole_writes_def)

lemma fd_write_whole:
  assumes "whole_writes w" "s \<noteq> []"
  shows "fd_write s True fd w = Inr ([], register_write fd, sent_on (fd_num fd) s w)"
  using assms
  by (subst fd_write.simps) (simp add: fd_write_some_def Let_def whole_writes_def sent_on_def)

lemma fd_num_register_write [simp]: "fd_num (register_write fd) = fd_num fd"
  by (simp add: register_write_def)

lemma fd_write_all:
  "fd_write buffer True fd w = Inr (rest, fd', w') \<Longrightarrow>
   rest = [] \<and> fd_num fd' = fd_num fd \<and> w_clock w' = w_clock w \<and> w_initial w' = w_initial w \<and>
   w_clock_calls w' = w_clock_calls w \<and>
   (\<exists>cs. w_sent w' = w_sent w @ map (Pair (fd_num fd)) cs \<and> concat cs = buffer)"
proof (induction buffer True fd w rule: fd_write.induct)
  case (1 buffer fd w)
  from "1.prems" obtain s1 fd1 w1 where some: "fd_write_some buffer fd w = Inr (s1, fd1, w1)"
    and cont: "s1 \<noteq> [] \<Longrightarrow> fd_write s1 True fd1 w1 = Inr (rest, fd', w')"
      "s1 = [] \<Longrightarrow> (rest, fd', w') = (s1, fd1, w1)"
    unfolding fd_write.simps [of buffer True fd w]
    by (auto simp: andThen_Inr_iff split: if_splits)
  from some obtain k where k: "s1 = drop k buffer" "w_sent w1 = w_sent w @ [(fd_num fd, take k buffer)]"
    "fd_num fd1 = fd_num fd" "w_clock w1 = w_clock w" "w_initial w1 = w_initial w"
    "w_clock_calls w1 = w_clock_calls w"
    by (auto simp: fd_write_some_def Let_def andThen_Inr_iff register_write_def split: if_splits)
  show ?case
  proof (cases "s1 = []")
    case True
    with cont k show ?thesis by (auto intro!: exI [of _ "[take k buffer]"])
  next
    case False
    with "1.hyps" [OF some] cont have IH: "rest = []" "fd_num fd' = fd_num fd1"
      "w_clock w' = w_clock w1" "w_initial w' = w_initial w1" "w_clock_calls w' = w_clock_calls w1"
      "\<exists>cs. w_sent w' = w_sent w1 @ map (Pair (fd_num fd1)) cs \<and> concat cs = s1" by auto
    from IH(6) obtain cs where cs: "w_sent w' = w_sent w1 @ map (Pair (fd_num fd1)) cs"
      "concat cs = s1" by blast
    have "w_sent w' = w_sent w @ map (Pair (fd_num fd)) (take k buffer # cs)"
      "concat (take k buffer # cs) = buffer" using cs k by simp_all
    with IH k show ?thesis by metis
  qed
qed

section \<open>A whole write\<close>

text \<open>
  When \<open>write (buffer)\<close> returns, the kernel has taken the whole buffer, in order, in however many
  pieces it chose, and nothing else; the descriptor and the clock are as before.
\<close>

theorem write_all_complete:
  assumes "fd_write buffer True fd w = Inr (rest, fd', w')"
  shows "rest = [] \<and> fd_num fd' = fd_num fd \<and>
   (\<exists>cs. w_sent w' = w_sent w @ map (Pair (fd_num fd)) cs \<and> concat cs = buffer)"
  using fd_write_all [OF assms] by blast

text \<open>A kernel that takes at most two bytes at a time.\<close>

theorem write_all_complete_witness:
  "\<exists>rest fd' w'. fd_write ''abcde'' True \<lparr>fd_num = 7, fd_eof = False, fd_read_count = 0, fd_write_count = 0\<rparr>
     \<lparr>w_clock = (\<lambda>n. (0, 0, 0)), w_clock_calls = 0, w_initial = Some 0,
      w_write = (\<lambda>n c. int (min 2 c)), w_write_calls = 0, w_sent = [], w_read = (\<lambda>fd n. (0, [])),
      w_read_calls = 0, w_received = [], w_euid = 1000, w_egid = 1000, w_files = (\<lambda>f. None),
      w_creatable = (\<lambda>f. True)\<rparr> = Inr (rest, fd', w') \<and>
    (\<exists>cs. w_sent w' = map (Pair 7) cs \<and> concat cs = ''abcde'')"
proof -
  let ?fd = "\<lparr>fd_num = 7, fd_eof = False, fd_read_count = 0, fd_write_count = 0\<rparr>"
  let ?w = "\<lparr>w_clock = (\<lambda>n. (0, 0, 0)), w_clock_calls = 0, w_initial = Some 0,
      w_write = (\<lambda>n c. int (min 2 c)), w_write_calls = 0, w_sent = [], w_read = (\<lambda>fd n. (0, [])),
      w_read_calls = 0, w_received = [], w_euid = 1000, w_egid = 1000, w_files = (\<lambda>f. None),
      w_creatable = (\<lambda>f. True)\<rparr>"
  have "\<exists>r. fd_write ''abcde'' True ?fd ?w = Inr r"
    by (simp add: fd_write.simps fd_write_some_def Let_def register_write_def)
  then obtain rest fd' w' where r: "fd_write ''abcde'' True ?fd ?w = Inr (rest, fd', w')" by auto
  from write_all_complete [OF r] r show ?thesis by auto
qed

end
