(* ===== verification/Packets.thy ===== *)
theory Packets
  imports Main Prelude "HOL-Library.Sublist"
begin

text \<open>
  \<open>src/packet/queued_packet.hh\<close>: the two packet records, one per stage of the emulator, with their
  constructors, and \<open>src/packet/abstract_packet_queue.hh\<close>: what the link queue asks of a packet
  queue, stated as locales over its operations. \<open>run_ops\<close> runs a sequence of calls the way the
  only caller does (\<open>dequeue\<close> is never called on an empty queue), so a fact about every history of
  a queue is proved once, in the locale, and interpreted by each queue class.
\<close>

section \<open>Packets\<close>

record delay_queue_packet =
  dp_arrival_time :: u64
  dp_sequence_number :: u64
  dp_release_time :: u64
  dp_contents :: string
  dp_ip_port_info :: string
  dp_is_bypass_link_queue :: bool

definition delay_queue_packet_empty :: "string \<Rightarrow> u64 \<Rightarrow> delay_queue_packet" where
  "delay_queue_packet_empty s_contents s_arrival_time =
     \<lparr>dp_arrival_time = s_arrival_time, dp_sequence_number = 0,
      dp_release_time = s_arrival_time, dp_contents = s_contents, dp_ip_port_info = [],
      dp_is_bypass_link_queue = True\<rparr>"

definition mk_delay_queue_packet ::
    "string \<Rightarrow> string \<Rightarrow> u64 \<Rightarrow> u64 \<Rightarrow> u64 \<Rightarrow> bool \<Rightarrow> delay_queue_packet" where
  "mk_delay_queue_packet s_contents s_ip_port_info s_arrival_time s_sequence_number
     s_release_time s_is_bypass_link_queue =
     \<lparr>dp_arrival_time = s_arrival_time, dp_sequence_number = s_sequence_number,
      dp_release_time = s_release_time, dp_contents = s_contents,
      dp_ip_port_info = s_ip_port_info, dp_is_bypass_link_queue = s_is_bypass_link_queue\<rparr>"

record queued_packet =
  qp_initial_arrival_time :: u64
  qp_arrival_time :: u64
  qp_sequence_number :: u64
  qp_release_time_from_delay_queue :: u64
  qp_contents :: string
  qp_ip_port_info :: string
  qp_pkt_key :: string
  qp_is_llc :: bool

definition queued_packet_empty :: "string \<Rightarrow> u64 \<Rightarrow> queued_packet" where
  "queued_packet_empty s_contents s_arrival_time =
     \<lparr>qp_initial_arrival_time = s_arrival_time, qp_arrival_time = s_arrival_time,
      qp_sequence_number = 0, qp_release_time_from_delay_queue = s_arrival_time,
      qp_contents = s_contents, qp_ip_port_info = [], qp_pkt_key = [], qp_is_llc = False\<rparr>"

definition queued_packet_llc :: "string \<Rightarrow> u64 \<Rightarrow> u64 \<Rightarrow> string \<Rightarrow> bool \<Rightarrow> queued_packet" where
  "queued_packet_llc s_contents s_arrival_time s_sequence_number s_pkt_key s_is_llc =
     \<lparr>qp_initial_arrival_time = s_arrival_time, qp_arrival_time = s_arrival_time,
      qp_sequence_number = s_sequence_number,
      qp_release_time_from_delay_queue = s_arrival_time, qp_contents = s_contents,
      qp_ip_port_info = s_pkt_key, qp_pkt_key = s_pkt_key, qp_is_llc = s_is_llc\<rparr>"

definition mk_queued_packet ::
    "string \<Rightarrow> string \<Rightarrow> u64 \<Rightarrow> u64 \<Rightarrow> u64 \<Rightarrow> u64 \<Rightarrow> queued_packet" where
  "mk_queued_packet s_contents s_ip_port_info s_initial_arrival_time s_arrival_time
     s_sequence_number s_release_time_from_delay_queue =
     \<lparr>qp_initial_arrival_time = s_initial_arrival_time, qp_arrival_time = s_arrival_time,
      qp_sequence_number = s_sequence_number,
      qp_release_time_from_delay_queue = s_release_time_from_delay_queue,
      qp_contents = s_contents, qp_ip_port_info = s_ip_port_info, qp_pkt_key = [],
      qp_is_llc = False\<rparr>"

definition qp_bytes :: "queued_packet list \<Rightarrow> nat" where
  "qp_bytes ps = (\<Sum>p \<leftarrow> ps. length (qp_contents p))"

lemma qp_bytes_simps [simp]:
  "qp_bytes [] = 0" "qp_bytes (p # ps) = length (qp_contents p) + qp_bytes ps"
  "qp_bytes (ps @ rs) = qp_bytes ps + qp_bytes rs"
  by (simp_all add: qp_bytes_def)

text \<open>
  What a packet takes of the counters of a queue: its bytes and one packet. The counters are
  32-bit, so the histories below keep the total cost under \<open>2^31\<close>. \<open>spent\<close> is what a queue has
  used up besides (CoDel counts the packets it drops), at most the cost of what it dropped.
\<close>

definition qp_cost :: "queued_packet \<Rightarrow> nat" where
  "qp_cost p = length (qp_contents p) + 1"

lemma sum_qp_cost: "sum_list (map qp_cost ps) = qp_bytes ps + length ps"
  by (induction ps) (simp_all add: qp_cost_def)

section \<open>Histories of a queue\<close>

text \<open>
  An operation comes with what the environment hands it (the clock, a random number);
  \<open>Enq\<close> and \<open>Deq\<close> are the calls \<open>enqueue\<close> and, guarded by \<open>empty()\<close>, \<open>dequeue\<close>.
\<close>

datatype ('e, 'p) queue_op = Enq 'e 'p | Deq 'e

fun enqueued :: "('e, 'p) queue_op list \<Rightarrow> 'p list" where
  "enqueued [] = []"
| "enqueued (Enq e p # ops) = p # enqueued ops"
| "enqueued (Deq e # ops) = enqueued ops"

fun run_ops ::
    "('e \<Rightarrow> 'p \<Rightarrow> 'q \<Rightarrow> 'q res) \<Rightarrow> ('e \<Rightarrow> 'q \<Rightarrow> ('p \<times> 'q) res) \<Rightarrow> ('q \<Rightarrow> bool) \<Rightarrow>
     ('e, 'p) queue_op list \<Rightarrow> 'q \<Rightarrow> ('p list \<times> 'q) res" where
  "run_ops enq deq is_empty [] q = Inr ([], q)"
| "run_ops enq deq is_empty (Enq e p # ops) q =
     andThen (enq e p q) (run_ops enq deq is_empty ops)"
| "run_ops enq deq is_empty (Deq e # ops) q =
     (if is_empty q then run_ops enq deq is_empty ops q
      else andThen (deq e q) (\<lambda>(p, q').
             andThen (run_ops enq deq is_empty ops q') (\<lambda>(out, q''). Inr (p # out, q''))))"

section \<open>The interface of a packet queue\<close>

locale packet_queue =
  fixes enq :: "'e \<Rightarrow> 'p \<Rightarrow> 'q \<Rightarrow> 'q res"
    and deq :: "'e \<Rightarrow> 'q \<Rightarrow> ('p \<times> 'q) res"
    and is_empty :: "'q \<Rightarrow> bool"
    and held :: "'q \<Rightarrow> 'p list"
    and inv :: "'q \<Rightarrow> bool"
    and cost :: "'p \<Rightarrow> nat"
    and spent :: "'q \<Rightarrow> nat"
    and capacity :: nat
  assumes is_empty_held: "inv q \<Longrightarrow> is_empty q \<longleftrightarrow> held q = []"
    and enq_sublist: "inv q \<Longrightarrow> spent q + sum_list (map cost (held q @ [p])) < capacity \<Longrightarrow>
      enq e p q = Inr q' \<Longrightarrow> inv q' \<and> sublist (held q') (held q @ [p]) \<and> spent q' = spent q"
    and deq_front: "inv q \<Longrightarrow> held q = p # ps \<Longrightarrow> spent q + sum_list (map cost (held q)) < capacity \<Longrightarrow>
      \<exists>q'. deq e q = Inr (p, q') \<and> inv q' \<and> suffix (held q') ps \<and>
        spent q' + sum_list (map cost (held q')) \<le> spent q + sum_list (map cost (held q))"
begin

lemma cost_sublist: "sublist xs ys \<Longrightarrow> sum_list (map cost xs) \<le> sum_list (map cost ys)"
  by (auto simp: sublist_def)

text \<open>
  First in, first out, over every history: what comes out, then what is still held, is what was
  held and enqueued, in order, minus the packets the queue dropped. Nothing is invented, doubled
  or overtaken.
\<close>

lemma run_ops_fifo:
  "inv q \<Longrightarrow> spent q + sum_list (map cost (held q @ enqueued ops)) < capacity \<Longrightarrow>
   run_ops enq deq is_empty ops q = Inr (out, q') \<Longrightarrow>
   inv q' \<and> subseq (out @ held q') (held q @ enqueued ops)"
proof (induction ops arbitrary: q out)
  case Nil
  then show ?case by simp
next
  case (Cons op ops)
  show ?case
  proof (cases op)
    case (Enq e p)
    with Cons.prems(3) obtain q1 where q1: "enq e p q = Inr q1"
      and run: "run_ops enq deq is_empty ops q1 = Inr (out, q')"
      by (auto simp: andThen_Inr_iff)
    from Cons.prems(2) Enq have "spent q + sum_list (map cost (held q @ [p])) < capacity" by simp
    from enq_sublist [OF Cons.prems(1) this q1] have i1: "inv q1"
      and s1: "sublist (held q1) (held q @ [p])" and sp: "spent q1 = spent q" by auto
    have "spent q1 + sum_list (map cost (held q1 @ enqueued ops)) < capacity"
      using cost_sublist [OF s1] sp Cons.prems(2) Enq by simp
    from Cons.IH [OF i1 this run] have "inv q'"
      and sub: "subseq (out @ held q') (held q1 @ enqueued ops)" by auto
    have "subseq (held q1 @ enqueued ops) ((held q @ [p]) @ enqueued ops)"
      using s1 by (intro list_emb_append_mono sublist_imp_subseq) auto
    with sub \<open>inv q'\<close> Enq show ?thesis
      using subseq_order.order_trans by fastforce
  next
    case (Deq e)
    show ?thesis
    proof (cases "is_empty q")
      case True
      with Cons Deq show ?thesis by simp
    next
      case False
      with is_empty_held [OF Cons.prems(1)] obtain p ps where h: "held q = p # ps"
        by (cases "held q") auto
      from Cons.prems(2) Deq h have "spent q + sum_list (map cost (held q)) < capacity" by simp
      from deq_front [OF Cons.prems(1) h this] obtain q1
        where q1: "deq e q = Inr (p, q1)" "inv q1" "suffix (held q1) ps"
          "spent q1 + sum_list (map cost (held q1)) \<le> spent q + sum_list (map cost (held q))" by blast
      with Cons.prems(3) Deq False obtain out1
        where run: "run_ops enq deq is_empty ops q1 = Inr (out1, q')" and out: "out = p # out1"
        by (auto simp: andThen_Inr_iff)
      have "spent q1 + sum_list (map cost (held q1 @ enqueued ops)) < capacity"
        using q1(4) Cons.prems(2) Deq by simp
      from Cons.IH [OF q1(2) this run] have "inv q'"
        and sub: "subseq (out1 @ held q') (held q1 @ enqueued ops)" by auto
      have "subseq (held q1 @ enqueued ops) (ps @ enqueued ops)"
        using q1(3) by (intro list_emb_append_mono sublist_imp_subseq suffix_imp_sublist) auto
      with sub \<open>inv q'\<close> Deq h out show ?thesis
        using subseq_order.order_trans by fastforce
    qed
  qed
qed

end

text \<open>A queue whose \<open>enqueue\<close> never fails: every history runs to its end.\<close>

locale total_packet_queue = packet_queue +
  assumes enq_total: "inv q \<Longrightarrow> spent q + sum_list (map cost (held q @ [p])) < capacity \<Longrightarrow>
    \<exists>q'. enq e p q = Inr q'"
begin

lemma run_ops_total:
  "inv q \<Longrightarrow> spent q + sum_list (map cost (held q @ enqueued ops)) < capacity \<Longrightarrow>
   \<exists>out q'. run_ops enq deq is_empty ops q = Inr (out, q')"
proof (induction ops arbitrary: q)
  case Nil
  then show ?case by simp
next
  case (Cons op ops)
  show ?case
  proof (cases op)
    case (Enq e p)
    from Cons.prems(2) Enq have room: "spent q + sum_list (map cost (held q @ [p])) < capacity" by simp
    from enq_total [OF Cons.prems(1) room] obtain q1 where q1: "enq e p q = Inr q1" by blast
    from enq_sublist [OF Cons.prems(1) room q1] have i1: "inv q1"
      and s1: "sublist (held q1) (held q @ [p])" and sp: "spent q1 = spent q" by auto
    have "spent q1 + sum_list (map cost (held q1 @ enqueued ops)) < capacity"
      using cost_sublist [OF s1] sp Cons.prems(2) Enq by simp
    from Cons.IH [OF i1 this] q1 Enq show ?thesis by simp
  next
    case (Deq e)
    show ?thesis
    proof (cases "is_empty q")
      case True
      with Cons Deq show ?thesis by simp
    next
      case False
      with is_empty_held [OF Cons.prems(1)] obtain p ps where h: "held q = p # ps"
        by (cases "held q") auto
      from Cons.prems(2) Deq h have "spent q + sum_list (map cost (held q)) < capacity" by simp
      from deq_front [OF Cons.prems(1) h this] obtain q1
        where q1: "deq e q = Inr (p, q1)" "inv q1" "suffix (held q1) ps"
          "spent q1 + sum_list (map cost (held q1)) \<le> spent q + sum_list (map cost (held q))" by blast
      have "spent q1 + sum_list (map cost (held q1 @ enqueued ops)) < capacity"
        using q1(4) Cons.prems(2) Deq by simp
      from Cons.IH [OF q1(2) this] obtain out q'
        where "run_ops enq deq is_empty ops q1 = Inr (out, q')" by blast
      with q1(1) Deq False show ?thesis by simp
    qed
  qed
qed

end

text \<open>A queue that keeps every packet and hands out exactly the front one.\<close>

locale lossless_packet_queue = total_packet_queue +
  assumes enq_keeps: "inv q \<Longrightarrow> spent q + sum_list (map cost (held q @ [p])) < capacity \<Longrightarrow>
      enq e p q = Inr q' \<Longrightarrow> held q' = held q @ [p]"
    and deq_exact: "inv q \<Longrightarrow> held q = p # ps \<Longrightarrow> deq e q = Inr (p', q') \<Longrightarrow> held q' = ps"
begin

lemma run_ops_lossless:
  "inv q \<Longrightarrow> spent q + sum_list (map cost (held q @ enqueued ops)) < capacity \<Longrightarrow>
   run_ops enq deq is_empty ops q = Inr (out, q') \<Longrightarrow> out @ held q' = held q @ enqueued ops"
proof (induction ops arbitrary: q out)
  case Nil
  then show ?case by simp
next
  case (Cons op ops)
  show ?case
  proof (cases op)
    case (Enq e p)
    with Cons.prems(3) obtain q1 where q1: "enq e p q = Inr q1"
      and run: "run_ops enq deq is_empty ops q1 = Inr (out, q')"
      by (auto simp: andThen_Inr_iff)
    from Cons.prems(2) Enq have room: "spent q + sum_list (map cost (held q @ [p])) < capacity" by simp
    note enq_sublist [OF Cons.prems(1) room q1] enq_keeps [OF Cons.prems(1) room q1]
    with Cons.IH [OF _ _ run] Cons.prems(2) Enq show ?thesis by simp
  next
    case (Deq e)
    show ?thesis
    proof (cases "is_empty q")
      case True
      with Cons Deq show ?thesis by simp
    next
      case False
      with is_empty_held [OF Cons.prems(1)] obtain p ps where h: "held q = p # ps"
        by (cases "held q") auto
      from Cons.prems(2) Deq h have "spent q + sum_list (map cost (held q)) < capacity" by simp
      from deq_front [OF Cons.prems(1) h this] obtain q1
        where q1: "deq e q = Inr (p, q1)" "inv q1"
          "spent q1 + sum_list (map cost (held q1)) \<le> spent q + sum_list (map cost (held q))" by blast
      with Cons.prems(3) Deq False obtain out1
        where run: "run_ops enq deq is_empty ops q1 = Inr (out1, q')" and out: "out = p # out1"
        by (auto simp: andThen_Inr_iff)
      have "spent q1 + sum_list (map cost (held q1 @ enqueued ops)) < capacity"
        using q1(3) Cons.prems(2) Deq by simp
      from deq_exact [OF Cons.prems(1) h q1(1)] Cons.IH [OF q1(2) this run] Deq h out
      show ?thesis by simp
    qed
  qed
qed

end

end
