(* ===== verification/Packet_Queues.thy ===== *)
theory Packet_Queues
  imports Main Prelude Ezio Packets
begin

text \<open>
  The packet queues the shell can construct: \<open>InfinitePacketQueue\<close> (\<open>infinite_packet_queue.hh\<close>),
  the bounded base class \<open>DroppingPacketQueue\<close> (\<open>dropping_packet_queue.hh/.cc\<close>) and its two
  subclasses \<open>DropTailPacketQueue\<close> and \<open>DropHeadPacketQueue\<close>. The byte and packet counters are
  32-bit \<open>int\<close>s, as in the code; the invariants say when they agree with the queue. The base
  class's operations are stated for every extension of its record, as its subclasses inherit them.

  An increment past \<open>2^31 - 1\<close> is undefined in C++ and wraps here; every statement keeps the
  counters below that bound.
\<close>

section \<open>InfinitePacketQueue\<close>

record infinite_packet_queue =
  iq_internal_queue :: "queued_packet list"
  iq_queue_size_in_bytes :: i32
  iq_queue_size_in_packets :: i32

definition infinite_init :: "string \<Rightarrow> infinite_packet_queue res" where
  "infinite_init args =
     (if args \<noteq> [] then Inl (Runtime_Error ''InfinitePacketQueue does not take arguments.'')
      else Inr \<lparr>iq_internal_queue = [], iq_queue_size_in_bytes = 0,
                iq_queue_size_in_packets = 0\<rparr>)"

definition infinite_enqueue ::
    "queued_packet \<Rightarrow> infinite_packet_queue \<Rightarrow> infinite_packet_queue res" where
  "infinite_enqueue p q =
     Inr (q\<lparr>iq_queue_size_in_bytes := iq_queue_size_in_bytes q + of_nat (length (qp_contents p)),
           iq_queue_size_in_packets := iq_queue_size_in_packets q + 1,
           iq_internal_queue := iq_internal_queue q @ [p]\<rparr>)"

definition infinite_dequeue ::
    "infinite_packet_queue \<Rightarrow> (queued_packet \<times> infinite_packet_queue) res" where
  "infinite_dequeue q =
     (case iq_internal_queue q of
        [] \<Rightarrow> Inl (Assert_Failed ''not internal_queue_.empty()'')
      | ret # rest \<Rightarrow>
          Inr (ret, q\<lparr>iq_internal_queue := rest,
                     iq_queue_size_in_bytes :=
                       iq_queue_size_in_bytes q - of_nat (length (qp_contents ret)),
                     iq_queue_size_in_packets := iq_queue_size_in_packets q - 1\<rparr>))"

definition infinite_empty :: "infinite_packet_queue \<Rightarrow> bool" where
  "infinite_empty q \<longleftrightarrow> iq_internal_queue q = []"

definition infinite_to_string :: "infinite_packet_queue \<Rightarrow> string" where
  "infinite_to_string q = ''infinite''"

definition infinite_size_bytes :: "infinite_packet_queue \<Rightarrow> u32 res" where
  "infinite_size_bytes q =
     (if sint (iq_queue_size_in_bytes q) < 0 then Inl (Assert_Failed ''queue_size_in_bytes_ >= 0'')
      else Inr (iq_queue_size_in_bytes q))"

definition infinite_size_packets :: "infinite_packet_queue \<Rightarrow> u32 res" where
  "infinite_size_packets q =
     (if sint (iq_queue_size_in_packets q) < 0
      then Inl (Assert_Failed ''queue_size_in_packets_ >= 0'')
      else Inr (iq_queue_size_in_packets q))"

section \<open>DroppingPacketQueue\<close>

record dropping_packet_queue =
  dq_queue_size_in_bytes :: i32
  dq_queue_size_in_packets :: i32
  dq_internal_queue :: "queued_packet list"
  dq_packet_limit :: u32
  dq_byte_limit :: u32

text \<open>\<open>std::string::find\<close>: the first position from \<open>i\<close> on where \<open>pat\<close> occurs.\<close>

fun find_from :: "nat \<Rightarrow> string \<Rightarrow> string \<Rightarrow> nat option" where
  "find_from i pat [] = (if pat = [] then Some i else None)"
| "find_from i pat (c # cs) =
     (if take (length pat) (c # cs) = pat then Some i else find_from (Suc i) pat cs)"

definition get_arg :: "string \<Rightarrow> string \<Rightarrow> u32 res" where
  "get_arg args name =
     (case find_from 0 name args of
        None \<Rightarrow> Inr 0
      | Some offset \<Rightarrow>
          let offset = offset + length name
          in if take 1 (drop offset args) \<noteq> ''=''
             then Inl (Runtime_Error (''could not parse queue arguments: '' @ args))
             else
               let offset = offset + 1;
                   digit_string = takeWhile is_digit (drop offset args)
               in if digit_string = []
                  then Inl (Runtime_Error (''could not parse queue arguments: '' @ args))
                  else andThen (myatoi digit_string 10) (\<lambda>v. Inr (ucast v)))"

definition dropping_init :: "string \<Rightarrow> dropping_packet_queue res" where
  "dropping_init args =
     andThen (get_arg args ''packets'') (\<lambda>packet_limit.
     andThen (get_arg args ''bytes'') (\<lambda>byte_limit.
       if packet_limit = 0 \<and> byte_limit = 0
       then Inl (Runtime_Error ''Dropping queue must have a byte or packet limit.'')
       else Inr \<lparr>dq_queue_size_in_bytes = 0, dq_queue_size_in_packets = 0,
                 dq_internal_queue = [], dq_packet_limit = packet_limit,
                 dq_byte_limit = byte_limit\<rparr>))"

definition dq_size_bytes :: "'a dropping_packet_queue_scheme \<Rightarrow> u32 res" where
  "dq_size_bytes q =
     (if sint (dq_queue_size_in_bytes q) < 0 then Inl (Assert_Failed ''queue_size_in_bytes_ >= 0'')
      else Inr (dq_queue_size_in_bytes q))"

definition dq_size_packets :: "'a dropping_packet_queue_scheme \<Rightarrow> u32 res" where
  "dq_size_packets q =
     (if sint (dq_queue_size_in_packets q) < 0
      then Inl (Assert_Failed ''queue_size_in_packets_ >= 0'')
      else Inr (dq_queue_size_in_packets q))"

definition dq_good_with :: "'a dropping_packet_queue_scheme \<Rightarrow> u32 \<Rightarrow> u32 \<Rightarrow> bool" where
  "dq_good_with q size_in_bytes size_in_packets =
     (let ret = True;
          ret = (if dq_byte_limit q \<noteq> 0 then ret \<and> size_in_bytes \<le> dq_byte_limit q else ret);
          ret = (if dq_packet_limit q \<noteq> 0 then ret \<and> size_in_packets \<le> dq_packet_limit q else ret)
      in ret)"

definition dq_good :: "'a dropping_packet_queue_scheme \<Rightarrow> bool res" where
  "dq_good q =
     andThen (dq_size_bytes q) (\<lambda>b.
     andThen (dq_size_packets q) (\<lambda>n. Inr (dq_good_with q b n)))"

definition dq_accept ::
    "queued_packet \<Rightarrow> 'a dropping_packet_queue_scheme \<Rightarrow> 'a dropping_packet_queue_scheme" where
  "dq_accept p q =
     q\<lparr>dq_queue_size_in_bytes := dq_queue_size_in_bytes q + of_nat (length (qp_contents p)),
       dq_queue_size_in_packets := dq_queue_size_in_packets q + 1,
       dq_internal_queue := dq_internal_queue q @ [p]\<rparr>"

definition dq_dequeue ::
    "'a dropping_packet_queue_scheme \<Rightarrow> (queued_packet \<times> 'a dropping_packet_queue_scheme) res" where
  "dq_dequeue q =
     (case dq_internal_queue q of
        [] \<Rightarrow> Inl (Assert_Failed ''not internal_queue_.empty()'')
      | ret # rest \<Rightarrow>
          let q' = q\<lparr>dq_internal_queue := rest,
                     dq_queue_size_in_bytes :=
                       dq_queue_size_in_bytes q - of_nat (length (qp_contents ret)),
                     dq_queue_size_in_packets := dq_queue_size_in_packets q - 1\<rparr>
          in andThen (dq_good q') (\<lambda>ok.
             andThen (assertE ok ''good()'') (\<lambda>_. Inr (ret, q'))))"

definition dq_empty :: "'a dropping_packet_queue_scheme \<Rightarrow> bool" where
  "dq_empty q \<longleftrightarrow> dq_internal_queue q = []"

definition dq_to_string :: "string \<Rightarrow> 'a dropping_packet_queue_scheme \<Rightarrow> string" where
  "dq_to_string type_name q =
     (let ret = type_name @ '' ['';
          ret = (if dq_byte_limit q \<noteq> 0 then ret @ ''bytes='' @ dec (unat (dq_byte_limit q))
                 else ret);
          ret = (if dq_packet_limit q \<noteq> 0
                 then (if dq_byte_limit q \<noteq> 0 then ret @ '', '' else ret)
                      @ ''packets='' @ dec (unat (dq_packet_limit q))
                 else ret)
      in ret @ '']'')"

section \<open>DropTailPacketQueue and DropHeadPacketQueue\<close>

definition droptail_type :: string where "droptail_type = ''droptail''"

definition drophead_type :: string where "drophead_type = ''drophead''"

definition droptail_enqueue ::
    "queued_packet \<Rightarrow> 'a dropping_packet_queue_scheme \<Rightarrow> 'a dropping_packet_queue_scheme res" where
  "droptail_enqueue p q =
     andThen (dq_size_bytes q) (\<lambda>b.
     andThen (dq_size_packets q) (\<lambda>n.
       let q' = (if dq_good_with q (b + of_nat (length (qp_contents p))) (n + 1)
                 then dq_accept p q else q)
       in andThen (dq_good q') (\<lambda>ok. andThen (assertE ok ''good()'') (\<lambda>_. Inr q'))))"

lemma dq_dequeue_length:
  "dq_dequeue q = Inr (p, q') \<Longrightarrow> length (dq_internal_queue q') < length (dq_internal_queue q)"
  by (auto simp: dq_dequeue_def andThen_Inr_iff Let_def split: list.splits)

text \<open>\<open>while (not good()) { dequeue(); }\<close>: each round takes one packet off, or aborts.\<close>

function drophead_trim :: "dropping_packet_queue \<Rightarrow> dropping_packet_queue res" where
  "drophead_trim q =
     andThen (dq_good q) (\<lambda>ok.
       if ok then Inr q else andThen (dq_dequeue q) (\<lambda>r. drophead_trim (snd r)))"
  by pat_completeness auto
termination
  by (relation "measure (\<lambda>q. length (dq_internal_queue q))")
    (auto dest: dq_dequeue_length)

declare drophead_trim.simps [simp del]

definition drophead_enqueue ::
    "queued_packet \<Rightarrow> dropping_packet_queue \<Rightarrow> dropping_packet_queue res" where
  "drophead_enqueue p q = drophead_trim (dq_accept p q)"

section \<open>What the counters count\<close>

definition dq_wf :: "'a dropping_packet_queue_scheme \<Rightarrow> bool" where
  "dq_wf q \<longleftrightarrow>
     dq_queue_size_in_bytes q = of_nat (qp_bytes (dq_internal_queue q)) \<and>
     dq_queue_size_in_packets q = of_nat (length (dq_internal_queue q)) \<and>
     qp_bytes (dq_internal_queue q) + length (dq_internal_queue q) < 2 ^ 31"

text \<open>The limits, stated of the packets themselves; a limit of 0 is no limit.\<close>

definition dq_fits :: "'a dropping_packet_queue_scheme \<Rightarrow> queued_packet list \<Rightarrow> bool" where
  "dq_fits q ps \<longleftrightarrow>
     (dq_byte_limit q = 0 \<or> qp_bytes ps \<le> unat (dq_byte_limit q)) \<and>
     (dq_packet_limit q = 0 \<or> length ps \<le> unat (dq_packet_limit q))"

definition dq_inv :: "'a dropping_packet_queue_scheme \<Rightarrow> bool" where
  "dq_inv q \<longleftrightarrow> dq_wf q \<and> dq_fits q (dq_internal_queue q)"

lemma dq_fits_Nil [simp]: "dq_fits q []"
  by (simp add: dq_fits_def)

lemma dq_fits_sublist: "sublist ps rs \<Longrightarrow> dq_fits q rs \<Longrightarrow> dq_fits q ps"
  by (auto simp: sublist_def dq_fits_def)

lemma of_nat_le_limit:
  "n < 2 ^ 32 \<Longrightarrow> (of_nat n :: u32) \<le> l \<longleftrightarrow> n \<le> unat l"
  by (simp add: word_le_nat_alt unat_of_nat_small)

lemma dq_good_with_of_nat:
  assumes "b < 2 ^ 32" "n < 2 ^ 32"
  shows "dq_good_with q (of_nat b) (of_nat n) \<longleftrightarrow>
    (dq_byte_limit q = 0 \<or> b \<le> unat (dq_byte_limit q)) \<and>
    (dq_packet_limit q = 0 \<or> n \<le> unat (dq_packet_limit q))"
  using assms by (simp add: dq_good_with_def of_nat_le_limit)

lemma dq_wf_sizes:
  assumes "dq_wf q"
  shows "dq_size_bytes q = Inr (of_nat (qp_bytes (dq_internal_queue q)))"
    and "dq_size_packets q = Inr (of_nat (length (dq_internal_queue q)))"
  using assms
  by (simp_all add: dq_wf_def dq_size_bytes_def dq_size_packets_def not_neg_small
      unat_of_nat_small)

lemma dq_good_wf: "dq_wf q \<Longrightarrow> dq_good q = Inr (dq_fits q (dq_internal_queue q))"
  by (simp add: dq_good_def dq_wf_sizes dq_good_with_of_nat dq_wf_def dq_fits_def)

text \<open>\<open>accept\<close> and the removal of the front packet keep the counters right.\<close>

lemma dq_accept_fields [simp]:
  "dq_internal_queue (dq_accept p q) = dq_internal_queue q @ [p]"
  "dq_packet_limit (dq_accept p q) = dq_packet_limit q"
  "dq_byte_limit (dq_accept p q) = dq_byte_limit q"
  by (simp_all add: dq_accept_def)

lemma dq_fits_accept [simp]: "dq_fits (dq_accept p q) = dq_fits q"
  by (simp add: dq_fits_def fun_eq_iff)

lemma dq_wf_accept:
  assumes "dq_wf q" "qp_bytes (dq_internal_queue q @ [p]) + length (dq_internal_queue q @ [p]) < 2 ^ 31"
  shows "dq_wf (dq_accept p q)"
  using assms by (simp add: dq_wf_def dq_accept_def)

definition dq_pop :: "'a dropping_packet_queue_scheme \<Rightarrow> 'a dropping_packet_queue_scheme" where
  \<comment> \<open>the state after the front packet is taken off\<close>
  "dq_pop q =
     q\<lparr>dq_internal_queue := tl (dq_internal_queue q),
       dq_queue_size_in_bytes :=
         dq_queue_size_in_bytes q - of_nat (length (qp_contents (hd (dq_internal_queue q)))),
       dq_queue_size_in_packets := dq_queue_size_in_packets q - 1\<rparr>"

lemma dq_pop_fields [simp]:
  "dq_internal_queue (dq_pop q) = tl (dq_internal_queue q)"
  "dq_packet_limit (dq_pop q) = dq_packet_limit q"
  "dq_byte_limit (dq_pop q) = dq_byte_limit q"
  by (simp_all add: dq_pop_def)

lemma dq_fits_pop [simp]: "dq_fits (dq_pop q) = dq_fits q"
  by (simp add: dq_fits_def fun_eq_iff)

lemma dq_wf_pop: "dq_wf q \<Longrightarrow> dq_internal_queue q \<noteq> [] \<Longrightarrow> dq_wf (dq_pop q)"
  by (cases "dq_internal_queue q") (auto simp: dq_wf_def dq_pop_def)

lemma dq_dequeue_eq:
  assumes "dq_wf q" "dq_internal_queue q = p # ps"
  shows "dq_dequeue q =
    (if dq_fits q ps then Inr (p, dq_pop q) else Inl (Assert_Failed ''good()''))"
proof -
  have "dq_wf (dq_pop q)" using assms by (simp add: dq_wf_pop)
  then have "dq_good (dq_pop q) = Inr (dq_fits q ps)" using assms(2) by (simp add: dq_good_wf)
  moreover have "dq_dequeue q = andThen (dq_good (dq_pop q)) (\<lambda>ok.
      andThen (assertE ok ''good()'') (\<lambda>_. Inr (p, dq_pop q)))"
    using assms(2) by (simp add: dq_dequeue_def dq_pop_def Let_def)
  ultimately show ?thesis by simp
qed

lemma dq_dequeue_inv:
  assumes "dq_inv q" "dq_internal_queue q = p # ps"
  shows "dq_dequeue q = Inr (p, dq_pop q)" "dq_inv (dq_pop q)"
  using assms dq_fits_sublist [of ps "p # ps" q]
  by (auto simp: dq_inv_def dq_dequeue_eq dq_wf_pop sublist_Cons_right)

section \<open>The two disciplines in closed form\<close>

text \<open>The check of \<open>good_with\<close> for one packet more.\<close>

lemma dq_room_fits:
  assumes "qp_bytes (dq_internal_queue q @ [p]) + length (dq_internal_queue q @ [p]) < 2 ^ 31"
  shows "dq_good_with q (of_nat (qp_bytes (dq_internal_queue q)) + of_nat (length (qp_contents p)))
      (of_nat (length (dq_internal_queue q)) + 1) \<longleftrightarrow> dq_fits q (dq_internal_queue q @ [p])"
proof -
  let ?ps = "dq_internal_queue q"
  have "dq_good_with q (of_nat (qp_bytes ?ps) + of_nat (length (qp_contents p)))
          (of_nat (length ?ps) + 1)
        \<longleftrightarrow> dq_good_with q (of_nat (qp_bytes (?ps @ [p]))) (of_nat (length (?ps @ [p])))"
    by (simp add: add.commute)
  also have "\<dots> \<longleftrightarrow> dq_fits q (?ps @ [p])"
    using assms by (subst dq_good_with_of_nat) (simp_all add: dq_fits_def)
  finally show ?thesis .
qed

text \<open>Drop-tail keeps the newcomer exactly when it fits beside what is held.\<close>

lemma droptail_enqueue_eq:
  assumes "dq_inv q"
    and "qp_bytes (dq_internal_queue q @ [p]) + length (dq_internal_queue q @ [p]) < 2 ^ 31"
  shows "droptail_enqueue p q =
    Inr (if dq_fits q (dq_internal_queue q @ [p]) then dq_accept p q else q)"
proof -
  let ?ps = "dq_internal_queue q"
  have wf: "dq_wf q" using assms(1) by (simp add: dq_inv_def)
  note g = dq_room_fits [OF assms(2)]
  have "dq_good q = Inr True" using assms(1) by (simp add: dq_inv_def dq_good_wf)
  moreover have "dq_fits q (?ps @ [p]) \<Longrightarrow> dq_good (dq_accept p q) = Inr True"
    using dq_good_wf [OF dq_wf_accept [OF wf assms(2)]] by simp
  ultimately show ?thesis
    by (simp add: droptail_enqueue_def dq_wf_sizes [OF wf] g)
qed

text \<open>
  Drop-head always takes the newcomer in, then must drop from the front. \<open>dequeue\<close> itself ends
  with \<open>assert (good ())\<close>, so the loop can remove at most one packet: where one is not enough the
  process aborts.
\<close>

lemma drophead_trim_eq:
  assumes "dq_wf q"
  shows "drophead_trim q =
    (if dq_fits q (dq_internal_queue q) then Inr q
     else if dq_fits q (tl (dq_internal_queue q)) then Inr (dq_pop q)
     else Inl (Assert_Failed ''good()''))"
proof (cases "dq_fits q (dq_internal_queue q)")
  case True
  then show ?thesis using assms by (subst drophead_trim.simps) (simp add: dq_good_wf)
next
  case False
  then obtain p ps where q: "dq_internal_queue q = p # ps"
    by (cases "dq_internal_queue q") auto
  have "dq_fits q ps \<Longrightarrow> drophead_trim (dq_pop q) = Inr (dq_pop q)"
    using dq_wf_pop [of q] assms q by (subst drophead_trim.simps) (simp add: dq_good_wf)
  with False assms q show ?thesis
    by (subst drophead_trim.simps) (simp add: dq_good_wf dq_dequeue_eq)
qed

lemma drophead_enqueue_eq:
  assumes "dq_inv q"
    and "qp_bytes (dq_internal_queue q @ [p]) + length (dq_internal_queue q @ [p]) < 2 ^ 31"
  shows "drophead_enqueue p q =
    (if dq_fits q (dq_internal_queue q @ [p]) then Inr (dq_accept p q)
     else if dq_fits q (tl (dq_internal_queue q @ [p])) then Inr (dq_pop (dq_accept p q))
     else Inl (Assert_Failed ''good()''))"
  using drophead_trim_eq [OF dq_wf_accept [of q p]] assms
  by (simp add: drophead_enqueue_def dq_inv_def)

lemma dq_inv_accept:
  "dq_inv q \<Longrightarrow> qp_bytes (dq_internal_queue q @ [p]) + length (dq_internal_queue q @ [p]) < 2 ^ 31 \<Longrightarrow>
   dq_fits q (dq_internal_queue q @ [p]) \<Longrightarrow> dq_inv (dq_accept p q)"
  using dq_wf_accept [of q p] by (simp add: dq_inv_def)

lemma dropping_init_inv:
  "dropping_init args = Inr q \<Longrightarrow> dq_inv q \<and> dq_internal_queue q = []"
  by (auto simp: dropping_init_def andThen_Inr_iff dq_inv_def dq_wf_def split: if_splits)

section \<open>Parsing back a description\<close>

lemma find_from_skip:
  "pat = c # pat' \<Longrightarrow> c \<notin> set xs \<Longrightarrow> find_from i pat (xs @ ys) = find_from (i + length xs) pat ys"
  by (induction xs arbitrary: i) auto

lemma find_from_miss: "pat = c # pat' \<Longrightarrow> c \<notin> set xs \<Longrightarrow> find_from i pat xs = None"
  by (induction xs arbitrary: i) auto

lemma takeWhile_dec [simp]:
  "\<not> is_digit c \<Longrightarrow> takeWhile is_digit (dec n @ c # cs) = dec n"
  by (simp add: takeWhile_append1 takeWhile_append2 dec_digits)

lemma get_arg_at:
  assumes "find_from 0 name args = Some k" "drop (k + length name) args = CHR ''='' # dec (unat l) @ c # cs"
    "\<not> is_digit c"
  shows "get_arg args name = Inr l"
proof -
  have "unat l < 2 ^ 63" using unat_u32_less [of l] by simp
  then have "myatoi (dec (unat l)) 10 = Inr (of_nat (unat l))" by (rule myatoi_dec)
  moreover have "drop (k + length name + 1) args = dec (unat l) @ c # cs"
    using assms(2) by (metis drop_Suc drop_drop list.sel(3) plus_1_eq_Suc tl_drop add.commute)
  ultimately show ?thesis using assms
    by (simp add: get_arg_def Let_def)
qed

lemma dec_no_letter: "\<not> is_digit c \<Longrightarrow> c \<notin> set (dec n)"
  using dec_digits by blast


lemma get_arg_printed:
  assumes "t \<in> {droptail_type, drophead_type}"
  shows "get_arg (dq_to_string t q) ''bytes'' = Inr (dq_byte_limit q)"
    and "get_arg (dq_to_string t q) ''packets'' = Inr (dq_packet_limit q)"
proof -
  let ?b = "dq_byte_limit q" and ?n = "dq_packet_limit q"
  note skip = find_from_skip [where c = "CHR ''p''"] find_from_skip [where c = "CHR ''b''"]
    find_from_miss [where c = "CHR ''b''"] find_from_miss [where c = "CHR ''p''"]
    dec_no_letter is_digit_def
  show "get_arg (dq_to_string t q) ''bytes'' = Inr ?b"
  proof (cases "?b = 0")
    case True
    then have "find_from 0 ''bytes'' (dq_to_string t q) = None"
      using assms by (auto simp: dq_to_string_def Let_def droptail_type_def drophead_type_def skip)
    with True show ?thesis by (simp add: get_arg_def)
  next
    case False
    define c where "c = (if ?n = 0 then CHR '']'' else CHR '','')"
    define cs where "cs = (if ?n = 0 then [] else '' packets='' @ dec (unat ?n) @ '']'')"
    have c: "dq_to_string t q = t @ '' [bytes='' @ dec (unat ?b) @ c # cs" "\<not> is_digit c"
      using False by (simp_all add: dq_to_string_def Let_def is_digit_def c_def cs_def)
    show ?thesis
      by (rule get_arg_at [where k = "length t + 2" and c = c and cs = cs])
        (use assms c in \<open>auto simp: droptail_type_def drophead_type_def\<close>)
  qed
  show "get_arg (dq_to_string t q) ''packets'' = Inr ?n"
  proof (cases "?n = 0")
    case True
    then have "find_from 0 ''packets'' (dq_to_string t q) = None"
      using assms by (auto simp: dq_to_string_def Let_def droptail_type_def drophead_type_def skip)
    with True show ?thesis by (simp add: get_arg_def)
  next
    case False
    define pre where "pre = (if ?b = 0 then '' ['' else '' [bytes='' @ dec (unat ?b) @ '', '')"
    have p: "dq_to_string t q = t @ pre @ ''packets='' @ dec (unat ?n) @ '']''"
      using False by (simp add: dq_to_string_def Let_def pre_def)
    have "find_from 0 ''packets'' (dq_to_string t q) = Some (length t + length pre)"
      using assms unfolding p
      by (auto simp: pre_def droptail_type_def drophead_type_def skip)
    then show ?thesis
      by (rule get_arg_at [where c = "CHR '']''" and cs = "[]"]) (simp_all add: p is_digit_def)
  qed
qed

section \<open>The queues meet the interface\<close>

text \<open>Properties of the infinite queue rest on its counters being right.\<close>

definition iq_inv :: "infinite_packet_queue \<Rightarrow> bool" where
  "iq_inv q \<longleftrightarrow>
     iq_queue_size_in_bytes q = of_nat (qp_bytes (iq_internal_queue q)) \<and>
     iq_queue_size_in_packets q = of_nat (length (iq_internal_queue q)) \<and>
     qp_bytes (iq_internal_queue q) + length (iq_internal_queue q) < 2 ^ 31"

lemma infinite_dequeue_Cons:
  "iq_internal_queue q = p # ps \<Longrightarrow> infinite_dequeue q = Inr (p,
     q\<lparr>iq_internal_queue := ps,
       iq_queue_size_in_bytes := iq_queue_size_in_bytes q - of_nat (length (qp_contents p)),
       iq_queue_size_in_packets := iq_queue_size_in_packets q - 1\<rparr>)"
  by (simp add: infinite_dequeue_def)

interpretation infinite: lossless_packet_queue
  "\<lambda>_. infinite_enqueue" "\<lambda>_. infinite_dequeue" infinite_empty iq_internal_queue iq_inv qp_cost
  "\<lambda>_. 0" "2 ^ 31"
  by unfold_locales
    (auto simp: infinite_empty_def infinite_enqueue_def infinite_dequeue_Cons iq_inv_def
      sum_qp_cost qp_cost_def add.commute)

definition dq_inv_with :: "u32 \<Rightarrow> u32 \<Rightarrow> dropping_packet_queue \<Rightarrow> bool" where
  "dq_inv_with packets bytes q \<longleftrightarrow>
     dq_inv q \<and> dq_packet_limit q = packets \<and> dq_byte_limit q = bytes"

lemma dq_dequeue_law:
  assumes "dq_inv_with n b q" "dq_internal_queue q = p # ps"
  shows "\<exists>q'. dq_dequeue q = Inr (p, q') \<and> dq_inv_with n b q' \<and> suffix (dq_internal_queue q') ps \<and>
    sum_list (map qp_cost (dq_internal_queue q')) \<le> qp_cost p + sum_list (map qp_cost ps)"
  using assms dq_dequeue_inv [of q p ps] by (auto simp: dq_inv_with_def)

lemma droptail_enqueue_law:
  assumes "dq_inv_with n b q"
    and "qp_bytes (dq_internal_queue q @ [p]) + length (dq_internal_queue q @ [p]) < 2 ^ 31"
  shows "\<exists>q'. droptail_enqueue p q = Inr q' \<and> dq_inv_with n b q' \<and>
    sublist (dq_internal_queue q') (dq_internal_queue q @ [p])"
  using assms by (auto simp: dq_inv_with_def droptail_enqueue_eq dq_inv_accept)

interpretation droptail: total_packet_queue
  "\<lambda>_. droptail_enqueue" "\<lambda>_. dq_dequeue" dq_empty dq_internal_queue "dq_inv_with n b" qp_cost
  "\<lambda>_. 0" "2 ^ 31" for n b
proof unfold_locales
  fix q p assume "dq_inv_with n b q" "0 + sum_list (map qp_cost (dq_internal_queue q @ [p])) < 2 ^ 31"
  then have *: "\<exists>q'. droptail_enqueue p q = Inr q' \<and> dq_inv_with n b q' \<and>
      sublist (dq_internal_queue q') (dq_internal_queue q @ [p])"
    by (intro droptail_enqueue_law) (simp_all only: sum_qp_cost add_0)
  then show "\<exists>q'. droptail_enqueue p q = Inr q'" by blast
  fix q' assume "droptail_enqueue p q = Inr q'"
  with * show "dq_inv_with n b q' \<and> sublist (dq_internal_queue q') (dq_internal_queue q @ [p]) \<and>
      (0 :: nat) = 0"
    by auto
qed (simp_all add: dq_empty_def dq_dequeue_law)

lemma drophead_enqueue_law:
  assumes "dq_inv_with n b q"
    and "qp_bytes (dq_internal_queue q @ [p]) + length (dq_internal_queue q @ [p]) < 2 ^ 31"
    and "drophead_enqueue p q = Inr q'"
  shows "dq_inv_with n b q' \<and> sublist (dq_internal_queue q') (dq_internal_queue q @ [p])"
proof -
  from assms(1) have q: "dq_inv q" "dq_packet_limit q = n" "dq_byte_limit q = b"
    by (simp_all add: dq_inv_with_def)
  have wf: "dq_wf (dq_accept p q)" using q(1) assms(2) by (simp add: dq_wf_accept dq_inv_def)
  then have "dq_wf (dq_pop (dq_accept p q))" by (simp add: dq_wf_pop)
  with wf assms(3) q show ?thesis
    by (auto simp: drophead_enqueue_eq [OF q(1) assms(2)] dq_inv_with_def dq_inv_def
        sublist_tl split: if_splits)
qed

interpretation drophead: packet_queue
  "\<lambda>_. drophead_enqueue" "\<lambda>_. dq_dequeue" dq_empty dq_internal_queue "dq_inv_with n b" qp_cost
  "\<lambda>_. 0" "2 ^ 31" for n b
proof unfold_locales
  fix q p q' assume "dq_inv_with n b q" "0 + sum_list (map qp_cost (dq_internal_queue q @ [p])) < 2 ^ 31"
    "drophead_enqueue p q = Inr q'"
  then show "dq_inv_with n b q' \<and> sublist (dq_internal_queue q') (dq_internal_queue q @ [p]) \<and>
      (0 :: nat) = 0"
    using drophead_enqueue_law [of n b q p q'] by (simp only: sum_qp_cost)
qed (simp_all add: dq_empty_def dq_dequeue_law)

text \<open>With a packet limit alone drop-head never aborts: one packet in, at most one out.\<close>

lemma drophead_enqueue_packets:
  assumes "dq_inv_with n 0 q" "n \<noteq> 0"
    and "qp_bytes (dq_internal_queue q @ [p]) + length (dq_internal_queue q @ [p]) < 2 ^ 31"
  shows "\<exists>q'. drophead_enqueue p q = Inr q' \<and>
    dq_internal_queue q' =
      drop (length (dq_internal_queue q @ [p]) - unat n) (dq_internal_queue q @ [p])"
proof -
  let ?ps = "dq_internal_queue q @ [p]"
  from assms(1) have q: "dq_inv q" "dq_packet_limit q = n" "dq_byte_limit q = 0"
    and len: "length (dq_internal_queue q) \<le> unat n"
    using assms(2) by (auto simp: dq_inv_with_def dq_inv_def dq_fits_def)
  have fits: "dq_fits q rs \<longleftrightarrow> length rs \<le> unat n" for rs
    using q assms(2) by (simp add: dq_fits_def)
  show ?thesis
  proof (cases "length ?ps \<le> unat n")
    case True
    then show ?thesis by (simp add: drophead_enqueue_eq [OF q(1) assms(3)] fits)
  next
    case False
    with len have "length (dq_internal_queue q) = unat n" by simp
    then show ?thesis
      by (simp add: drophead_enqueue_eq [OF q(1) assms(3)] fits drop_Suc del: drop_append)
  qed
qed

section \<open>Properties\<close>

text \<open>
  Every history of an \<open>InfinitePacketQueue\<close> runs to its end without an abort; what it hands
  out, followed by what it still holds, is exactly what was enqueued, in order; and its two
  counters are the bytes and the packets it holds.
\<close>
theorem infinite_queue_history:
  assumes "infinite_init args = Inr q0"
    and "qp_bytes (enqueued ops) + length (enqueued ops) < 2 ^ 31"
  shows "\<exists>out q'. run_ops (\<lambda>_. infinite_enqueue) (\<lambda>_. infinite_dequeue) infinite_empty ops q0
      = Inr (out, q') \<and> out @ iq_internal_queue q' = enqueued ops \<and>
    infinite_size_bytes q' = Inr (of_nat (qp_bytes (iq_internal_queue q'))) \<and>
    infinite_size_packets q' = Inr (of_nat (length (iq_internal_queue q')))"
proof -
  have q0: "iq_inv q0" "iq_internal_queue q0 = []"
    using assms(1) by (auto simp: infinite_init_def iq_inv_def split: if_splits)
  have cap: "0 + sum_list (map qp_cost (iq_internal_queue q0 @ enqueued ops)) < 2 ^ 31"
    using assms(2) q0 by (simp add: sum_qp_cost)
  from infinite.run_ops_total [OF q0(1) cap] obtain out q' where
    run: "run_ops (\<lambda>_. infinite_enqueue) (\<lambda>_. infinite_dequeue) infinite_empty ops q0
      = Inr (out, q')" by blast
  have "iq_inv q'" using infinite.run_ops_fifo [OF q0(1) cap run] by simp
  with run infinite.run_ops_lossless [OF q0(1) cap run] q0 show ?thesis
    by (auto simp: infinite_size_bytes_def infinite_size_packets_def iq_inv_def not_neg_small
        unat_of_nat_small)
qed

definition sample_packet :: "string \<Rightarrow> queued_packet" where
  "sample_packet s = mk_queued_packet s [] 0 0 0 0"

lemma sample_packet_contents [simp]: "qp_contents (sample_packet s) = s"
  by (simp add: sample_packet_def mk_queued_packet_def)

theorem infinite_queue_history_witness:
  "\<exists>out q'. run_ops (\<lambda>_::unit. infinite_enqueue) (\<lambda>_. infinite_dequeue) infinite_empty
      [Enq () (sample_packet ''ab''), Enq () (sample_packet ''c''), Deq ()]
      \<lparr>iq_internal_queue = [], iq_queue_size_in_bytes = 0, iq_queue_size_in_packets = 0\<rparr>
      = Inr (out, q') \<and> out @ iq_internal_queue q' = [sample_packet ''ab'', sample_packet ''c'']"
  using infinite_queue_history [of "[]" _
      "[Enq () (sample_packet ''ab''), Enq () (sample_packet ''c''), Deq ()]"]
  by (fastforce simp: infinite_init_def)

text \<open>
  C15. Every history of a \<open>DropTailPacketQueue\<close> built from its argument string runs to its end (no
  assertion of the class fails); what it hands out, followed by what it holds, is a subsequence of
  what was enqueued, in order; and what it holds respects the byte and the packet limit it was
  built with.
\<close>
theorem droptail_queue_history:
  assumes "dropping_init args = Inr q0"
    and "qp_bytes (enqueued ops) + length (enqueued ops) < 2 ^ 31"
  shows "\<exists>out q'. run_ops (\<lambda>_. droptail_enqueue) (\<lambda>_. dq_dequeue) dq_empty ops q0 = Inr (out, q') \<and>
    subseq (out @ dq_internal_queue q') (enqueued ops) \<and> dq_fits q0 (dq_internal_queue q')"
proof -
  let ?inv = "dq_inv_with (dq_packet_limit q0) (dq_byte_limit q0)"
  have q0: "?inv q0" "dq_internal_queue q0 = []"
    using dropping_init_inv [OF assms(1)] by (simp_all add: dq_inv_with_def)
  have cap: "0 + sum_list (map qp_cost (dq_internal_queue q0 @ enqueued ops)) < 2 ^ 31"
    using assms(2) q0 by (simp add: sum_qp_cost)
  from droptail.run_ops_total [OF q0(1) cap] obtain out q' where
    run: "run_ops (\<lambda>_. droptail_enqueue) (\<lambda>_. dq_dequeue) dq_empty ops q0 = Inr (out, q')" by blast
  from droptail.run_ops_fifo [OF q0(1) cap run] have "?inv q'"
    and "subseq (out @ dq_internal_queue q') (enqueued ops)" using q0(2) by auto
  with run show ?thesis by (auto simp: dq_inv_with_def dq_inv_def dq_fits_def)
qed

theorem droptail_queue_history_witness:
  "\<exists>q0. dropping_init ''bytes=3'' = Inr q0 \<and>
    (\<exists>out q'. run_ops (\<lambda>_::unit. droptail_enqueue) (\<lambda>_. dq_dequeue) dq_empty
      [Enq () (sample_packet ''ab''), Enq () (sample_packet ''cd''), Enq () (sample_packet ''e'')] q0
      = Inr (out, q') \<and> dq_fits q0 (dq_internal_queue q'))"
proof -
  define q0 :: dropping_packet_queue where "q0 = \<lparr>dq_queue_size_in_bytes = 0,
    dq_queue_size_in_packets = 0, dq_internal_queue = [], dq_packet_limit = 0, dq_byte_limit = 3\<rparr>"
  have q0: "dropping_init ''bytes=3'' = Inr q0"
    unfolding q0_def by code_simp
  show ?thesis
    using droptail_queue_history [OF q0, of "[Enq () (sample_packet ''ab''),
      Enq () (sample_packet ''cd''), Enq () (sample_packet ''e'')]"] q0
    by fastforce
qed

text \<open>
  C16. What \<open>DropHeadPacketQueue::enqueue\<close> does, on every branch: the newcomer joins the back if
  everything fits; otherwise exactly the oldest packet is dropped if that suffices; otherwise the
  process aborts on the assertion inside \<open>dequeue\<close>, since \<open>dequeue\<close> asserts the limits after each
  single removal.
\<close>
theorem drophead_enqueue_outcome:
  assumes "dq_inv q" and "qp_bytes (dq_internal_queue q @ [p]) + length (dq_internal_queue q @ [p]) < 2 ^ 31"
  shows "map_sum id dq_internal_queue (drophead_enqueue p q) =
    (let all = dq_internal_queue q @ [p]
     in if dq_fits q all then Inr all
        else if dq_fits q (tl all) then Inr (tl all) else Inl (Assert_Failed ''good()''))"
  using drophead_enqueue_eq [OF assms] by simp

theorem drophead_enqueue_outcome_witness:
  "\<exists>q. dropping_init ''bytes=3'' = Inr (q\<lparr>dq_internal_queue := [], dq_queue_size_in_bytes := 0,
        dq_queue_size_in_packets := 0\<rparr>) \<and>
     dq_internal_queue q = [sample_packet ''a'', sample_packet ''b'', sample_packet ''c''] \<and>
     map_sum id dq_internal_queue (drophead_enqueue (sample_packet ''dd'') q) =
       Inl (Assert_Failed ''good()'')"
proof -
  define q :: dropping_packet_queue where "q = \<lparr>dq_queue_size_in_bytes = 3,
    dq_queue_size_in_packets = 3, dq_internal_queue =
      [sample_packet ''a'', sample_packet ''b'', sample_packet ''c''],
    dq_packet_limit = 0, dq_byte_limit = 3\<rparr>"
  have "dropping_init ''bytes=3'' = Inr (q\<lparr>dq_internal_queue := [], dq_queue_size_in_bytes := 0,
        dq_queue_size_in_packets := 0\<rparr>)"
    unfolding q_def by code_simp
  moreover have "dq_inv q" by (simp add: q_def dq_inv_def dq_wf_def dq_fits_def)
  ultimately show ?thesis
    using drophead_enqueue_outcome [of q "sample_packet ''dd''"]
    by (intro exI [of _ q]) (simp add: q_def dq_fits_def)
qed

text \<open>
  With a packet limit and no byte limit, \<open>DropHeadPacketQueue::enqueue\<close> never aborts, and the
  queue holds afterwards the newest packets, as many as the limit allows.
\<close>
theorem drophead_keeps_newest:
  assumes "dq_inv q" "dq_byte_limit q = 0" "dq_packet_limit q \<noteq> 0"
    and "qp_bytes (dq_internal_queue q @ [p]) + length (dq_internal_queue q @ [p]) < 2 ^ 31"
  shows "\<exists>q'. drophead_enqueue p q = Inr q' \<and> dq_inv q' \<and>
    dq_internal_queue q' =
      drop (length (dq_internal_queue q @ [p]) - unat (dq_packet_limit q)) (dq_internal_queue q @ [p])"
proof -
  have i: "dq_inv_with (dq_packet_limit q) 0 q" using assms by (simp add: dq_inv_with_def)
  from drophead_enqueue_packets [OF i assms(3,4)] drophead_enqueue_law [OF i assms(4)]
  show ?thesis by (auto simp: dq_inv_with_def)
qed

theorem drophead_keeps_newest_witness:
  "\<exists>q'. drophead_enqueue (sample_packet ''cc'') \<lparr>dq_queue_size_in_bytes = 2,
      dq_queue_size_in_packets = 2, dq_internal_queue = [sample_packet ''a'', sample_packet ''b''],
      dq_packet_limit = 2, dq_byte_limit = 0\<rparr> = Inr q' \<and>
    dq_internal_queue q' = [sample_packet ''b'', sample_packet ''cc'']"
  using drophead_keeps_newest [of "\<lparr>dq_queue_size_in_bytes = 2,
      dq_queue_size_in_packets = 2, dq_internal_queue = [sample_packet ''a'', sample_packet ''b''],
      dq_packet_limit = 2, dq_byte_limit = 0\<rparr>" "sample_packet ''cc''"]
  by (auto simp: dq_inv_def dq_wf_def dq_fits_def)

text \<open>
  The description a dropping queue prints of itself, given back as its argument string, builds
  an empty queue with the same limits.
\<close>
theorem queue_description_roundtrip:
  assumes "dq_byte_limit q \<noteq> 0 \<or> dq_packet_limit q \<noteq> 0" "t = droptail_type \<or> t = drophead_type"
  shows "dropping_init (dq_to_string t q) =
    Inr \<lparr>dq_queue_size_in_bytes = 0, dq_queue_size_in_packets = 0, dq_internal_queue = [],
        dq_packet_limit = dq_packet_limit q, dq_byte_limit = dq_byte_limit q\<rparr>"
  using assms get_arg_printed [of t q] by (auto simp: dropping_init_def)

theorem queue_description_roundtrip_witness:
  "dropping_init (dq_to_string droptail_type \<lparr>dq_queue_size_in_bytes = 0,
      dq_queue_size_in_packets = 0, dq_internal_queue = [], dq_packet_limit = 100,
      dq_byte_limit = 1500\<rparr>) =
    Inr \<lparr>dq_queue_size_in_bytes = 0, dq_queue_size_in_packets = 0, dq_internal_queue = [],
        dq_packet_limit = 100, dq_byte_limit = 1500\<rparr> \<and>
   dq_to_string droptail_type \<lparr>dq_queue_size_in_bytes = 0,
      dq_queue_size_in_packets = 0, dq_internal_queue = [], dq_packet_limit = 100,
      dq_byte_limit = 1500\<rparr> = ''droptail [bytes=1500, packets=100]''"
proof
  show "dq_to_string droptail_type \<lparr>dq_queue_size_in_bytes = 0,
      dq_queue_size_in_packets = 0, dq_internal_queue = [], dq_packet_limit = 100,
      dq_byte_limit = 1500\<rparr> = ''droptail [bytes=1500, packets=100]''"
    by code_simp
qed (use queue_description_roundtrip [of "\<lparr>dq_queue_size_in_bytes = 0,
      dq_queue_size_in_packets = 0, dq_internal_queue = [], dq_packet_limit = 100,
      dq_byte_limit = 1500\<rparr>" droptail_type] in simp)

end
