(* ===== verification/Delay_Queue.thy ===== *)
theory Delay_Queue
  imports Main Prelude Packets "HOL-Library.Multiset"
begin

text \<open>
  The delay stage's \<open>std::priority_queue\<close> (\<open>src/frontend/cellular_queue.hh\<close>): packets ordered by
  \<open>DelayPktPairCmp\<close>, so that \<open>top\<close> is the packet with the least release time and, among equal
  release times, the least sequence number. The standard container is modelled as the list of its
  elements in the order it would hand them out. The interface is a locale in the style of a
  priority queue over multisets, for an order given as a key into a linear order; the key type is
  an instance of \<open>linorder\<close>.
\<close>

section \<open>The order\<close>

datatype delay_key = Delay_Key (key_release: u64) (key_sequence: u64)

instantiation delay_key :: linorder
begin

definition less_eq_delay_key :: "delay_key \<Rightarrow> delay_key \<Rightarrow> bool" where
  "less_eq_delay_key a b \<longleftrightarrow>
     key_release a < key_release b \<or>
     key_release a = key_release b \<and> key_sequence a \<le> key_sequence b"

definition less_delay_key :: "delay_key \<Rightarrow> delay_key \<Rightarrow> bool" where
  "less_delay_key a b \<longleftrightarrow>
     key_release a < key_release b \<or>
     key_release a = key_release b \<and> key_sequence a < key_sequence b"

instance
  by standard (auto simp: less_eq_delay_key_def less_delay_key_def delay_key.expand)

end

definition dp_key :: "delay_queue_packet \<Rightarrow> delay_key" where
  "dp_key p = Delay_Key (dp_release_time p) (dp_sequence_number p)"

definition DelayPktPairCmp :: "delay_queue_packet \<Rightarrow> delay_queue_packet \<Rightarrow> bool" where
  "DelayPktPairCmp lhs rhs =
     (if dp_release_time lhs = dp_release_time rhs
      then dp_sequence_number lhs > dp_sequence_number rhs
      else dp_release_time lhs > dp_release_time rhs)"

lemma DelayPktPairCmp_key: "DelayPktPairCmp lhs rhs \<longleftrightarrow> dp_key rhs < dp_key lhs"
  by (auto simp: DelayPktPairCmp_def dp_key_def less_delay_key_def)

section \<open>The container\<close>

text \<open>\<open>emplace\<close>: before the first element that the order puts after the newcomer.\<close>

fun pq_emplace :: "delay_queue_packet \<Rightarrow> delay_queue_packet list \<Rightarrow> delay_queue_packet list" where
  "pq_emplace p [] = [p]"
| "pq_emplace p (x # xs) =
     (if DelayPktPairCmp x p then p # x # xs else x # pq_emplace p xs)"

fun pq_top :: "delay_queue_packet list \<Rightarrow> delay_queue_packet res" where
  "pq_top [] = Inl (Undefined ''top of an empty priority_queue'')"
| "pq_top (p # ps) = Inr p"

fun pq_pop :: "delay_queue_packet list \<Rightarrow> delay_queue_packet list res" where
  "pq_pop [] = Inl (Undefined ''pop of an empty priority_queue'')"
| "pq_pop (p # ps) = Inr ps"

lemma mset_pq_emplace [simp]: "mset (pq_emplace p xs) = add_mset p (mset xs)"
  by (induction xs) auto

lemma set_pq_emplace [simp]: "set (pq_emplace p xs) = insert p (set xs)"
  by (induction xs) auto

lemma length_pq_emplace [simp]: "length (pq_emplace p xs) = Suc (length xs)"
  by (induction xs) auto

lemma sorted_pq_emplace:
  "sorted (map dp_key xs) \<Longrightarrow> sorted (map dp_key (pq_emplace p xs))"
  by (induction xs) (auto simp: DelayPktPairCmp_key not_less intro: less_imp_le order_trans)

text \<open>A packet that no element comes after goes to the back.\<close>

lemma pq_emplace_last:
  "\<forall>x \<in> set xs. dp_key x \<le> dp_key p \<Longrightarrow> pq_emplace p xs = xs @ [p]"
  by (induction xs) (auto simp: DelayPktPairCmp_key)

section \<open>The interface\<close>

fun drain :: "('q \<Rightarrow> 'a res) \<Rightarrow> ('q \<Rightarrow> 'q res) \<Rightarrow> nat \<Rightarrow> 'q \<Rightarrow> 'a list res" where
  "drain front rest 0 q = Inr []"
| "drain front rest (Suc n) q =
     andThen (front q) (\<lambda>x.
     andThen (rest q) (\<lambda>q'.
     andThen (drain front rest n q') (\<lambda>xs. Inr (x # xs))))"

locale priority_queue =
  fixes emplace :: "'a \<Rightarrow> 'q \<Rightarrow> 'q"
    and front :: "'q \<Rightarrow> 'a res"
    and rest :: "'q \<Rightarrow> 'q res"
    and elements :: "'q \<Rightarrow> 'a multiset"
    and inv :: "'q \<Rightarrow> bool"
    and key :: "'a \<Rightarrow> 'k :: linorder"
  assumes emplace_elements: "inv q \<Longrightarrow> elements (emplace x q) = add_mset x (elements q)"
    and emplace_inv: "inv q \<Longrightarrow> inv (emplace x q)"
    and front_least: "inv q \<Longrightarrow> elements q \<noteq> {#} \<Longrightarrow>
      \<exists>x q'. front q = Inr x \<and> rest q = Inr q' \<and> inv q' \<and>
        elements q = add_mset x (elements q') \<and> (\<forall>y \<in># elements q'. key x \<le> key y)"
begin

text \<open>Emptying the queue hands everything out, by ascending key.\<close>

lemma drain_sorted:
  "inv q \<Longrightarrow> n = size (elements q) \<Longrightarrow>
   \<exists>xs. drain front rest n q = Inr xs \<and> mset xs = elements q \<and> sorted (map key xs)"
proof (induction n arbitrary: q)
  case 0
  then show ?case by simp
next
  case (Suc n)
  then have "elements q \<noteq> {#}" by auto
  from front_least [OF Suc.prems(1) this] obtain x q' where q': "front q = Inr x" "rest q = Inr q'"
    "inv q'" "elements q = add_mset x (elements q')" "\<forall>y \<in># elements q'. key x \<le> key y" by blast
  with Suc.prems have "n = size (elements q')" by simp
  from Suc.IH [OF q'(3) this] obtain xs where
    xs: "drain front rest n q' = Inr xs" "mset xs = elements q'" "sorted (map key xs)" by blast
  from xs(2) q'(5) have "\<forall>y \<in> set xs. key x \<le> key y" by (metis set_mset_mset)
  with xs q' show ?case by simp
qed

end

lemma pq_top_least:
  assumes "sorted (map dp_key xs)" "xs \<noteq> []"
  shows "\<exists>x xs'. pq_top xs = Inr x \<and> pq_pop xs = Inr xs' \<and> sorted (map dp_key xs') \<and>
    mset xs = add_mset x (mset xs') \<and> (\<forall>y \<in># mset xs'. dp_key x \<le> dp_key y)"
  using assms by (cases xs) auto

interpretation delay_pq: priority_queue
  pq_emplace pq_top pq_pop mset "\<lambda>xs. sorted (map dp_key xs)" dp_key
  by unfold_locales (auto intro: sorted_pq_emplace dest: pq_top_least)

section \<open>Property\<close>

lemma fold_emplace:
  "sorted (map dp_key q) \<Longrightarrow>
   sorted (map dp_key (fold pq_emplace ps q)) \<and> mset (fold pq_emplace ps q) = mset ps + mset q"
  by (induction ps arbitrary: q) (simp_all add: sorted_pq_emplace)

text \<open>
  C17. Whatever order packets are put into the delay queue in, it hands all of them out, by ascending
  release time and, among equal release times, in the order they were numbered.
\<close>

theorem delay_queue_order:
  "\<exists>xs. drain pq_top pq_pop (length ps) (fold pq_emplace ps []) = Inr xs \<and> mset xs = mset ps \<and>
     sorted (map dp_key xs)"
proof -
  have q: "sorted (map dp_key (fold pq_emplace ps []))" "mset (fold pq_emplace ps []) = mset ps"
    using fold_emplace [of "[]" ps] by simp_all
  then have "length ps = size (mset (fold pq_emplace ps []))" by simp
  from delay_pq.drain_sorted [OF q(1) this] q(2) show ?thesis by simp
qed

end
