(* ===== verification/Link_Packet_Queue.thy ===== *)
theory Link_Packet_Queue
  imports Main Prelude Packets Packet_Queues
begin

text \<open>
  The link queue's \<open>unique_ptr<AbstractPacketQueue>\<close> (\<open>src/packet/abstract_packet_queue.hh\<close>): one
  constructor per class that \<open>get_packet_queue\<close> of \<open>src/frontend/cellularshell.cc\<close> can build, and
  each virtual call as a dispatch over them.
\<close>

datatype abstract_packet_queue =
    InfinitePacketQueue infinite_packet_queue
  | DropTailPacketQueue dropping_packet_queue
  | DropHeadPacketQueue dropping_packet_queue

fun apq_enqueue :: "queued_packet \<Rightarrow> abstract_packet_queue \<Rightarrow> abstract_packet_queue res" where
  "apq_enqueue p (InfinitePacketQueue q) =
     andThen (infinite_enqueue p q) (\<lambda>q'. Inr (InfinitePacketQueue q'))"
| "apq_enqueue p (DropTailPacketQueue q) =
     andThen (droptail_enqueue p q) (\<lambda>q'. Inr (DropTailPacketQueue q'))"
| "apq_enqueue p (DropHeadPacketQueue q) =
     andThen (drophead_enqueue p q) (\<lambda>q'. Inr (DropHeadPacketQueue q'))"

fun apq_dequeue :: "abstract_packet_queue \<Rightarrow> (queued_packet \<times> abstract_packet_queue) res" where
  "apq_dequeue (InfinitePacketQueue q) =
     andThen (infinite_dequeue q) (\<lambda>(p, q'). Inr (p, InfinitePacketQueue q'))"
| "apq_dequeue (DropTailPacketQueue q) =
     andThen (dq_dequeue q) (\<lambda>(p, q'). Inr (p, DropTailPacketQueue q'))"
| "apq_dequeue (DropHeadPacketQueue q) =
     andThen (dq_dequeue q) (\<lambda>(p, q'). Inr (p, DropHeadPacketQueue q'))"

fun apq_empty :: "abstract_packet_queue \<Rightarrow> bool" where
  "apq_empty (InfinitePacketQueue q) = infinite_empty q"
| "apq_empty (DropTailPacketQueue q) = dq_empty q"
| "apq_empty (DropHeadPacketQueue q) = dq_empty q"

fun apq_to_string :: "abstract_packet_queue \<Rightarrow> string" where
  "apq_to_string (InfinitePacketQueue q) = infinite_to_string q"
| "apq_to_string (DropTailPacketQueue q) = dq_to_string droptail_type q"
| "apq_to_string (DropHeadPacketQueue q) = dq_to_string drophead_type q"

text \<open>
  \<open>get_packet_queue\<close>. An unknown type ends in \<open>usage_error\<close>, which prints the usage and throws.
\<close>

definition usage_error :: "string \<Rightarrow> 'a res" where
  "usage_error program_name = Inl (Runtime_Error ''invalid arguments'')"

definition get_packet_queue :: "string \<Rightarrow> string \<Rightarrow> string \<Rightarrow> abstract_packet_queue res" where
  "get_packet_queue type_name args program_name =
     (if type_name = ''infinite'' then
        andThen (infinite_init args) (\<lambda>q. Inr (InfinitePacketQueue q))
      else if type_name = ''droptail'' then
        andThen (dropping_init args) (\<lambda>q. Inr (DropTailPacketQueue q))
      else if type_name = ''drophead'' then
        andThen (dropping_init args) (\<lambda>q. Inr (DropHeadPacketQueue q))
      else usage_error program_name)"

section \<open>What the link relies on\<close>

fun apq_held :: "abstract_packet_queue \<Rightarrow> queued_packet list" where
  "apq_held (InfinitePacketQueue q) = iq_internal_queue q"
| "apq_held (DropTailPacketQueue q) = dq_internal_queue q"
| "apq_held (DropHeadPacketQueue q) = dq_internal_queue q"

fun apq_inv :: "abstract_packet_queue \<Rightarrow> bool" where
  "apq_inv (InfinitePacketQueue q) = iq_inv q"
| "apq_inv (DropTailPacketQueue q) = dq_inv q"
| "apq_inv (DropHeadPacketQueue q) = dq_inv q"

fun lossless_apq :: "abstract_packet_queue \<Rightarrow> bool" where
  "lossless_apq (InfinitePacketQueue q) = True"
| "lossless_apq (DropTailPacketQueue q) = False"
| "lossless_apq (DropHeadPacketQueue q) = False"

lemma dq_inv_with_self: "dq_inv q = dq_inv_with (dq_packet_limit q) (dq_byte_limit q) q"
  by (simp add: dq_inv_with_def)

lemma apq_dequeue_law:
  assumes "apq_inv q" "apq_held q = p # ps"
  shows "\<exists>q'. apq_dequeue q = Inr (p, q') \<and> apq_inv q' \<and> apq_held q' = ps \<and>
    lossless_apq q' = lossless_apq q"
proof (cases q)
  case (InfinitePacketQueue i)
  then have "iq_inv i" "iq_internal_queue i = p # ps" using assms by simp_all
  then show ?thesis using InfinitePacketQueue
    by (auto simp: infinite_dequeue_Cons iq_inv_def)
next
  case (DropTailPacketQueue d)
  then have "dq_inv d" "dq_internal_queue d = p # ps" using assms by simp_all
  then show ?thesis using DropTailPacketQueue dq_dequeue_inv [of d p ps]
    by auto
next
  case (DropHeadPacketQueue d)
  then have "dq_inv d" "dq_internal_queue d = p # ps" using assms by simp_all
  then show ?thesis using DropHeadPacketQueue dq_dequeue_inv [of d p ps]
    by auto
qed

lemma apq_empty_held: "apq_empty q \<longleftrightarrow> apq_held q = []"
  by (cases q) (simp_all add: infinite_empty_def dq_empty_def)

lemma apq_enqueue_law:
  assumes "apq_inv q" "qp_bytes (apq_held q @ [p]) + length (apq_held q @ [p]) < 2 ^ 31"
    and "apq_enqueue p q = Inr q'"
  shows "apq_inv q' \<and> sublist (apq_held q') (apq_held q @ [p])"
proof (cases q)
  case (InfinitePacketQueue i)
  then show ?thesis using assms by (auto simp: infinite_enqueue_def iq_inv_def add.commute)
next
  case (DropTailPacketQueue d)
  with assms have d: "dq_inv_with (dq_packet_limit d) (dq_byte_limit d) d"
    "qp_bytes (dq_internal_queue d @ [p]) + length (dq_internal_queue d @ [p]) < 2 ^ 31"
    by (simp_all only: apq_inv.simps apq_held.simps dq_inv_with_self)
  from assms(3) DropTailPacketQueue obtain d' where d': "droptail_enqueue p d = Inr d'"
    "q' = DropTailPacketQueue d'" by (auto simp: andThen_Inr_iff)
  from droptail_enqueue_law [OF d] d' DropTailPacketQueue show ?thesis
    by (auto simp: dq_inv_with_def)
next
  case (DropHeadPacketQueue d)
  with assms have d: "dq_inv_with (dq_packet_limit d) (dq_byte_limit d) d"
    "qp_bytes (dq_internal_queue d @ [p]) + length (dq_internal_queue d @ [p]) < 2 ^ 31"
    by (simp_all only: apq_inv.simps apq_held.simps dq_inv_with_self)
  from assms(3) DropHeadPacketQueue obtain d' where d': "drophead_enqueue p d = Inr d'"
    "q' = DropHeadPacketQueue d'" by (auto simp: andThen_Inr_iff)
  from drophead_enqueue_law [OF d d'(1)] d'(2) DropHeadPacketQueue show ?thesis
    by (auto simp: dq_inv_with_def)
qed

lemma apq_enqueue_lossless:
  assumes "apq_inv q" "qp_bytes (apq_held q @ [p]) + length (apq_held q @ [p]) < 2 ^ 31"
    and "lossless_apq q"
  shows "\<exists>q'. apq_enqueue p q = Inr q' \<and> apq_inv q' \<and> apq_held q' = apq_held q @ [p] \<and>
    lossless_apq q'"
  using assms
  by (cases q) (auto simp: infinite_enqueue_def iq_inv_def add.commute)

interpretation apq: packet_queue
  "\<lambda>_. apq_enqueue" "\<lambda>_. apq_dequeue" apq_empty apq_held apq_inv qp_cost "\<lambda>_. 0" "2 ^ 31"
proof unfold_locales
  fix q p q' assume "apq_inv q" "0 + sum_list (map qp_cost (apq_held q @ [p])) < 2 ^ 31"
    "apq_enqueue p q = Inr q'"
  then show "apq_inv q' \<and> sublist (apq_held q') (apq_held q @ [p]) \<and> (0 :: nat) = 0"
    using apq_enqueue_law [of q p q'] by (simp only: sum_qp_cost)
next
  fix q p ps assume "apq_inv q" "apq_held q = p # ps"
  then show "\<exists>q'. apq_dequeue q = Inr (p, q') \<and> apq_inv q' \<and> suffix (apq_held q') ps \<and>
      0 + sum_list (map qp_cost (apq_held q')) \<le> 0 + sum_list (map qp_cost (apq_held q))"
    using apq_dequeue_law [of q p ps] by fastforce
qed (rule apq_empty_held)

lemma get_packet_queue_inv:
  "get_packet_queue t args prog = Inr q \<Longrightarrow> apq_inv q \<and> apq_held q = []"
  using dropping_init_inv
  by (fastforce simp: get_packet_queue_def usage_error_def andThen_Inr_iff infinite_init_def
      iq_inv_def split: if_splits)

end
