(* ===== verification/Cellular_State.thy ===== *)
theory Cellular_State
  imports Main Prelude Ezio Kernel Packets Link_Packet_Queue
begin

text \<open>
  The state of \<open>CellularQueue\<close> (\<open>src/frontend/cellular_queue.hh\<close>) and its constructor
  (\<open>src/frontend/cellular_queue.cc\<close>), which reads the three trace files. The state is one record in
  three extensions that follow the sections of the class: the link stage (heavy PDO schedule), the
  delay stage (base delay and light PDOs), the rest. A function of the link stage is defined on
  every extension of it, so what it leaves alone is the \<open>more\<close> part.
\<close>

section \<open>The state\<close>

record link_stage =
  next_delivery :: u32
  heavy_pdo_schedule :: "u64 list"
  link_base_timestamp :: u64
  link_packet_queue :: abstract_packet_queue \<comment> \<open>\<open>packet_queue_\<close>\<close>
  packet_in_transit :: queued_packet
  packet_in_transit_bytes_left :: u32
  output_queue :: "queued_packet list"
  current_link_queue_size :: u32
  repeat_trace :: bool \<comment> \<open>\<open>repeat_\<close>\<close>
  trace_finished :: bool \<comment> \<open>\<open>finished_\<close>\<close>

record delay_pdo_instance =
  pdo_time :: u64
  pdo_delay :: i32
  pdo_list :: "i32 list" \<comment> \<open>\<open>pdo\<close>\<close>

definition DelayPDOInstance :: "u64 \<Rightarrow> i32 \<Rightarrow> i32 list \<Rightarrow> delay_pdo_instance" where
  "DelayPDOInstance t d ps = \<lparr>pdo_time = t, pdo_delay = d, pdo_list = ps\<rparr>"

record delay_stage = link_stage +
  delay_pdo_traces :: "delay_pdo_instance list"
  delay_base_timestamp :: u64
  start_tick :: bool
  end_release_time :: u64
  curr_delivery_opportunity :: i32
  delay_packet_queue :: "delay_queue_packet list" \<comment> \<open>in the order it hands out\<close>
  current_delay_pdo_idx :: u32
  current_pdo_idx :: u32
  current_pdo_size :: u32
  pdo_base_timestamp :: u64
  current_base_delay :: i32
  bypass_link_pdo :: bool
  long_to_short_timer :: i32
  last_delay_queue_release_time :: u64

record cellular_queue = delay_stage +
  packet_log_enabled :: bool
  is_uplink :: bool \<comment> \<open>\<open>uplink_\<close>\<close>
  start_timestamp :: u64
  packet_log_path_prefix :: string
  packet_logs :: "string list" \<comment> \<open>the lines written to the log\<close>
  pkt_counter :: u64
  last_received_packet_time :: u64
  loss_rate :: rat
  psize_latency_offset :: "rat list"

definition PACKET_SIZE :: nat where "PACKET_SIZE = 1400"

section \<open>Reading the traces\<close>

text \<open>The heavy PDO trace: one timestamp per line.\<close>

fun read_heavy_lines :: "string \<Rightarrow> u64 \<Rightarrow> string list \<Rightarrow> u64 list \<Rightarrow> u64 list res" where
  "read_heavy_lines fname start [] schedule = Inr schedule"
| "read_heavy_lines fname start (line # ls) schedule =
     (if line = [] then Inl (Runtime_Error (fname @ '': invalid empty line''))
      else andThen (myatoi line 10) (\<lambda>ms.
        if start \<le> ms then
          (if schedule \<noteq> [] \<and> ms - start < last schedule then
             Inl (Runtime_Error (fname @ '': timestamps must be monotonically nondecreasing''))
           else read_heavy_lines fname start ls (schedule @ [ms - start]))
        else read_heavy_lines fname start ls schedule))"

definition read_heavy_trace :: "world \<Rightarrow> string \<Rightarrow> u64 \<Rightarrow> u64 list res" where
  "read_heavy_trace w fname start =
     (case w_files w fname of
        None \<Rightarrow> Inl (Runtime_Error (fname @ '': error opening for reading''))
      | Some text \<Rightarrow>
          andThen (read_heavy_lines fname start (getlines newline text) []) (\<lambda>schedule.
            if schedule = [] then Inl (Runtime_Error (fname @ '': no valid timestamps found''))
            else if last schedule = 0 then
              Inl (Runtime_Error (fname @ '': trace must last for a nonzero amount of time''))
            else Inr schedule))"

text \<open>The packet train trace: timestamp, base delay, light PDOs, separated by spaces.\<close>

fun read_train_words :: "string list \<Rightarrow> nat \<Rightarrow> u64 \<Rightarrow> i32 \<Rightarrow> i32 list \<Rightarrow> (u64 \<times> i32 \<times> i32 list) res" where
  "read_train_words [] col time_ms delay pdos = Inr (time_ms, delay, pdos)"
| "read_train_words (word # ws) col time_ms delay pdos =
     andThen (myatoi word 10) (\<lambda>v.
       if col = 0 then read_train_words ws (col + 1) v delay pdos
       else if col = 1 then read_train_words ws (col + 1) time_ms (ucast v) pdos
       else read_train_words ws (col + 1) time_ms delay (pdos @ [ucast v]))"

fun read_train_lines ::
    "string \<Rightarrow> u64 \<Rightarrow> string list \<Rightarrow> delay_pdo_instance list \<Rightarrow> delay_pdo_instance list res" where
  "read_train_lines fname start [] traces = Inr traces"
| "read_train_lines fname start (line # ls) traces =
     (if line = [] then Inl (Runtime_Error (fname @ '': invalid empty line''))
      else andThen (read_train_words (getlines (CHR '' '') line) 0 0 (-1) []) (\<lambda>(time_ms, delay, pdos).
        andThen (assertE (0 \<le> sint delay) ''first_packet_delay_ms >= 0'') (\<lambda>_.
        if start \<le> time_ms then
          (if traces \<noteq> [] \<and> time_ms - start < pdo_time (last traces) then
             Inl (Runtime_Error (fname @ '': timestamps must be monotonically nondecreasing''))
           else read_train_lines fname start ls
                  (traces @ [DelayPDOInstance (time_ms - start) delay pdos]))
        else read_train_lines fname start ls traces)))"

definition read_train_trace :: "world \<Rightarrow> string \<Rightarrow> u64 \<Rightarrow> delay_pdo_instance list res" where
  "read_train_trace w fname start =
     (case w_files w fname of
        None \<Rightarrow> Inl (Runtime_Error (fname @ '': error opening for reading''))
      | Some text \<Rightarrow>
          andThen (read_train_lines fname start (getlines newline text) []) (\<lambda>traces.
            if length traces \<le> 2 then
              Inl (Runtime_Error (fname @ '': there should be at least three lines''))
            else Inr traces))"

text \<open>The packet size latency offsets: 100, 200, ... bytes, one per line.\<close>

fun read_offset_words :: "string \<Rightarrow> string list \<Rightarrow> nat \<Rightarrow> i32 \<Rightarrow> rat list \<Rightarrow> (i32 \<times> rat list) res" where
  "read_offset_words fname [] num curr_size offsets = Inr (curr_size, offsets)"
| "read_offset_words fname (word # ws) num curr_size offsets =
     (if num = 0 then
        andThen (myatoi word 10) (\<lambda>psize.
          if (ucast psize :: i32) \<noteq> curr_size then
            Inl (Runtime_Error (fname @ '': packet size latency offset should be an increment of 100 bytes and start from 100 bytes''))
          else read_offset_words fname ws (num + 1) (curr_size + 100) offsets)
      else if num = 1 then
        andThen (myatof word) (\<lambda>offset.
          read_offset_words fname ws (num + 1) curr_size (offsets @ [offset]))
      else read_offset_words fname ws (num + 1) curr_size offsets)"

fun read_offset_lines :: "string \<Rightarrow> string list \<Rightarrow> i32 \<Rightarrow> rat list \<Rightarrow> rat list res" where
  "read_offset_lines fname [] curr_size offsets = Inr offsets"
| "read_offset_lines fname (line # ls) curr_size offsets =
     andThen (read_offset_words fname (getlines (CHR '' '') line) 0 curr_size offsets)
       (\<lambda>(curr_size, offsets). read_offset_lines fname ls curr_size offsets)"

definition read_offset_file :: "world \<Rightarrow> string \<Rightarrow> rat list res" where
  "read_offset_file w fname =
     (if fname = [] then Inr []
      else case w_files w fname of
        None \<Rightarrow> Inl (Runtime_Error (fname @ '': error opening for reading''))
      | Some text \<Rightarrow> read_offset_lines fname (getlines newline text) 100 [])"

section \<open>The log\<close>

fun join_tab :: "string list \<Rightarrow> string" where
  "join_tab [] = []"
| "join_tab [s] = s"
| "join_tab (s # t # ss) = s @ tab # join_tab (t # ss)"

definition log_header :: "string \<Rightarrow> string \<Rightarrow> string list" where
  "log_header train_name heavy_name =
     [''Packet train trace filename='' @ train_name, ''Link filename='' @ heavy_name,
      ''Seq_num '' @ tab # '' packet_ip_port '' @ tab # '' arrival_time_ms '' @ tab #
      '' relase_time_ms '' @ tab # '' total_delay_ms '' @ tab # '' is_lightPDO_only '' @ tab #
      '' heavyPDO_queue_delay'']"

definition open_packet_log :: "world \<Rightarrow> string \<Rightarrow> bool \<Rightarrow> string \<Rightarrow> string \<Rightarrow> (bool \<times> string list) res" where
  \<comment> \<open>\<open>packet_log_enabled_\<close> and what the log holds\<close>
  "open_packet_log w path_prefix up train_name heavy_name =
     (if path_prefix = [] then Inr (False, [])
      else
        let fname = path_prefix @ ''/packet-log-'' @ (if up then ''uplink'' else ''downlink'')
        in if \<not> w_creatable w fname then
             Inl (Runtime_Error (fname @ '': error opening for writing''))
           else Inr (True, log_header train_name heavy_name))"

section \<open>The constructor\<close>

definition CellularQueue ::
    "string \<Rightarrow> string \<Rightarrow> string \<Rightarrow> bool \<Rightarrow> abstract_packet_queue \<Rightarrow> bool \<Rightarrow> u64 \<Rightarrow> rat \<Rightarrow> string \<Rightarrow> i32 \<Rightarrow>
     world \<Rightarrow> (cellular_queue \<times> world) res" where
  \<comment> \<open>\<open>link_name\<close> and \<open>command_line\<close> are not used\<close>
  "CellularQueue train_name heavy_name log_prefix rep queue up start loss offset_name timer w =
     andThen (timestamp w) (\<lambda>(link_base, w).
     andThen (timestamp w) (\<lambda>(delay_base, w).
     andThen (assert_not_root w) (\<lambda>_.
     andThen (read_heavy_trace w heavy_name start) (\<lambda>schedule.
     andThen (read_train_trace w train_name start) (\<lambda>traces.
     andThen (open_packet_log w log_prefix up train_name heavy_name) (\<lambda>(enabled, logs).
     andThen (read_offset_file w offset_name) (\<lambda>offsets.
     Inr (\<lparr>next_delivery = 0, heavy_pdo_schedule = schedule, link_base_timestamp = link_base,
           link_packet_queue = queue, packet_in_transit = queued_packet_empty [] 0,
           packet_in_transit_bytes_left = 0, output_queue = [], current_link_queue_size = 0,
           repeat_trace = rep, trace_finished = False,
           delay_pdo_traces = traces, delay_base_timestamp = delay_base, start_tick = False,
           end_release_time = 0, curr_delivery_opportunity = of_nat PACKET_SIZE,
           delay_packet_queue = [],
           current_delay_pdo_idx = 0, current_pdo_idx = 0, current_pdo_size = 1,
           pdo_base_timestamp = 0, current_base_delay = -1, bypass_link_pdo = True,
           long_to_short_timer = timer, last_delay_queue_release_time = 0,
           packet_log_enabled = enabled, is_uplink = up, start_timestamp = start,
           packet_log_path_prefix = log_prefix, packet_logs = logs, pkt_counter = 0,
           last_received_packet_time = 0, loss_rate = loss, psize_latency_offset = offsets\<rparr>,
          w))))))))"

end
