(* ===== verification/Link_Queue.thy ===== *)
theory Link_Queue
  imports Main Prelude Packets Link_Packet_Queue Cellular_State
begin

text \<open>
  The link stage of \<open>src/frontend/cellular_queue.cc\<close>: a schedule of delivery opportunities, each of
  which lets up to \<open>PACKET_SIZE\<close> bytes of the link's packet queue through. \<open>rationalize\<close> replays
  the opportunities up to a time; its outer loop is a \<open>partial_function\<close>, whose value \<open>None\<close> would
  be a call that never returns, its inner loop a \<open>function\<close> that ends because an opportunity's
  bytes run out. The lemmas show that the calls return, abort on none of the four assertions, keep
  the order of the packets, and use exactly the opportunities of the trace.
\<close>

section \<open>The operations\<close>

definition next_delivery_time :: "'a link_stage_scheme \<Rightarrow> u64 res" where
  "next_delivery_time l =
     (if trace_finished l then Inr (-1)
      else andThen (atE (heavy_pdo_schedule l) (unat (next_delivery l)))
             (\<lambda>t. Inr (t + link_base_timestamp l)))"

definition use_a_delivery_opportunity :: "'a link_stage_scheme \<Rightarrow> 'a link_stage_scheme res" where
  "use_a_delivery_opportunity l =
     (if heavy_pdo_schedule l = [] then Inl (Undefined ''modulo zero'')
      else
        let l' = l\<lparr>next_delivery :=
                    of_nat (unat (next_delivery l + 1) mod length (heavy_pdo_schedule l))\<rparr>
        in Inr (if next_delivery l' = 0 then
                  (if repeat_trace l' then
                     l'\<lparr>link_base_timestamp :=
                         link_base_timestamp l' + last (heavy_pdo_schedule l')\<rparr>
                   else l'\<lparr>trace_finished := True\<rparr>)
                else l'))"

text \<open>The body of the inner loop: \<open>None\<close> is the \<open>break\<close> on an empty queue.\<close>

definition link_fetch :: "'a link_stage_scheme \<Rightarrow> 'a link_stage_scheme option res" where
  "link_fetch l =
     (if packet_in_transit_bytes_left l = 0 then
        (if apq_empty (link_packet_queue l) then Inr None
         else andThen (apq_dequeue (link_packet_queue l)) (\<lambda>(p, q).
           Inr (Some (l\<lparr>link_packet_queue := q, packet_in_transit := p,
                        packet_in_transit_bytes_left := of_nat (length (qp_contents p))\<rparr>))))
      else Inr (Some l))"

definition link_send :: "u64 \<Rightarrow> u32 \<Rightarrow> 'a link_stage_scheme \<Rightarrow> (u32 \<times> 'a link_stage_scheme) res" where
  "link_send this_delivery_time bytes_left l =
     andThen (assertE (qp_arrival_time (packet_in_transit l) \<le> this_delivery_time)
       ''packet_in_transit_.arrival_time <= this_delivery_time'') (\<lambda>_.
     andThen (assertE (unat (packet_in_transit_bytes_left l) \<le> PACKET_SIZE)
       ''packet_in_transit_bytes_left_ <= PACKET_SIZE'') (\<lambda>_.
     andThen (assertE (packet_in_transit_bytes_left l > 0)
       ''packet_in_transit_bytes_left_ > 0'') (\<lambda>_.
     andThen (assertE (unat (packet_in_transit_bytes_left l)
                         \<le> length (qp_contents (packet_in_transit l)))
       ''packet_in_transit_bytes_left_ <= packet_in_transit_.contents.size()'') (\<lambda>_.
     let amount_to_send = min bytes_left (packet_in_transit_bytes_left l);
         l' = l\<lparr>packet_in_transit_bytes_left := packet_in_transit_bytes_left l - amount_to_send\<rparr>
     in Inr (bytes_left - amount_to_send,
             if packet_in_transit_bytes_left l' = 0
             then l'\<lparr>output_queue := output_queue l' @ [packet_in_transit l']\<rparr> else l')))))"

lemma link_send_less:
  assumes "link_send t bl l = Inr (bl', l')" "bl \<noteq> 0"
  shows "unat bl' < unat bl"
proof -
  let ?a = "min bl (packet_in_transit_bytes_left l)"
  from assms(1) have a: "bl' = bl - ?a" "packet_in_transit_bytes_left l > 0"
    by (auto simp: link_send_def andThen_Inr_iff Let_def)
  with assms(2) have "?a \<le> bl" "0 < ?a" by (auto simp: min_def word_greater_zero_iff)
  then have "unat ?a \<le> unat bl" "0 < unat ?a" "unat bl' = unat bl - unat ?a"
    using a(1) by (simp_all only: unat_diff_le word_le_nat_alt word_less_nat_alt unat_0)
  then show ?thesis by linarith
qed

function deliver :: "u64 \<Rightarrow> u32 \<Rightarrow> 'a link_stage_scheme \<Rightarrow> 'a link_stage_scheme res" where
  "deliver this_delivery_time bytes_left l =
     (if bytes_left = 0 then Inr l
      else andThen (link_fetch l) (\<lambda>r.
        case r of
          None \<Rightarrow> Inr l
        | Some l1 \<Rightarrow> andThen (link_send this_delivery_time bytes_left l1) (\<lambda>(bytes_left', l2).
            deliver this_delivery_time bytes_left' l2)))"
  by pat_completeness auto
termination
  by (relation "measure (\<lambda>(t, bl, l). unat bl)") (auto dest: link_send_less)

declare deliver.simps [simp del]

text \<open>One turn of the outer loop: \<open>None\<close> when its condition fails.\<close>

definition rationalize_step :: "u64 \<Rightarrow> 'a link_stage_scheme \<Rightarrow> 'a link_stage_scheme option res" where
  "rationalize_step now l =
     andThen (next_delivery_time l) (\<lambda>this_delivery_time.
       if this_delivery_time \<le> now then
         andThen (use_a_delivery_opportunity l) (\<lambda>l1.
         andThen (deliver this_delivery_time (of_nat PACKET_SIZE) l1) (\<lambda>l2. Inr (Some l2)))
       else Inr None)"

partial_function (option) rationalize ::
    "u64 \<Rightarrow> 'a link_stage_scheme \<Rightarrow> 'a link_stage_scheme res option" where
  "rationalize now l =
     (case rationalize_step now l of
        Inl e \<Rightarrow> Some (Inl e)
      | Inr r \<Rightarrow> (case r of None \<Rightarrow> Some (Inr l) | Some l' \<Rightarrow> rationalize now l'))"

definition put_packet_to_link_queue ::
    "u64 \<Rightarrow> delay_queue_packet \<Rightarrow> 'a link_stage_scheme \<Rightarrow> 'a link_stage_scheme res option" where
  "put_packet_to_link_queue now packet l =
     (if PACKET_SIZE < length (dp_contents packet) then
        Some (Inl (Runtime_Error ''packet size is greater than maximum''))
      else andThenO (rationalize now l) (\<lambda>l1. Some (
        andThen (apq_enqueue (mk_queued_packet (dp_contents packet) (dp_ip_port_info packet)
            (dp_arrival_time packet) now (dp_sequence_number packet) (dp_release_time packet))
            (link_packet_queue l1))
          (\<lambda>q. Inr (l1\<lparr>link_packet_queue := q,
                       current_link_queue_size := current_link_queue_size l1 + 1\<rparr>)))))"

section \<open>What the link holds\<close>

text \<open>The packets inside the link, first to leave first.\<close>

definition in_transit :: "'a link_stage_scheme \<Rightarrow> queued_packet list" where
  "in_transit l = (if packet_in_transit_bytes_left l = 0 then [] else [packet_in_transit l])"

definition link_contents :: "'a link_stage_scheme \<Rightarrow> queued_packet list" where
  "link_contents l = output_queue l @ in_transit l @ apq_held (link_packet_queue l)"

text \<open>The bytes that still need delivery opportunities.\<close>

definition backlog :: "'a link_stage_scheme \<Rightarrow> nat" where
  "backlog l = unat (packet_in_transit_bytes_left l) + qp_bytes (apq_held (link_packet_queue l))"

text \<open>The time of the \<open>j\<close>-th opportunity to come, on a repeated trace.\<close>

definition delivery_time :: "'a link_stage_scheme \<Rightarrow> nat \<Rightarrow> nat" where
  "delivery_time l j =
     (let n = length (heavy_pdo_schedule l); i = unat (next_delivery l) + j
      in unat (link_base_timestamp l) + (i div n) * unat (last (heavy_pdo_schedule l))
         + unat (heavy_pdo_schedule l ! (i mod n)))"

definition schedule_ok :: "u64 list \<Rightarrow> bool" where
  "schedule_ok s \<longleftrightarrow>
     s \<noteq> [] \<and> sorted s \<and> 0 < unat (last s) \<and> unat (last s) < 2 ^ 62 \<and> length s < 2 ^ 32"

definition link_packet_ok :: "queued_packet \<Rightarrow> bool" where
  "link_packet_ok p \<longleftrightarrow> 0 < length (qp_contents p) \<and> length (qp_contents p) \<le> PACKET_SIZE"

text \<open>
  The invariant: the schedule is one the constructor accepts, the packets are not empty and not
  too big, and no packet arrived after the next opportunity.
\<close>

definition transit_ok :: "'a link_stage_scheme \<Rightarrow> bool" where
  "transit_ok l \<longleftrightarrow>
     apq_inv (link_packet_queue l) \<and>
     (\<forall>p \<in> set (link_contents l). link_packet_ok p) \<and>
     unat (packet_in_transit_bytes_left l) \<le> length (qp_contents (packet_in_transit l))"

definition arrived_by :: "nat \<Rightarrow> 'a link_stage_scheme \<Rightarrow> bool" where
  "arrived_by t l \<longleftrightarrow>
     (\<forall>p \<in> set (in_transit l @ apq_held (link_packet_queue l)). unat (qp_arrival_time p) \<le> t)"

definition link_wf :: "'a link_stage_scheme \<Rightarrow> bool" where
  "link_wf l \<longleftrightarrow>
     schedule_ok (heavy_pdo_schedule l) \<and>
     unat (next_delivery l) < length (heavy_pdo_schedule l) \<and>
     unat (link_base_timestamp l) < 2 ^ 62 \<and>
     transit_ok l \<and>
     (trace_finished l \<or> arrived_by (delivery_time l 0) l)"

text \<open>What an opportunity leaves alone.\<close>

definition same_clock :: "'a link_stage_scheme \<Rightarrow> 'a link_stage_scheme \<Rightarrow> bool" where
  "same_clock l l' \<longleftrightarrow>
     next_delivery l' = next_delivery l \<and> link_base_timestamp l' = link_base_timestamp l \<and>
     trace_finished l' = trace_finished l"

definition same_link :: "'a link_stage_scheme \<Rightarrow> 'a link_stage_scheme \<Rightarrow> bool" where
  "same_link l l' \<longleftrightarrow>
     heavy_pdo_schedule l' = heavy_pdo_schedule l \<and> repeat_trace l' = repeat_trace l \<and>
     current_link_queue_size l' = current_link_queue_size l \<and>
     lossless_apq (link_packet_queue l') = lossless_apq (link_packet_queue l) \<and>
     link_stage.more l' = link_stage.more l \<and> link_contents l' = link_contents l"

named_theorems link_defs \<open>the relations between a link before and after\<close>

declare same_clock_def [link_defs] same_link_def [link_defs]

lemma same_link_trans: "same_link l l1 \<Longrightarrow> same_link l1 l2 \<Longrightarrow> same_link l l2"
  by (simp add: same_link_def)

lemma same_clock_trans: "same_clock l l1 \<Longrightarrow> same_clock l1 l2 \<Longrightarrow> same_clock l l2"
  by (simp add: same_clock_def)

lemma same_link_refl [simp]: "same_link l l" "same_clock l l"
  by (simp_all add: link_defs)

section \<open>One opportunity\<close>

lemma unat_of_nat_contents:
  "link_packet_ok p \<Longrightarrow> unat (of_nat (length (qp_contents p)) :: u32) = length (qp_contents p)"
  by (rule unat_of_nat_small) (simp add: link_packet_ok_def PACKET_SIZE_def)

lemma link_fetch_ok:
  assumes "transit_ok l" "arrived_by t l"
  shows "link_fetch l = Inr None \<and> backlog l = 0 \<or>
    (\<exists>l1. link_fetch l = Inr (Some l1) \<and> packet_in_transit_bytes_left l1 \<noteq> 0 \<and>
       transit_ok l1 \<and> arrived_by t l1 \<and> backlog l1 = backlog l \<and>
       same_clock l l1 \<and> same_link l l1)"
proof (cases "packet_in_transit_bytes_left l = 0")
  case False
  then show ?thesis using assms by (simp add: link_fetch_def)
next
  case True
  show ?thesis
  proof (cases "apq_held (link_packet_queue l)")
    case Nil
    with True show ?thesis by (simp add: link_fetch_def apq_empty_held backlog_def)
  next
    case (Cons p ps)
    from assms have inv: "apq_inv (link_packet_queue l)" by (simp add: transit_ok_def)
    from apq_dequeue_law [OF inv Cons] obtain q where q: "apq_dequeue (link_packet_queue l) = Inr (p, q)"
      "apq_inv q" "apq_held q = ps" "lossless_apq q = lossless_apq (link_packet_queue l)" by blast
    let ?l1 = "l\<lparr>link_packet_queue := q, packet_in_transit := p,
      packet_in_transit_bytes_left := of_nat (length (qp_contents p))\<rparr>"
    have ok: "link_packet_ok p"
      using assms(1) Cons by (simp add: transit_ok_def link_contents_def)
    then have len: "unat (packet_in_transit_bytes_left ?l1) = length (qp_contents p)"
      "0 < length (qp_contents p)"
      by (simp_all add: unat_of_nat_contents link_packet_ok_def)
    then have left: "packet_in_transit_bytes_left ?l1 \<noteq> 0" by (metis less_numeral_extra(3) unat_0)
    from True left have "link_contents ?l1 = link_contents l"
      by (simp add: link_contents_def in_transit_def q(3) Cons)
    moreover from this have "transit_ok ?l1" using assms(1) q(2) len by (simp add: transit_ok_def)
    moreover have "arrived_by t ?l1" using assms(2) True left Cons q(3)
      by (simp add: arrived_by_def in_transit_def)
    moreover have "backlog ?l1 = backlog l" using True Cons q(3) len by (simp add: backlog_def)
    moreover have "link_fetch l = Inr (Some ?l1)"
      using True Cons q(1) by (simp add: link_fetch_def apq_empty_held)
    ultimately show ?thesis using left q(4) by (simp add: link_defs)
  qed
qed

lemma link_send_ok:
  assumes "transit_ok l" "arrived_by (unat t) l" "packet_in_transit_bytes_left l \<noteq> 0"
  shows "\<exists>bl' l'. link_send t bl l = Inr (bl', l') \<and>
    (\<exists>a. unat bl' + a = unat bl \<and> backlog l' + a = backlog l \<and>
       a = min (unat bl) (unat (packet_in_transit_bytes_left l))) \<and>
    transit_ok l' \<and> arrived_by (unat t) l' \<and> same_clock l l' \<and> same_link l l'"
proof -
  let ?b = "packet_in_transit_bytes_left l" and ?p = "packet_in_transit l"
  let ?a = "min bl ?b"
  have ok: "link_packet_ok ?p" and len: "unat ?b \<le> length (qp_contents ?p)"
    and arr: "qp_arrival_time ?p \<le> t"
    using assms by (auto simp: transit_ok_def link_contents_def in_transit_def arrived_by_def
      word_le_nat_alt)
  then have small: "unat ?b \<le> PACKET_SIZE" by (simp add: link_packet_ok_def)
  have a: "unat ?a = min (unat bl) (unat ?b)" by (simp add: min_def word_le_nat_alt)
  have "?a \<le> bl" "?a \<le> ?b" by simp_all
  then have d: "unat (bl - ?a) = unat bl - unat ?a" "unat (?b - ?a) = unat ?b - unat ?a"
    by (simp_all only: unat_diff_le)
  let ?l1 = "l\<lparr>packet_in_transit_bytes_left := ?b - ?a\<rparr>"
  let ?l2 = "if packet_in_transit_bytes_left ?l1 = 0
    then ?l1\<lparr>output_queue := output_queue ?l1 @ [packet_in_transit ?l1]\<rparr> else ?l1"
  have "link_send t bl l = Inr (bl - ?a, ?l2)"
    using assms(3) arr small len by (simp add: link_send_def Let_def word_greater_zero_iff)
  moreover have "unat (bl - ?a) + unat ?a = unat bl" using a d by simp
  moreover have "backlog ?l2 + unat ?a = backlog l"
  proof -
    have "packet_in_transit_bytes_left ?l2 = ?b - ?a" "link_packet_queue ?l2 = link_packet_queue l"
      by simp_all
    then show ?thesis unfolding backlog_def using a d(2) by simp
  qed
  moreover have c: "link_contents ?l2 = link_contents l"
    using assms(3) by (simp add: link_contents_def in_transit_def)
  moreover have "transit_ok ?l2"
    using assms(1) c d(2) len by (auto simp: transit_ok_def)
  moreover have "arrived_by (unat t) ?l2"
    using assms(2,3) by (auto simp: arrived_by_def in_transit_def)
  moreover have "same_clock l ?l2" "same_link l ?l2" using c by (simp_all add: link_defs)
  ultimately show ?thesis using a by blast
qed

lemma deliver_ok:
  "transit_ok l \<Longrightarrow> arrived_by (unat t) l \<Longrightarrow>
   \<exists>l'. deliver t bl l = Inr l' \<and> backlog l' = backlog l - unat bl \<and>
     transit_ok l' \<and> arrived_by (unat t) l' \<and> same_clock l l' \<and> same_link l l'"
proof (induction t bl l rule: deliver.induct)
  case (1 t bl l)
  show ?case
  proof (cases "bl = 0")
    case True
    then have "deliver t bl l = Inr l" by (subst deliver.simps) simp
    with True show ?thesis using "1.prems" by simp
  next
    case False
    from link_fetch_ok [OF "1.prems"] show ?thesis
    proof (elim disjE exE conjE)
      assume "link_fetch l = Inr None" "backlog l = 0"
      then show ?thesis using "1.prems" False by (simp add: deliver.simps [of t bl l])
    next
      fix l1 assume l1: "link_fetch l = Inr (Some l1)" "packet_in_transit_bytes_left l1 \<noteq> 0"
        "transit_ok l1" "arrived_by (unat t) l1" "backlog l1 = backlog l" "same_clock l l1"
        "same_link l l1"
      from link_send_ok [OF l1(3,4,2), of bl] obtain bl' l2 a where
        l2: "link_send t bl l1 = Inr (bl', l2)" "unat bl' + a = unat bl"
          "backlog l2 + a = backlog l1" "transit_ok l2" "arrived_by (unat t) l2"
          "same_clock l1 l2" "same_link l1 l2" by blast
      from "1.IH" [OF False l1(1) refl l2(1) refl l2(4,5)] obtain l' where
        l': "deliver t bl' l2 = Inr l'" "backlog l' = backlog l2 - unat bl'" "transit_ok l'"
          "arrived_by (unat t) l'" "same_clock l2 l'" "same_link l2 l'" by blast
      have "deliver t bl l = Inr l'"
        using False l1(1) l2(1) l'(1) by (simp add: deliver.simps [of t bl l])
      moreover have "backlog l' = backlog l - unat bl" using l'(2) l2(2,3) l1(5) by linarith
      ultimately show ?thesis
        using l'(3,4) same_clock_trans [OF l1(6) same_clock_trans [OF l2(6) l'(5)]]
          same_link_trans [OF l1(7) same_link_trans [OF l2(7) l'(6)]] by blast
    qed
  qed
qed

section \<open>The schedule\<close>

lemma delivery_time_0:
  "unat (next_delivery l) < length (heavy_pdo_schedule l) \<Longrightarrow>
   delivery_time l 0 = unat (link_base_timestamp l)
     + unat (heavy_pdo_schedule l ! unat (next_delivery l))"
  by (simp add: delivery_time_def)

lemma schedule_le_last:
  assumes "schedule_ok s" "i < length s"
  shows "unat (s ! i) \<le> unat (last s)"
proof -
  have "s ! i \<le> s ! (length s - 1)"
    using assms by (intro sorted_nth_mono) (auto simp: schedule_ok_def)
  then show ?thesis using assms by (simp add: last_conv_nth schedule_ok_def word_le_nat_alt)
qed

lemma next_delivery_time_ok:
  assumes "link_wf l" "\<not> trace_finished l"
  shows "\<exists>t. next_delivery_time l = Inr t \<and> unat t = delivery_time l 0 \<and> unat t < 2 ^ 63"
proof -
  let ?t = "heavy_pdo_schedule l ! unat (next_delivery l)"
  have "unat ?t \<le> unat (last (heavy_pdo_schedule l))"
    using assms by (intro schedule_le_last) (simp_all add: link_wf_def)
  with assms have b: "unat ?t + unat (link_base_timestamp l) < 2 ^ 63"
    by (simp add: link_wf_def schedule_ok_def)
  then have "unat (?t + link_base_timestamp l) = unat ?t + unat (link_base_timestamp l)"
    by (intro unat_add_small) simp
  with assms b show ?thesis
    by (simp add: next_delivery_time_def link_wf_def delivery_time_0)
qed

text \<open>What burning an opportunity does to the clock of the link.\<close>

definition burns :: "'a link_stage_scheme \<Rightarrow> 'a link_stage_scheme \<Rightarrow> bool" where
  "burns l l' \<longleftrightarrow>
     (if unat (next_delivery l) + 1 < length (heavy_pdo_schedule l) then
        unat (next_delivery l') = unat (next_delivery l) + 1 \<and>
        link_base_timestamp l' = link_base_timestamp l \<and> \<not> trace_finished l'
      else unat (next_delivery l') = 0 \<and>
        (if repeat_trace l then \<not> trace_finished l' \<and>
           unat (link_base_timestamp l') =
             unat (link_base_timestamp l) + unat (last (heavy_pdo_schedule l))
         else trace_finished l' \<and> link_base_timestamp l' = link_base_timestamp l))"

lemma next_index:
  assumes "i + 1 < length s" "length s < 2 ^ 32" "unat (nd :: u32) = i"
  shows "unat (of_nat (unat (nd + 1) mod length s) :: u32) = i + 1"
proof -
  have "unat (nd + 1) = i + 1" using assms by (subst unat_add_small) simp_all
  with assms show ?thesis by (subst unat_of_nat_small) simp_all
qed

lemma last_index:
  assumes "i + 1 = length s" "length s < 2 ^ 32" "unat (nd :: u32) = i"
  shows "(of_nat (unat (nd + 1) mod length s) :: u32) = 0"
proof -
  have "unat (nd + 1) = i + 1" using assms by (subst unat_add_small) simp_all
  with assms show ?thesis by simp
qed

lemma use_a_delivery_opportunity_ok:
  assumes "link_wf l" "\<not> trace_finished l" "delivery_time l 0 < 2 ^ 62"
  shows "\<exists>l1. use_a_delivery_opportunity l = Inr l1 \<and> burns l l1 \<and> same_link l l1 \<and>
    transit_ok l1 \<and> in_transit l1 = in_transit l \<and> link_packet_queue l1 = link_packet_queue l \<and>
    backlog l1 = backlog l"
proof -
  let ?s = "heavy_pdo_schedule l" and ?nd = "unat (next_delivery l)"
  let ?l0 = "l\<lparr>next_delivery := of_nat (unat (next_delivery l + 1) mod length ?s)\<rparr>"
  from assms have s: "schedule_ok ?s" "?nd < length ?s" "transit_ok l" by (simp_all add: link_wf_def)
  then have n: "length ?s < 2 ^ 32" "?s \<noteq> []" by (simp_all add: schedule_ok_def)
  note frame = link_defs link_contents_def in_transit_def transit_ok_def backlog_def
  show ?thesis
  proof (cases "?nd + 1 < length ?s")
    case True
    note nd = next_index [OF True n(1) refl]
    then have "next_delivery ?l0 \<noteq> 0" by (metis add_is_0 link_stage.select_convs(1) link_stage.surjective link_stage.update_convs(1) unat_0 zero_neq_one)
    then have "use_a_delivery_opportunity l = Inr ?l0"
      using n(2) by (simp add: use_a_delivery_opportunity_def Let_def)
    moreover have "burns l ?l0" using True nd assms(2) by (simp add: burns_def)
    ultimately show ?thesis using s(3) by (simp add: frame)
  next
    case False
    with s(2) have len: "?nd + 1 = length ?s" by linarith
    note nd = last_index [OF len n(1) refl]
    have "?s ! ?nd = last ?s" using len n(2) by (simp add: last_conv_nth flip: len)
    with assms(3) s(2) have b: "unat (link_base_timestamp l + last ?s)
        = unat (link_base_timestamp l) + unat (last ?s)"
      by (intro unat_add_small) (simp add: delivery_time_0)
    show ?thesis
    proof (cases "repeat_trace l")
      case True
      let ?l1 = "l\<lparr>next_delivery := 0, link_base_timestamp := link_base_timestamp l + last ?s\<rparr>"
      have "use_a_delivery_opportunity l = Inr ?l1"
        using n(2) nd True by (simp add: use_a_delivery_opportunity_def Let_def)
      moreover have "burns l ?l1" using len True b assms(2) by (simp add: burns_def)
      ultimately show ?thesis using s(3) by (simp add: frame)
    next
      case False
      let ?l1 = "l\<lparr>next_delivery := 0, trace_finished := True\<rparr>"
      have "use_a_delivery_opportunity l = Inr ?l1"
        using n(2) nd False by (simp add: use_a_delivery_opportunity_def Let_def)
      moreover have "burns l ?l1" using len False by (simp add: burns_def)
      ultimately show ?thesis using s(3) by (simp add: frame)
    qed
  qed
qed

lemma delivery_time_burns:
  assumes "burns l l'" "\<not> trace_finished l'" "heavy_pdo_schedule l' = heavy_pdo_schedule l"
    and "unat (next_delivery l) < length (heavy_pdo_schedule l)"
  shows "delivery_time l' j = delivery_time l (Suc j)"
proof (cases "unat (next_delivery l) + 1 < length (heavy_pdo_schedule l)")
  case True
  then show ?thesis using assms by (simp add: burns_def delivery_time_def)
next
  case False
  let ?n = "length (heavy_pdo_schedule l)"
  from False assms(4) have n: "unat (next_delivery l) + Suc j = ?n + j" "0 < ?n" by linarith+
  then have "(?n + j) div ?n = Suc (j div ?n)" "(?n + j) mod ?n = j mod ?n" by simp_all
  with False assms(1-3) show ?thesis
    unfolding delivery_time_def n(1) Let_def
    by (auto simp: burns_def split: if_splits)
qed

lemma delivery_time_Suc:
  assumes "schedule_ok (heavy_pdo_schedule l)" "unat (next_delivery l) < length (heavy_pdo_schedule l)"
  shows "delivery_time l 0 \<le> delivery_time l (Suc 0)"
proof (cases "unat (next_delivery l) + 1 < length (heavy_pdo_schedule l)")
  case True
  have "heavy_pdo_schedule l ! unat (next_delivery l)
      \<le> heavy_pdo_schedule l ! (unat (next_delivery l) + 1)"
    using assms(1) True by (intro sorted_nth_mono) (simp_all add: schedule_ok_def)
  with True assms(2) show ?thesis by (simp add: delivery_time_def word_le_nat_alt)
next
  case False
  with assms(2) have n: "unat (next_delivery l) + Suc 0 = length (heavy_pdo_schedule l)" by linarith
  show ?thesis
    using schedule_le_last [OF assms] assms
    unfolding schedule_ok_def delivery_time_def n Let_def by simp
qed

section \<open>Replaying the schedule\<close>

lemma burns_same_clock:
  "burns l l1 \<Longrightarrow> same_clock l1 l2 \<Longrightarrow> burns l l2"
  by (simp add: burns_def same_clock_def)

lemma burns_wf:
  assumes "link_wf l" "burns l l'" "heavy_pdo_schedule l' = heavy_pdo_schedule l"
    and "delivery_time l 0 < 2 ^ 62" "transit_ok l'" "arrived_by (delivery_time l 0) l'"
  shows "link_wf l'"
proof -
  let ?s = "heavy_pdo_schedule l"
  from assms(1) have s: "schedule_ok ?s" "unat (next_delivery l) < length ?s"
    "unat (link_base_timestamp l) < 2 ^ 62" by (simp_all add: link_wf_def)
  have last: "?s ! unat (next_delivery l) = last ?s" if "\<not> unat (next_delivery l) + 1 < length ?s"
  proof -
    have "unat (next_delivery l) = length ?s - 1" using that s(2) by linarith
    with s(1) show ?thesis by (simp add: last_conv_nth schedule_ok_def)
  qed
  have "unat (next_delivery l') < length ?s" "unat (link_base_timestamp l') < 2 ^ 62"
    using assms(2,4) s last delivery_time_0 [OF s(2)]
    by (auto simp: burns_def split: if_splits)
  moreover have "arrived_by (delivery_time l' 0) l'" if "\<not> trace_finished l'"
    using assms(6) delivery_time_burns [OF assms(2) that assms(3) s(2), of 0] delivery_time_Suc [OF s(1,2)]
    by (auto simp: arrived_by_def intro: order_trans)
  ultimately show ?thesis using assms(3,5) s(1) by (auto simp: link_wf_def)
qed

lemma unat_PACKET_SIZE [simp]: "unat (of_nat PACKET_SIZE :: u32) = PACKET_SIZE"
  by (rule unat_of_nat_small) (simp add: PACKET_SIZE_def)

lemma rationalize_step_ok:
  assumes "link_wf l" "unat now < 2 ^ 62"
  shows "rationalize_step now l = Inr None \<and> (trace_finished l \<or> unat now < delivery_time l 0) \<or>
    (\<exists>l'. rationalize_step now l = Inr (Some l') \<and> \<not> trace_finished l \<and>
       delivery_time l 0 \<le> unat now \<and> link_wf l' \<and> same_link l l' \<and> burns l l' \<and>
       backlog l' = backlog l - PACKET_SIZE)"
proof (cases "trace_finished l")
  case True
  have "unat now < unat (- 1 :: u64)" using assms(2) by (simp add: unsigned_minus_1_eq_mask mask_eq_exp_minus_1)
  then show ?thesis using True
    by (simp add: rationalize_step_def next_delivery_time_def word_less_nat_alt not_le flip: not_less)
next
  case False
  from next_delivery_time_ok [OF assms(1) False] obtain t where
    t: "next_delivery_time l = Inr t" "unat t = delivery_time l 0" by blast
  show ?thesis
  proof (cases "t \<le> now")
    case le: True
    then have now: "delivery_time l 0 \<le> unat now" by (simp add: word_le_nat_alt t(2))
    with assms(2) have small: "delivery_time l 0 < 2 ^ 62" by linarith
    from use_a_delivery_opportunity_ok [OF assms(1) False small] obtain l1 where
      l1: "use_a_delivery_opportunity l = Inr l1" "burns l l1" "same_link l l1" "transit_ok l1"
        "in_transit l1 = in_transit l" "link_packet_queue l1 = link_packet_queue l"
        "backlog l1 = backlog l" by blast
    have arr: "arrived_by (unat t) l1"
      using assms(1) False l1(5,6) by (simp add: link_wf_def arrived_by_def t(2))
    from deliver_ok [OF l1(4) arr, of "of_nat PACKET_SIZE"] obtain l2 where
      l2: "deliver t (of_nat PACKET_SIZE) l1 = Inr l2" "backlog l2 = backlog l1 - PACKET_SIZE"
        "transit_ok l2" "arrived_by (unat t) l2" "same_clock l1 l2" "same_link l1 l2" by auto
    have b: "burns l l2" using burns_same_clock [OF l1(2) l2(5)] .
    have s: "same_link l l2" using same_link_trans [OF l1(3) l2(6)] .
    have "link_wf l2"
      using burns_wf [OF assms(1) b _ small l2(3)] l2(4) s by (simp add: t(2) same_link_def)
    moreover have "rationalize_step now l = Inr (Some l2)"
      using le t(1) l1(1) l2(1) by (simp add: rationalize_step_def)
    ultimately show ?thesis using False now b s l2(2) l1(7) by auto
  next
    case False
    then show ?thesis using t by (simp add: rationalize_step_def word_le_nat_alt)
  qed
qed

text \<open>The outcome of \<open>rationalize\<close>: \<open>k\<close> opportunities were used.\<close>

definition advanced :: "nat \<Rightarrow> nat \<Rightarrow> 'a link_stage_scheme \<Rightarrow> 'a link_stage_scheme \<Rightarrow> bool" where
  "advanced now k l l' \<longleftrightarrow>
     (\<forall>j < k. delivery_time l j \<le> now) \<and>
     (if trace_finished l then k = 0 \<and> trace_finished l'
      else if trace_finished l' then
        \<not> repeat_trace l \<and> k = length (heavy_pdo_schedule l) - unat (next_delivery l)
      else now < delivery_time l k \<and> (\<forall>j. delivery_time l' j = delivery_time l (k + j)))"

definition turns_left :: "nat \<Rightarrow> 'a link_stage_scheme \<Rightarrow> nat" where
  "turns_left now l =
     (if trace_finished l then 0
      else (now + 1 - unat (link_base_timestamp l)) * length (heavy_pdo_schedule l)
        + (length (heavy_pdo_schedule l) - unat (next_delivery l)))"

lemma turns_left_burns:
  assumes "link_wf l" "burns l l'" "heavy_pdo_schedule l' = heavy_pdo_schedule l"
    and "\<not> trace_finished l" "delivery_time l 0 \<le> now"
  shows "turns_left now l' < turns_left now l"
proof (cases "trace_finished l'")
  case True
  with assms show ?thesis by (simp add: turns_left_def link_wf_def)
next
  case F: False
  let ?s = "heavy_pdo_schedule l" and ?b = "unat (link_base_timestamp l)"
  from assms(1) have s: "schedule_ok ?s" "unat (next_delivery l) < length ?s"
    by (simp_all add: link_wf_def)
  show ?thesis
  proof (cases "unat (next_delivery l) + 1 < length ?s")
    case True
    with F assms show ?thesis by (simp add: turns_left_def burns_def)
  next
    case False
    with F assms(2) have w: "unat (next_delivery l') = 0"
      "unat (link_base_timestamp l') = ?b + unat (last ?s)"
      by (auto simp: burns_def split: if_splits)
    have "?b \<le> now" using assms(5) delivery_time_0 [OF s(2)] by linarith
    moreover have "0 < unat (last ?s)" using s(1) by (simp add: schedule_ok_def)
    ultimately have "Suc (now + 1 - (?b + unat (last ?s))) \<le> now + 1 - ?b" by linarith
    then have "Suc (now + 1 - (?b + unat (last ?s))) * length ?s \<le> (now + 1 - ?b) * length ?s"
      by (rule mult_le_mono1)
    with w F assms(3,4) s(2) show ?thesis by (simp add: turns_left_def)
  qed
qed

lemma rationalize_ok:
  "link_wf l \<Longrightarrow> unat now < 2 ^ 62 \<Longrightarrow>
   \<exists>l' k. rationalize now l = Some (Inr l') \<and> link_wf l' \<and> same_link l l' \<and>
     backlog l' = backlog l - k * PACKET_SIZE \<and> advanced (unat now) k l l'"
proof (induction "turns_left (unat now) l" arbitrary: l rule: less_induct)
  case less
  note unfold = rationalize.simps [of now l]
  from rationalize_step_ok [OF less.prems] show ?case
  proof (elim disjE exE conjE)
    assume "rationalize_step now l = Inr None" "trace_finished l"
    then show ?thesis using less.prems unfold
      by (intro exI [of _ l] exI [of _ 0]) (simp add: advanced_def)
  next
    assume "rationalize_step now l = Inr None" "unat now < delivery_time l 0"
    then show ?thesis using less.prems unfold
      by (intro exI [of _ l] exI [of _ 0]) (simp add: advanced_def)
  next
    fix l1 assume l1: "rationalize_step now l = Inr (Some l1)" "\<not> trace_finished l"
      "delivery_time l 0 \<le> unat now" "link_wf l1" "same_link l l1" "burns l l1"
      "backlog l1 = backlog l - PACKET_SIZE"
    have sched: "heavy_pdo_schedule l1 = heavy_pdo_schedule l" "repeat_trace l1 = repeat_trace l"
      using l1(5) by (simp_all add: same_link_def)
    from less.hyps [OF turns_left_burns [OF less.prems(1) l1(6) sched(1) l1(2,3)] l1(4) less.prems(2)]
    obtain l' k where l': "rationalize now l1 = Some (Inr l')" "link_wf l'" "same_link l1 l'"
      "backlog l' = backlog l1 - k * PACKET_SIZE" "advanced (unat now) k l1 l'" by blast
    have nd: "unat (next_delivery l) < length (heavy_pdo_schedule l)"
      using less.prems(1) by (simp add: link_wf_def)
    have "advanced (unat now) (Suc k) l l'"
    proof (cases "trace_finished l1")
      case True
      with l1(6) sched nd l'(5) l1(3) show ?thesis
        using l1(2) by (auto simp: advanced_def burns_def less_Suc_eq_0_disj split: if_splits)
    next
      case False
      note shift = delivery_time_burns [OF l1(6) False sched(1) nd]
      have ends: "trace_finished l' \<Longrightarrow> \<not> repeat_trace l \<and>
          Suc k = length (heavy_pdo_schedule l) - unat (next_delivery l)"
        using False l'(5) l1(6) sched nd
        by (auto simp: advanced_def burns_def split: if_splits)
      show ?thesis using l'(5) l1(2,3) False shift ends
        by (auto simp: advanced_def less_Suc_eq_0_disj split: if_splits)
    qed
    moreover have "rationalize now l = Some (Inr l')" using l1(1) l'(1) unfold by simp
    moreover have "backlog l' = backlog l - Suc k * PACKET_SIZE" using l'(4) l1(7) by simp
    ultimately show ?thesis using l'(2) same_link_trans [OF l1(5) l'(3)] by blast
  qed
qed

lemma advanced_next:
  "advanced now k l l' \<Longrightarrow> \<not> trace_finished l' \<Longrightarrow> now < delivery_time l' 0"
  by (auto simp: advanced_def split: if_splits)

section \<open>Entering the link\<close>

definition to_link :: "u64 \<Rightarrow> delay_queue_packet \<Rightarrow> queued_packet" where
  "to_link now p =
     mk_queued_packet (dp_contents p) (dp_ip_port_info p) (dp_arrival_time p) now
       (dp_sequence_number p) (dp_release_time p)"

lemma to_link_fields [simp]:
  "qp_contents (to_link now p) = dp_contents p" "qp_arrival_time (to_link now p) = now"
  "qp_sequence_number (to_link now p) = dp_sequence_number p"
  by (simp_all add: to_link_def mk_queued_packet_def)

definition link_room :: "'a link_stage_scheme \<Rightarrow> queued_packet \<Rightarrow> bool" where
  \<comment> \<open>the 32-bit counters of the queue cannot wrap\<close>
  "link_room l p \<longleftrightarrow> sum_list (map qp_cost (link_contents l @ [p])) < 2 ^ 31"

lemma link_room_held:
  assumes "link_room l p" "link_contents l' = link_contents l"
  shows "qp_bytes (apq_held (link_packet_queue l') @ [p])
    + length (apq_held (link_packet_queue l') @ [p]) < 2 ^ 31"
proof -
  have "sum_list (map qp_cost (apq_held (link_packet_queue l') @ [p]))
      \<le> sum_list (map qp_cost (link_contents l' @ [p]))" by (simp add: link_contents_def)
  with assms show ?thesis unfolding link_room_def sum_qp_cost by simp
qed

lemma put_packet_cases:
  assumes "link_wf l" "unat now < 2 ^ 62" "length (dp_contents p) \<le> PACKET_SIZE"
  shows "\<exists>l1 k. link_wf l1 \<and> same_link l l1 \<and> advanced (unat now) k l l1 \<and>
    backlog l1 = backlog l - k * PACKET_SIZE \<and>
    put_packet_to_link_queue now p l = Some (
      andThen (apq_enqueue (to_link now p) (link_packet_queue l1))
        (\<lambda>q. Inr (l1\<lparr>link_packet_queue := q,
                     current_link_queue_size := current_link_queue_size l1 + 1\<rparr>)))"
proof -
  from rationalize_ok [OF assms(1,2)] obtain l1 k where
    "rationalize now l = Some (Inr l1)" "link_wf l1" "same_link l l1"
    "advanced (unat now) k l l1" "backlog l1 = backlog l - k * PACKET_SIZE" by blast
  with assms(3) show ?thesis
    by (intro exI [of _ l1] exI [of _ k]) (simp add: put_packet_to_link_queue_def to_link_def not_less)
qed

lemma link_wf_enqueue:
  assumes "link_wf l" "apq_inv q" "sublist (apq_held q) (apq_held (link_packet_queue l) @ [p])"
    and "link_packet_ok p" "trace_finished l \<or> unat (qp_arrival_time p) \<le> delivery_time l 0"
    and l': "l' = l\<lparr>link_packet_queue := q, current_link_queue_size := s\<rparr>"
  shows "link_wf l'"
proof -
  have "set (apq_held q) \<subseteq> set (apq_held (link_packet_queue l)) \<union> {p}"
    using set_mono_sublist [OF assms(3)] by simp
  with assms show ?thesis
    by (auto simp: link_wf_def transit_ok_def arrived_by_def link_contents_def in_transit_def
        delivery_time_def)
qed

lemma put_packet_lossless:
  assumes "link_wf l" "unat now < 2 ^ 62" "lossless_apq (link_packet_queue l)"
    and "link_packet_ok (to_link now p)" "link_room l (to_link now p)"
  shows "\<exists>l'. put_packet_to_link_queue now p l = Some (Inr l') \<and> link_wf l' \<and>
    link_contents l' = link_contents l @ [to_link now p] \<and>
    lossless_apq (link_packet_queue l') \<and>
    current_link_queue_size l' = current_link_queue_size l + 1 \<and>
    link_stage.more l' = link_stage.more l"
proof -
  from assms(4) have "length (dp_contents p) \<le> PACKET_SIZE" by (simp add: link_packet_ok_def)
  from put_packet_cases [OF assms(1,2) this] obtain l1 k where
    l1: "link_wf l1" "same_link l l1" "advanced (unat now) k l l1"
      "put_packet_to_link_queue now p l = Some (
        andThen (apq_enqueue (to_link now p) (link_packet_queue l1))
          (\<lambda>q. Inr (l1\<lparr>link_packet_queue := q,
                       current_link_queue_size := current_link_queue_size l1 + 1\<rparr>)))" by blast
  from l1(2) have c: "link_contents l1 = link_contents l" "lossless_apq (link_packet_queue l1)"
    "link_stage.more l1 = link_stage.more l" "current_link_queue_size l1 = current_link_queue_size l"
    using assms(3) by (simp_all add: same_link_def)
  have inv: "apq_inv (link_packet_queue l1)" using l1(1) by (simp add: link_wf_def transit_ok_def)
  from apq_enqueue_lossless [OF inv link_room_held [OF assms(5) c(1)] c(2)] obtain q where
    q: "apq_enqueue (to_link now p) (link_packet_queue l1) = Inr q" "apq_inv q" "lossless_apq q"
      "apq_held q = apq_held (link_packet_queue l1) @ [to_link now p]" by blast
  let ?l' = "l1\<lparr>link_packet_queue := q, current_link_queue_size := current_link_queue_size l1 + 1\<rparr>"
  have "trace_finished l1 \<or> unat now \<le> delivery_time l1 0"
    using advanced_next [OF l1(3)] less_imp_le by blast
  then have "link_wf ?l'"
    using q(4) by (intro link_wf_enqueue [OF l1(1) q(2) _ assms(4) _ refl]) simp_all
  moreover have "link_contents ?l' = link_contents l1 @ [to_link now p]"
    using q(4) by (simp add: link_contents_def in_transit_def)
  ultimately show ?thesis using l1(4) q(1,3) c by simp
qed

section \<open>Properties of the link\<close>

definition sample_link :: link_stage where
  "sample_link =
     \<lparr>next_delivery = 0, heavy_pdo_schedule = [5, 20], link_base_timestamp = 100,
      link_packet_queue = InfinitePacketQueue
        \<lparr>iq_internal_queue = [sample_packet ''a'', sample_packet ''bc''],
         iq_queue_size_in_bytes = 3, iq_queue_size_in_packets = 2\<rparr>,
      packet_in_transit = queued_packet_empty [] 0, packet_in_transit_bytes_left = 0,
      output_queue = [], current_link_queue_size = 2, repeat_trace = True,
      trace_finished = False\<rparr>"

lemma sample_link_wf: "link_wf sample_link"
  by (simp add: sample_link_def link_wf_def schedule_ok_def transit_ok_def arrived_by_def
      link_contents_def in_transit_def link_packet_ok_def sample_packet_def mk_queued_packet_def queued_packet_empty_def
      PACKET_SIZE_def iq_inv_def delivery_time_def)

text \<open>
  C12. One delivery opportunity. The inner loop of \<open>rationalize\<close> returns, fails none of its
  assertions, keeps every packet of the link in its place in the order, and takes exactly
  \<open>min bytes backlog\<close> bytes off what is waiting: no opportunity carries more than its bytes, and
  none is wasted while something waits.
\<close>

theorem deliver_rate:
  assumes "transit_ok l" "arrived_by (unat t) l"
  shows "\<exists>l'. deliver t bl l = Inr l' \<and> backlog l' = backlog l - unat bl \<and>
    link_contents l' = link_contents l \<and> transit_ok l'"
  using deliver_ok [OF assms, of bl] by (auto simp: same_link_def)

theorem deliver_rate_witness:
  "\<exists>l'. deliver 105 2 sample_link = Inr l' \<and> backlog l' = 1"
proof -
  have w: "transit_ok sample_link" "arrived_by (unat (105 :: u64)) sample_link"
    using sample_link_wf by (auto simp: link_wf_def sample_link_def delivery_time_def)
  have "backlog sample_link = 3" by (simp add: sample_link_def backlog_def sample_packet_def mk_queued_packet_def queued_packet_empty_def)
  with deliver_rate [OF w, of 2] show ?thesis by auto
qed

text \<open>
  C3. The schedule. On a well-formed link \<open>rationalize (now)\<close> returns; with some number \<open>k\<close> of
  opportunities used, each of them was due (\<open>delivery_time l j \<le> now\<close>), the next one is later than
  \<open>now\<close> or the trace ended (only without \<open>repeat\<close>, after its last entry), the times still to come
  are the old ones shifted by \<open>k\<close>, also across a wraparound of the trace, the link has passed on
  \<open>k * PACKET_SIZE\<close> bytes or all it had, and neither order nor content of its packets changed.
\<close>

theorem rationalize_schedule:
  assumes "link_wf l" "unat now < 2 ^ 62"
  shows "\<exists>l' k. rationalize now l = Some (Inr l') \<and> link_wf l' \<and>
    link_contents l' = link_contents l \<and> backlog l' = backlog l - k * PACKET_SIZE \<and>
    (\<forall>j < k. delivery_time l j \<le> unat now) \<and>
    (trace_finished l' \<or>
      unat now < delivery_time l' 0 \<and> (\<forall>j. delivery_time l' j = delivery_time l (k + j))) \<and>
    (trace_finished l' \<longrightarrow> trace_finished l \<or> \<not> repeat_trace l \<and>
      k = length (heavy_pdo_schedule l) - unat (next_delivery l))"
proof -
  from rationalize_ok [OF assms] obtain l' k where
    l': "rationalize now l = Some (Inr l')" "link_wf l'" "same_link l l'"
      "backlog l' = backlog l - k * PACKET_SIZE" "advanced (unat now) k l l'" by blast
  have "\<forall>j < k. delivery_time l j \<le> unat now" using l'(5) by (simp add: advanced_def)
  moreover have "trace_finished l' \<or>
      unat now < delivery_time l' 0 \<and> (\<forall>j. delivery_time l' j = delivery_time l (k + j))"
    using l'(5) advanced_next [OF l'(5)] by (auto simp: advanced_def split: if_splits)
  moreover have "trace_finished l' \<longrightarrow> trace_finished l \<or> \<not> repeat_trace l \<and>
      k = length (heavy_pdo_schedule l) - unat (next_delivery l)"
    using l'(5) by (auto simp: advanced_def split: if_splits)
  ultimately show ?thesis using l'(1-4) unfolding same_link_def by blast
qed

theorem rationalize_schedule_witness:
  "\<exists>l' k. rationalize 150 sample_link = Some (Inr l') \<and> link_wf l' \<and>
    (\<forall>j < k. delivery_time sample_link j \<le> 150) \<and> \<not> trace_finished l' \<and> 150 < delivery_time l' 0"
proof -
  from rationalize_schedule [OF sample_link_wf, of 150] obtain l' k where
    l': "rationalize 150 sample_link = Some (Inr l')" "link_wf l'"
      "\<forall>j < k. delivery_time sample_link j \<le> 150"
      "trace_finished l' \<or> 150 < delivery_time l' 0"
      "trace_finished l' \<longrightarrow> trace_finished sample_link \<or> \<not> repeat_trace sample_link" by auto
  have "\<not> trace_finished sample_link" "repeat_trace sample_link" by (simp_all add: sample_link_def)
  with l' show ?thesis by blast
qed

text \<open>
  Entering the link. With a queue that never drops (\<open>InfiniteQueue\<close>) and room in its 32-bit
  counters, \<open>put_packet_to_link_queue\<close> returns, the packet stands behind everything the link held,
  and the counter \<open>current_link_queue_size_\<close> grew by one.
\<close>

theorem put_packet_behind:
  assumes "link_wf l" "unat now < 2 ^ 62" "lossless_apq (link_packet_queue l)"
    and "link_packet_ok (to_link now p)" "link_room l (to_link now p)"
  shows "\<exists>l'. put_packet_to_link_queue now p l = Some (Inr l') \<and> link_wf l' \<and>
    link_contents l' = link_contents l @ [to_link now p] \<and>
    current_link_queue_size l' = current_link_queue_size l + 1"
  using put_packet_lossless [OF assms] by blast

theorem put_packet_behind_witness:
  "\<exists>l'. put_packet_to_link_queue 103 (mk_delay_queue_packet ''xyz'' [] 90 7 102 False) sample_link
      = Some (Inr l') \<and> current_link_queue_size l' = 3 \<and> length (link_contents l') = 3"
proof -
  let ?p = "mk_delay_queue_packet ''xyz'' [] 90 7 102 False"
  have "link_packet_ok (to_link 103 ?p)" "link_room sample_link (to_link 103 ?p)"
    "lossless_apq (link_packet_queue sample_link)"
    by (simp_all add: link_packet_ok_def link_room_def mk_delay_queue_packet_def PACKET_SIZE_def
        sample_link_def link_contents_def in_transit_def sample_packet_def mk_queued_packet_def qp_cost_def
        queued_packet_empty_def)
  from put_packet_behind [OF sample_link_wf _ this(3,1,2)] obtain l' where
    l': "put_packet_to_link_queue 103 ?p sample_link = Some (Inr l')"
      "link_contents l' = link_contents sample_link @ [to_link 103 ?p]"
      "current_link_queue_size l' = current_link_queue_size sample_link + 1" by auto
  moreover have "length (link_contents sample_link) = 2" "current_link_queue_size sample_link = 2"
    by (simp_all add: sample_link_def link_contents_def in_transit_def)
  ultimately show ?thesis by auto
qed

end
