(* ===== verification/Release_Time.thy ===== *)
theory Release_Time
  imports Main Prelude Float_Round Cellular_State
begin

text \<open>
  \<open>get_pkt_release_time_from_trace\<close> of \<open>src/frontend/cellular_queue.cc\<close>: when the delay stage lets a
  packet go. A packet that finds the link idle for long enough starts a new light PDO train: the
  trace is searched for the current instance (a \<open>partial_function\<close>, since the search wraps around
  the trace and may run forever), the base delay is interpolated in single precision, and the
  packet leaves after it. A later packet follows the train: the next light PDO with room decides.
  The integer conversions are those of the code: \<open>int64_t\<close> and \<open>uint64_t\<close> operands mix as 64-bit
  words, a comparison is signed only where both sides are.
\<close>

section \<open>The search for the trace instance\<close>

text \<open>
  One turn of the loop over \<open>current_delay_pdo_idx_\<close>, \<open>delay_base_timestamp_\<close> and
  \<open>relative_timestamp_ms\<close>: \<open>None\<close> when its condition fails.
\<close>

definition find_step ::
    "delay_pdo_instance list \<Rightarrow> u64 \<Rightarrow> u32 \<Rightarrow> u64 \<Rightarrow> u64 \<Rightarrow> (u32 \<times> u64 \<times> u64) option res" where
  "find_step trace time idx base relative =
     andThen (nthE trace (unat (idx + 1)) ''delay_pdo_trace[current_delay_pdo_idx_ + 1]'') (\<lambda>next.
       if pdo_time next \<le> relative then
         let idx' = idx + 1
         in if length trace - 1 \<le> unat idx' then
              andThen (nthE trace (unat idx') ''delay_pdo_trace[current_delay_pdo_idx_]'') (\<lambda>inst.
                let base' = base + pdo_time inst
                in Inr (Some (0, base', time - base')))
            else Inr (Some (idx', base, relative))
       else Inr None)"

partial_function (option) find_instance ::
    "delay_pdo_instance list \<Rightarrow> u64 \<Rightarrow> u32 \<Rightarrow> u64 \<Rightarrow> u64 \<Rightarrow> (u32 \<times> u64 \<times> u64) res option" where
  "find_instance trace time idx base relative =
     (case find_step trace time idx base relative of
        Inl e \<Rightarrow> Some (Inl e)
      | Inr r \<Rightarrow>
          (case r of
             None \<Rightarrow> Some (Inr (idx, base, relative))
           | Some s \<Rightarrow> (case s of (idx', base', relative') \<Rightarrow>
               find_instance trace time idx' base' relative')))"

section \<open>The base delay\<close>

text \<open>
  \<open>ratio\<close>, \<open>adjusted_delay\<close> and \<open>int(...)\<close>. A zero denominator gives an infinite or undefined
  ratio, whose conversion to \<open>int\<close> is undefined whatever it is multiplied with.
\<close>

definition interpolated_delay :: "delay_pdo_instance \<Rightarrow> delay_pdo_instance \<Rightarrow> u64 \<Rightarrow> i32 res" where
  "interpolated_delay inst next relative =
     (let num = of_nat (unat (relative - pdo_time inst));
          den = of_nat (unat (pdo_time next - pdo_time inst));
          diff = sint (pdo_delay next) - sint (pdo_delay inst)
      in if den = 0 then Inl (Undefined ''conversion of a non-finite float'')
         else if diff < - (2 ^ 31) \<or> 2 ^ 31 \<le> diff then Inl (Undefined ''signed overflow'')
         else
           let ratio = fl32 (fl32 num / fl32 den);
               adjusted_delay = fl32 (ratio * fl32 (of_int diff))
           in float_to_int (fl32 (fl32 (of_int (sint (pdo_delay inst))) + adjusted_delay)))"

section \<open>Starting a train\<close>

definition start_new_short_pdo_trace :: "u64 \<Rightarrow> 'a delay_stage_scheme \<Rightarrow> bool" where
  "start_new_short_pdo_trace time d \<longleftrightarrow>
     sint (current_base_delay d) < 0 \<or>
     last_delay_queue_release_time d + scast (long_to_short_timer d)
       < time + scast (current_base_delay d)"

definition begin_train ::
    "u64 \<Rightarrow> delay_pdo_instance list \<Rightarrow> u32 \<Rightarrow> 'a delay_stage_scheme \<Rightarrow>
     (u64 \<times> 'a delay_stage_scheme) res option" where
  "begin_train time trace packet_size d =
     andThenO (find_instance trace time (current_delay_pdo_idx d) (delay_base_timestamp d)
                 (time - delay_base_timestamp d)) (\<lambda>(idx, base, relative). Some (
       andThen (nthE trace (unat idx) ''delay_pdo_trace[current_delay_pdo_idx_]'') (\<lambda>inst.
       andThen (nthE trace (unat (idx + 1)) ''delay_pdo_trace[current_delay_pdo_idx_ + 1]'') (\<lambda>next.
       andThen (interpolated_delay inst next relative) (\<lambda>delay.
         let delay_ms = scast delay :: u64
         in Inr (time + delay_ms,
              d\<lparr>current_delay_pdo_idx := idx, delay_base_timestamp := base,
                current_pdo_size := of_nat (length (pdo_list inst)),
                current_base_delay := ucast delay_ms,
                bypass_link_pdo := True, pdo_base_timestamp := relative, current_pdo_idx := 0,
                curr_delivery_opportunity := of_nat PACKET_SIZE - packet_size\<rparr>))))))"

section \<open>Following the train\<close>

lemma u32_next: "(idx :: u32) < n \<Longrightarrow> unat (idx + 1) = unat idx + 1"
proof (rule trans [OF unat_add_small])
  assume "idx < n"
  then have "unat idx < unat n" by (simp add: word_less_nat_alt)
  then show "unat idx + unat (1 :: u32) < 2 ^ LENGTH(32)" using unat_u32_less [of n] by simp
qed simp

text \<open>The first light PDO that is not before \<open>timestamp_from_pdo_base\<close>, and the opportunity's bytes.\<close>

function find_pdo :: "i32 list \<Rightarrow> u32 \<Rightarrow> i64 \<Rightarrow> u32 \<Rightarrow> i32 \<Rightarrow> (u32 \<times> i32) res" where
  "find_pdo pdo n from_base idx opportunity =
     (if idx < n then
        andThen (nthE pdo (unat idx) ''pdo[current_pdo_idx_]'') (\<lambda>p.
          if sint p < sint from_base then find_pdo pdo n from_base (idx + 1) (of_nat PACKET_SIZE)
          else Inr (idx, opportunity))
      else Inr (idx, opportunity))"
  by pat_completeness auto

termination
  by (relation "measure (\<lambda>(pdo, n, from_base, idx, opp). unat n - unat idx)")
    (auto simp: u32_next word_less_nat_alt)

declare find_pdo.simps [simp del]

definition follow_train ::
    "u64 \<Rightarrow> delay_pdo_instance list \<Rightarrow> u32 \<Rightarrow> 'a delay_stage_scheme \<Rightarrow>
     (u64 \<times> 'a delay_stage_scheme) res" where
  "follow_train time trace packet_size d =
     (let relative = time - delay_base_timestamp d;
          from_base = relative - pdo_base_timestamp d;
          n = current_pdo_size d
      in andThen (nthE trace (unat (current_delay_pdo_idx d))
                    ''delay_pdo_trace[current_delay_pdo_idx_]'') (\<lambda>inst.
         andThen (find_pdo (pdo_list inst) n from_base (current_pdo_idx d)
                    (curr_delivery_opportunity d)) (\<lambda>(idx, opp).
           let (idx, opp) = (if opp < packet_size then (idx + 1, of_nat PACKET_SIZE) else (idx, opp));
               d' = d\<lparr>current_pdo_idx := idx, curr_delivery_opportunity := opp - packet_size\<rparr>
           in if n \<le> idx then
                andThen (nthE (pdo_list inst) (unat (n - 1)) ''pdo[current_pdo_size_ - 1]'') (\<lambda>p.
                  Inr (max (time + scast (current_base_delay d)) (time + scast p),
                       d'\<lparr>bypass_link_pdo := False\<rparr>))
              else
                andThen (nthE (pdo_list inst) (unat idx) ''pdo[current_pdo_idx_]'') (\<lambda>p.
                andThen (assertE (sint from_base \<le> sint p)
                           ''pdo[current_pdo_idx_] >= timestamp_from_pdo_base'') (\<lambda>_.
                  Inr (time + scast (current_base_delay d) + (scast p - from_base),
                       d'\<lparr>bypass_link_pdo := True\<rparr>))))))"

section \<open>The release time\<close>

definition get_pkt_release_time_from_trace ::
    "u64 \<Rightarrow> delay_pdo_instance list \<Rightarrow> u32 \<Rightarrow> 'a delay_stage_scheme \<Rightarrow>
     (u64 \<times> 'a delay_stage_scheme) res option" where
  "get_pkt_release_time_from_trace time trace packet_size d =
     andThenO (if start_new_short_pdo_trace time d then begin_train time trace packet_size d
               else Some (follow_train time trace packet_size d))
       (\<lambda>(release_time, d').
          Some (Inr (release_time, d'\<lparr>last_delay_queue_release_time := release_time\<rparr>)))"

definition get_pkt_release_time ::
    "u64 \<Rightarrow> string \<Rightarrow> 'a delay_stage_scheme \<Rightarrow> (u64 \<times> 'a delay_stage_scheme) res option" where
  "get_pkt_release_time time contents d =
     get_pkt_release_time_from_trace time (delay_pdo_traces d) (of_nat (length contents)) d"

section \<open>The packet size offset\<close>

definition get_psize_latency_offset :: "rat list \<Rightarrow> u32 \<Rightarrow> rat" where
  "get_psize_latency_offset offsets psize =
     (if length offsets = 0 then 0
      else
        let idx = sint (psize div 100 - 1); remainder = sint (psize mod 100)
        in if idx < 0 then offsets ! 0
           else if length offsets - 1 \<le> nat idx then last offsets
           else fl64 (offsets ! nat idx
                  + fl64 (fl64 (of_int remainder / 100)
                          * fl64 (offsets ! (nat idx + 1) - offsets ! nat idx))))"

section \<open>The traces\<close>

text \<open>
  A usable trace: what the constructor checks, and what it does not check but the search, the
  interpolation and the index arithmetic need: it starts at time 0, lasts, and every instance has
  light PDOs, in ascending order.
\<close>

definition instance_ok :: "delay_pdo_instance \<Rightarrow> bool" where
  "instance_ok i \<longleftrightarrow>
     0 \<le> sint (pdo_delay i) \<and> sint (pdo_delay i) \<le> 2 ^ 24 \<and>
     pdo_list i \<noteq> [] \<and> length (pdo_list i) < 2 ^ 31 \<and> sorted (map sint (pdo_list i)) \<and>
     (\<forall>p \<in> set (pdo_list i). 0 \<le> sint p)"

definition trace_ok :: "delay_pdo_instance list \<Rightarrow> bool" where
  "trace_ok tr \<longleftrightarrow>
     2 < length tr \<and> length tr < 2 ^ 31 \<and> sorted (map pdo_time tr) \<and>
     pdo_time (tr ! 0) = 0 \<and> 0 < pdo_time (last tr) \<and> (\<forall>i \<in> set tr. instance_ok i)"

text \<open>The instance a position of the trace falls into.\<close>

definition in_instance :: "delay_pdo_instance list \<Rightarrow> u32 \<Rightarrow> u64 \<Rightarrow> bool" where
  "in_instance tr idx relative \<longleftrightarrow>
     unat idx + 1 < length tr \<and> pdo_time (tr ! unat idx) \<le> relative \<and>
     relative < pdo_time (tr ! (unat idx + 1))"

lemma trace_time_le_last:
  assumes "trace_ok tr" "i < length tr"
  shows "pdo_time (tr ! i) \<le> pdo_time (last tr)"
proof -
  have "map pdo_time tr ! i \<le> map pdo_time tr ! (length tr - 1)"
    using assms by (intro sorted_nth_mono) (auto simp: trace_ok_def)
  moreover have "last tr = tr ! (length tr - 1)" using assms by (intro last_conv_nth) auto
  ultimately show ?thesis using assms by simp
qed

section \<open>The search ends, in the right instance\<close>

lemma idx_Suc: "unat (idx :: u32) + 1 < n \<Longrightarrow> n < 2 ^ 31 \<Longrightarrow> unat (idx + 1) = unat idx + 1"
  by (subst unat_add_small) simp_all

lemma word_add_le:
  fixes b t l :: u64
  assumes "l \<le> t - b" "b \<le> t"
  shows "b + l \<le> t"
proof -
  have "unat l + unat b \<le> unat t"
    using assms unat_diff_le [OF assms(2)] by (simp add: word_le_nat_alt)
  moreover from this have "unat (b + l) = unat b + unat l"
    using unat_u64_less [of t] by (intro unat_add_small) simp
  ultimately show ?thesis by (simp add: word_le_nat_alt)
qed

lemma find_step_ok:
  assumes "trace_ok tr" "unat idx + 1 < length tr" "pdo_time (tr ! unat idx) \<le> time - base"
  shows "find_step tr time idx base (time - base) = Inr None \<and> in_instance tr idx (time - base) \<or>
    find_step tr time idx base (time - base) = Inr (Some (idx + 1, base, time - base)) \<and>
      unat (idx + 1) + 1 < length tr \<and> unat (idx + 1) = unat idx + 1 \<and>
      pdo_time (tr ! unat (idx + 1)) \<le> time - base \<or>
    find_step tr time idx base (time - base)
        = Inr (Some (0, base + pdo_time (last tr), time - (base + pdo_time (last tr)))) \<and>
      pdo_time (last tr) \<le> time - base"
proof -
  have len: "2 < length tr" "length tr < 2 ^ 31" using assms(1) by (simp_all add: trace_ok_def)
  note i = idx_Suc [OF assms(2) len(2)]
  show ?thesis
  proof (cases "pdo_time (tr ! unat (idx + 1)) \<le> time - base")
    case False
    then show ?thesis using assms(2,3) i by (simp add: find_step_def in_instance_def flip: not_le)
  next
    case le: True
    show ?thesis
    proof (cases "length tr - 1 \<le> unat (idx + 1)")
      case True
      with assms(2) i have "tr ! unat (idx + 1) = last tr"
        using len(1) by (subst last_conv_nth) (auto intro: arg_cong [of _ _ "(!) tr"])
      with le True show ?thesis using assms(2) i by (simp add: find_step_def Let_def)
    next
      case False
      then have "unat (idx + 1) + 1 < length tr" using assms(2) i by linarith
      with le False show ?thesis using assms(2) i by (simp add: find_step_def Let_def)
    qed
  qed
qed

lemma find_instance_ok:
  "trace_ok tr \<Longrightarrow> unat idx + 1 < length tr \<Longrightarrow> pdo_time (tr ! unat idx) \<le> time - base \<Longrightarrow>
   \<exists>idx' base'. find_instance tr time idx base (time - base)
       = Some (Inr (idx', base', time - base')) \<and> in_instance tr idx' (time - base') \<and>
     unat (time - base') = unat (time - base) mod unat (pdo_time (last tr)) \<and>
     (base \<le> time \<longrightarrow> base' \<le> time)"
proof (induction "unat (time - base) * length tr + (length tr - unat idx)"
    arbitrary: idx base rule: less_induct)
  case less
  note unfold = find_instance.simps [of tr time idx base "time - base"]
  let ?L = "pdo_time (last tr)"
  from find_step_ok [OF less.prems] show ?case
  proof (elim disjE conjE)
    assume step: "find_step tr time idx base (time - base) = Inr None"
      and at: "in_instance tr idx (time - base)"
    then have "time - base < ?L"
      using trace_time_le_last [OF less.prems(1), of "unat idx + 1"]
      by (auto simp: in_instance_def intro: order.strict_trans2)
    then have "unat (time - base) mod unat ?L = unat (time - base)" by (simp add: word_less_nat_alt)
    then show ?thesis using step at unfold by simp
  next
    assume step: "find_step tr time idx base (time - base) = Inr (Some (idx + 1, base, time - base))"
      "unat (idx + 1) + 1 < length tr" "unat (idx + 1) = unat idx + 1"
      "pdo_time (tr ! unat (idx + 1)) \<le> time - base"
    have "length tr - unat (idx + 1) < length tr - unat idx" using step(2,3) by linarith
    then show ?thesis using less.hyps [of base "idx + 1"] less.prems(1) step(1,2,4) unfold by simp
  next
    assume step: "find_step tr time idx base (time - base)
        = Inr (Some (0, base + ?L, time - (base + ?L)))" and L: "?L \<le> time - base"
    have rel: "time - (base + ?L) = (time - base) - ?L" by simp
    have u: "unat (time - (base + ?L)) = unat (time - base) - unat ?L"
      unfolding rel using L by (rule unat_diff_le)
    have L': "0 < unat ?L" "unat ?L \<le> unat (time - base)"
      using less.prems(1) L by (simp_all add: trace_ok_def word_less_nat_alt word_le_nat_alt)
    then have "Suc (unat (time - (base + ?L))) \<le> unat (time - base)" using u by linarith
    then have "Suc (unat (time - (base + ?L))) * length tr \<le> unat (time - base) * length tr"
      by (rule mult_le_mono1)
    then have "unat (time - (base + ?L)) * length tr + (length tr - unat (0 :: u32))
        < unat (time - base) * length tr + (length tr - unat idx)" using less.prems(2) by simp
    from less.hyps [OF this less.prems(1)] less.prems(1) obtain idx' base' where
      IH: "find_instance tr time 0 (base + ?L) (time - (base + ?L)) = Some (Inr (idx', base', time - base'))"
        "in_instance tr idx' (time - base')"
        "unat (time - base') = unat (time - (base + ?L)) mod unat ?L"
        "base + ?L \<le> time \<longrightarrow> base' \<le> time"
      by (auto simp: trace_ok_def)
    have "base + ?L \<le> time" if "base \<le> time" using L that by (rule word_add_le)
    moreover have "unat (time - base) mod unat ?L = (unat (time - base) - unat ?L) mod unat ?L"
      using L'(2) by (rule le_mod_geq)
    ultimately show ?thesis using IH step unfold u by simp
  qed
qed

text \<open>A trace that never leaves time 0 is searched forever.\<close>

lemma find_step_zero:
  assumes "2 < length tr" "length tr < 2 ^ 31" "\<forall>i \<in> set tr. pdo_time i = 0" "unat idx + 1 < length tr"
  shows "\<exists>idx' base' rel'. find_step tr time idx base rel = Inr (Some (idx', base', rel')) \<and>
    unat idx' + 1 < length tr"
proof -
  note i = idx_Suc [OF assms(4,2)]
  have "pdo_time (tr ! unat (idx + 1)) = 0" using assms i by simp
  then show ?thesis
    using assms i by (cases "length tr - 1 \<le> unat (idx + 1)") (auto simp: find_step_def Let_def)
qed

lemma find_instance_zero:
  "find_instance tr time idx base rel = Some r \<Longrightarrow>
   \<not> (2 < length tr \<and> length tr < 2 ^ 31 \<and> (\<forall>i \<in> set tr. pdo_time i = 0) \<and> unat idx + 1 < length tr)"
proof (rule find_instance.raw_induct [where P = "\<lambda>tr time idx base rel r.
    \<not> (2 < length tr \<and> length tr < 2 ^ 31 \<and> (\<forall>i \<in> set tr. pdo_time i = 0) \<and> unat idx + 1 < length tr)"])
  fix self tr time idx base rel r
  assume IH: "\<And>tr time idx base rel r. self tr time idx base rel = Some r \<Longrightarrow>
      \<not> (2 < length tr \<and> length tr < 2 ^ 31 \<and> (\<forall>i \<in> set tr. pdo_time i = 0) \<and> unat idx + 1 < length tr)"
    and body: "(case find_step tr time idx base rel of Inl e \<Rightarrow> Some (Inl e)
      | Inr None \<Rightarrow> Some (Inr (idx, base, rel))
      | Inr (Some (idx', base', rel')) \<Rightarrow> self tr time idx' base' rel') = Some r"
  show "\<not> (2 < length tr \<and> length tr < 2 ^ 31 \<and> (\<forall>i \<in> set tr. pdo_time i = 0) \<and> unat idx + 1 < length tr)"
  proof
    assume z: "2 < length tr \<and> length tr < 2 ^ 31 \<and> (\<forall>i \<in> set tr. pdo_time i = 0) \<and> unat idx + 1 < length tr"
    then obtain idx' base' rel' where s: "find_step tr time idx base rel = Inr (Some (idx', base', rel'))"
      "unat idx' + 1 < length tr" using find_step_zero [of tr idx time base rel] by blast
    with body have "self tr time idx' base' rel' = Some r" by simp
    from IH [OF this] s(2) z show False by blast
  qed
qed

lemma find_instance_diverges:
  assumes "2 < length tr" "length tr < 2 ^ 31" "\<forall>i \<in> set tr. pdo_time i = 0" "unat idx + 1 < length tr"
  shows "find_instance tr time idx base rel = None"
  using find_instance_zero [of tr time idx base rel] assms
  by (cases "find_instance tr time idx base rel") blast+

section \<open>The base delay lies between its neighbours\<close>

lemma interpolation_bounds:
  fixes a b :: nat and d0 d1 :: int
  assumes "a < b" "0 \<le> d0" "d0 \<le> 2 ^ 24" "0 \<le> d1" "d1 \<le> 2 ^ 24"
  defines "y \<equiv> fl32 (fl32 (of_int d0) +
    fl32 (fl32 (fl32 (of_nat a) / fl32 (of_nat b)) * fl32 (of_int (d1 - d0))))"
  shows "of_int (min d0 d1) \<le> y" "y \<le> of_int (max d0 d1)"
proof -
  let ?r = "fl32 (fl32 (of_nat a) / fl32 (of_nat b))" and ?D = "of_int (d1 - d0) :: rat"
  have "fl32 1 \<le> fl32 (of_nat b)" using assms(1) by (intro fl32_mono) simp
  then have b: "0 < fl32 (of_nat b)" by simp
  have a: "0 \<le> fl32 (of_nat a)" unfolding fl32_def by (intro fl_nonneg) simp
  have ab: "fl32 (of_nat a) \<le> fl32 (of_nat b)" using assms(1) by (intro fl32_mono) simp
  have "fl32 0 \<le> ?r" using a b by (intro fl32_mono) simp
  moreover have "?r \<le> fl32 1" using ab b by (intro fl32_mono) simp
  ultimately have r: "0 \<le> ?r" "?r \<le> 1" by simp_all
  have small: "\<bar>d1 - d0\<bar> \<le> 2 ^ 24" using assms by simp
  have D: "fl32 ?D = ?D" using small by (rule fl32_of_int)
  have d0: "fl32 (of_int d0) = of_int d0" using assms by (intro fl32_of_int) simp
  have lo: "of_int (min 0 (d1 - d0)) \<le> ?r * ?D" and hi: "?r * ?D \<le> of_int (max 0 (d1 - d0))"
    using r mult_left_le_one_le [of ?D ?r] mult_left_le_one_le [of "- ?D" ?r]
      mult_nonneg_nonneg [of ?r ?D] mult_nonneg_nonpos [of ?r ?D]
    by (cases "d0 \<le> d1"; simp add: min_def max_def)+
  have "fl32 (of_int (min 0 (d1 - d0))) \<le> fl32 (?r * ?D)"
    "fl32 (?r * ?D) \<le> fl32 (of_int (max 0 (d1 - d0)))"
    using lo hi by (simp_all only: fl32_mono)
  moreover have "fl32 (of_int (min 0 (d1 - d0))) = of_int (min 0 (d1 - d0))"
    "fl32 (of_int (max 0 (d1 - d0))) = of_int (max 0 (d1 - d0))"
    using small by (intro fl32_of_int; simp)+
  ultimately have "of_int (min d0 d1) \<le> of_int d0 + fl32 (?r * ?D)"
    "of_int d0 + fl32 (?r * ?D) \<le> of_int (max d0 d1)"
    by (simp_all add: min_def max_def split: if_splits)
  then have "fl32 (of_int (min d0 d1)) \<le> y" "y \<le> fl32 (of_int (max d0 d1))"
    unfolding y_def D d0 by (simp_all only: fl32_mono)
  moreover have "fl32 (of_int (min d0 d1)) = of_int (min d0 d1)"
    "fl32 (of_int (max d0 d1)) = of_int (max d0 d1)"
    using assms by (intro fl32_of_int; simp)+
  ultimately show "of_int (min d0 d1) \<le> y" "y \<le> of_int (max d0 d1)" by simp_all
qed

lemma interpolated_delay_ok:
  assumes "instance_ok i" "instance_ok j" "pdo_time i \<le> rel" "rel < pdo_time j"
  shows "\<exists>v. interpolated_delay i j rel = Inr v \<and>
    min (sint (pdo_delay i)) (sint (pdo_delay j)) \<le> sint v \<and>
    sint v \<le> max (sint (pdo_delay i)) (sint (pdo_delay j))"
proof -
  let ?a = "unat (rel - pdo_time i)" and ?b = "unat (pdo_time j - pdo_time i)"
  let ?d0 = "sint (pdo_delay i)" and ?d1 = "sint (pdo_delay j)"
  have "pdo_time i \<le> pdo_time j" using assms(3,4) by (auto intro: order.trans)
  then have ab: "?a < ?b"
    using assms(3,4) by (simp add: unat_diff_le word_le_nat_alt word_less_nat_alt diff_less_mono)
  have d: "0 \<le> ?d0" "?d0 \<le> 2 ^ 24" "0 \<le> ?d1" "?d1 \<le> 2 ^ 24"
    using assms(1,2) by (simp_all add: instance_ok_def)
  define y where "y = fl32 (fl32 (of_int ?d0) +
    fl32 (fl32 (fl32 (of_nat ?a) / fl32 (of_nat ?b)) * fl32 (of_int (?d1 - ?d0))))"
  note y = interpolation_bounds [OF ab d, folded y_def]
  have t: "min ?d0 ?d1 \<le> rat_trunc y" "rat_trunc y \<le> max ?d0 ?d1"
    using rat_trunc_mono [OF y(1)] rat_trunc_mono [OF y(2)] by simp_all
  then have range: "- (2 ^ 31) \<le> rat_trunc y" "rat_trunc y < 2 ^ 31"
    using d by (auto simp: min_def max_def split: if_splits)
  have "sint (word_of_int (rat_trunc y) :: i32) = rat_trunc y"
    using range by (simp add: sint_sbintrunc' signed_take_bit_int_eq_self)
  moreover have "(of_nat ?b :: rat) \<noteq> 0"
    by (rule notI, drule of_nat_eq_0_iff [THEN iffD1]) (use ab in linarith)
  moreover from this have "interpolated_delay i j rel = Inr (word_of_int (rat_trunc y))"
    using d range unfolding interpolated_delay_def Let_def y_def [symmetric] float_to_int_def
    by simp
  ultimately show ?thesis using t by simp
qed

text \<open>A position before the instance wraps around, and the result leaves the range of \<open>int\<close>.\<close>

lemma interpolation_explodes:
  fixes a b :: nat and d0 d1 :: int
  assumes "2 ^ 63 \<le> a" "0 < b" "b \<le> 2 ^ 30" "0 \<le> d0" "d0 \<le> 2 ^ 24" "0 \<le> d1" "d1 \<le> 2 ^ 24" "d0 \<noteq> d1"
  defines "y \<equiv> fl32 (fl32 (of_int d0) +
    fl32 (fl32 (fl32 (of_nat a) / fl32 (of_nat b)) * fl32 (of_int (d1 - d0))))"
  shows "2 ^ 32 \<le> y \<or> y \<le> - (2 ^ 32)"
proof -
  let ?r = "fl32 (fl32 (of_nat a) / fl32 (of_nat b))" and ?D = "of_int (d1 - d0) :: rat"
  have "fl32 1 \<le> fl32 (of_nat b)" using assms(2) by (intro fl32_mono) simp
  then have b: "0 < fl32 (of_nat b)" by simp
  have "rat_of_nat b \<le> 2 ^ 30" using assms(3) by (metis of_nat_le_iff of_nat_numeral of_nat_power)
  then have b': "fl32 (of_nat b) \<le> 2 ^ 30" using fl32_mono fl32_power2 [of 30] by fastforce
  have "2 ^ 63 \<le> rat_of_nat a" using assms(1) by (metis of_nat_le_iff of_nat_numeral of_nat_power)
  then have a: "2 ^ 63 \<le> fl32 (of_nat a)" using fl32_mono fl32_power2 [of 63] by fastforce
  have "2 ^ 33 * fl32 (of_nat b) \<le> 2 ^ 33 * 2 ^ 30" using b' by simp
  also have "\<dots> \<le> fl32 (of_nat a)" using a by simp
  finally have "2 ^ 33 \<le> fl32 (of_nat a) / fl32 (of_nat b)" using b by (simp add: le_divide_eq)
  from fl32_mono [OF this] have r: "2 ^ 33 \<le> ?r" by (simp only: fl32_power2)
  have D: "fl32 ?D = ?D" using assms by (intro fl32_of_int) simp
  have d0: "fl32 (of_int d0) = of_int d0" using assms by (intro fl32_of_int) simp
  have d0': "0 \<le> rat_of_int d0" "rat_of_int d0 \<le> 2 ^ 24"
    using assms by (simp, metis of_int_le_iff of_int_numeral of_int_power)
  have neg: "fl32 (- (2 ^ n)) = - (2 ^ n)" for n
    using fl32_power2 [of n] by (simp add: fl32_def)
  show ?thesis
  proof (cases "d0 < d1")
    case True
    then have "1 \<le> ?D" by (simp flip: of_int_diff)
    then have "2 ^ 33 * 1 \<le> ?r * ?D" using r by (intro mult_mono) simp_all
    then have "2 ^ 33 \<le> fl32 (?r * ?D)" using fl32_mono fl32_power2 [of 33] by fastforce
    then have "2 ^ 32 \<le> of_int d0 + fl32 (?r * ?D)" using d0' by simp
    then have "2 ^ 32 \<le> y" unfolding y_def D d0 using fl32_mono fl32_power2 [of 32] by metis
    then show ?thesis ..
  next
    case False
    with assms have "?D \<le> - 1" by (simp flip: of_int_diff)
    then have "?r * ?D \<le> ?r * (- 1)" using r by (intro mult_left_mono) simp_all
    also have "\<dots> \<le> - (2 ^ 33)" using r by simp
    finally have "fl32 (?r * ?D) \<le> - (2 ^ 33)" using fl32_mono neg [of 33] by metis
    then have "of_int d0 + fl32 (?r * ?D) \<le> - (2 ^ 32)" using d0' by simp
    then have "y \<le> - (2 ^ 32)" unfolding y_def D d0 using fl32_mono neg [of 32] by metis
    then show ?thesis ..
  qed
qed

lemma float_to_int_outside:
  assumes "2 ^ 32 \<le> y \<or> y \<le> - (2 ^ 32)"
  shows "\<exists>m. float_to_int y = Inl (Undefined m)"
proof -
  have "rat_trunc (of_int (2 ^ 32)) \<le> rat_trunc y \<or> rat_trunc y \<le> rat_trunc (of_int (- (2 ^ 32)))"
    using assms by (auto intro: rat_trunc_mono)
  then have "2 ^ 32 \<le> rat_trunc y \<or> rat_trunc y \<le> - (2 ^ 32)" by (simp only: rat_trunc_of_int)
  then show ?thesis by (auto simp: float_to_int_def)
qed

lemma wrapped_position_undefined:
  assumes "rel < pdo_time i" "unat (pdo_time i) \<le> 2 ^ 62"
    and "pdo_time i < pdo_time j" "unat (pdo_time j) - unat (pdo_time i) \<le> 2 ^ 30"
    and "instance_ok i" "instance_ok j" "pdo_delay i \<noteq> pdo_delay j"
  shows "\<exists>m. interpolated_delay i j rel = Inl (Undefined m)"
proof -
  let ?a = "unat (rel - pdo_time i)" and ?b = "unat (pdo_time j - pdo_time i)"
  have "unat rel < unat (pdo_time i)" using assms(1) by (simp add: word_less_nat_alt)
  then have "?a = unat rel + 2 ^ 64 - unat (pdo_time i)" by (simp add: unat_sub_if')
  then have a: "2 ^ 63 \<le> ?a" using assms(2) by simp
  have b: "0 < ?b" "?b \<le> 2 ^ 30"
    using assms(3,4) unat_diff_le [of "pdo_time i" "pdo_time j"]
    by (simp_all add: word_less_nat_alt word_le_nat_alt)
  have d: "0 \<le> sint (pdo_delay i)" "sint (pdo_delay i) \<le> 2 ^ 24"
    "0 \<le> sint (pdo_delay j)" "sint (pdo_delay j) \<le> 2 ^ 24" "sint (pdo_delay i) \<noteq> sint (pdo_delay j)"
    using assms(5-7) by (simp_all add: instance_ok_def sint_eq_iff)
  from float_to_int_outside [OF interpolation_explodes [OF a b d]] b d
  show ?thesis unfolding interpolated_delay_def Let_def by auto
qed

section \<open>Following a train\<close>

lemma ucast_scast_i32 [simp]: "ucast (scast (v :: i32) :: u64) = v"
  by transfer (simp add: take_bit_signed_take_bit)

lemma unat_scast_nonneg:
  assumes "0 \<le> sint (v :: i32)"
  shows "unat (scast v :: u64) = nat (sint v)" "nat (sint v) < 2 ^ 31"
proof -
  have "sint v < 2 ^ 31" using sint_less [of v] by simp
  then show "nat (sint v) < 2 ^ 31" using assms by simp
  then have "take_bit 64 (sint v) = sint v" using assms by (intro take_bit_int_eq_self) simp_all
  moreover have "uint (scast v :: u64) = take_bit 64 (sint v)" by transfer simp
  ultimately show "unat (scast v :: u64) = nat (sint v)" by (simp flip: nat_uint_eq)
qed

lemma find_pdo_ok:
  "length pdo < 2 ^ 31 \<Longrightarrow> unat n = length pdo \<Longrightarrow>
   \<exists>i. find_pdo pdo n from_base idx opp = Inr (i, if i = idx then opp else of_nat PACKET_SIZE) \<and>
     idx \<le> i \<and> unat i \<le> max (unat idx) (length pdo) \<and>
     (unat i < length pdo \<longrightarrow> sint from_base \<le> sint (pdo ! unat i)) \<and>
     (\<forall>j. unat idx \<le> j \<and> j < unat i \<longrightarrow> sint (pdo ! j) < sint from_base)"
proof (induction pdo n from_base idx opp rule: find_pdo.induct)
  case (1 pdo n from_base idx opp)
  note unfold = find_pdo.simps [of pdo n from_base idx opp]
  show ?case
  proof (cases "idx < n")
    case False
    then show ?thesis using "1.prems" unfold
      by (intro exI [of _ idx]) (simp add: word_less_nat_alt)
  next
    case True
    then have len: "unat idx < length pdo" using "1.prems" by (simp add: word_less_nat_alt)
    show ?thesis
    proof (cases "sint (pdo ! unat idx) < sint from_base")
      case False
      then show ?thesis using True len unfold by (intro exI [of _ idx]) simp
    next
      case lt: True
      from "1.IH" [OF True _ lt "1.prems"] len obtain i where
        i: "find_pdo pdo n from_base (idx + 1) (of_nat PACKET_SIZE) = Inr (i, of_nat PACKET_SIZE)"
          "idx + 1 \<le> i" "unat i \<le> max (unat (idx + 1)) (length pdo)"
          "unat i < length pdo \<longrightarrow> sint from_base \<le> sint (pdo ! unat i)"
          "\<forall>j. unat (idx + 1) \<le> j \<and> j < unat i \<longrightarrow> sint (pdo ! j) < sint from_base"
        by (auto simp: if_distrib cong: if_cong)
      note next_idx = u32_next [OF True]
      have "unat idx < unat i" using i(2) next_idx by (simp add: word_le_nat_alt)
      then have "idx \<le> i" "i \<noteq> idx" by (auto simp: word_le_nat_alt)
      moreover have "\<forall>j. unat idx \<le> j \<and> j < unat i \<longrightarrow> sint (pdo ! j) < sint from_base"
      proof (intro allI impI)
        fix j assume "unat idx \<le> j \<and> j < unat i"
        then show "sint (pdo ! j) < sint from_base"
          using i(5) lt next_idx by (cases "j = unat idx") auto
      qed
      ultimately show ?thesis using True lt len i(1,3,4) next_idx unfold
        by (intro exI [of _ i]) auto
    qed
  qed
qed

text \<open>
  The slots of a train are numbered like its light PDOs; what lies beyond the last one is the heavy
  queue. A slot cannot take a packet when its PDO is past or its room is too small: the current
  slot has the room the packets before left, a later one \<open>PACKET_SIZE\<close>.
\<close>

definition slot_room :: "'a delay_stage_scheme \<Rightarrow> nat \<Rightarrow> nat" where
  "slot_room d j = (if j = unat (current_pdo_idx d) then unat (curr_delivery_opportunity d) else PACKET_SIZE)"

definition slot_unfit :: "u64 \<Rightarrow> delay_pdo_instance \<Rightarrow> u32 \<Rightarrow> 'a delay_stage_scheme \<Rightarrow> nat \<Rightarrow> bool" where
  "slot_unfit time inst packet_size d j \<longleftrightarrow>
     (j < length (pdo_list inst) \<and>
        sint (pdo_list inst ! j) < sint (time - delay_base_timestamp d - pdo_base_timestamp d)) \<or>
     slot_room d j < unat packet_size"

definition train_slot_ok :: "u64 \<Rightarrow> delay_pdo_instance \<Rightarrow> u32 \<Rightarrow> 'a delay_stage_scheme \<Rightarrow>
    u64 \<Rightarrow> u32 \<Rightarrow> i32 \<Rightarrow> bool \<Rightarrow> bool" where
  \<comment> \<open>the release time, slot, room left and bypass flag of a packet that follows a train\<close>
  "train_slot_ok time inst packet_size d release i room bypass \<longleftrightarrow>
     current_pdo_idx d \<le> i \<and>
     (\<forall>j. unat (current_pdo_idx d) \<le> j \<and> j < unat i \<longrightarrow> slot_unfit time inst packet_size d j) \<and>
     unat room + unat packet_size = slot_room d (unat i) \<and>
     bypass = (unat i < length (pdo_list inst)) \<and>
     (if bypass then
        sint (time - delay_base_timestamp d - pdo_base_timestamp d) \<le> sint (pdo_list inst ! unat i) \<and>
        release = delay_base_timestamp d + pdo_base_timestamp d + scast (current_base_delay d)
          + scast (pdo_list inst ! unat i)
      else release = max (time + scast (current_base_delay d)) (time + scast (last (pdo_list inst))))"

lemma unat_PACKET_SIZE_lt:
  "(of_nat PACKET_SIZE :: u32) < ps \<longleftrightarrow> PACKET_SIZE < unat ps"
  by (simp add: word_less_nat_alt unat_of_nat_small PACKET_SIZE_def)

text \<open>
  The slot a packet takes: the one found, or the next when the packet does not fit its room.
\<close>

lemma chosen_slot:
  fixes fb :: int and i j co ps :: u32 and pdo :: "i32 list"
  assumes pdo: "sorted (map sint pdo)" "length pdo < 2 ^ 31"
    and ps: "unat ps \<le> PACKET_SIZE" and idx: "unat j + 1 < 2 ^ 32"
    and i: "j \<le> i" "unat i \<le> max (unat j) (length pdo)" "unat i < length pdo \<longrightarrow> fb \<le> sint (pdo ! unat i)"
    and past: "\<forall>m. unat j \<le> m \<and> m < unat i \<longrightarrow> sint (pdo ! m) < fb"
  defines "opp \<equiv> if i = j then co else of_nat PACKET_SIZE"
  defines "i' \<equiv> if opp < ps then i + 1 else i" and "opp' \<equiv> if opp < ps then of_nat PACKET_SIZE else opp"
  shows "j \<le> i'" "unat i' \<le> max (unat j) (length pdo) + 1"
    "unat i' < length pdo \<longrightarrow> fb \<le> sint (pdo ! unat i')"
    "unat (opp' - ps) + unat ps = (if unat i' = unat j then unat co else PACKET_SIZE)"
    "\<forall>m. unat j \<le> m \<and> m < unat i' \<longrightarrow> m < length pdo \<and> sint (pdo ! m) < fb \<or>
       (if m = unat j then unat co else PACKET_SIZE) < unat ps"
proof -
  have full: "\<not> (of_nat PACKET_SIZE :: u32) < ps" using ps by (simp add: unat_PACKET_SIZE_lt)
  have Suc_i: "unat (i + 1) = unat i + 1"
    using i(2) idx pdo(2) by (intro trans [OF unat_add_small]) (auto simp: max_def split: if_splits)
  show "j \<le> i'" using i(1) Suc_i by (auto simp: i'_def word_le_nat_alt)
  show "unat i' \<le> max (unat j) (length pdo) + 1" using i(2) Suc_i by (auto simp: i'_def)
  have "sint (pdo ! unat i) \<le> sint (pdo ! (unat i + 1))" if "unat i + 1 < length pdo"
    using sorted_nth_mono [OF pdo(1), of "unat i" "unat i + 1"] that by simp
  then show "unat i' < length pdo \<longrightarrow> fb \<le> sint (pdo ! unat i')"
    using i(3) Suc_i by (auto simp: i'_def intro: order.trans)
  have moved: "i' \<noteq> j \<longrightarrow> opp' = of_nat PACKET_SIZE" "i' = j \<longrightarrow> opp' = co"
    using i(1) Suc_i full by (auto simp: i'_def opp'_def opp_def word_le_nat_alt)
  have "ps \<le> opp'" using full by (auto simp: opp'_def not_less)
  then have "unat (opp' - ps) + unat ps = unat opp'" by (simp add: unat_diff_le word_le_nat_alt)
  moreover have "unat (of_nat PACKET_SIZE :: u32) = PACKET_SIZE"
    by (rule unat_of_nat_small) (simp add: PACKET_SIZE_def)
  ultimately show "unat (opp' - ps) + unat ps = (if unat i' = unat j then unat co else PACKET_SIZE)"
    using moved by (cases "i' = j") (simp_all flip: word_unat_eq_iff)
  show "\<forall>m. unat j \<le> m \<and> m < unat i' \<longrightarrow> m < length pdo \<and> sint (pdo ! m) < fb \<or>
       (if m = unat j then unat co else PACKET_SIZE) < unat ps"
  proof (intro allI impI)
    fix m assume m: "unat j \<le> m \<and> m < unat i'"
    show "m < length pdo \<and> sint (pdo ! m) < fb \<or> (if m = unat j then unat co else PACKET_SIZE) < unat ps"
    proof (cases "m < unat i")
      case True
      then show ?thesis using past m i(2) by (auto simp: max_def split: if_splits)
    next
      case False
      then have "opp < ps" "m = unat i" using m Suc_i by (auto simp: i'_def split: if_splits)
      then show ?thesis using full by (auto simp: opp_def word_less_nat_alt split: if_splits)
    qed
  qed
qed

lemma follow_train_ok:
  assumes inst: "unat (current_delay_pdo_idx d) < length trace"
      "trace ! unat (current_delay_pdo_idx d) = inst" "instance_ok inst"
    and size: "unat (current_pdo_size d) = length (pdo_list inst)"
    and ps: "unat ps \<le> PACKET_SIZE"
    and idx: "unat (current_pdo_idx d) + 1 < 2 ^ 32"
  shows "\<exists>r i room bypass. follow_train time trace ps d = Inr (r, d\<lparr>current_pdo_idx := i,
        curr_delivery_opportunity := room, bypass_link_pdo := bypass\<rparr>) \<and>
      train_slot_ok time inst ps d r i room bypass \<and>
      unat i \<le> max (unat (current_pdo_idx d)) (length (pdo_list inst)) + 1"
proof -
  let ?pdo = "pdo_list inst" and ?n = "current_pdo_size d" and ?pi = "current_pdo_idx d"
  let ?co = "curr_delivery_opportunity d"
  let ?fb = "time - delay_base_timestamp d - pdo_base_timestamp d"
  have pdo: "?pdo \<noteq> []" "length ?pdo < 2 ^ 31" "sorted (map sint ?pdo)"
    using inst(3) by (simp_all add: instance_ok_def)
  from find_pdo_ok [OF pdo(2) size, of ?fb ?pi ?co] obtain i where
    i: "find_pdo ?pdo ?n ?fb ?pi ?co = Inr (i, if i = ?pi then ?co else of_nat PACKET_SIZE)"
      "?pi \<le> i" "unat i \<le> max (unat ?pi) (length ?pdo)"
      "unat i < length ?pdo \<longrightarrow> sint ?fb \<le> sint (?pdo ! unat i)"
      "\<forall>m. unat ?pi \<le> m \<and> m < unat i \<longrightarrow> sint (?pdo ! m) < sint ?fb" by blast
  define opp where "opp = (if i = ?pi then ?co else of_nat PACKET_SIZE)"
  define i' where "i' = (if opp < ps then i + 1 else i)"
  define opp' where "opp' = (if opp < ps then of_nat PACKET_SIZE else opp)"
  note i' = chosen_slot [OF pdo(3,2) ps idx i(2-5), of ?co, folded opp_def, folded i'_def opp'_def]
  have pick: "(if opp < ps then (i + 1, of_nat PACKET_SIZE) else (i, opp)) = (i', opp')"
    by (simp add: i'_def opp'_def)
  have low: "?n \<le> i' \<longleftrightarrow> \<not> unat i' < length ?pdo" by (simp add: word_le_nat_alt size not_less)
  have "1 \<le> ?n" using size pdo(1) by (simp add: word_le_nat_alt Suc_le_eq)
  then have last: "unat (?n - 1) = length ?pdo - 1" using size unat_diff_le by fastforce
  show ?thesis
  proof (cases "unat i' < length ?pdo")
    case True
    let ?r = "time + scast (current_base_delay d) + (scast (?pdo ! unat i') - ?fb)"
    have "follow_train time trace ps d = Inr (?r, d\<lparr>current_pdo_idx := i',
        curr_delivery_opportunity := opp' - ps, bypass_link_pdo := True\<rparr>)"
      using inst(1,2) i(1) low pick True i'(3) unfolding follow_train_def Let_def
      by (simp flip: opp_def)
    moreover have "train_slot_ok time inst ps d ?r i' (opp' - ps) True"
      using True i'(1,3-5) by (simp add: train_slot_ok_def slot_unfit_def slot_room_def)
    ultimately show ?thesis using i'(2) by blast
  next
    case False
    let ?r = "max (time + scast (current_base_delay d)) (time + scast (last ?pdo))"
    have "follow_train time trace ps d = Inr (?r, d\<lparr>current_pdo_idx := i',
        curr_delivery_opportunity := opp' - ps, bypass_link_pdo := False\<rparr>)"
      using inst(1,2) i(1) low pick last pdo(1) False
      unfolding follow_train_def Let_def by (simp add: last_conv_nth flip: opp_def)
    moreover have "train_slot_ok time inst ps d ?r i' (opp' - ps) False"
      using False i'(1,4,5) by (simp add: train_slot_ok_def slot_unfit_def slot_room_def)
    ultimately show ?thesis using i'(2) by blast
  qed
qed

section \<open>The delay stage's invariant\<close>

text \<open>
  \<open>k\<close> packets were read since the last train began; \<open>t\<close> is a time not before any the stage has
  seen. The second predicate is monotone in \<open>t\<close>: it survives every clock that does not run back.
\<close>

definition train_begun :: "'a delay_stage_scheme \<Rightarrow> bool" where
  "train_begun d \<longleftrightarrow> 0 \<le> sint (current_base_delay d)"

definition current_instance :: "'a delay_stage_scheme \<Rightarrow> delay_pdo_instance" where
  "current_instance d = delay_pdo_traces d ! unat (current_delay_pdo_idx d)"

definition delay_wf :: "nat \<Rightarrow> 'a delay_stage_scheme \<Rightarrow> bool" where
  "delay_wf k d \<longleftrightarrow>
     trace_ok (delay_pdo_traces d) \<and>
     unat (current_delay_pdo_idx d) + 1 < length (delay_pdo_traces d) \<and>
     unat (curr_delivery_opportunity d) \<le> PACKET_SIZE \<and>
     unat (current_pdo_idx d) \<le> 2 ^ 31 + k \<and>
     (train_begun d \<longrightarrow> sint (current_base_delay d) \<le> 2 ^ 24 \<and>
        unat (current_pdo_size d) = length (pdo_list (current_instance d)))"

definition delay_by :: "nat \<Rightarrow> 'a delay_stage_scheme \<Rightarrow> bool" where
  "delay_by t d \<longleftrightarrow>
     unat (delay_base_timestamp d) + unat (pdo_time (current_instance d)) \<le> t \<and>
     (train_begun d \<longrightarrow> unat (delay_base_timestamp d) + unat (pdo_base_timestamp d) \<le> t)"

lemma delay_by_mono: "delay_by t d \<Longrightarrow> t \<le> t' \<Longrightarrow> delay_by t' d"
  by (auto simp: delay_by_def)

lemma delay_wf_mono: "delay_wf k d \<Longrightarrow> k \<le> k' \<Longrightarrow> delay_wf k' d"
  by (auto simp: delay_wf_def)

text \<open>What a release time computation leaves alone.\<close>

definition same_delay :: "'a delay_stage_scheme \<Rightarrow> 'a delay_stage_scheme \<Rightarrow> bool" where
  "same_delay d d' \<longleftrightarrow>
     delay_pdo_traces d' = delay_pdo_traces d \<and> start_tick d' = start_tick d \<and>
     end_release_time d' = end_release_time d \<and> delay_packet_queue d' = delay_packet_queue d \<and>
     long_to_short_timer d' = long_to_short_timer d \<and> delay_stage.more d' = delay_stage.more d \<and>
     link_stage.truncate d' = link_stage.truncate d"

text \<open>What a packet that starts a train gets.\<close>

definition train_start_ok ::
    "u64 \<Rightarrow> u32 \<Rightarrow> 'a delay_stage_scheme \<Rightarrow> u64 \<Rightarrow> 'a delay_stage_scheme \<Rightarrow> bool" where
  "train_start_ok time ps d release d' \<longleftrightarrow>
     (let tr = delay_pdo_traces d; i = unat (current_delay_pdo_idx d');
          position = time - delay_base_timestamp d'
      in in_instance tr (current_delay_pdo_idx d') position \<and>
         unat position = unat (time - delay_base_timestamp d) mod unat (pdo_time (last tr)) \<and>
         train_begun d' \<and>
         min (sint (pdo_delay (tr ! i))) (sint (pdo_delay (tr ! (i + 1)))) \<le> sint (current_base_delay d') \<and>
         sint (current_base_delay d') \<le> max (sint (pdo_delay (tr ! i))) (sint (pdo_delay (tr ! (i + 1)))) \<and>
         unat release = unat time + nat (sint (current_base_delay d')) \<and>
         bypass_link_pdo d' \<and> current_pdo_idx d' = 0 \<and>
         unat (curr_delivery_opportunity d') + unat ps = PACKET_SIZE)"

lemma begin_train_ok:
  assumes wf: "delay_wf k d" and pre: "delay_by (unat time) d"
    and time: "unat time < 2 ^ 62" and ps: "unat ps \<le> PACKET_SIZE"
  shows "\<exists>r d'. begin_train time (delay_pdo_traces d) ps d = Some (Inr (r, d')) \<and>
    train_start_ok time ps d r d' \<and> delay_wf 0 d' \<and> delay_by (unat time) d' \<and> same_delay d d'"
proof -
  let ?tr = "delay_pdo_traces d" and ?base = "delay_base_timestamp d"
  have tr: "trace_ok ?tr" and len: "unat (current_delay_pdo_idx d) + 1 < length ?tr"
    "length ?tr < 2 ^ 31" using wf by (simp_all add: delay_wf_def trace_ok_def)
  have base: "?base \<le> time" using pre by (simp add: delay_by_def word_le_nat_alt)
  then have pos: "pdo_time (?tr ! unat (current_delay_pdo_idx d)) \<le> time - ?base"
    using pre by (auto simp: delay_by_def current_instance_def word_le_nat_alt unat_diff_le)
  from find_instance_ok [OF tr len(1) pos] base obtain idx base' where
    f: "find_instance ?tr time (current_delay_pdo_idx d) ?base (time - ?base)
          = Some (Inr (idx, base', time - base'))" "in_instance ?tr idx (time - base')"
      "unat (time - base') = unat (time - ?base) mod unat (pdo_time (last ?tr))" "base' \<le> time"
    by blast
  have i: "unat idx + 1 < length ?tr" using f(2) by (simp add: in_instance_def)
  note Suc_i = idx_Suc [OF i len(2)]
  let ?i = "?tr ! unat idx" and ?j = "?tr ! (unat idx + 1)"
  have ok: "instance_ok ?i" "instance_ok ?j" using tr i by (simp_all add: trace_ok_def)
  from interpolated_delay_ok [OF ok] f(2) obtain v where
    v: "interpolated_delay ?i ?j (time - base') = Inr v"
      "min (sint (pdo_delay ?i)) (sint (pdo_delay ?j)) \<le> sint v"
      "sint v \<le> max (sint (pdo_delay ?i)) (sint (pdo_delay ?j))"
    by (auto simp: in_instance_def)
  have v0: "0 \<le> sint v" "sint v \<le> 2 ^ 24"
    using v(2,3) ok by (auto simp: instance_ok_def min_def max_def split: if_splits)
  let ?d' = "d\<lparr>current_delay_pdo_idx := idx, delay_base_timestamp := base',
    current_pdo_size := of_nat (length (pdo_list ?i)), current_base_delay := v,
    bypass_link_pdo := True, pdo_base_timestamp := time - base', current_pdo_idx := 0,
    curr_delivery_opportunity := of_nat PACKET_SIZE - ps\<rparr>"
  have run: "begin_train time ?tr ps d = Some (Inr (time + scast v, ?d'))"
    using f(1) i Suc_i v(1) by (simp add: begin_train_def Let_def)
  have "unat (time + scast v) = unat time + nat (sint v)"
    using unat_scast_nonneg [OF v0(1)] time v0(2) by (subst unat_add_small) simp_all
  moreover have "ps \<le> of_nat PACKET_SIZE"
    using ps by (simp add: word_le_nat_alt unat_of_nat_small PACKET_SIZE_def)
  then have room: "unat (of_nat PACKET_SIZE - ps :: u32) + unat ps = PACKET_SIZE"
    using ps by (simp add: unat_diff_le unat_of_nat_small PACKET_SIZE_def)
  ultimately have "train_start_ok time ps d (time + scast v) ?d'"
    using f(2,3) v(2,3) v0(1) by (simp add: train_start_ok_def train_begun_def)
  moreover have "delay_wf 0 ?d'"
  proof -
    have "unat (of_nat (length (pdo_list ?i)) :: u32) = length (pdo_list ?i)"
      using ok(1) by (intro unat_of_nat_small) (simp add: instance_ok_def)
    moreover have "unat (of_nat PACKET_SIZE - ps :: u32) \<le> PACKET_SIZE" using room by linarith
    ultimately show ?thesis
      using tr i v0(2) by (simp add: delay_wf_def train_begun_def current_instance_def)
  qed
  moreover have "delay_by (unat time) ?d'"
  proof -
    have "unat base' + unat (time - base') = unat time"
      using f(4) by (simp add: unat_diff_le word_le_nat_alt)
    then show ?thesis using f(2)
      by (simp add: delay_by_def current_instance_def in_instance_def word_le_nat_alt)
  qed
  moreover have "same_delay d ?d'" by (simp add: same_delay_def link_stage.truncate_def)
  ultimately show ?thesis using run by blast
qed

lemma follow_bounds:
  assumes wf: "delay_wf k d" and pre: "delay_by (unat time) d" and begun: "train_begun d"
    and time: "unat time < 2 ^ 62"
    and slot: "train_slot_ok time (current_instance d) ps d r i room bypass"
  shows "unat time \<le> unat r \<and> unat r < unat time + 2 ^ 32"
proof -
  let ?inst = "current_instance d" and ?bd = "current_base_delay d"
  let ?origin = "unat (delay_base_timestamp d) + unat (pdo_base_timestamp d)"
  have ok: "instance_ok ?inst"
    using wf by (simp add: delay_wf_def trace_ok_def current_instance_def)
  have bd: "0 \<le> sint ?bd" "sint ?bd \<le> 2 ^ 24"
    using wf begun by (simp_all add: delay_wf_def train_begun_def)
  note bd' = unat_scast_nonneg [OF bd(1)]
  have origin: "?origin \<le> unat time" using pre begun by (simp add: delay_by_def)
  have plus_bd: "unat (time + scast ?bd) = unat time + nat (sint ?bd)"
    using bd' time by (subst unat_add_small) simp_all
  show ?thesis
  proof (cases bypass)
    case True
    let ?p = "pdo_list ?inst ! unat i"
    let ?fb = "time - delay_base_timestamp d - pdo_base_timestamp d"
    from slot True have i: "unat i < length (pdo_list ?inst)" and le: "sint ?fb \<le> sint ?p"
      and r: "r = delay_base_timestamp d + pdo_base_timestamp d + scast ?bd + scast ?p"
      by (simp_all add: train_slot_ok_def)
    have p0: "0 \<le> sint ?p" using ok i by (simp add: instance_ok_def)
    note p = unat_scast_nonneg [OF p0]
    have o1: "unat (delay_base_timestamp d + pdo_base_timestamp d) = ?origin"
      using origin time by (subst unat_add_small) simp_all
    have fb: "unat ?fb = unat time - ?origin"
    proof -
      have "?fb = time - (delay_base_timestamp d + pdo_base_timestamp d)" by simp
      then show ?thesis using origin by (simp only: unat_diff_le word_le_nat_alt o1)
    qed
    moreover have "sint ?fb = uint ?fb" using fb time by (intro sint_uint_small) simp
    moreover have "uint ?fb = int (unat ?fb)" by (rule uint_nat)
    ultimately have "sint ?fb = int (unat time - ?origin)" by simp
    with le have "unat time - ?origin \<le> nat (sint ?p)" by simp
    moreover have "unat r = ?origin + nat (sint ?bd) + nat (sint ?p)"
    proof -
      have "unat (delay_base_timestamp d + pdo_base_timestamp d + scast ?bd) = ?origin + nat (sint ?bd)"
        using o1 bd' origin time by (subst unat_add_small) simp_all
      then show ?thesis
        unfolding r using p bd' origin time by (subst unat_add_small) simp_all
    qed
    ultimately show ?thesis using origin bd'(2) p(2) by simp
  next
    case False
    let ?p = "last (pdo_list ?inst)"
    have p0: "0 \<le> sint ?p" using ok by (simp add: instance_ok_def)
    note p = unat_scast_nonneg [OF p0]
    have "unat (time + scast ?p) = unat time + nat (sint ?p)"
      using p time by (subst unat_add_small) simp_all
    then show ?thesis
      using slot False plus_bd bd' p by (auto simp: train_slot_ok_def max_def)
  qed
qed

lemma get_pkt_release_time_ok:
  assumes wf: "delay_wf k d" and pre: "delay_by (unat time) d"
    and time: "unat time < 2 ^ 62" and ps: "length contents \<le> PACKET_SIZE" and k: "k < 2 ^ 30"
  shows "\<exists>r d'. get_pkt_release_time time contents d = Some (Inr (r, d')) \<and>
    unat time \<le> unat r \<and> unat r < unat time + 2 ^ 32 \<and> last_delay_queue_release_time d' = r \<and>
    delay_wf (Suc k) d' \<and> delay_by (unat time) d' \<and> same_delay d d'"
proof -
  let ?ps = "of_nat (length contents) :: u32"
  have "unat ?ps = length contents" using ps by (intro unat_of_nat_small) (simp add: PACKET_SIZE_def)
  with ps have ps': "unat ?ps \<le> PACKET_SIZE" by simp
  note run = get_pkt_release_time_def get_pkt_release_time_from_trace_def
  show ?thesis
  proof (cases "start_new_short_pdo_trace time d")
    case True
    from begin_train_ok [OF wf pre time ps'] obtain r d' where
      b: "begin_train time (delay_pdo_traces d) ?ps d = Some (Inr (r, d'))"
        "train_start_ok time ?ps d r d'" "delay_wf 0 d'" "delay_by (unat time) d'" "same_delay d d'"
      by blast
    let ?d' = "d'\<lparr>last_delay_queue_release_time := r\<rparr>"
    have "nat (sint (current_base_delay d')) \<le> 2 ^ 24" "train_begun d'"
      using b(2,3) by (auto simp: train_start_ok_def delay_wf_def Let_def)
    then have "unat time \<le> unat r \<and> unat r < unat time + 2 ^ 32"
      using b(2) by (auto simp: train_start_ok_def Let_def)
    moreover have "delay_wf (Suc k) ?d'" "delay_by (unat time) ?d'"
      using delay_wf_mono [OF b(3), of "Suc k"] b(4)
      by (simp_all add: delay_wf_def delay_by_def train_begun_def current_instance_def)
    moreover have "same_delay d ?d'"
      using b(5) by (simp add: same_delay_def link_stage.truncate_def)
    ultimately show ?thesis using True b(1) by (simp add: run)
  next
    case False
    then have begun: "train_begun d" by (simp add: start_new_short_pdo_trace_def train_begun_def)
    have idx: "unat (current_delay_pdo_idx d) < length (delay_pdo_traces d)"
      "unat (current_pdo_size d) = length (pdo_list (current_instance d))"
      "unat (current_pdo_idx d) + 1 < 2 ^ 32"
      using wf begun k by (simp_all add: delay_wf_def)
    have ok: "instance_ok (current_instance d)"
      using wf by (simp add: delay_wf_def trace_ok_def current_instance_def)
    from follow_train_ok [OF idx(1) current_instance_def [symmetric] ok idx(2) ps' idx(3)] obtain r i room bypass where
      f: "follow_train time (delay_pdo_traces d) ?ps d = Inr (r, d\<lparr>current_pdo_idx := i,
            curr_delivery_opportunity := room, bypass_link_pdo := bypass\<rparr>)"
        "train_slot_ok time (current_instance d) ?ps d r i room bypass"
        "unat i \<le> max (unat (current_pdo_idx d)) (length (pdo_list (current_instance d))) + 1"
      by blast
    let ?d' = "d\<lparr>current_pdo_idx := i, curr_delivery_opportunity := room,
      bypass_link_pdo := bypass, last_delay_queue_release_time := r\<rparr>"
    have "unat i \<le> 2 ^ 31 + Suc k"
      using f(3) wf ok by (auto simp: delay_wf_def instance_ok_def)
    moreover have "unat room \<le> PACKET_SIZE"
      using f(2) wf by (auto simp: train_slot_ok_def slot_room_def delay_wf_def split: if_splits)
    ultimately have "delay_wf (Suc k) ?d'" "delay_by (unat time) ?d'"
      using wf pre by (simp_all add: delay_wf_def delay_by_def train_begun_def current_instance_def)
    moreover have "same_delay d ?d'" by (simp add: same_delay_def link_stage.truncate_def)
    ultimately show ?thesis
      using False f(1) follow_bounds [OF wf pre begun time f(2)] by (simp add: run)
  qed
qed

section \<open>Properties of the delay stage\<close>

definition sample_trace :: "delay_pdo_instance list" where
  "sample_trace =
     [DelayPDOInstance 0 10 [2, 5], DelayPDOInstance 100 30 [1], DelayPDOInstance 200 20 [3, 4]]"

text \<open>The state after a first packet at time 1000 started a train with base delay 10.\<close>

definition sample_delay :: delay_stage where
  "sample_delay =
     \<lparr>next_delivery = 0, heavy_pdo_schedule = [5, 20], link_base_timestamp = 1000,
      link_packet_queue = InfinitePacketQueue
        \<lparr>iq_internal_queue = [], iq_queue_size_in_bytes = 0, iq_queue_size_in_packets = 0\<rparr>,
      packet_in_transit = queued_packet_empty [] 0, packet_in_transit_bytes_left = 0,
      output_queue = [], current_link_queue_size = 0, repeat_trace = True, trace_finished = False,
      delay_pdo_traces = sample_trace, delay_base_timestamp = 1000, start_tick = True,
      end_release_time = 1010, curr_delivery_opportunity = 1300, delay_packet_queue = [],
      current_delay_pdo_idx = 0, current_pdo_idx = 0, current_pdo_size = 2,
      pdo_base_timestamp = 0, current_base_delay = 10, bypass_link_pdo = True,
      long_to_short_timer = 50, last_delay_queue_release_time = 1010\<rparr>"

lemma sample_trace_ok: "trace_ok sample_trace"
  by (simp add: sample_trace_def trace_ok_def instance_ok_def DelayPDOInstance_def)

lemma sample_delay_ok: "delay_wf 0 sample_delay" "delay_by 1003 sample_delay"
  by (simp_all add: delay_wf_def delay_by_def train_begun_def current_instance_def sample_delay_def
      sample_trace_ok PACKET_SIZE_def) (simp_all add: sample_trace_def DelayPDOInstance_def)

text \<open>
  C10. The search. On a usable trace the loop over the instances ends, whatever the clock shows,
  in the one instance whose interval holds the position, and the position is the time since the
  trace began modulo the length of the trace: the trace repeats with its own period.
\<close>

theorem trace_search:
  assumes "trace_ok tr" "unat idx + 1 < length tr" "pdo_time (tr ! unat idx) \<le> time - base"
  shows "\<exists>idx' base'. find_instance tr time idx base (time - base)
       = Some (Inr (idx', base', time - base')) \<and> in_instance tr idx' (time - base') \<and>
     unat (time - base') = unat (time - base) mod unat (pdo_time (last tr))"
  using find_instance_ok [OF assms] by blast

theorem trace_search_witness:
  "\<exists>idx' base'. find_instance sample_trace 1730 0 1000 730 = Some (Inr (idx', base', 1730 - base')) \<and>
     in_instance sample_trace idx' (1730 - base') \<and> unat (1730 - base') = 130"
  using trace_search [OF sample_trace_ok, of 0 1730 1000]
  by (simp add: sample_trace_def DelayPDOInstance_def)

text \<open>
  C9. A packet that starts a train leaves after a base delay between those of the two neighbouring
  instances, in spite of the single-precision interpolation, at its own arrival time plus that
  delay; it may skip the link, it stands at the train's first light PDO, and its bytes are taken
  off the first opportunity.
\<close>

theorem train_start:
  assumes "delay_wf k d" "delay_by (unat time) d" "unat time < 2 ^ 62" "unat ps \<le> PACKET_SIZE"
  shows "\<exists>r d'. begin_train time (delay_pdo_traces d) ps d = Some (Inr (r, d')) \<and>
    train_start_ok time ps d r d'"
  using begin_train_ok [OF assms] by blast

theorem train_start_witness:
  "\<exists>r d'. begin_train 1003 sample_trace 40 sample_delay = Some (Inr (r, d')) \<and>
    train_start_ok 1003 40 sample_delay r d'"
  using train_start [OF sample_delay_ok(1), of 1003 40] sample_delay_ok(2)
  by (simp add: PACKET_SIZE_def sample_delay_def)

text \<open>
  C6. A packet that follows a train takes the first light PDO from the current one on that is not
  past and has room: every slot it passes over is past or has less room than the packet needs. It
  leaves exactly at that PDO: train start plus base delay plus PDO. A slot
  never carries more than \<open>PACKET_SIZE\<close> bytes. When the light PDOs are used up the packet goes to
  the heavy PDO queue, not before the base delay or the last light PDO. The function's assertion
  holds.
\<close>

theorem train_slot:
  assumes "unat (current_delay_pdo_idx d) < length trace"
    and "trace ! unat (current_delay_pdo_idx d) = inst" "instance_ok inst"
    and "unat (current_pdo_size d) = length (pdo_list inst)" "unat ps \<le> PACKET_SIZE"
    and "unat (current_pdo_idx d) + 1 < 2 ^ 32"
  shows "\<exists>r i room bypass. follow_train time trace ps d = Inr (r, d\<lparr>current_pdo_idx := i,
        curr_delivery_opportunity := room, bypass_link_pdo := bypass\<rparr>) \<and>
      train_slot_ok time inst ps d r i room bypass"
  using follow_train_ok [OF assms] by blast

theorem train_slot_witness:
  "\<exists>r i room bypass. follow_train 1003 sample_trace 40 sample_delay
      = Inr (r, sample_delay\<lparr>current_pdo_idx := i, curr_delivery_opportunity := room,
          bypass_link_pdo := bypass\<rparr>) \<and>
    train_slot_ok 1003 (DelayPDOInstance 0 10 [2, 5]) 40 sample_delay r i room bypass"
proof -
  have "instance_ok (DelayPDOInstance 0 10 [2, 5])"
    by (simp add: instance_ok_def DelayPDOInstance_def)
  then show ?thesis
    by (intro train_slot)
      (simp_all add: sample_delay_def sample_trace_def DelayPDOInstance_def PACKET_SIZE_def)
qed

text \<open>
  C8. With a usable trace and a clock that does not run back, computing a release time returns:
  no endless search, no index out of range, no failed assertion, no undefined conversion. The
  packet leaves at or after its arrival, and the state stays well-formed for the next packet.
\<close>

theorem release_time_defined:
  assumes "delay_wf k d" "delay_by (unat time) d" "unat time < 2 ^ 62"
    and "length contents \<le> PACKET_SIZE" "k < 2 ^ 30"
  shows "\<exists>r d'. get_pkt_release_time time contents d = Some (Inr (r, d')) \<and>
    unat time \<le> unat r \<and> unat r < unat time + 2 ^ 32 \<and>
    delay_wf (Suc k) d' \<and> delay_by (unat time) d'"
  using get_pkt_release_time_ok [OF assms] by blast

theorem release_time_defined_witness:
  "\<exists>r d'. get_pkt_release_time 1003 (replicate 40 (CHR ''x'')) sample_delay = Some (Inr (r, d')) \<and>
    1003 \<le> unat r \<and> delay_wf 1 d'"
  using release_time_defined [OF sample_delay_ok(1), of 1003 "replicate 40 (CHR ''x'')"]
    sample_delay_ok(2)
  by (auto simp: PACKET_SIZE_def)

text \<open>
  C22. A trace whose first timestamp lies after the start timestamp: a position before it wraps
  around to about \<open>2^64\<close>, and unless the two delays are equal the interpolation converts a float
  out of the range of \<open>int\<close>, which is undefined behaviour.
\<close>

theorem late_trace_undefined:
  assumes "rel < pdo_time i" "unat (pdo_time i) \<le> 2 ^ 62"
    and "pdo_time i < pdo_time j" "unat (pdo_time j) - unat (pdo_time i) \<le> 2 ^ 30"
    and "instance_ok i" "instance_ok j" "pdo_delay i \<noteq> pdo_delay j"
  shows "\<exists>m. interpolated_delay i j rel = Inl (Undefined m)"
  using wrapped_position_undefined [OF assms] .

theorem late_trace_undefined_witness:
  "\<exists>m. interpolated_delay (DelayPDOInstance 5 10 [1]) (DelayPDOInstance 10 20 [1]) 0
     = Inl (Undefined m)"
  by (rule late_trace_undefined) (simp_all add: DelayPDOInstance_def instance_ok_def)

end
