(* ===== verification/Ferry.thy ===== *)
theory Ferry
  imports Main Prelude
begin

text \<open>
  \<open>src/packet/packetshell.cc\<close>: what \<open>PacketShell::Ferry::loop\<close> asks of its \<open>FerryQueueType\<close>, as a
  locale. The loop registers four callbacks: a datagram from the TUN device goes to \<open>read_packet\<close>,
  \<open>write_packets\<close> runs when \<open>pending_output\<close> says so, and \<open>wait_time\<close> bounds each sleep. Their
  order is the event loop's choice, so the law of the locale is over every sequence of calls.
\<close>

datatype ferry_call = Read_Packet string | Write_Packets | Wait_Time | Pending_Output

fun datagrams :: "ferry_call list \<Rightarrow> string list" where
  "datagrams [] = []"
| "datagrams (Read_Packet x # calls) = x # datagrams calls"
| "datagrams (Write_Packets # calls) = datagrams calls"
| "datagrams (Wait_Time # calls) = datagrams calls"
| "datagrams (Pending_Output # calls) = datagrams calls"

fun ferry_run ::
    "(string \<Rightarrow> 's \<Rightarrow> 's res option) \<Rightarrow> ('s \<Rightarrow> 's res option) \<Rightarrow> ('s \<Rightarrow> (u32 \<times> 's) res option) \<Rightarrow>
     ('s \<Rightarrow> (bool \<times> 's) res) \<Rightarrow> ferry_call list \<Rightarrow> 's \<Rightarrow> 's res option" where
  "ferry_run rd wr wait pend [] s = Some (Inr s)"
| "ferry_run rd wr wait pend (Read_Packet x # calls) s =
     andThenO (rd x s) (ferry_run rd wr wait pend calls)"
| "ferry_run rd wr wait pend (Write_Packets # calls) s =
     andThenO (wr s) (ferry_run rd wr wait pend calls)"
| "ferry_run rd wr wait pend (Wait_Time # calls) s =
     andThenO (wait s) (\<lambda>(_, s). ferry_run rd wr wait pend calls s)"
| "ferry_run rd wr wait pend (Pending_Output # calls) s =
     andThenO (Some (pend s)) (\<lambda>(_, s). ferry_run rd wr wait pend calls s)"

text \<open>
  \<open>accepts s xs\<close>: in state \<open>s\<close> the queue can still take the datagrams \<open>xs\<close>; \<open>held\<close> is what entered
  and has not left, \<open>sent\<close> what was written.
\<close>

locale ferry_queue =
  fixes rd :: "string \<Rightarrow> 's \<Rightarrow> 's res option"
    and wr :: "'s \<Rightarrow> 's res option"
    and wait :: "'s \<Rightarrow> (u32 \<times> 's) res option"
    and pend :: "'s \<Rightarrow> (bool \<times> 's) res"
    and accepts :: "'s \<Rightarrow> string list \<Rightarrow> bool"
    and held :: "'s \<Rightarrow> string list"
    and sent :: "'s \<Rightarrow> string list"
  assumes rd_law: "accepts s (x # xs) \<Longrightarrow>
      \<exists>s'. rd x s = Some (Inr s') \<and> accepts s' xs \<and> sent s' = sent s \<and> held s' = held s @ [x]"
    and wr_law: "accepts s xs \<Longrightarrow>
      \<exists>s' out. wr s = Some (Inr s') \<and> accepts s' xs \<and> sent s' = sent s @ out \<and>
        held s = out @ held s'"
    and wait_law: "accepts s xs \<Longrightarrow>
      \<exists>t s'. wait s = Some (Inr (t, s')) \<and> accepts s' xs \<and> sent s' = sent s \<and> held s' = held s"
    and pend_law: "accepts s xs \<Longrightarrow>
      \<exists>b s'. pend s = Inr (b, s') \<and> accepts s' xs \<and> sent s' = sent s \<and> held s' = held s"
begin

text \<open>
  Every sequence of calls returns, and what was written, then what is still held, is what was held
  and read, in order: nothing is lost, doubled, changed or overtaken.
\<close>

lemma run_fifo:
  "accepts s (datagrams calls @ xs) \<Longrightarrow>
   \<exists>s' out. ferry_run rd wr wait pend calls s = Some (Inr s') \<and> accepts s' xs \<and>
     sent s' = sent s @ out \<and> out @ held s' = held s @ datagrams calls"
proof (induction calls arbitrary: s)
  case Nil
  then show ?case by simp
next
  case (Cons call calls)
  show ?case
  proof (cases call)
    case (Read_Packet x)
    with Cons.prems rd_law [of s x "datagrams calls @ xs"] obtain s1 where
      s1: "rd x s = Some (Inr s1)" "accepts s1 (datagrams calls @ xs)" "sent s1 = sent s"
        "held s1 = held s @ [x]" by auto
    from Cons.IH [OF s1(2)] s1 Read_Packet show ?thesis by auto
  next
    case Write_Packets
    with Cons.prems wr_law [of s "datagrams calls @ xs"] obtain s1 out1 where
      s1: "wr s = Some (Inr s1)" "accepts s1 (datagrams calls @ xs)" "sent s1 = sent s @ out1"
        "held s = out1 @ held s1" by auto
    from Cons.IH [OF s1(2)] obtain s' out where
      IH: "ferry_run rd wr wait pend calls s1 = Some (Inr s')" "accepts s' xs"
        "sent s' = sent s1 @ out" "out @ held s' = held s1 @ datagrams calls" by blast
    then have "(out1 @ out) @ held s' = held s @ datagrams calls" by (simp add: s1(4))
    with IH s1 Write_Packets show ?thesis
      by (intro exI [of _ s'] exI [of _ "out1 @ out"]) simp
  next
    case Wait_Time
    with Cons.prems wait_law [of s "datagrams calls @ xs"] obtain t s1 where
      s1: "wait s = Some (Inr (t, s1))" "accepts s1 (datagrams calls @ xs)" "sent s1 = sent s"
        "held s1 = held s" by auto
    from Cons.IH [OF s1(2)] s1 Wait_Time show ?thesis by auto
  next
    case Pending_Output
    with Cons.prems pend_law [of s "datagrams calls @ xs"] obtain b s1 where
      s1: "pend s = Inr (b, s1)" "accepts s1 (datagrams calls @ xs)" "sent s1 = sent s"
        "held s1 = held s" by auto
    from Cons.IH [OF s1(2)] s1 Pending_Output show ?thesis by auto
  qed
qed

end

end
