(* ===== verification/Cellular_Queue.thy ===== *)
theory Cellular_Queue
  imports Main Prelude Kernel Packets Delay_Queue Link_Packet_Queue Cellular_State Link_Queue
    Release_Time
begin

text \<open>
  The operations of \<open>CellularQueue\<close> that \<open>PacketShell::Ferry::loop\<close> calls
  (\<open>src/frontend/cellular_queue.cc\<close>): a datagram enters (\<open>read_packet\<close>), what is due leaves
  (\<open>write_packets\<close>), and the event loop asks how long it may sleep (\<open>wait_time\<close>) and whether there
  is something to write (\<open>pending_output\<close>). Each reads the clock where the code does.
\<close>

section \<open>The packet header\<close>

text \<open>
  \<open>pkt[i]\<close> of a \<open>std::string\<close>'s data: the terminating NUL is readable, what lies beyond is not.
\<close>

definition byteE :: "string \<Rightarrow> nat \<Rightarrow> nat res" where
  "byteE pkt i =
     (if i < length pkt then Inr (of_char (pkt ! i))
      else if i = length pkt then Inr 0 else Inl (Undefined ''read past the packet''))"

definition inet_ntop :: "string \<Rightarrow> nat \<Rightarrow> string res" where
  \<comment> \<open>the dotted quad of the four bytes at an offset\<close>
  "inet_ntop pkt off =
     andThen (byteE pkt off) (\<lambda>a. andThen (byteE pkt (off + 1)) (\<lambda>b.
     andThen (byteE pkt (off + 2)) (\<lambda>c. andThen (byteE pkt (off + 3)) (\<lambda>d.
     Inr (dec a @ ''.'' @ dec b @ ''.'' @ dec c @ ''.'' @ dec d)))))"

definition port_at :: "string \<Rightarrow> nat \<Rightarrow> nat res" where
  "port_at pkt off =
     andThen (byteE pkt off) (\<lambda>hi. andThen (byteE pkt (off + 1)) (\<lambda>lo. Inr (hi * 256 + lo)))"

definition get_pkt_header_info :: "string \<Rightarrow> nat \<Rightarrow> string res" where
  \<comment> \<open>the packet and the offset of its IPv4 header\<close>
  "get_pkt_header_info pkt h =
     andThen (inet_ntop pkt (h + 12)) (\<lambda>src_ip.
     andThen (inet_ntop pkt (h + 16)) (\<lambda>dst_ip.
     andThen (byteE pkt (h + 9)) (\<lambda>protocol.
       if protocol = 1 then Inr (join_tab [''ICMP'', src_ip, dst_ip])
       else if protocol = 6 \<or> protocol = 17 then
         andThen (byteE pkt h) (\<lambda>version_ihl.
           let t = h + (version_ihl mod 16) * 4
           in andThen (port_at pkt t) (\<lambda>s_port. andThen (port_at pkt (t + 2)) (\<lambda>d_port.
              Inr (join_tab [if protocol = 6 then ''TCP'' else ''UDP'',
                             src_ip @ '':'' @ dec s_port, dst_ip @ '':'' @ dec d_port]))))
       else Inr (join_tab [''OTHER'', src_ip, dst_ip]))))"

section \<open>The log\<close>

definition log_line :: "string list \<Rightarrow> cellular_queue \<Rightarrow> cellular_queue" where
  "log_line cols c =
     (if packet_log_enabled c then c\<lparr>packet_logs := packet_logs c @ [join_tab cols]\<rparr> else c)"

definition bool_text :: "bool \<Rightarrow> string" where
  "bool_text b = (if b then ''true'' else ''false'')"

definition int_diff_text :: "u64 \<Rightarrow> u64 \<Rightarrow> string" where
  \<comment> \<open>\<open>int d = a - b\<close>, printed\<close>
  "int_diff_text a b = dec_int (sint (ucast (a - b) :: i32))"

section \<open>read_packet\<close>

definition sizeof_iphdr :: nat where "sizeof_iphdr = 20"

definition latency_offset :: "cellular_queue \<Rightarrow> string \<Rightarrow> i32 res" where
  "latency_offset c contents =
     float_to_int (of_int (rat_round
       (get_psize_latency_offset (psize_latency_offset c) (of_nat (length contents)))))"

definition read_packet :: "string \<Rightarrow> cellular_queue \<Rightarrow> world \<Rightarrow> (cellular_queue \<times> world) res option" where
  "read_packet contents c w =
     (if length contents < sizeof_iphdr then
        Some (Inl (Runtime_Error_Ptr ''Packet is too small!''))
      else if PACKET_SIZE < length contents then
        Some (Inl (Runtime_Error_Ptr (''Packet size ('' @ dec (length contents)
          @ '')  exceeds the maximum allowed ('' @ dec PACKET_SIZE @ '')'')))
      else
        andThenO (Some (timestamp w)) (\<lambda>(now, w).
        andThenO (Some (get_pkt_header_info contents 4)) (\<lambda>ip_port_info.
        let c = (if \<not> start_tick c then
                   c\<lparr>start_tick := True, link_base_timestamp := now, delay_base_timestamp := now\<rparr>
                 else c)
        in andThenO (get_pkt_release_time now contents c) (\<lambda>(release_time, c).
        andThenO (Some (latency_offset c contents)) (\<lambda>offset.
        let release_time = (if end_release_time c \<le> release_time + scast offset
                            then release_time + scast offset else release_time);
            (release_time, c) = (if release_time < end_release_time c
                                 then (end_release_time c, c\<lparr>bypass_link_pdo := False\<rparr>)
                                 else (release_time, c))
        in Some (
        andThen (assertE (end_release_time c \<le> release_time) ''release_time >= end_release_time_'') (\<lambda>_.
        let c = c\<lparr>end_release_time := release_time\<rparr>;
            delay_ms = release_time - now;
            c = c\<lparr>delay_packet_queue := pq_emplace
                    (mk_delay_queue_packet contents ip_port_info now (pkt_counter c) release_time
                       (bypass_link_pdo c)) (delay_packet_queue c)\<rparr>;
            c = log_line [dec (unat (pkt_counter c)), dec (unat now), ip_port_info,
                          dec (length contents), dec (unat delay_ms), bool_text (bypass_link_pdo c)] c
        in Inr (c\<lparr>pkt_counter := pkt_counter c + 1\<rparr>, w))))))))"

section \<open>write_packets\<close>

definition get_next_from_delay_queue ::
    "cellular_queue \<Rightarrow> world \<Rightarrow> (delay_queue_packet \<times> cellular_queue \<times> world) res" where
  "get_next_from_delay_queue c w =
     (if delay_packet_queue c = [] then Inr (delay_queue_packet_empty [] 0, c, w)
      else
        andThen (pq_top (delay_packet_queue c)) (\<lambda>top_packet.
        andThen (timestamp w) (\<lambda>(now, w).
          if dp_release_time top_packet \<le> now then
            andThen (pq_pop (delay_packet_queue c)) (\<lambda>q.
              Inr (top_packet, c\<lparr>delay_packet_queue := q\<rparr>, w))
          else Inr (delay_queue_packet_empty [] 0, c, w))))"

type_synonym writing = "file_descriptor \<times> cellular_queue \<times> world"

text \<open>One packet due at \<open>now\<close>: straight to the descriptor, or into the link.\<close>

definition forward_packet :: "u64 \<Rightarrow> delay_queue_packet \<Rightarrow> writing \<Rightarrow> writing res option" where
  "forward_packet now packet = (\<lambda>(fd, c, w).
     if dp_is_bypass_link_queue packet \<and> current_link_queue_size c = 0 then
       Some (andThen (fd_write (dp_contents packet) True fd w) (\<lambda>(_, fd, w).
         Inr (fd, log_line [dec (unat (dp_sequence_number packet)), dp_ip_port_info packet,
                            dec (unat (dp_arrival_time packet)), dec (unat now),
                            int_diff_text now (dp_arrival_time packet), ''true'', ''0''] c, w)))
     else
       andThenO (put_packet_to_link_queue now packet c) (\<lambda>c. Some (Inr (fd, c, w))))"

text \<open>The loop over the packets that are due, each fetched with a fresh reading of the clock.\<close>

definition forward_step ::
    "u64 \<Rightarrow> delay_queue_packet \<Rightarrow> writing \<Rightarrow> (delay_queue_packet \<times> writing) res option" where
  "forward_step now packet s =
     andThenO (forward_packet now packet s) (\<lambda>(fd, c, w).
     andThenO (Some (get_next_from_delay_queue c w)) (\<lambda>(next_packet, c, w).
     Some (Inr (next_packet, fd, c, w))))"

partial_function (option) forward_packets ::
    "u64 \<Rightarrow> delay_queue_packet \<Rightarrow> writing \<Rightarrow> writing res option" where
  "forward_packets now packet s =
     (if dp_contents packet = [] then Some (Inr s)
      else (case forward_step now packet s of
              None \<Rightarrow> None
            | Some r \<Rightarrow> (case r of
                Inl e \<Rightarrow> Some (Inl e)
              | Inr ns \<Rightarrow> (case ns of (next_packet, s') \<Rightarrow> forward_packets now next_packet s'))))"

text \<open>\<open>write_packets_from_link_queue\<close>: the loop over \<open>output_queue_\<close>.\<close>

fun flush_output :: "u64 \<Rightarrow> queued_packet list \<Rightarrow> writing \<Rightarrow> writing res" where
  "flush_output now [] s = Inr s"
| "flush_output now (packet # rest) (fd, c, w) =
     andThen (fd_write (qp_contents packet) True fd w) (\<lambda>(_, fd, w).
     let c = c\<lparr>output_queue := rest\<rparr>
     in andThen (assertE (current_link_queue_size c > 0) ''current_link_queue_size_ > 0'') (\<lambda>_.
        let c = c\<lparr>current_link_queue_size := current_link_queue_size c - 1\<rparr>;
            c = log_line [dec (unat (qp_sequence_number packet)), qp_ip_port_info packet,
                          dec (unat (qp_initial_arrival_time packet)), dec (unat now),
                          int_diff_text now (qp_initial_arrival_time packet), ''false'',
                          int_diff_text now (qp_arrival_time packet)] c
        in flush_output now rest (fd, c, w)))"

definition write_packets_from_link_queue :: "writing \<Rightarrow> writing res" where
  "write_packets_from_link_queue = (\<lambda>(fd, c, w).
     andThen (timestamp w) (\<lambda>(now, w). flush_output now (output_queue c) (fd, c, w)))"

definition write_packets :: "writing \<Rightarrow> writing res option" where
  "write_packets = (\<lambda>(fd, c, w).
     andThenO (Some (get_next_from_delay_queue c w)) (\<lambda>(next_packet, c, w).
     andThenO (Some (timestamp w)) (\<lambda>(now, w).
     andThenO (forward_packets now next_packet (fd, c, w)) (\<lambda>s.
     Some (write_packets_from_link_queue s)))))"

section \<open>wait_time and pending_output\<close>

definition wait_time_delay_queue :: "cellular_queue \<Rightarrow> world \<Rightarrow> (u32 \<times> world) res" where
  "wait_time_delay_queue c w =
     (if delay_packet_queue c = [] then Inr (65535, w)
      else
        andThen (timestamp w) (\<lambda>(now, w).
        andThen (pq_top (delay_packet_queue c)) (\<lambda>p.
          Inr (if dp_release_time p \<le> now then 0 else ucast (dp_release_time p - now), w))))"

definition wait_time_link_queue ::
    "cellular_queue \<Rightarrow> world \<Rightarrow> (u32 \<times> cellular_queue \<times> world) res option" where
  "wait_time_link_queue c w =
     andThenO (Some (timestamp w)) (\<lambda>(now, w).
     andThenO (rationalize now c) (\<lambda>c.
     andThenO (Some (next_delivery_time c)) (\<lambda>t.
       let wait = (ucast (t - now) :: i32)
       in Some (Inr (if sint wait < 0 then 0 else wait, c, w)))))"

definition wait_time :: "cellular_queue \<Rightarrow> world \<Rightarrow> (u32 \<times> cellular_queue \<times> world) res option" where
  "wait_time c w =
     andThenO (Some (wait_time_delay_queue c w)) (\<lambda>(delay, w).
     andThenO (wait_time_link_queue c w) (\<lambda>(link, c, w).
     Some (Inr (min delay link, c, w))))"

definition pending_output :: "cellular_queue \<Rightarrow> world \<Rightarrow> (bool \<times> world) res" where
  "pending_output c w =
     (if output_queue c \<noteq> [] then Inr (True, w)
      else andThen (wait_time_delay_queue c w) (\<lambda>(t, w). Inr (t \<le> 0, w)))"

definition finished :: "cellular_queue \<Rightarrow> bool" where
  "finished c = trace_finished c"

end
