(* ===== verification/Cellular_Channel.thy ===== *)
theory Cellular_Channel
  imports Main Prelude Kernel Packets Delay_Queue Link_Packet_Queue Cellular_State Link_Queue
    Release_Time Ferry Cellular_Queue
begin

text \<open>
  What \<open>CellularQueue\<close> does as a whole: between the two descriptors lies a channel, the packets of
  the link followed by those of the delay queue, and every operation keeps its order. The theory
  holds the invariant of the class, one lemma per operation, and the interpretation of the
  \<open>ferry_queue\<close> interface on the model.
\<close>

section \<open>The channel\<close>

text \<open>
  What is between the two descriptors, first to leave first: the link's packets, then the delay
  queue's, each as its sequence number and bytes.
\<close>

definition link_channel :: "'a link_stage_scheme \<Rightarrow> (u64 \<times> string) list" where
  "link_channel l = map (\<lambda>p. (qp_sequence_number p, qp_contents p)) (link_contents l)"

definition delay_channel :: "delay_queue_packet list \<Rightarrow> (u64 \<times> string) list" where
  "delay_channel q = map (\<lambda>p. (dp_sequence_number p, dp_contents p)) q"

lemma delay_channel_simps [simp]:
  "delay_channel [] = []"
  "delay_channel (p # q) = (dp_sequence_number p, dp_contents p) # delay_channel q"
  "delay_channel (q @ r) = delay_channel q @ delay_channel r"
  by (simp_all add: delay_channel_def)

definition channel :: "cellular_queue \<Rightarrow> (u64 \<times> string) list" where
  "channel c = link_channel c @ delay_channel (delay_packet_queue c)"

definition channel_room :: "(u64 \<times> string) list \<Rightarrow> bool" where
  \<comment> \<open>fits the 32-bit counters of a packet queue\<close>
  "channel_room ps \<longleftrightarrow> (\<Sum>p \<leftarrow> ps. length (snd p) + 1) < 2 ^ 31"

lemma channel_room_append: "channel_room (ps @ rs) \<Longrightarrow> channel_room ps \<and> channel_room rs"
  by (simp add: channel_room_def)

lemma channel_room_link:
  assumes "channel_room (link_channel l @ [(dp_sequence_number p, dp_contents p)])"
  shows "link_room l (to_link now p)"
proof -
  have "(\<Sum>p \<leftarrow> link_channel l. length (snd p) + 1) = sum_list (map qp_cost (link_contents l))"
    by (simp add: link_channel_def qp_cost_def [abs_def] comp_def)
  with assms show ?thesis by (simp add: channel_room_def link_room_def qp_cost_def)
qed

section \<open>The invariant\<close>

definition offset_ok :: "rat \<Rightarrow> bool" where
  "offset_ok x \<longleftrightarrow> - (2 ^ 29) \<le> x \<and> x \<le> 2 ^ 29"

definition delay_queue_ok :: "'a delay_stage_scheme \<Rightarrow> u64 \<Rightarrow> bool" where
  "delay_queue_ok d counter \<longleftrightarrow>
     sorted (map dp_key (delay_packet_queue d)) \<and>
     (\<forall>p \<in> set (delay_packet_queue d). dp_release_time p \<le> end_release_time d \<and>
        dp_sequence_number p < counter \<and>
        0 < length (dp_contents p) \<and> length (dp_contents p) \<le> PACKET_SIZE)"

definition cq_ok :: "cellular_queue \<Rightarrow> bool" where
  "cq_ok c \<longleftrightarrow>
     link_wf c \<and> lossless_apq (link_packet_queue c) \<and>
     unat (current_link_queue_size c) = length (link_contents c) \<and>
     delay_wf (unat (pkt_counter c)) c \<and> delay_queue_ok c (pkt_counter c) \<and>
     (\<not> start_tick c \<longrightarrow> link_contents c = [] \<and> delay_packet_queue c = [] \<and>
        current_delay_pdo_idx c = 0 \<and> \<not> train_begun c) \<and>
     (\<forall>x \<in> set (psize_latency_offset c). offset_ok x)"

definition world_ok :: "cellular_queue \<Rightarrow> world \<Rightarrow> bool" where
  "world_ok c w \<longleftrightarrow> clock_steady w \<and> whole_writes w \<and> delay_by (unat (clock_now w)) c"

lemma world_ok_tick:
  assumes "world_ok c w"
  shows "timestamp w = Inr (clock_now w, clock_tick w)" "unat (clock_now w) < 2 ^ 62"
    "world_ok c (clock_tick w)" "clock_now w \<le> clock_now (clock_tick w)"
  using assms clock_now_tick [of w] timestamp_ok [of w] clock_now_bound [of w]
  by (auto simp: world_ok_def word_le_nat_alt intro: delay_by_mono)

section \<open>The stages leave each other alone\<close>

lemma link_stage_cong:
  assumes "link_stage.truncate l' = link_stage.truncate l"
  shows "link_wf l' = link_wf l" "link_contents l' = link_contents l"
    "link_packet_queue l' = link_packet_queue l"
    "current_link_queue_size l' = current_link_queue_size l"
    "trace_finished l' = trace_finished l" "repeat_trace l' = repeat_trace l"
  using assms
  by (simp_all add: link_stage.truncate_def link_wf_def transit_ok_def arrived_by_def
      link_contents_def in_transit_def delivery_time_def)

lemma delay_stage_cong:
  fixes c c' :: cellular_queue
  assumes "link_stage.more c' = link_stage.more c"
  shows "delay_wf k c' = delay_wf k c" "delay_queue_ok c' n = delay_queue_ok c n"
    "delay_by t c' = delay_by t c" "delay_packet_queue c' = delay_packet_queue c"
    "pkt_counter c' = pkt_counter c" "psize_latency_offset c' = psize_latency_offset c"
    "start_tick c' = start_tick c" "end_release_time c' = end_release_time c"
    "current_delay_pdo_idx c' = current_delay_pdo_idx c" "train_begun c' = train_begun c"
    "packet_log_enabled c' = packet_log_enabled c"
  using assms
  by (cases c; cases c'; simp add: delay_wf_def delay_queue_ok_def delay_by_def train_begun_def
      current_instance_def)+

lemma log_line_cong [simp]:
  "link_stage.truncate (log_line t c) = link_stage.truncate c"
  "delay_wf k (log_line t c) = delay_wf k c" "delay_queue_ok (log_line t c) n = delay_queue_ok c n"
  "delay_by m (log_line t c) = delay_by m c"
  "delay_packet_queue (log_line t c) = delay_packet_queue c"
  "pkt_counter (log_line t c) = pkt_counter c"
  "psize_latency_offset (log_line t c) = psize_latency_offset c"
  "start_tick (log_line t c) = start_tick c" "output_queue (log_line t c) = output_queue c"
  "end_release_time (log_line t c) = end_release_time c"
  "train_begun (log_line t c) = train_begun c"
  "current_delay_pdo_idx (log_line t c) = current_delay_pdo_idx c"
  by (simp_all add: log_line_def link_stage.truncate_def delay_wf_def delay_queue_ok_def
      delay_by_def train_begun_def current_instance_def)

lemma log_line_link [simp]:
  "link_wf (log_line t c) = link_wf c" "link_contents (log_line t c) = link_contents c"
  "link_packet_queue (log_line t c) = link_packet_queue c"
  "current_link_queue_size (log_line t c) = current_link_queue_size c"
  "trace_finished (log_line t c) = trace_finished c"
  by (rule link_stage_cong, simp)+

lemma log_line_ok [simp]:
  "cq_ok (log_line t c) = cq_ok c" "world_ok (log_line t c) w = world_ok c w"
  "channel (log_line t c) = channel c"
  by (simp_all add: cq_ok_def world_ok_def channel_def link_channel_def)

section \<open>Leaving the delay queue\<close>

lemma cq_ok_delay_queue:
  assumes "cq_ok c" "delay_packet_queue c = p # ps"
  shows "cq_ok (c\<lparr>delay_packet_queue := ps\<rparr>)"
    and "world_ok (c\<lparr>delay_packet_queue := ps\<rparr>) w = world_ok c w"
    and "link_channel (c\<lparr>delay_packet_queue := ps\<rparr>) = link_channel c"
proof -
  let ?c = "c\<lparr>delay_packet_queue := ps\<rparr>"
  have t: "link_stage.truncate ?c = link_stage.truncate c" by (simp add: link_stage.truncate_def)
  note l = link_stage_cong [OF t]
  show "cq_ok ?c"
    using assms l by (simp add: cq_ok_def delay_wf_def delay_queue_ok_def train_begun_def
        current_instance_def)
  show "world_ok ?c w = world_ok c w"
    by (simp add: world_ok_def delay_by_def train_begun_def current_instance_def)
  show "link_channel ?c = link_channel c" using l by (simp add: link_channel_def)
qed

lemma get_next_cases:
  assumes "cq_ok c" "world_ok c w"
  obtains (none) w' where
      "get_next_from_delay_queue c w = Inr (delay_queue_packet_empty [] 0, c, w')"
      "world_ok c w'" "w_sent w' = w_sent w" "clock_now w \<le> clock_now w'"
      "\<forall>p \<in> set (delay_packet_queue c). clock_now w < dp_release_time p"
  | (due) p ps where "delay_packet_queue c = p # ps"
      "get_next_from_delay_queue c w = Inr (p, c\<lparr>delay_packet_queue := ps\<rparr>, clock_tick w)"
      "dp_release_time p \<le> clock_now w" "world_ok c (clock_tick w)"
      "clock_now w \<le> clock_now (clock_tick w)"
      "0 < length (dp_contents p)" "length (dp_contents p) \<le> PACKET_SIZE" "start_tick c"
proof (cases "delay_packet_queue c")
  case Nil
  with assms show thesis by (intro none [of w]) (simp_all add: get_next_from_delay_queue_def)
next
  case (Cons p ps)
  note tick = world_ok_tick [OF assms(2)]
  have dq: "delay_queue_ok c (pkt_counter c)" using assms(1) by (simp add: cq_ok_def)
  show thesis
  proof (cases "dp_release_time p \<le> clock_now w")
    case True
    with Cons tick dq show thesis
      using assms(1)
      by (intro due [of p ps]) (auto simp: get_next_from_delay_queue_def delay_queue_ok_def cq_ok_def)
  next
    case False
    have "dp_release_time p \<le> dp_release_time q" if "q \<in> set (delay_packet_queue c)" for q
      using that dq Cons by (auto simp: delay_queue_ok_def less_eq_delay_key_def dp_key_def)
    then have "\<forall>q \<in> set (delay_packet_queue c). clock_now w < dp_release_time q"
      using False by (auto simp: not_le intro: order.strict_trans2)
    with False Cons tick show thesis
      by (intro none [of "clock_tick w"]) (simp_all add: get_next_from_delay_queue_def)
  qed
qed

text \<open>What a writing step keeps, and that it sends exactly the packets \<open>sent\<close>.\<close>

definition wrote :: "(u64 \<times> string) list \<Rightarrow> writing \<Rightarrow> writing \<Rightarrow> bool" where
  "wrote sent s s' \<longleftrightarrow>
     (case (s, s') of ((fd, c, w), (fd', c', w')) \<Rightarrow>
        fd_num fd' = fd_num fd \<and> cq_ok c' \<and> world_ok c' w' \<and> clock_now w \<le> clock_now w' \<and>
        pkt_counter c' = pkt_counter c \<and>
        w_sent w' = w_sent w @ map (\<lambda>x. (fd_num fd, snd x)) sent)"

lemma wrote_trans:
  "wrote xs s s1 \<Longrightarrow> wrote ys s1 s2 \<Longrightarrow> wrote (xs @ ys) s s2"
  by (auto simp: wrote_def split: prod.splits)

lemma forward_packet_ok:
  assumes "cq_ok c" "world_ok c w" "unat now < 2 ^ 62"
    and len: "0 < length (dp_contents p)" "length (dp_contents p) \<le> PACKET_SIZE"
    and room: "channel_room (link_channel c @ [(dp_sequence_number p, dp_contents p)])"
    and started: "start_tick c"
  shows "\<exists>fd' c' w' sent. forward_packet now p (fd, c, w) = Some (Inr (fd', c', w')) \<and>
    wrote sent (fd, c, w) (fd', c', w') \<and> delay_packet_queue c' = delay_packet_queue c \<and>
    start_tick c' \<and>
    sent @ link_channel c' = link_channel c @ [(dp_sequence_number p, dp_contents p)]"
proof (cases "dp_is_bypass_link_queue p \<and> current_link_queue_size c = 0")
  case True
  have whole: "whole_writes w" "dp_contents p \<noteq> []" using assms(2) len by (simp_all add: world_ok_def)
  have empty: "link_contents c = []" using assms(1) True by (auto simp: cq_ok_def)
  let ?c = "log_line [dec (unat (dp_sequence_number p)), dp_ip_port_info p,
      dec (unat (dp_arrival_time p)), dec (unat now), int_diff_text now (dp_arrival_time p),
      ''true'', ''0''] c"
  let ?w = "sent_on (fd_num fd) (dp_contents p) w" and ?fd = "register_write fd"
  have "forward_packet now p (fd, c, w) = Some (Inr (?fd, ?c, ?w))"
    using True by (simp add: forward_packet_def fd_write_whole [OF whole])
  moreover have "start_tick ?c" using started by simp
  moreover have "wrote [(dp_sequence_number p, dp_contents p)] (fd, c, w) (?fd, ?c, ?w)"
    using assms(1,2) by (simp add: wrote_def) (simp add: world_ok_def)
  moreover have "link_channel ?c = []" "link_channel c = []"
    using empty by (simp_all add: link_channel_def)
  ultimately show ?thesis by (intro exI [of _ ?fd] exI [of _ ?c] exI [of _ ?w]
      exI [of _ "[(dp_sequence_number p, dp_contents p)]"]) simp
next
  case False
  have ok: "link_packet_ok (to_link now p)" using len by (simp add: link_packet_ok_def)
  have c: "link_wf c" "lossless_apq (link_packet_queue c)" using assms(1) by (simp_all add: cq_ok_def)
  note link_room = channel_room_link [OF room, of now]
  from put_packet_lossless [OF c(1) assms(3) c(2) ok link_room] obtain c' where
    c': "put_packet_to_link_queue now p c = Some (Inr c')" "link_wf c'"
      "link_contents c' = link_contents c @ [to_link now p]" "lossless_apq (link_packet_queue c')"
      "current_link_queue_size c' = current_link_queue_size c + 1"
      "link_stage.more c' = link_stage.more c" by blast
  note frame = delay_stage_cong [OF c'(6)]
  have "length (link_contents c) \<le> sum_list (map qp_cost (link_contents c))"
    by (simp add: sum_qp_cost)
  also have "\<dots> < 2 ^ 31" using link_room by (simp add: link_room_def)
  finally have "unat (current_link_queue_size c') = length (link_contents c')"
    using assms(1) c'(3,5) by (simp add: cq_ok_def) (subst unat_add_small; simp)
  then have "cq_ok c'"
    using assms(1) started c'(2,4) frame by (simp add: cq_ok_def)
  moreover have "world_ok c' w" using assms(2) frame by (simp add: world_ok_def)
  moreover have "forward_packet now p (fd, c, w) = Some (Inr (fd, c', w))"
    using False c'(1) by (auto simp: forward_packet_def)
  moreover have "link_channel c' = link_channel c @ [(dp_sequence_number p, dp_contents p)]"
    using c'(3) by (simp add: link_channel_def)
  ultimately show ?thesis
    using started frame
    by (intro exI [of _ fd] exI [of _ c'] exI [of _ w] exI [of _ "[]"]) (simp add: wrote_def)
qed

text \<open>
  Of a delay queue, the due packets left it: those that are gone were due at the last reading of
  the clock, and what is left was not due at time \<open>t0\<close>.
\<close>

definition released :: "u64 \<Rightarrow> u64 \<Rightarrow> delay_queue_packet list \<Rightarrow> delay_queue_packet list \<Rightarrow> bool" where
  "released t0 t1 q q' \<longleftrightarrow>
     (\<exists>gone. q = gone @ q' \<and> (\<forall>p \<in> set gone. dp_release_time p \<le> t1)) \<and>
     (\<forall>p \<in> set q'. t0 < dp_release_time p)"

lemma released_weaken: "released t0 t1 q q' \<Longrightarrow> t1 \<le> t2 \<Longrightarrow> released t0 t2 q q'"
  by (force simp: released_def)

lemma released_Cons:
  assumes "released t0 t1 q q'" "dp_release_time p \<le> t1"
  shows "released t0 t1 (p # q) q'"
  using assms by (force simp: released_def intro: exI [of _ "p # gone" for gone])

lemma released_none:
  "\<forall>p \<in> set q. t < dp_release_time p \<Longrightarrow> t0 \<le> t \<Longrightarrow> released t0 t1 q q"
  by (auto simp: released_def intro: order.strict_trans1)

lemma forward_step_cases:
  assumes "cq_ok c" "world_ok c w" "unat now < 2 ^ 62" "start_tick c" "t0 \<le> clock_now w"
    and "0 < length (dp_contents p)" "length (dp_contents p) \<le> PACKET_SIZE"
    and "channel_room (link_channel c @ (dp_sequence_number p, dp_contents p)
      # delay_channel (delay_packet_queue c))"
  obtains (final) fd' c' w' sent where
      "forward_step now p (fd, c, w) = Some (Inr (delay_queue_packet_empty [] 0, fd', c', w'))"
      "wrote sent (fd, c, w) (fd', c', w')"
      "sent @ channel c' = link_channel c @ (dp_sequence_number p, dp_contents p)
        # delay_channel (delay_packet_queue c)"
      "released t0 (clock_now w') (delay_packet_queue c) (delay_packet_queue c')"
  | (more) q fd' c' w' sent where
      "forward_step now p (fd, c, w) = Some (Inr (q, fd', c', w'))"
      "wrote sent (fd, c, w) (fd', c', w')"
      "delay_packet_queue c = q # delay_packet_queue c'" "dp_release_time q \<le> clock_now w'" "start_tick c'"
      "0 < length (dp_contents q)" "length (dp_contents q) \<le> PACKET_SIZE"
      "sent @ link_channel c' @ (dp_sequence_number q, dp_contents q) # delay_channel (delay_packet_queue c')
        = link_channel c @ (dp_sequence_number p, dp_contents p) # delay_channel (delay_packet_queue c)"
proof -
  have room: "channel_room (link_channel c @ [(dp_sequence_number p, dp_contents p)])"
    using assms(8) channel_room_append [of "link_channel c @ [_]"] by simp
  from forward_packet_ok [OF assms(1,2,3,6,7) room assms(4), of fd]
  obtain fd1 c1 w1 sent where
    f: "forward_packet now p (fd, c, w) = Some (Inr (fd1, c1, w1))"
      "wrote sent (fd, c, w) (fd1, c1, w1)" "delay_packet_queue c1 = delay_packet_queue c"
      "start_tick c1" "sent @ link_channel c1 = link_channel c @ [(dp_sequence_number p, dp_contents p)]"
    by blast
  from f(2) have ok1: "cq_ok c1" "world_ok c1 w1" "clock_now w \<le> clock_now w1"
    by (simp_all add: wrote_def)
  have pre: "sent @ link_channel c1 @ zs = link_channel c @ (dp_sequence_number p, dp_contents p) # zs"
    for zs using arg_cong [OF f(5), of "\<lambda>l. l @ zs"] by simp
  from ok1(1,2) show thesis
  proof (cases rule: get_next_cases)
    case (none w2)
    have "t0 \<le> clock_now w1" using assms(5) ok1(3) by (rule order.trans)
    with f none show thesis
      by (intro final [of fd1 c1 w2 sent])
        (auto simp: forward_step_def wrote_def channel_def pre dest: released_none)
  next
    case (due q ps)
    note keep = cq_ok_delay_queue [OF ok1(1) due(1)]
    have dq: "delay_packet_queue c = q # ps" using due(1) f(3) by simp
    have "wrote [] (fd1, c1, w1) (fd1, c1\<lparr>delay_packet_queue := ps\<rparr>, clock_tick w1)"
      using keep(1,2) due(4,5) by (simp add: wrote_def)
    from wrote_trans [OF f(2) this] show thesis
      using f(1,4) dq due(2-8) keep(3) order.trans [OF due(3,5)]
      by (intro more [of q fd1 "c1\<lparr>delay_packet_queue := ps\<rparr>" "clock_tick w1" sent])
        (simp_all add: forward_step_def pre)
  qed
qed

lemma forward_packets_ok:
  "cq_ok c \<Longrightarrow> world_ok c w \<Longrightarrow> unat now < 2 ^ 62 \<Longrightarrow> start_tick c \<Longrightarrow> t0 \<le> clock_now w \<Longrightarrow>
   0 < length (dp_contents p) \<Longrightarrow> length (dp_contents p) \<le> PACKET_SIZE \<Longrightarrow>
   channel_room (link_channel c @ (dp_sequence_number p, dp_contents p)
     # delay_channel (delay_packet_queue c)) \<Longrightarrow>
   \<exists>fd' c' w' sent. forward_packets now p (fd, c, w) = Some (Inr (fd', c', w')) \<and>
     wrote sent (fd, c, w) (fd', c', w') \<and>
     sent @ channel c' = link_channel c @ (dp_sequence_number p, dp_contents p)
       # delay_channel (delay_packet_queue c) \<and>
     released t0 (clock_now w') (delay_packet_queue c) (delay_packet_queue c')"
proof (induction "length (delay_packet_queue c)" arbitrary: c w p fd rule: less_induct)
  case less
  note unfold = forward_packets.simps [of now p "(fd, c, w)"]
  from less.prems show ?case
  proof (cases rule: forward_step_cases [where fd = fd])
    case (final fd1 c1 w1 sent)
    moreover have "forward_packets now (delay_queue_packet_empty [] 0) (fd1, c1, w1) = Some (Inr (fd1, c1, w1))"
      by (simp add: forward_packets.simps delay_queue_packet_empty_def)
    ultimately show ?thesis using less.prems(6) unfold by auto
  next
    case (more q fd1 c1 w1 sent)
    from more(2) have ok: "cq_ok c1" "world_ok c1 w1" "clock_now w \<le> clock_now w1"
      by (simp_all add: wrote_def)
    have "length (delay_packet_queue c1) < length (delay_packet_queue c)" using more(3) by simp
    moreover have "t0 \<le> clock_now w1" using less.prems(5) ok(3) by (rule order.trans)
    moreover have "channel_room (link_channel c1 @ (dp_sequence_number q, dp_contents q)
        # delay_channel (delay_packet_queue c1))"
      using less.prems(8) channel_room_append [of sent] unfolding more(8) [symmetric] by blast
    ultimately obtain fd' c' w' sent' where
      IH: "forward_packets now q (fd1, c1, w1) = Some (Inr (fd', c', w'))"
        "wrote sent' (fd1, c1, w1) (fd', c', w')"
        "sent' @ channel c' = link_channel c1 @ (dp_sequence_number q, dp_contents q)
          # delay_channel (delay_packet_queue c1)"
        "released t0 (clock_now w') (delay_packet_queue c1) (delay_packet_queue c')"
      using less.hyps [OF _ ok(1,2) less.prems(3) more(5) _ more(6,7)] by blast
    have "forward_packets now p (fd, c, w) = Some (Inr (fd', c', w'))"
      using less.prems(6) more(1) IH(1) unfold by simp
    moreover have "(sent @ sent') @ channel c' = link_channel c @ (dp_sequence_number p, dp_contents p)
        # delay_channel (delay_packet_queue c)"
      by (simp only: append_assoc IH(3) more(8))
    moreover have "dp_release_time q \<le> clock_now w'" using more(4) IH(2) by (auto simp: wrote_def)
    ultimately show ?thesis
      using wrote_trans [OF more(2) IH(2)] released_Cons [OF IH(4)] more(3) by metis
  qed
qed

section \<open>Leaving the link\<close>

lemma cq_ok_pop_output:
  assumes "cq_ok c" "output_queue c = p # ps" "start_tick c"
  defines "c' \<equiv> c\<lparr>output_queue := ps, current_link_queue_size := current_link_queue_size c - 1\<rparr>"
  shows "cq_ok c'" "current_link_queue_size c > 0" "0 < length (qp_contents p)"
    "link_channel c = (qp_sequence_number p, qp_contents p) # link_channel c'"
    "delay_packet_queue c' = delay_packet_queue c" "start_tick c'" "output_queue c' = ps"
    "world_ok c' w = world_ok c w"
proof -
  have contents: "link_contents c = p # link_contents c'"
    using assms(2) by (simp add: c'_def link_contents_def in_transit_def)
  then show "link_channel c = (qp_sequence_number p, qp_contents p) # link_channel c'"
    by (simp add: link_channel_def)
  have wf: "link_wf c" and size: "unat (current_link_queue_size c) = length (link_contents c)"
    using assms(1) by (simp_all add: cq_ok_def)
  have "link_packet_ok p" using wf contents by (simp add: link_wf_def transit_ok_def)
  then show "0 < length (qp_contents p)" by (simp add: link_packet_ok_def)
  have pos: "0 < unat (current_link_queue_size c)" using size contents by simp
  then show "current_link_queue_size c > 0" by (simp add: word_less_nat_alt)
  have size': "unat (current_link_queue_size c - 1) = length (link_contents c')"
    using pos size contents unat_diff_le [of 1 "current_link_queue_size c"]
    by (simp add: word_le_nat_alt)
  have "arrived_by t c' = arrived_by t c" "delivery_time c' 0 = delivery_time c 0" for t
    by (simp_all add: c'_def arrived_by_def in_transit_def delivery_time_def)
  then have wf': "link_wf c'" using wf contents
    by (simp add: link_wf_def transit_ok_def) (simp add: c'_def)
  show fields: "delay_packet_queue c' = delay_packet_queue c" "start_tick c'" "output_queue c' = ps"
    using assms(3) by (simp_all add: c'_def)
  have "link_stage.more c' = link_stage.more c" by (simp add: c'_def)
  note frame = delay_stage_cong [OF this]
  show "cq_ok c'"
    using assms(1,3) wf' size' frame by (simp add: cq_ok_def) (simp add: c'_def)
  show "world_ok c' w = world_ok c w" using frame by (simp add: world_ok_def)
qed

lemma flush_output_ok:
  "cq_ok c \<Longrightarrow> world_ok c w \<Longrightarrow> (ps \<noteq> [] \<longrightarrow> start_tick c) \<Longrightarrow> output_queue c = ps \<Longrightarrow>
   \<exists>fd' c' w' sent. flush_output now ps (fd, c, w) = Inr (fd', c', w') \<and>
     wrote sent (fd, c, w) (fd', c', w') \<and> sent @ link_channel c' = link_channel c \<and>
     delay_packet_queue c' = delay_packet_queue c \<and> output_queue c' = []"
proof (induction ps arbitrary: fd c w)
  case Nil
  then show ?case
    by (intro exI [of _ fd] exI [of _ c] exI [of _ w] exI [of _ "[]"]) (simp add: wrote_def)
next
  case (Cons p ps)
  from Cons.prems(3) have started: "start_tick c" by simp
  note pop = cq_ok_pop_output [OF Cons.prems(1,4) started]
  let ?c = "c\<lparr>output_queue := ps, current_link_queue_size := current_link_queue_size c - 1\<rparr>"
  let ?cols = "[dec (unat (qp_sequence_number p)), qp_ip_port_info p,
      dec (unat (qp_initial_arrival_time p)), dec (unat now),
      int_diff_text now (qp_initial_arrival_time p), ''false'', int_diff_text now (qp_arrival_time p)]"
  let ?c1 = "log_line ?cols ?c" and ?fd1 = "register_write fd"
  let ?w1 = "sent_on (fd_num fd) (qp_contents p) w"
  have whole: "whole_writes w" "qp_contents p \<noteq> []"
    using Cons.prems(2) pop(3) by (simp_all add: world_ok_def)
  have w1: "world_ok ?c1 ?w1"
    using Cons.prems(2) pop(8) [of ?w1] by (simp add: world_ok_def)
  from Cons.IH [of ?c1 ?w1 ?fd1] pop(1,6) w1 obtain fd' c' w' sent where
    IH: "flush_output now ps (?fd1, ?c1, ?w1) = Inr (fd', c', w')"
      "wrote sent (?fd1, ?c1, ?w1) (fd', c', w')" "sent @ link_channel c' = link_channel ?c1"
      "delay_packet_queue c' = delay_packet_queue ?c1" "output_queue c' = []" by auto
  have "flush_output now (p # ps) (fd, c, w) = Inr (fd', c', w')"
    using IH(1) pop(2) by (simp add: fd_write_whole [OF whole] Let_def)
  moreover have "wrote ((qp_sequence_number p, qp_contents p) # sent) (fd, c, w) (fd', c', w')"
    using IH(2) by (simp add: wrote_def)
  moreover have "link_channel ?c1 = link_channel ?c" by (simp add: link_channel_def)
  ultimately show ?case
    using IH(3-5) pop(4) by (intro exI conjI) (assumption, assumption, simp_all)
qed

lemma write_from_link_ok:
  assumes ok: "cq_ok c" "world_ok c w"
  shows "\<exists>fd' c' w' sent. write_packets_from_link_queue (fd, c, w) = Inr (fd', c', w') \<and>
    wrote sent (fd, c, w) (fd', c', w') \<and> sent @ channel c' = channel c \<and>
    output_queue c' = [] \<and> delay_packet_queue c' = delay_packet_queue c"
proof -
  note tick = world_ok_tick [OF ok(2)]
  have "output_queue c \<noteq> [] \<longrightarrow> start_tick c"
    using ok(1) by (auto simp: cq_ok_def link_contents_def)
  from flush_output_ok [OF ok(1) tick(3) this refl, of "clock_now w" fd] obtain fd' c' w' sent
    where f: "flush_output (clock_now w) (output_queue c) (fd, c, clock_tick w) = Inr (fd', c', w')"
      "wrote sent (fd, c, clock_tick w) (fd', c', w')" "sent @ link_channel c' = link_channel c"
      "delay_packet_queue c' = delay_packet_queue c" "output_queue c' = []" by blast
  have "write_packets_from_link_queue (fd, c, w) = Inr (fd', c', w')"
    using f(1) tick(1) by (simp add: write_packets_from_link_queue_def)
  moreover have "wrote sent (fd, c, w) (fd', c', w')"
    using f(2) tick(4) by (auto simp: wrote_def)
  moreover have "sent @ channel c' = channel c"
    using arg_cong [OF f(3), of "\<lambda>l. l @ delay_channel (delay_packet_queue c)"] f(4)
    by (simp add: channel_def)
  ultimately show ?thesis using f(4,5) by blast
qed

text \<open>The first half of \<open>write_packets\<close>: everything due leaves the delay queue.\<close>

lemma forward_due_ok:
  assumes "cq_ok c" "world_ok c w" "channel_room (channel c)"
  shows "\<exists>p c1 w1 now w2 s' sent. get_next_from_delay_queue c w = Inr (p, c1, w1) \<and>
    timestamp w1 = Inr (now, w2) \<and> forward_packets now p (fd, c1, w2) = Some (Inr s') \<and>
    wrote sent (fd, c, w) s' \<and> sent @ channel (fst (snd s')) = channel c \<and>
    released (clock_now w) (clock_now (snd (snd s'))) (delay_packet_queue c) (delay_packet_queue (fst (snd s')))"
  using assms(1,2)
proof (cases rule: get_next_cases)
  case (none w1)
  note tick = world_ok_tick [OF none(2)]
  have "forward_packets n (delay_queue_packet_empty [] 0) s = Some (Inr s)" for n s
    by (simp add: forward_packets.simps delay_queue_packet_empty_def)
  moreover have "wrote [] (fd, c, w) (fd, c, clock_tick w1)"
    using assms(1) none(3,4) tick(3,4) by (auto simp: wrote_def clock_tick_fields)
  ultimately show ?thesis
    using none(1) tick(1) released_none [OF none(5) order.refl] by (auto intro: exI [of _ "[]"])
next
  case (due p ps)
  let ?c1 = "c\<lparr>delay_packet_queue := ps\<rparr>" and ?w1 = "clock_tick w"
  note keep = cq_ok_delay_queue [OF assms(1) due(1)]
  have w1: "world_ok ?c1 ?w1" using due(4) keep(2) by simp
  note tick = world_ok_tick [OF w1]
  have t0: "clock_now w \<le> clock_now (clock_tick ?w1)" using due(5) tick(4) by (rule order.trans)
  have started: "start_tick ?c1" using due(8) by simp
  have chan: "channel c = link_channel ?c1 @ (dp_sequence_number p, dp_contents p)
      # delay_channel (delay_packet_queue ?c1)"
    using due(1) keep(3) by (simp add: channel_def)
  from forward_packets_ok [OF keep(1) tick(3) tick(2) started t0 due(6,7), of fd] assms(3) chan
  obtain fd2 c2 w2 sent where
    f: "forward_packets (clock_now ?w1) p (fd, ?c1, clock_tick ?w1) = Some (Inr (fd2, c2, w2))"
      "wrote sent (fd, ?c1, clock_tick ?w1) (fd2, c2, w2)" "sent @ channel c2 = channel c"
      "released (clock_now w) (clock_now w2) ps (delay_packet_queue c2)" by auto
  have "wrote [] (fd, c, w) (fd, ?c1, clock_tick ?w1)"
    using keep(1) tick(3) t0 by (simp add: wrote_def)
  from wrote_trans [OF this f(2)] have w: "wrote sent (fd, c, w) (fd2, c2, w2)" by simp
  then have "clock_now w \<le> clock_now w2" by (simp add: wrote_def)
  with due(3) have "dp_release_time p \<le> clock_now w2" by (rule order.trans)
  from released_Cons [OF f(4) this] due(1,2) tick(1) f(1,3) w show ?thesis by auto
qed

lemma write_packets_ok:
  assumes "cq_ok c" "world_ok c w" "channel_room (channel c)"
  shows "\<exists>fd' c' w' sent. write_packets (fd, c, w) = Some (Inr (fd', c', w')) \<and>
    wrote sent (fd, c, w) (fd', c', w') \<and> sent @ channel c' = channel c \<and> output_queue c' = [] \<and>
    released (clock_now w) (clock_now w') (delay_packet_queue c) (delay_packet_queue c')"
proof -
  from forward_due_ok [OF assms, of fd] obtain p c1 w1 now w2 fd3 c3 w3 sent where
    f: "get_next_from_delay_queue c w = Inr (p, c1, w1)" "timestamp w1 = Inr (now, w2)"
      "forward_packets now p (fd, c1, w2) = Some (Inr (fd3, c3, w3))"
      "wrote sent (fd, c, w) (fd3, c3, w3)" "sent @ channel c3 = channel c"
      "released (clock_now w) (clock_now w3) (delay_packet_queue c) (delay_packet_queue c3)"
    by (auto split: prod.splits)
  from f(4) have "cq_ok c3" "world_ok c3 w3" by (simp_all add: wrote_def)
  from write_from_link_ok [OF this, of fd3] obtain fd' c' w' sent' where
    g: "write_packets_from_link_queue (fd3, c3, w3) = Inr (fd', c', w')"
      "wrote sent' (fd3, c3, w3) (fd', c', w')" "sent' @ channel c' = channel c3"
      "output_queue c' = []" "delay_packet_queue c' = delay_packet_queue c3" by blast
  have "write_packets (fd, c, w) = Some (Inr (fd', c', w'))"
    using f(1-3) g(1) by (simp add: write_packets_def)
  moreover have "(sent @ sent') @ channel c' = channel c" using f(5) g(3) by simp
  moreover have "clock_now w3 \<le> clock_now w'" using g(2) by (simp add: wrote_def)
  ultimately show ?thesis
    using wrote_trans [OF f(4) g(2)] released_weaken [OF f(6)] g(4,5) by metis
qed

section \<open>The packet size offset is in range\<close>

lemma get_psize_latency_offset_bound:
  assumes "\<forall>x \<in> set offs. offset_ok x"
  shows "\<bar>get_psize_latency_offset offs ps\<bar> \<le> of_int (2 ^ 31 - 2 ^ 29)"
proof -
  have elem: "\<bar>x\<bar> \<le> 2 ^ 29" if "x \<in> set offs" for x
    using assms that by (fastforce simp: offset_ok_def)
  let ?i = "sint (ps div 100 - 1)" and ?rem = "sint (ps mod 100)"
  consider "offs = []" | "offs \<noteq> []" "?i < 0 \<or> length offs - 1 \<le> nat ?i"
    | "offs \<noteq> []" "0 \<le> ?i" "nat ?i + 1 < length offs" by linarith
  then show ?thesis
  proof cases
    case 1
    then show ?thesis by (simp add: get_psize_latency_offset_def)
  next
    case 2
    then have "get_psize_latency_offset offs ps \<in> set offs"
      by (auto simp: get_psize_latency_offset_def Let_def)
    from elem [OF this] show ?thesis by simp
  next
    case 3
    let ?a = "offs ! nat ?i" and ?b = "offs ! (nat ?i + 1)"
    have ab: "\<bar>?a\<bar> \<le> 2 ^ 29" "\<bar>?b\<bar> \<le> 2 ^ 29" using 3 elem [of ?a] elem [of ?b] by simp_all
    have "unat (ps mod 100) < 100" by (simp add: unat_mod)
    moreover from this have "?rem = uint (ps mod 100)" by (intro sint_uint_small) simp
    moreover have "uint (ps mod 100) = int (unat (ps mod 100))" by (rule uint_nat)
    ultimately have rem: "0 \<le> ?rem" "?rem < 100" by linarith+
    define k where "k = ?rem"
    let ?f = "fl64 (of_int k / 100)" and ?d = "fl64 (?b - ?a)"
    have "fl64 0 \<le> ?f" "?f \<le> fl64 1" using rem by (intro fl64_mono; simp add: flip: k_def)+
    then have f: "0 \<le> ?f" "?f \<le> 1" by simp_all
    have exact: "fl64 (of_int (2 ^ 30)) = 2 ^ 30" "fl64 (of_int (- (2 ^ 30))) = - (2 ^ 30)"
      "fl64 (of_int (2 ^ 31 - 2 ^ 29)) = 2 ^ 31 - 2 ^ 29"
      "fl64 (of_int (- (2 ^ 31 - 2 ^ 29))) = - (2 ^ 31 - 2 ^ 29)"
      by (subst fl64_of_int; simp)+
    have within: "\<bar>fl64 x\<bar> \<le> 2 ^ 30" if "\<bar>x\<bar> \<le> 2 ^ 30" for x
    proof -
      have "fl64 (of_int (- (2 ^ 30))) \<le> fl64 x" "fl64 x \<le> fl64 (of_int (2 ^ 30))"
        using that by (intro fl64_mono; simp add: abs_le_iff)+
      then show ?thesis unfolding exact by (simp add: abs_le_iff)
    qed
    have "\<bar>?d\<bar> \<le> 2 ^ 30" using ab by (intro within) (simp add: abs_le_iff)
    moreover have "\<bar>?f * ?d\<bar> \<le> \<bar>?d\<bar>"
      using f by (simp add: abs_mult mult_left_le_one_le)
    ultimately have "\<bar>fl64 (?f * ?d)\<bar> \<le> 2 ^ 30" by (intro within) linarith
    with ab have "\<bar>?a + fl64 (?f * ?d)\<bar> \<le> 2 ^ 31 - 2 ^ 29" by (simp add: abs_le_iff)
    then have "fl64 (of_int (- (2 ^ 31 - 2 ^ 29))) \<le> fl64 (?a + fl64 (?f * ?d))"
      "fl64 (?a + fl64 (?f * ?d)) \<le> fl64 (of_int (2 ^ 31 - 2 ^ 29))"
      by (intro fl64_mono; simp add: abs_le_iff)+
    then have "\<bar>fl64 (?a + fl64 (?f * ?d))\<bar> \<le> 2 ^ 31 - 2 ^ 29"
      unfolding exact by (simp add: abs_le_iff)
    moreover have "\<not> ?i < 0" "\<not> length offs - 1 \<le> nat ?i" using 3 by linarith+
    then have "get_psize_latency_offset offs ps = fl64 (?a + fl64 (?f * ?d))"
      using 3 by (simp add: get_psize_latency_offset_def Let_def k_def)
    ultimately show ?thesis by simp
  qed
qed

lemma latency_offset_ok:
  assumes "\<forall>x \<in> set (psize_latency_offset c). offset_ok x"
  shows "\<exists>v. latency_offset c contents = Inr v"
proof -
  let ?x = "get_psize_latency_offset (psize_latency_offset c) (of_nat (length contents))"
  have "\<bar>?x\<bar> \<le> of_int (2 ^ 31 - 2 ^ 29)" using assms by (rule get_psize_latency_offset_bound)
  then have "- (2 ^ 31) \<le> rat_round ?x" "rat_round ?x < 2 ^ 31"
    by (cases "0 \<le> ?x"; simp add: rat_round_def abs_le_iff minus_le_iff [of "\<lfloor>_\<rfloor>"]
        minus_less_iff [of "\<lfloor>_\<rfloor>"] floor_le_iff floor_less_iff le_floor_iff less_floor_iff)+
  then show ?thesis by (simp add: latency_offset_def float_to_int_def)
qed

section \<open>Entering\<close>

lemma start_ok:
  assumes "cq_ok c" "world_ok c w"
  defines "now \<equiv> clock_now w"
  defines "c1 \<equiv> (if \<not> start_tick c
    then c\<lparr>start_tick := True, link_base_timestamp := now, delay_base_timestamp := now\<rparr> else c)"
  shows "link_wf c1" "link_contents c1 = link_contents c" "lossless_apq (link_packet_queue c1)"
    "current_link_queue_size c1 = current_link_queue_size c" "delay_wf (unat (pkt_counter c)) c1"
    "delay_by (unat now) c1" "start_tick c1" "delay_packet_queue c1 = delay_packet_queue c"
    "end_release_time c1 = end_release_time c" "delay_stage.more c1 = delay_stage.more c"
proof -
  have now: "unat now < 2 ^ 62" unfolding now_def using world_ok_tick [OF assms(2)] by simp
  note c = assms(1) [unfolded cq_ok_def]
  show "link_contents c1 = link_contents c" by (simp add: c1_def link_contents_def in_transit_def)
  show "lossless_apq (link_packet_queue c1)" "current_link_queue_size c1 = current_link_queue_size c" "start_tick c1"
    "delay_packet_queue c1 = delay_packet_queue c" "end_release_time c1 = end_release_time c"
    "delay_stage.more c1 = delay_stage.more c" "delay_wf (unat (pkt_counter c)) c1"
    using c by (simp_all add: c1_def delay_wf_def train_begun_def current_instance_def)
  show "link_wf c1"
  proof (cases "start_tick c")
    case True
    then show ?thesis using c by (simp add: c1_def)
  next
    case False
    with c have e: "link_contents c = []" by simp
    have "link_contents c1 = link_contents c" by (simp add: c1_def link_contents_def in_transit_def)
    with e have "link_contents c1 = []" by simp
    then show ?thesis using c False now e
      by (simp add: link_wf_def transit_ok_def)
        (auto simp: c1_def arrived_by_def link_contents_def in_transit_def split: if_splits)
  qed
  show "delay_by (unat now) c1"
  proof (cases "start_tick c")
    case True
    then show ?thesis using assms(2) by (simp add: c1_def world_ok_def now_def)
  next
    case False
    with c have "current_delay_pdo_idx c = 0" "\<not> train_begun c"
      "pdo_time (delay_pdo_traces c ! 0) = 0" by (simp_all add: delay_wf_def trace_ok_def)
    with False show ?thesis
      by (simp add: c1_def delay_by_def train_begun_def current_instance_def)
  qed
qed

lemma delay_queue_ok_emplace:
  assumes "delay_queue_ok d n" "end_release_time d \<le> r" "unat n + 1 < 2 ^ 64"
    and p: "dp_release_time p = r" "dp_sequence_number p = n" "0 < length (dp_contents p)"
      "length (dp_contents p) \<le> PACKET_SIZE"
    and d': "delay_packet_queue d' = pq_emplace p (delay_packet_queue d)" "end_release_time d' = r"
  shows "delay_queue_ok d' (n + 1)" "delay_packet_queue d' = delay_packet_queue d @ [p]"
proof -
  have n: "unat (n + 1) = unat n + 1" using assms(3) by (subst unat_add_small) simp_all
  then have less: "n < n + 1" "x < n \<Longrightarrow> x < n + 1" for x by (simp_all add: word_less_nat_alt)
  have le: "dp_release_time x \<le> r" if "x \<in> set (delay_packet_queue d)" for x
    using that assms(1,2) by (auto simp: delay_queue_ok_def intro: order.trans)
  have "dp_key x \<le> dp_key p" if "x \<in> set (delay_packet_queue d)" for x
    using that assms(1) le [OF that] p(1,2)
    by (auto simp: delay_queue_ok_def dp_key_def less_eq_delay_key_def order_le_less)
  then show "delay_packet_queue d' = delay_packet_queue d @ [p]" using d'(1) pq_emplace_last by simp
  show "delay_queue_ok d' (n + 1)"
    using assms(1) le p less d' sorted_pq_emplace
    by (auto simp: delay_queue_ok_def)
qed

text \<open>
  A datagram arrives with release time \<open>r\<close>: \<open>d\<close> is the state in which the release time was determined.
\<close>

definition arrived :: "string \<Rightarrow> string \<Rightarrow> u64 \<Rightarrow> u64 \<Rightarrow> bool \<Rightarrow> cellular_queue \<Rightarrow> cellular_queue" where
  "arrived contents info now r b d =
     (log_line [dec (unat (pkt_counter d)), dec (unat now), info, dec (length contents),
        dec (unat (r - now)), bool_text b]
      (d\<lparr>bypass_link_pdo := b, end_release_time := r, delay_packet_queue :=
         pq_emplace (mk_delay_queue_packet contents info now (pkt_counter d) r b) (delay_packet_queue d)\<rparr>))
     \<lparr>pkt_counter := pkt_counter d + 1\<rparr>"

definition awaits :: "cellular_queue \<Rightarrow> cellular_queue \<Rightarrow> u64 \<Rightarrow> bool" where
  \<comment> \<open>\<open>d\<close> is \<open>c\<close>, started, in the midst of \<open>read_packet\<close> at time \<open>now\<close>\<close>
  "awaits c d now \<longleftrightarrow>
     delay_wf (Suc (unat (pkt_counter c))) d \<and> delay_by (unat now) d \<and> start_tick d \<and>
     link_wf d \<and> link_contents d = link_contents c \<and> lossless_apq (link_packet_queue d) \<and>
     current_link_queue_size d = current_link_queue_size c \<and>
     delay_packet_queue d = delay_packet_queue c \<and> end_release_time d = end_release_time c \<and>
     pkt_counter d = pkt_counter c \<and> psize_latency_offset d = psize_latency_offset c"

lemma read_packet_arrives:
  assumes "cq_ok c" "world_ok c w"
    and size: "sizeof_iphdr \<le> length contents" "length contents \<le> PACKET_SIZE"
    and header: "get_pkt_header_info contents 4 = Inr info"
    and counter: "unat (pkt_counter c) < 2 ^ 30 - 1"
  shows "\<exists>d r b. read_packet contents c w =
      Some (Inr (arrived contents info (clock_now w) r b d, clock_tick w)) \<and>
    awaits c d (clock_now w) \<and> end_release_time d \<le> r"
proof -
  let ?now = "clock_now w"
  define c1 where "c1 = (if \<not> start_tick c
    then c\<lparr>start_tick := True, link_base_timestamp := ?now, delay_base_timestamp := ?now\<rparr> else c)"
  note start = start_ok [OF assms(1,2), folded c1_def]
  note tick = world_ok_tick [OF assms(2)]
  have "unat (pkt_counter c) < 2 ^ 30" using counter by simp
  from get_pkt_release_time_ok [OF start(5,6) tick(2) size(2) this] obtain r d where
    r: "get_pkt_release_time ?now contents c1 = Some (Inr (r, d))"
      "delay_wf (Suc (unat (pkt_counter c))) d" "delay_by (unat ?now) d" "same_delay c1 d"
    by blast
  have more: "delay_stage.more d = delay_stage.more c" using r(4) start(10) by (simp add: same_delay_def)
  then have rest: "pkt_counter d = pkt_counter c" "psize_latency_offset d = psize_latency_offset c"
    by (cases c; cases d; simp)+
  from r(4) have "link_stage.truncate d = link_stage.truncate c1" by (simp add: same_delay_def)
  note link = link_stage_cong [OF this]
  have "awaits c d ?now"
    using r(2-4) rest link start by (simp add: awaits_def same_delay_def)
  obtain v where v: "latency_offset d contents = Inr v"
    using latency_offset_ok [of d] assms(1) rest(2) by (auto simp: cq_ok_def)
  define r1 where "r1 = (if end_release_time d \<le> r + scast v then r + scast v else r)"
  define r2 where "r2 = (if r1 < end_release_time d then end_release_time d else r1)"
  define b where "b = (if r1 < end_release_time d then False else bypass_link_pdo d)"
  have r2: "end_release_time d \<le> r2" by (simp add: r2_def not_less)
  have "read_packet contents c w = Some (Inr (arrived contents info ?now r2 b d, clock_tick w))"
    using size tick(1) header r(1) v r2
    unfolding read_packet_def arrived_def
    by (cases "r1 < end_release_time d")
      (simp_all add: not_less c1_def [symmetric] r1_def [symmetric] Let_def r2_def b_def)
  with \<open>awaits c d ?now\<close> r2 show ?thesis by blast
qed

lemma arrived_ok:
  fixes info and b
  assumes "cq_ok c" "world_ok c w" "awaits c d (clock_now w)" "end_release_time d \<le> r"
    and size: "sizeof_iphdr \<le> length contents" "length contents \<le> PACKET_SIZE"
    and counter: "unat (pkt_counter c) < 2 ^ 30 - 1"
  defines "c' \<equiv> arrived contents info (clock_now w) r b d"
  shows "cq_ok c'" "world_ok c' (clock_tick w)" "channel c' = channel c @ [(pkt_counter c, contents)]"
    "pkt_counter c' = pkt_counter c + 1" "end_release_time c' = r"
proof -
  note d = assms(3) [unfolded awaits_def]
  let ?p = "mk_delay_queue_packet contents info (clock_now w) (pkt_counter d) r b"
  have p: "dp_release_time ?p = r" "dp_sequence_number ?p = pkt_counter d"
    "0 < length (dp_contents ?p)" "length (dp_contents ?p) \<le> PACKET_SIZE" "dp_contents ?p = contents"
    using size by (auto simp: mk_delay_queue_packet_def sizeof_iphdr_def)
  have dq: "delay_queue_ok d (pkt_counter d)" using assms(1) d by (simp add: cq_ok_def delay_queue_ok_def)
  have count: "unat (pkt_counter d) + 1 < 2 ^ 64" using counter d by simp
  have e: "delay_packet_queue c' = pq_emplace ?p (delay_packet_queue d)" and r: "end_release_time c' = r"
    by (simp_all add: c'_def arrived_def log_line_def)
  note emplace = delay_queue_ok_emplace [OF dq assms(4) count p(1-4) e r]
  have Suc: "unat (pkt_counter d + 1) = Suc (unat (pkt_counter d))"
    using count by (subst unat_add_small) simp_all
  have trunc: "link_stage.truncate c' = link_stage.truncate d"
    by (simp add: c'_def arrived_def log_line_def link_stage.truncate_def)
  note link = link_stage_cong [OF trunc]
  have "delay_wf (Suc (unat (pkt_counter c))) c'" "delay_by (unat (clock_now w)) c'"
    using d by (simp_all add: c'_def arrived_def log_line_def delay_wf_def delay_by_def train_begun_def
        current_instance_def)
  moreover have fields: "start_tick c'" "psize_latency_offset c' = psize_latency_offset c"
    "pkt_counter c' = pkt_counter c + 1"
    using d by (simp_all add: c'_def arrived_def log_line_def)
  moreover have "unat (current_link_queue_size c') = length (link_contents c')"
    using link d assms(1) by (simp add: cq_ok_def)
  ultimately show "cq_ok c'" "world_ok c' (clock_tick w)"
    using assms(1,2) emplace(1) Suc d link world_ok_tick(3,4) [OF assms(2)]
    by (auto simp: cq_ok_def world_ok_def word_le_nat_alt intro: delay_by_mono)
  show "channel c' = channel c @ [(pkt_counter c, contents)]"
    using emplace(2) link(2) d p(2,5) by (simp add: channel_def link_channel_def)
  show "pkt_counter c' = pkt_counter c + 1" "end_release_time c' = r" by fact+
qed

lemma read_packet_ok:
  assumes "cq_ok c" "world_ok c w"
    and size: "sizeof_iphdr \<le> length contents" "length contents \<le> PACKET_SIZE"
    and header: "get_pkt_header_info contents 4 = Inr info"
    and counter: "unat (pkt_counter c) < 2 ^ 30 - 1"
  shows "\<exists>c' w'. read_packet contents c w = Some (Inr (c', w')) \<and> cq_ok c' \<and> world_ok c' w' \<and>
    w_sent w' = w_sent w \<and> clock_now w \<le> clock_now w' \<and>
    channel c' = channel c @ [(pkt_counter c, contents)] \<and>
    pkt_counter c' = pkt_counter c + 1 \<and> end_release_time c \<le> end_release_time c'"
proof -
  from read_packet_arrives [OF assms] obtain d r b where
    d: "read_packet contents c w = Some (Inr (arrived contents info (clock_now w) r b d, clock_tick w))"
      "awaits c d (clock_now w)" "end_release_time d \<le> r" by blast
  from arrived_ok [OF assms(1,2) d(2,3) size counter] d world_ok_tick(4) [OF assms(2)] show ?thesis
    by (simp add: awaits_def)
qed

section \<open>Sleeping\<close>

lemma unat_ucast_le: "unat (ucast (x :: u64) :: u32) \<le> unat x"
  by (simp add: unsigned_ucast_eq take_bit_nat_less_eq_self flip: take_bit_eq_mask)

lemma wait_time_delay_queue_ok:
  assumes "cq_ok c" "world_ok c w"
  shows "\<exists>t w'. wait_time_delay_queue c w = Inr (t, w') \<and> world_ok c w' \<and> w_sent w' = w_sent w \<and>
    clock_now w \<le> clock_now w' \<and>
    (\<forall>p \<in> set (delay_packet_queue c). unat t \<le> unat (dp_release_time p) - unat (clock_now w))"
proof (cases "delay_packet_queue c")
  case Nil
  with assms show ?thesis by (simp add: wait_time_delay_queue_def)
next
  case (Cons p ps)
  note tick = world_ok_tick [OF assms(2)]
  let ?t = "if dp_release_time p \<le> clock_now w then 0 else ucast (dp_release_time p - clock_now w) :: u32"
  have first: "dp_release_time p \<le> dp_release_time q" if "q \<in> set (delay_packet_queue c)" for q
    using that assms(1) Cons
    by (auto simp: cq_ok_def delay_queue_ok_def less_eq_delay_key_def dp_key_def)
  have "unat ?t \<le> unat (dp_release_time p) - unat (clock_now w)"
    using unat_ucast_le [of "dp_release_time p - clock_now w"]
    by (auto simp: unat_diff_le not_le less_imp_le)
  moreover have "unat (dp_release_time p) - unat (clock_now w)
      \<le> unat (dp_release_time q) - unat (clock_now w)" if "q \<in> set (delay_packet_queue c)" for q
    using first [OF that] by (simp add: word_le_nat_alt diff_le_mono)
  ultimately have "\<forall>q \<in> set (delay_packet_queue c).
      unat ?t \<le> unat (dp_release_time q) - unat (clock_now w)" using order.trans by blast
  moreover have "wait_time_delay_queue c w = Inr (?t, clock_tick w)"
    using Cons tick(1) by (simp add: wait_time_delay_queue_def)
  ultimately show ?thesis using tick(3,4) by auto
qed

lemma wait_time_link_queue_ok:
  assumes "cq_ok c" "world_ok c w"
  shows "\<exists>t c' w'. wait_time_link_queue c w = Some (Inr (t, c', w')) \<and> cq_ok c' \<and> world_ok c' w' \<and>
    w_sent w' = w_sent w \<and> clock_now w \<le> clock_now w' \<and> channel c' = channel c \<and>
    delay_packet_queue c' = delay_packet_queue c \<and> pkt_counter c' = pkt_counter c \<and>
    (\<not> trace_finished c' \<longrightarrow> unat (clock_now w) + unat t \<le> delivery_time c' 0)"
proof -
  let ?now = "clock_now w"
  note tick = world_ok_tick [OF assms(2)]
  have wf: "link_wf c" using assms(1) by (simp add: cq_ok_def)
  from rationalize_ok [OF wf tick(2)] obtain c' k where
    c': "rationalize ?now c = Some (Inr c')" "link_wf c'" "same_link c c'" "advanced (unat ?now) k c c'"
    by blast
  from c'(3) have "link_stage.more c' = link_stage.more c" by (simp add: same_link_def)
  note frame = delay_stage_cong [OF this]
  have keep: "link_contents c' = link_contents c" using c'(3) by (simp add: same_link_def)
  have ok: "cq_ok c'" "world_ok c' (clock_tick w)" "channel c' = channel c"
    using assms(1) tick(3) c'(2,3) frame keep
    by (simp_all add: cq_ok_def world_ok_def same_link_def channel_def link_channel_def)
  obtain t where t: "next_delivery_time c' = Inr t" "\<not> trace_finished c' \<longrightarrow> unat t = delivery_time c' 0"
  proof (cases "trace_finished c'")
    case True
    then show thesis by (intro that [of "- 1"]) (simp_all add: next_delivery_time_def)
  next
    case False
    with next_delivery_time_ok [OF c'(2)] that show thesis by blast
  qed
  let ?wait = "ucast (t - ?now) :: i32"
  let ?t = "if sint ?wait < 0 then 0 else ?wait"
  have "unat ?now + unat ?t \<le> delivery_time c' 0" if "\<not> trace_finished c'"
  proof -
    have "unat ?now < delivery_time c' 0" using advanced_next [OF c'(4) that] .
    then have le: "unat ?now \<le> unat t" using t(2) that by simp
    have "unat ?t \<le> unat (t - ?now)" using unat_ucast_le [of "t - ?now"] by simp
    also have "\<dots> = unat t - unat ?now" using le by (simp add: unat_diff_le word_le_nat_alt)
    finally show ?thesis using le t(2) that by simp
  qed
  moreover have "wait_time_link_queue c w = Some (Inr (?t, c', clock_tick w))"
    using tick(1) c'(1) t(1) by (simp add: wait_time_link_queue_def Let_def)
  ultimately show ?thesis using ok tick(4) frame by auto
qed

lemma wait_time_ok:
  assumes "cq_ok c" "world_ok c w"
  shows "\<exists>t c' w'. wait_time c w = Some (Inr (t, c', w')) \<and> cq_ok c' \<and> world_ok c' w' \<and>
    w_sent w' = w_sent w \<and> clock_now w \<le> clock_now w' \<and> channel c' = channel c \<and>
    pkt_counter c' = pkt_counter c \<and>
    (\<forall>p \<in> set (delay_packet_queue c'). unat t \<le> unat (dp_release_time p) - unat (clock_now w)) \<and>
    (\<not> trace_finished c' \<longrightarrow> unat (clock_now w) + unat t \<le> delivery_time c' 0)"
proof -
  from wait_time_delay_queue_ok [OF assms] obtain t1 w1 where
    d: "wait_time_delay_queue c w = Inr (t1, w1)" "world_ok c w1" "w_sent w1 = w_sent w"
      "clock_now w \<le> clock_now w1"
      "\<forall>p \<in> set (delay_packet_queue c). unat t1 \<le> unat (dp_release_time p) - unat (clock_now w)"
    by blast
  from wait_time_link_queue_ok [OF assms(1) d(2)] obtain t2 c' w' where
    l: "wait_time_link_queue c w1 = Some (Inr (t2, c', w'))" "cq_ok c'" "world_ok c' w'"
      "w_sent w' = w_sent w1" "clock_now w1 \<le> clock_now w'" "channel c' = channel c"
      "delay_packet_queue c' = delay_packet_queue c" "pkt_counter c' = pkt_counter c"
      "\<not> trace_finished c' \<longrightarrow> unat (clock_now w1) + unat t2 \<le> delivery_time c' 0"
    by blast
  let ?t = "min t1 t2"
  have m: "unat ?t \<le> unat t1" "unat ?t \<le> unat t2" by (simp_all add: word_le_nat_alt [symmetric])
  have "wait_time c w = Some (Inr (?t, c', w'))" using d(1) l(1) by (simp add: wait_time_def)
  moreover have "\<forall>p \<in> set (delay_packet_queue c'). unat ?t \<le> unat (dp_release_time p) - unat (clock_now w)"
    using d(5) l(7) m(1) by (auto intro: order.trans)
  moreover have "\<not> trace_finished c' \<longrightarrow> unat (clock_now w) + unat ?t \<le> delivery_time c' 0"
    using l(9) m(2) d(4) by (auto simp: word_le_nat_alt)
  ultimately show ?thesis using l(2-6,8) d(3,4) order.trans [OF d(4) l(5)] by auto
qed

lemma pending_output_ok:
  assumes "cq_ok c" "world_ok c w"
  shows "\<exists>b w'. pending_output c w = Inr (b, w') \<and> world_ok c w' \<and> w_sent w' = w_sent w \<and>
    (output_queue c \<noteq> [] \<or> (\<exists>p \<in> set (delay_packet_queue c). dp_release_time p \<le> clock_now w) \<longrightarrow> b)"
proof (cases "output_queue c = []")
  case False
  then have "pending_output c w = Inr (True, w)" by (simp add: pending_output_def)
  then show ?thesis using assms by blast
next
  case True
  from wait_time_delay_queue_ok [OF assms] obtain t w' where
    t: "wait_time_delay_queue c w = Inr (t, w')" "world_ok c w'" "w_sent w' = w_sent w"
      "\<forall>p \<in> set (delay_packet_queue c). unat t \<le> unat (dp_release_time p) - unat (clock_now w)"
    by blast
  then have "t = 0" if "p \<in> set (delay_packet_queue c)" "dp_release_time p \<le> clock_now w" for p
    using that by (auto simp: word_le_nat_alt unat_eq_0)
  with t True show ?thesis by (auto simp: pending_output_def)
qed

section \<open>As a ferry queue\<close>

definition datagram_ok :: "string \<Rightarrow> bool" where
  "datagram_ok x \<longleftrightarrow> sizeof_iphdr \<le> length x \<and> length x \<le> PACKET_SIZE \<and>
     (case get_pkt_header_info x 4 of Inl _ \<Rightarrow> False | Inr _ \<Rightarrow> True)"

definition cq_accepts :: "writing \<Rightarrow> string list \<Rightarrow> bool" where
  "cq_accepts s xs \<longleftrightarrow>
     (case s of (fd, c, w) \<Rightarrow>
        cq_ok c \<and> world_ok c w \<and> (\<forall>x \<in> set xs. datagram_ok x) \<and>
        (\<Sum>x \<leftarrow> map snd (channel c) @ xs. length x + 1) < 2 ^ 31 \<and>
        unat (pkt_counter c) + length xs < 2 ^ 30)"

definition cq_held :: "writing \<Rightarrow> string list" where
  "cq_held = (\<lambda>(fd, c, w). map snd (channel c))"

definition cq_sent :: "writing \<Rightarrow> string list" where
  "cq_sent = (\<lambda>(fd, c, w). map snd (w_sent w))"

definition cq_read :: "string \<Rightarrow> writing \<Rightarrow> writing res option" where
  "cq_read x = (\<lambda>(fd, c, w). andThenO (read_packet x c w) (\<lambda>(c, w). Some (Inr (fd, c, w))))"

definition cq_wait :: "writing \<Rightarrow> (u32 \<times> writing) res option" where
  "cq_wait = (\<lambda>(fd, c, w). andThenO (wait_time c w) (\<lambda>(t, c, w). Some (Inr (t, fd, c, w))))"

definition cq_pending :: "writing \<Rightarrow> (bool \<times> writing) res" where
  "cq_pending = (\<lambda>(fd, c, w). andThen (pending_output c w) (\<lambda>(b, w). Inr (b, fd, c, w)))"

lemma channel_room_accepts:
  "(\<Sum>x \<leftarrow> map snd ps @ xs. length x + 1) < 2 ^ 31 \<Longrightarrow> channel_room ps"
  by (simp add: channel_room_def comp_def)

lemma cq_read_law:
  fixes s :: writing
  assumes "cq_accepts s (x # xs)"
  shows "\<exists>s'. cq_read x s = Some (Inr s') \<and> cq_accepts s' xs \<and> cq_sent s' = cq_sent s \<and>
    cq_held s' = cq_held s @ [x]"
proof -
  obtain fd c w where s: "s = (fd, c, w)" by (cases s) auto
  from assms obtain info where header: "get_pkt_header_info x 4 = Inr info"
    by (auto simp: s cq_accepts_def datagram_ok_def split: sum.splits)
  from assms have pre: "cq_ok c" "world_ok c w" "sizeof_iphdr \<le> length x" "length x \<le> PACKET_SIZE"
    "unat (pkt_counter c) < 2 ^ 30 - 1" by (simp_all add: s cq_accepts_def datagram_ok_def)
  from read_packet_ok [OF pre(1-4) header pre(5)] obtain c' w' where
    r: "read_packet x c w = Some (Inr (c', w'))" "cq_ok c'" "world_ok c' w'" "w_sent w' = w_sent w"
      "channel c' = channel c @ [(pkt_counter c, x)]" "pkt_counter c' = pkt_counter c + 1" by blast
  have "unat (pkt_counter c') = unat (pkt_counter c) + 1"
    using pre(5) r(6) by (subst r(6), subst unat_add_small) simp_all
  with assms r have "cq_accepts (fd, c', w') xs" by (simp add: s cq_accepts_def)
  with r show ?thesis by (simp add: s cq_read_def cq_sent_def cq_held_def)
qed

lemma cq_write_law:
  fixes s :: writing
  assumes "cq_accepts s xs"
  shows "\<exists>s' out. write_packets s = Some (Inr s') \<and> cq_accepts s' xs \<and> cq_sent s' = cq_sent s @ out \<and>
    cq_held s = out @ cq_held s'"
proof -
  obtain fd c w where s: "s = (fd, c, w)" by (cases s) auto
  from assms have pre: "cq_ok c" "world_ok c w" "channel_room (channel c)"
    by (auto simp: s cq_accepts_def intro: channel_room_accepts)
  from write_packets_ok [OF pre, of fd] obtain fd' c' w' out where
    r: "write_packets (fd, c, w) = Some (Inr (fd', c', w'))" "wrote out (fd, c, w) (fd', c', w')"
      "out @ channel c' = channel c" by blast
  have ch: "map snd (channel c) = map snd out @ map snd (channel c')"
    by (simp flip: r(3) map_append)
  from assms r(2) have "cq_accepts (fd', c', w') xs"
    by (simp add: s cq_accepts_def wrote_def flip: r(3))
  with r ch show ?thesis
    by (intro exI [of _ "(fd', c', w')"] exI [of _ "map snd out"])
      (simp add: s cq_sent_def cq_held_def wrote_def comp_def)
qed

interpretation cellular: ferry_queue cq_read write_packets cq_wait cq_pending cq_accepts cq_held cq_sent
proof unfold_locales
  fix s :: writing and xs
  obtain fd c w where s: "s = (fd, c, w)" by (cases s) auto
  assume acc: "cq_accepts s xs"
  then have pre: "cq_ok c" "world_ok c w" by (simp_all add: s cq_accepts_def)
  from wait_time_ok [OF pre] obtain t c' w' where
    r: "wait_time c w = Some (Inr (t, c', w'))" "cq_ok c'" "world_ok c' w'" "w_sent w' = w_sent w"
      "channel c' = channel c" "pkt_counter c' = pkt_counter c" by blast
  with acc show "\<exists>t s'. cq_wait s = Some (Inr (t, s')) \<and> cq_accepts s' xs \<and>
      cq_sent s' = cq_sent s \<and> cq_held s' = cq_held s"
    by (simp add: s cq_wait_def cq_accepts_def cq_sent_def cq_held_def)
  from pending_output_ok [OF pre] obtain b w' where
    "pending_output c w = Inr (b, w')" "world_ok c w'" "w_sent w' = w_sent w" by blast
  with acc show "\<exists>b s'. cq_pending s = Inr (b, s') \<and> cq_accepts s' xs \<and> cq_sent s' = cq_sent s \<and>
      cq_held s' = cq_held s"
    by (simp add: s cq_pending_def cq_accepts_def cq_sent_def cq_held_def)
qed (fact cq_read_law cq_write_law)+

end
