(* ===== verification/Cellular_Start.thy ===== *)
theory Cellular_Start
  imports Main Prelude Ezio Kernel Packets Delay_Queue Link_Packet_Queue Cellular_State Link_Queue
    Release_Time Ferry Cellular_Queue Cellular_Channel
begin

text \<open>
  What the constructor of \<open>CellularQueue\<close> establishes from the trace files, and, with it, the
  behaviour of a queue from its construction on.
\<close>

section \<open>Reading lines back\<close>

lemma newline_not_digit: "\<not> is_digit newline"
  by (simp add: is_digit_def newline_def)

lemma newline_not_dec: "newline \<notin> set (dec n)"
  using dec_digits newline_not_digit by blast

definition trace_text :: "nat list \<Rightarrow> string" where
  "trace_text ts = concat (map (\<lambda>t. dec t @ [newline]) ts)"

lemma getlines_trace_text: "getlines newline (trace_text ts) = map dec ts"
  by (induction ts) (simp_all add: trace_text_def getlines_line newline_not_dec)

lemma of_nat_u64_le:
  "a < 2 ^ 63 \<Longrightarrow> b < 2 ^ 63 \<Longrightarrow> (of_nat a :: u64) \<le> of_nat b \<longleftrightarrow> a \<le> b"
  by (simp add: word_le_nat_alt unat_of_nat_small)

lemma of_nat_u64_less:
  "a < 2 ^ 63 \<Longrightarrow> b < 2 ^ 63 \<Longrightarrow> (of_nat a :: u64) < of_nat b \<longleftrightarrow> a < b"
  by (simp add: word_less_nat_alt unat_of_nat_small)

lemma read_heavy_lines_dec:
  assumes "start < 2 ^ 63"
  shows "\<forall>t \<in> set ts. t < 2 ^ 63 \<Longrightarrow> sorted ts \<Longrightarrow>
    (\<forall>t \<in> set ts. \<forall>b \<in> set acc. b \<le> t - start) \<Longrightarrow> \<forall>b \<in> set acc. b < 2 ^ 63 \<Longrightarrow>
    read_heavy_lines f (of_nat start) (map dec ts) (map of_nat acc)
      = Inr (map of_nat (acc @ map (\<lambda>t. t - start) (filter (\<lambda>t. start \<le> t) ts)))"
proof (induction ts arbitrary: acc)
  case Nil
  then show ?case by simp
next
  case (Cons t ts)
  then have t: "t < 2 ^ 63" by simp
  note my = myatoi_dec [OF t]
  show ?case
  proof (cases "start \<le> t")
    case False
    then show ?thesis
      using Cons my t assms by (simp add: of_nat_u64_le)
  next
    case True
    have diff: "(of_nat t - of_nat start :: u64) = of_nat (t - start)" using True by simp
    have "\<not> (map of_nat acc \<noteq> ([] :: u64 list) \<and>
        (of_nat t - of_nat start :: u64) < last (map of_nat acc))"
    proof (cases "acc = []")
      case False
      then have "last acc \<in> set acc" by simp
      with Cons.prems(3,4) have "last acc \<le> t - start" "last acc < 2 ^ 63" by auto
      with t have "\<not> (of_nat (t - start) :: u64) < of_nat (last acc)"
        by (simp add: of_nat_u64_less)
      moreover have "last (map of_nat acc) = (of_nat (last acc) :: u64)" using False by (rule last_map)
      ultimately show ?thesis unfolding diff by simp
    qed simp
    moreover have "read_heavy_lines f (of_nat start) (map dec ts) (map of_nat (acc @ [t - start]))
        = Inr (map of_nat ((acc @ [t - start]) @ map (\<lambda>t. t - start) (filter (\<lambda>t. start \<le> t) ts)))"
      using Cons.prems t by (intro Cons.IH) auto
    ultimately show ?thesis
      using my True t assms by (simp add: of_nat_u64_le)
  qed
qed

section \<open>What the readers check\<close>

lemma sorted_le_last: "sorted xs \<Longrightarrow> x \<in> set xs \<Longrightarrow> x \<le> last xs"
  by (induction xs) auto

lemma sorted_snoc: "sorted xs \<Longrightarrow> \<not> (xs \<noteq> [] \<and> x < last xs) \<Longrightarrow> sorted (xs @ [x])"
  by (cases "xs = []")
    (auto simp: sorted_append not_less intro: order.trans [OF sorted_le_last])

lemma read_heavy_lines_sorted:
  "read_heavy_lines f start ls acc = Inr s \<Longrightarrow> sorted acc \<Longrightarrow> sorted s"
proof (induction f start ls acc rule: read_heavy_lines.induct)
  case (2 f start line ls acc)
  then show ?case
    by (auto simp: andThen_Inr_iff split: if_splits intro: sorted_snoc)
qed simp

lemma read_heavy_trace_ok:
  "read_heavy_trace w f start = Inr s \<Longrightarrow> s \<noteq> [] \<and> sorted s \<and> last s \<noteq> 0"
  by (auto simp: read_heavy_trace_def andThen_Inr_iff split: option.splits if_splits
      dest: read_heavy_lines_sorted)

lemma read_train_lines_ok:
  "read_train_lines f start ls acc = Inr tr \<Longrightarrow> sorted (map pdo_time acc) \<Longrightarrow>
   \<forall>i \<in> set acc. 0 \<le> sint (pdo_delay i) \<Longrightarrow>
   sorted (map pdo_time tr) \<and> (\<forall>i \<in> set tr. 0 \<le> sint (pdo_delay i))"
proof (induction ls arbitrary: acc)
  case (Cons line ls)
  from Cons.prems(1) obtain t d ps where words: "line \<noteq> []" "read_train_words (getlines (CHR '' '') line) 0 0 (-1) [] = Inr (t, d, ps)"
      "0 \<le> sint d" and
    cont: "(if start \<le> t then
          (if acc \<noteq> [] \<and> t - start < pdo_time (last acc) then
             Inl (Runtime_Error (f @ '': timestamps must be monotonically nondecreasing''))
           else read_train_lines f start ls (acc @ [DelayPDOInstance (t - start) d ps]))
        else read_train_lines f start ls acc) = Inr tr"
    by (auto simp: andThen_Inr_iff split: if_splits)
  show ?case
  proof (cases "start \<le> t")
    case False
    then show ?thesis using Cons.IH [of acc] cont Cons.prems(2,3) by simp
  next
    case True
    with cont have le: "\<not> (acc \<noteq> [] \<and> t - start < pdo_time (last acc))"
      and run: "read_train_lines f start ls (acc @ [DelayPDOInstance (t - start) d ps]) = Inr tr"
      by (simp_all split: if_splits)
    have "sorted (map pdo_time (acc @ [DelayPDOInstance (t - start) d ps]))"
      using sorted_snoc [OF Cons.prems(2), of "t - start"] le
      by (cases "acc = []") (simp_all add: last_map DelayPDOInstance_def)
    moreover have "\<forall>i \<in> set (acc @ [DelayPDOInstance (t - start) d ps]). 0 \<le> sint (pdo_delay i)"
      using Cons.prems(3) words(3) by (auto simp: DelayPDOInstance_def)
    ultimately show ?thesis by (rule Cons.IH [OF run])
  qed
qed simp

lemma read_train_trace_ok:
  "read_train_trace w f start = Inr tr \<Longrightarrow>
   2 < length tr \<and> sorted (map pdo_time tr) \<and> (\<forall>i \<in> set tr. 0 \<le> sint (pdo_delay i))"
  by (auto simp: read_train_trace_def andThen_Inr_iff split: option.splits if_splits
      dest: read_train_lines_ok)

section \<open>The constructor\<close>

text \<open>
  What a usable configuration adds to the constructor's own checks: an unbounded packet queue, a
  train trace that satisfies \<open>trace_ok\<close>, and values that stay clear of the word bounds.
\<close>

definition config_ok :: "abstract_packet_queue \<Rightarrow> cellular_queue \<Rightarrow> bool" where
  "config_ok queue c \<longleftrightarrow>
     lossless_apq queue \<and> apq_inv queue \<and> apq_held queue = [] \<and>
     trace_ok (delay_pdo_traces c) \<and>
     unat (last (heavy_pdo_schedule c)) < 2 ^ 62 \<and> length (heavy_pdo_schedule c) < 2 ^ 32 \<and>
     (\<forall>x \<in> set (psize_latency_offset c). offset_ok x)"

lemma CellularQueue_checks:
  assumes "CellularQueue train heavy prefix_path rep queue up start loss offs timer w = Inr (c, w')"
  shows "heavy_pdo_schedule c \<noteq> []" "sorted (heavy_pdo_schedule c)"
    "last (heavy_pdo_schedule c) \<noteq> 0" "2 < length (delay_pdo_traces c)"
    "sorted (map pdo_time (delay_pdo_traces c))"
    "\<forall>i \<in> set (delay_pdo_traces c). 0 \<le> sint (pdo_delay i)"
  using assms
  by (auto simp: CellularQueue_def andThen_Inr_iff split: prod.splits
      dest: read_heavy_trace_ok read_train_trace_ok)

lemma CellularQueue_initial:
  assumes "CellularQueue train heavy prefix_path rep queue up start loss offs timer w = Inr (c, w')"
    and "clock_steady w"
  shows "next_delivery c = 0" "link_base_timestamp c = clock_now w" "link_packet_queue c = queue"
    "packet_in_transit_bytes_left c = 0" "output_queue c = []" "current_link_queue_size c = 0"
    "delay_base_timestamp c = clock_now (clock_tick w)" "\<not> start_tick c"
    "curr_delivery_opportunity c = of_nat PACKET_SIZE" "delay_packet_queue c = []"
    "current_delay_pdo_idx c = 0" "current_pdo_idx c = 0" "current_base_delay c = -1"
    "pkt_counter c = 0" "w' = clock_tick (clock_tick w)" "w_euid w \<noteq> 0"
proof -
  have "timestamp w = Inr (clock_now w, clock_tick w)"
    "timestamp (clock_tick w) = Inr (clock_now (clock_tick w), clock_tick (clock_tick w))"
    using assms(2) by (simp_all add: timestamp_ok)
  note run = assms(1) [unfolded CellularQueue_def this andThen_simps prod.case]
  show "next_delivery c = 0" "link_base_timestamp c = clock_now w" "link_packet_queue c = queue"
    "packet_in_transit_bytes_left c = 0" "output_queue c = []" "current_link_queue_size c = 0"
    "delay_base_timestamp c = clock_now (clock_tick w)" "\<not> start_tick c"
    "curr_delivery_opportunity c = of_nat PACKET_SIZE" "delay_packet_queue c = []"
    "current_delay_pdo_idx c = 0" "current_pdo_idx c = 0" "current_base_delay c = -1"
    "pkt_counter c = 0" "w' = clock_tick (clock_tick w)" "w_euid w \<noteq> 0"
    using run
    by (auto simp: andThen_Inr_iff assert_not_root_def split: prod.splits if_splits)
qed

lemma CellularQueue_ok:
  assumes new: "CellularQueue train heavy prefix_path rep queue up start loss offs timer w = Inr (c, w')"
    and "clock_steady w" "whole_writes w" "config_ok queue c"
  shows "cq_ok c" "world_ok c w'" "channel c = []" "pkt_counter c = 0" "w_sent w' = w_sent w"
proof -
  note checks = CellularQueue_checks [OF new] and init = CellularQueue_initial [OF new assms(2)]
  note conf = assms(4) [unfolded config_ok_def]
  have empty: "link_contents c = []" using init conf by (simp add: link_contents_def in_transit_def)
  have now: "unat (clock_now w) < 2 ^ 62" using assms(2) clock_now_bound [of w] by simp
  have P: "unat (of_nat PACKET_SIZE :: u32) = PACKET_SIZE"
    by (rule unat_of_nat_small) (simp add: PACKET_SIZE_def)
  have "0 < unat (last (heavy_pdo_schedule c))" using checks(3) by (simp add: unat_gt_0)
  then have "schedule_ok (heavy_pdo_schedule c)" using checks conf by (simp add: schedule_ok_def)
  then have "link_wf c"
    using checks(1) init conf empty now
    by (simp add: link_wf_def transit_ok_def arrived_by_def in_transit_def)
  moreover have train: "\<not> train_begun c" using init by (simp add: train_begun_def)
  moreover have "delay_wf 0 c"
    using init conf train P by (simp add: delay_wf_def trace_ok_def)
  ultimately show "cq_ok c"
    using init conf empty by (simp add: cq_ok_def delay_queue_ok_def)
  have "pdo_time (delay_pdo_traces c ! 0) = 0" using conf by (simp add: trace_ok_def)
  moreover have "clock_steady (clock_tick w)" using assms(2) by simp
  from clock_now_tick [OF this] have "clock_now (clock_tick w) \<le> clock_now (clock_tick (clock_tick w))" .
  ultimately have "delay_by (unat (clock_now w')) c"
    using init train by (simp add: delay_by_def current_instance_def word_le_nat_alt)
  then show "world_ok c w'" using assms(2,3) init by (simp add: world_ok_def)
  show "channel c = []" using init empty by (simp add: channel_def link_channel_def)
  show "pkt_counter c = 0" "w_sent w' = w_sent w" using init by simp_all
qed

lemma CellularQueue_accepts:
  assumes new: "CellularQueue train heavy prefix_path rep queue up start loss offs timer w = Inr (c, w')"
    and "clock_steady w" "whole_writes w" "config_ok queue c"
    and "\<forall>x \<in> set xs. datagram_ok x" "(\<Sum>x \<leftarrow> xs. length x + 1) < 2 ^ 30"
  shows "cq_accepts (fd, c, w') xs"
proof -
  note ok = CellularQueue_ok [OF assms(1-4)]
  have "length xs \<le> (\<Sum>x \<leftarrow> xs. length x + 1)" by (induction xs) simp_all
  with assms(6) have "length xs < 2 ^ 30" by simp
  with ok assms(5,6) show ?thesis by (simp add: cq_accepts_def)
qed

section \<open>A sample emulator\<close>

text \<open>An ICMP datagram behind the four bytes of the TUN header.\<close>

definition sample_datagram :: string where
  "sample_datagram = map char_of
     [0, 0, 8, 0, 69, 0, 0, 36, 0, 0, 64, 0, 64, 1, 0, 0, 10, 0, 0, 1, 10, 0, 0, 2 :: nat]
     @ replicate 12 (CHR ''p'')"

text \<open>A clock that shows one more second at each reading, up to a hundred.\<close>

definition sample_fd :: file_descriptor where
  "sample_fd = \<lparr>fd_num = 7, fd_eof = False, fd_read_count = 0, fd_write_count = 0\<rparr>"

definition sample_world :: world where
  "sample_world =
     \<lparr>w_clock = (\<lambda>n. (0, of_nat (min n 100), 0)), w_clock_calls = 0, w_initial = Some 0,
      w_write = (\<lambda>n c. int c), w_write_calls = 0, w_sent = [],
      w_read = (\<lambda>fd n. (int (length sample_datagram), sample_datagram)),
      w_read_calls = 0, w_received = [], w_euid = 1000, w_egid = 1000,
      w_files = (\<lambda>f. if f = ''heavy'' then Some (trace_text [5, 20])
                     else if f = ''train'' then
                       Some (''0 10 2 5'' @ newline # ''100 30 1'' @ newline # ''200 20 3 4'' @ [newline])
                     else None),
      w_creatable = (\<lambda>f. True)\<rparr>"

definition sample_infinite :: abstract_packet_queue where
  "sample_infinite = InfinitePacketQueue
     \<lparr>iq_internal_queue = [], iq_queue_size_in_bytes = 0, iq_queue_size_in_packets = 0\<rparr>"

definition sample_queue :: "cellular_queue \<times> world" where
  "sample_queue = projr (CellularQueue ''train'' ''heavy'' [] True sample_infinite True 0 0 [] 0 sample_world)"

lemma sample_world_steady: "clock_steady sample_world" "whole_writes sample_world"
proof -
  have at: "clock_at sample_world n = of_nat (min n 100) * 1000" for n
    by (simp add: clock_at_def sample_world_def)
  have u: "unat (clock_at sample_world n) = min n 100 * 1000" for n
  proof -
    have "clock_at sample_world n = of_nat (min n 100 * 1000)" unfolding at by simp
    moreover have "min n 100 * 1000 < (2 :: nat) ^ LENGTH(64)" by (simp add: min_def)
    ultimately show ?thesis by (simp only: unat_of_nat_small)
  qed
  have "0 \<le> fst (w_clock sample_world n)" "unat (clock_at sample_world n) < 2 ^ 62" for n
    unfolding u by (simp_all add: sample_world_def min_def)
  moreover have "clock_at sample_world m \<le> clock_at sample_world n" if "m \<le> n" for m n
    using that unfolding word_le_nat_alt u by simp
  ultimately show "clock_steady sample_world"
    by (simp add: clock_steady_def clock_ok_def) (simp add: sample_world_def)
  show "whole_writes sample_world" by (simp add: whole_writes_def sample_world_def)
qed

lemma sample_traces:
  "read_heavy_lines ''heavy'' 0 (getlines newline (trace_text [5, 20])) [] = Inr [5, 20]"
  "read_train_lines ''train'' 0 (getlines newline
      (''0 10 2 5'' @ newline # ''100 30 1'' @ newline # ''200 20 3 4'' @ [newline])) []
    = Inr sample_trace"
  by code_simp+

lemma sample_queue_new:
  "CellularQueue ''train'' ''heavy'' [] True sample_infinite True 0 0 [] 0 sample_world
     = Inr (fst sample_queue, snd sample_queue)"
  "config_ok sample_infinite (fst sample_queue)"
  "heavy_pdo_schedule (fst sample_queue) = [5, 20]" "repeat_trace (fst sample_queue)"
  "\<not> trace_finished (fst sample_queue)"
proof -
  have len: "length sample_trace = 3" by (simp add: sample_trace_def)
  have files: "w_files sample_world ''heavy'' = Some (trace_text [5, 20])"
    "w_files sample_world ''train'' = Some
      (''0 10 2 5'' @ newline # ''100 30 1'' @ newline # ''200 20 3 4'' @ [newline])"
    by (simp_all add: sample_world_def)
  have heavy: "read_heavy_trace w ''heavy'' 0 = Inr [5, 20]" if "w_files w = w_files sample_world" for w
    unfolding read_heavy_trace_def that files by (simp add: sample_traces)
  have train: "read_train_trace w ''train'' 0 = Inr sample_trace" if "w_files w = w_files sample_world" for w
    unfolding read_train_trace_def that files by (simp only: option.case sample_traces) (simp add: len)
  have root: "assert_not_root (clock_tick (clock_tick sample_world)) = Inr ()"
    by (simp add: assert_not_root_def sample_world_def)
  have ts: "timestamp sample_world = Inr (clock_now sample_world, clock_tick sample_world)"
    "timestamp (clock_tick sample_world)
      = Inr (clock_now (clock_tick sample_world), clock_tick (clock_tick sample_world))"
    using sample_world_steady(1) by (simp_all add: timestamp_ok)
  note run = CellularQueue_def ts andThen_simps prod.case root heavy train open_packet_log_def
    read_offset_file_def
  obtain c w where c: "CellularQueue ''train'' ''heavy'' [] True sample_infinite True 0 0 [] 0 sample_world
      = Inr (c, w)" "delay_pdo_traces c = sample_trace" "heavy_pdo_schedule c = [5, 20]"
      "psize_latency_offset c = []" "repeat_trace c" "\<not> trace_finished c"
    by (simp add: run)
  then show "CellularQueue ''train'' ''heavy'' [] True sample_infinite True 0 0 [] 0 sample_world
     = Inr (fst sample_queue, snd sample_queue)" by (simp add: sample_queue_def)
  have new: "fst sample_queue = c" using c(1) by (simp add: sample_queue_def)
  then show "heavy_pdo_schedule (fst sample_queue) = [5, 20]" "repeat_trace (fst sample_queue)"
    "\<not> trace_finished (fst sample_queue)" using c(3,5,6) by simp_all
  from new show "config_ok sample_infinite (fst sample_queue)"
    using c(2-4) sample_trace_ok
    by (simp add: config_ok_def sample_infinite_def iq_inv_def)
qed

lemma sample_datagram_ok: "datagram_ok sample_datagram"
  by code_simp

lemma sample_datagram_length: "length sample_datagram = 36"
  by code_simp

lemma sample_accepts: "cq_accepts (fd, sample_queue) [sample_datagram, sample_datagram]"
proof -
  have "cq_accepts (fd, fst sample_queue, snd sample_queue) [sample_datagram, sample_datagram]"
    by (rule CellularQueue_accepts [OF sample_queue_new(1) sample_world_steady sample_queue_new(2)])
      (simp_all add: sample_datagram_ok sample_datagram_length)
  then show ?thesis by simp
qed

section \<open>Properties of construction\<close>

text \<open>
  C18. What a constructed queue can rely on: the heavy trace is not empty, ascending, and ends after
  time 0; the train trace has at least three instances, in ascending order of time, with
  non-negative base delays; the process is not privileged.
\<close>

theorem constructor_checks:
  assumes "CellularQueue train heavy log_prefix rep queue up start loss offs timer w = Inr (c, w')"
    and "clock_steady w"
  shows "heavy_pdo_schedule c \<noteq> [] \<and> sorted (heavy_pdo_schedule c) \<and> last (heavy_pdo_schedule c) \<noteq> 0 \<and>
    2 < length (delay_pdo_traces c) \<and> sorted (map pdo_time (delay_pdo_traces c)) \<and>
    (\<forall>i \<in> set (delay_pdo_traces c). 0 \<le> sint (pdo_delay i)) \<and> w_euid w \<noteq> 0"
  using CellularQueue_checks [OF assms(1)] CellularQueue_initial [OF assms] by blast

theorem constructor_checks_witness:
  "heavy_pdo_schedule (fst sample_queue) \<noteq> [] \<and> last (heavy_pdo_schedule (fst sample_queue)) \<noteq> 0 \<and>
    2 < length (delay_pdo_traces (fst sample_queue)) \<and> w_euid sample_world \<noteq> 0"
  using constructor_checks [OF sample_queue_new(1) sample_world_steady(1)] by blast

text \<open>
  C19. A heavy trace file that lists ascending times, one per line, is read back as those times that
  are not before the start timestamp, counted from it.
\<close>

theorem heavy_trace_roundtrip:
  assumes "sorted ts" "\<forall>t \<in> set ts. t < 2 ^ 63" "start < 2 ^ 63"
    and "w_files w f = Some (trace_text ts)" "\<exists>t \<in> set ts. start < t"
  shows "read_heavy_trace w f (of_nat start)
    = Inr (map (\<lambda>t. of_nat (t - start)) (filter (\<lambda>t. start \<le> t) ts))"
proof -
  let ?ts = "filter (\<lambda>t. start \<le> t) ts"
  have lines: "read_heavy_lines f (of_nat start) (getlines newline (trace_text ts)) []
      = Inr (map of_nat (map (\<lambda>t. t - start) ?ts))"
    using read_heavy_lines_dec [OF assms(3,2,1), of "[]" f] by (simp add: getlines_trace_text)
  obtain t where t: "t \<in> set ?ts" "start < t" using assms(5) by auto
  then have ne: "?ts \<noteq> []" by force
  have "sorted ?ts" using assms(1) by (simp add: sorted_wrt_filter)
  from sorted_le_last [OF this t(1)] have "t \<le> last ?ts" .
  with t(2) have pos: "start < last ?ts" by simp
  have "last ?ts < 2 ^ 63" using assms(2) last_in_set [OF ne] by simp
  moreover define m where "m = last ?ts - start"
  ultimately have "0 < m" "m < 2 ^ 63" using pos by simp_all
  then have "(of_nat m :: u64) \<noteq> 0" using of_nat_u64_less [of 0 m] by simp
  then have "(of_nat (last ?ts - start) :: u64) \<noteq> 0" unfolding m_def .
  then have "last (map of_nat (map (\<lambda>t. t - start) ?ts)) \<noteq> (0 :: u64)"
    using ne by (simp only: last_map map_is_Nil_conv not_False_eq_True)
  then show ?thesis using lines ne assms(4) by (simp add: read_heavy_trace_def comp_def)
qed

theorem heavy_trace_roundtrip_witness:
  "read_heavy_trace \<lparr>w_clock = (\<lambda>n. (0, 0, 0)), w_clock_calls = 0, w_initial = Some 0,
      w_write = (\<lambda>n c. int c), w_write_calls = 0, w_sent = [], w_read = (\<lambda>fd n. (0, [])),
      w_read_calls = 0, w_received = [], w_euid = 1000, w_egid = 1000,
      w_files = (\<lambda>f. Some (trace_text [3, 20, 20, 45])), w_creatable = (\<lambda>f. True)\<rparr> ''pdo'' 10
    = Inr [10, 10, 35]"
proof -
  let ?w = "\<lparr>w_clock = (\<lambda>n. (0, 0, 0)), w_clock_calls = 0, w_initial = Some 0,
      w_write = (\<lambda>n c. int c), w_write_calls = 0, w_sent = [], w_read = (\<lambda>fd n. (0, [])),
      w_read_calls = 0, w_received = [], w_euid = 1000, w_egid = 1000,
      w_files = (\<lambda>f. Some (trace_text [3, 20, 20, 45])), w_creatable = (\<lambda>f. True)\<rparr>"
  have "read_heavy_trace ?w ''pdo'' (of_nat 10)
      = Inr (map (\<lambda>t. of_nat (t - 10)) (filter (\<lambda>t. 10 \<le> t) [3, 20, 20, 45]))"
    by (rule heavy_trace_roundtrip) simp_all
  then show ?thesis by simp
qed

end
