(* ===== verification/Cellular_Drain.thy ===== *)
theory Cellular_Drain
  imports Main Prelude Packets Packet_Queues Link_Packet_Queue Cellular_State Link_Queue Release_Time Ferry
    Cellular_Queue Cellular_Channel Cellular_Start
begin

text \<open>
  Nothing stays in the emulator: once enough delivery opportunities have come, the next calls of the
  event loop empty the link.
\<close>

section \<open>The link without backlog\<close>

lemma no_backlog:
  assumes "transit_ok l" "backlog l = 0"
  shows "packet_in_transit_bytes_left l = 0" "apq_held (link_packet_queue l) = []"
    "link_contents l = output_queue l"
proof -
  show b: "packet_in_transit_bytes_left l = 0"
    using assms(2) by (simp add: backlog_def unat_eq_0)
  show h: "apq_held (link_packet_queue l) = []"
  proof (rule ccontr)
    assume "apq_held (link_packet_queue l) \<noteq> []"
    then obtain p ps where p: "apq_held (link_packet_queue l) = p # ps" by (cases "apq_held (link_packet_queue l)") auto
    then have "link_packet_ok p" using assms(1) by (simp add: transit_ok_def link_contents_def)
    with p assms(2) show False by (simp add: backlog_def link_packet_ok_def)
  qed
  show "link_contents l = output_queue l" using b h by (simp add: link_contents_def in_transit_def)
qed

text \<open>\<open>rationalize\<close> moves all packets to the output queue if the opportunities due carry them.\<close>

lemma rationalize_drains:
  assumes "link_wf l" "unat now < 2 ^ 62" "\<not> trace_finished l" "repeat_trace l"
    and "backlog l \<le> n * PACKET_SIZE" "\<forall>j < n. delivery_time l j \<le> unat now"
  shows "\<exists>l'. rationalize now l = Some (Inr l') \<and> packet_in_transit_bytes_left l' = 0 \<and>
    apq_held (link_packet_queue l') = []"
proof -
  from rationalize_ok [OF assms(1,2)] obtain l' k where
    l': "rationalize now l = Some (Inr l')" "link_wf l'" "backlog l' = backlog l - k * PACKET_SIZE"
      "advanced (unat now) k l l'" by blast
  have "unat now < delivery_time l k"
    using l'(4) assms(3,4) by (auto simp: advanced_def split: if_splits)
  then have "n \<le> k" using assms(6) by (meson leD leI)
  then have "n * PACKET_SIZE \<le> k * PACKET_SIZE" by (rule mult_le_mono1)
  with assms(5) l'(3) have "backlog l' = 0" by linarith
  with no_backlog [of l'] l'(1,2) show ?thesis by (auto simp: link_wf_def)
qed

section \<open>Writing what has come through\<close>

lemma flush_keeps_link:
  "flush_output now ps s = Inr s' \<Longrightarrow>
   packet_in_transit_bytes_left (fst (snd s')) = packet_in_transit_bytes_left (fst (snd s)) \<and>
   link_packet_queue (fst (snd s')) = link_packet_queue (fst (snd s))"
proof (induction ps arbitrary: s)
  case (Cons p ps)
  obtain fd c w where s: "s = (fd, c, w)" by (cases s) auto
  from Cons.prems obtain x fd1 w1 c1 where
    "flush_output now ps (fd1, c1, w1) = Inr s'" "packet_in_transit_bytes_left c1 = packet_in_transit_bytes_left c"
    "link_packet_queue c1 = link_packet_queue c"
    by (auto simp: s andThen_Inr_iff Let_def log_line_def)
  with Cons.IH [of "(fd1, c1, w1)"] show ?case by (simp add: s)
qed simp

lemma write_keeps_link:
  assumes "delay_packet_queue c = []" "write_packets (fd, c, w) = Some (Inr (fd', c', w'))"
  shows "packet_in_transit_bytes_left c' = packet_in_transit_bytes_left c \<and>
    link_packet_queue c' = link_packet_queue c"
proof -
  from assms(1) have "get_next_from_delay_queue c w = Inr (delay_queue_packet_empty [] 0, c, w)"
    by (simp add: get_next_from_delay_queue_def)
  moreover have "forward_packets n (delay_queue_packet_empty [] 0) s = Some (Inr s)" for n s
    by (simp add: forward_packets.simps delay_queue_packet_empty_def)
  ultimately obtain w1 now w2 where "flush_output now (output_queue c) (fd, c, w2) = Inr (fd', c', w')"
    using assms(2)
    by (auto simp: write_packets_def write_packets_from_link_queue_def andThenO_Some_Inr_iff andThen_Inr_iff)
  from flush_keeps_link [OF this] show ?thesis by simp
qed

section \<open>Nothing is left\<close>

text \<open>
  C11. The link drains. When no packet is being delayed any more, the trace repeats, and the first
  \<open>n\<close> delivery opportunities to come, which together carry the bytes that are waiting, have come by
  the time the clock shows, then the next round of the event loop (\<open>wait_time\<close>, then
  \<open>write_packets\<close>) writes out every packet the emulator holds, in order, and leaves it empty.
\<close>

theorem link_drains:
  assumes "cq_ok c" "world_ok c w" "channel_room (channel c)"
    and "delay_packet_queue c = []" "\<not> trace_finished c" "repeat_trace c"
    and "backlog c \<le> n * PACKET_SIZE" "\<forall>j < n. delivery_time c j \<le> unat (clock_now w)"
  shows "\<exists>t c1 w1 fd2 c2 w2. wait_time c w = Some (Inr (t, c1, w1)) \<and>
    write_packets (fd, c1, w1) = Some (Inr (fd2, c2, w2)) \<and> channel c2 = [] \<and>
    w_sent w2 = w_sent w @ map (\<lambda>x. (fd_num fd, snd x)) (channel c)"
proof -
  have now: "unat (clock_now w) < 2 ^ 62" using world_ok_tick(2) [OF assms(2)] .
  have wf: "link_wf c" using assms(1) by (simp add: cq_ok_def)
  from wait_time_ok [OF assms(1,2)] obtain t c1 w1 where
    w: "wait_time c w = Some (Inr (t, c1, w1))" "cq_ok c1" "world_ok c1 w1" "w_sent w1 = w_sent w"
      "channel c1 = channel c" by blast
  have "rationalize (clock_now w) c = Some (Inr c1)"
    using w(1) assms(4) world_ok_tick(1) [OF assms(2)]
    by (auto simp: wait_time_def wait_time_delay_queue_def wait_time_link_queue_def andThenO_Some_Inr_iff Let_def)
  with rationalize_drains [OF wf now assms(5-8)] have
    drained: "packet_in_transit_bytes_left c1 = 0" "apq_held (link_packet_queue c1) = []" by simp_all
  have "delay_packet_queue c1 = []"
    using \<open>rationalize (clock_now w) c = Some (Inr c1)\<close> rationalize_ok [OF wf now] assms(4)
    by (auto simp: same_link_def dest: delay_stage_cong(4))
  note none = this
  from write_packets_ok [OF w(2,3), of fd] w(5) assms(3) obtain fd2 c2 w2 sent where
    r: "write_packets (fd, c1, w1) = Some (Inr (fd2, c2, w2))" "wrote sent (fd, c1, w1) (fd2, c2, w2)"
      "sent @ channel c2 = channel c1" "output_queue c2 = []"
      "released (clock_now w1) (clock_now w2) (delay_packet_queue c1) (delay_packet_queue c2)" by auto
  have "link_contents c2 = []"
    using write_keeps_link [OF none r(1)] drained r(4) by (simp add: link_contents_def in_transit_def)
  moreover have "delay_packet_queue c2 = []" using r(5) none by (simp add: released_def)
  ultimately have "channel c2 = []" by (simp add: channel_def link_channel_def)
  moreover from this have "w_sent w2 = w_sent w @ map (\<lambda>x. (fd_num fd, snd x)) (channel c)"
    using r(2,3) w(4,5) by (simp add: wrote_def)
  ultimately show ?thesis using w(1) r(1) by blast
qed

text \<open>A packet of five bytes waits in the link when the first opportunity, after 5 ms, is long past.\<close>

definition sample_waiting :: cellular_queue where
  "sample_waiting = (fst sample_queue)\<lparr>link_packet_queue := InfinitePacketQueue
       \<lparr>iq_internal_queue = [sample_packet ''abcde''], iq_queue_size_in_bytes = 5, iq_queue_size_in_packets = 1\<rparr>,
     current_link_queue_size := 1, start_tick := True\<rparr>"

lemma sample_waiting_ok:
  "cq_ok sample_waiting" "world_ok sample_waiting (snd sample_queue)"
  "link_contents sample_waiting = [sample_packet ''abcde'']" "delay_packet_queue sample_waiting = []"
  "backlog sample_waiting = 5"
proof -
  let ?p = "sample_packet ''abcde''"
  note ok = CellularQueue_ok [OF sample_queue_new(1) sample_world_steady sample_queue_new(2)]
  note init = CellularQueue_initial [OF sample_queue_new(1) sample_world_steady(1)]
  show contents: "link_contents sample_waiting = [?p]"
    using init(4,5) by (simp add: link_contents_def in_transit_def sample_waiting_def)
  show dq: "delay_packet_queue sample_waiting = []" using init(10) by (simp add: sample_waiting_def)
  show "backlog sample_waiting = 5" using init(4) by (simp add: backlog_def sample_waiting_def)
  have "link_packet_ok ?p" by (simp add: link_packet_ok_def PACKET_SIZE_def)
  moreover have "arrived_by t sample_waiting" for t
    using init(4) by (simp add: arrived_by_def in_transit_def sample_waiting_def sample_packet_def mk_queued_packet_def)
  ultimately have "link_wf sample_waiting"
    using ok(1) contents init(4)
    by (simp add: cq_ok_def link_wf_def transit_ok_def) (simp add: sample_waiting_def iq_inv_def qp_bytes_def)
  then show "cq_ok sample_waiting"
    using ok(1) contents
    by (simp add: cq_ok_def) (simp add: sample_waiting_def delay_wf_def delay_queue_ok_def train_begun_def
        current_instance_def)
  show "world_ok sample_waiting (snd sample_queue)"
    using ok(2) by (simp add: world_ok_def delay_by_def train_begun_def current_instance_def sample_waiting_def)
qed

theorem link_drains_witness:
  "\<exists>t c1 w1 fd2 c2 w2. wait_time sample_waiting (snd sample_queue) = Some (Inr (t, c1, w1)) \<and>
    write_packets (sample_fd, c1, w1) = Some (Inr (fd2, c2, w2)) \<and> channel c2 = [] \<and>
    map snd (w_sent w2) = [''abcde'']"
proof -
  note init = CellularQueue_initial [OF sample_queue_new(1) sample_world_steady(1)]
  have sent: "w_sent (snd sample_queue) = []"
    using init(15) by (simp add: clock_tick_def sample_world_def)
  have chan: "map snd (channel sample_waiting) = [''abcde'']" "channel_room (channel sample_waiting)"
    using sample_waiting_ok(3,4) by (simp_all add: channel_def link_channel_def channel_room_def)
  have "unat (clock_now (snd sample_queue)) = 2000"
    using init(15) by (simp add: clock_now_def clock_at_def clock_tick_def sample_world_def)
  moreover have "unat (clock_now sample_world) = 0"
    by (simp add: clock_now_def clock_at_def sample_world_def)
  ultimately have "delivery_time sample_waiting 0 \<le> unat (clock_now (snd sample_queue))"
    using init(1,2) sample_queue_new(3) by (simp add: delivery_time_def sample_waiting_def)
  then have "\<exists>t c1 w1 fd2 c2 w2. wait_time sample_waiting (snd sample_queue) = Some (Inr (t, c1, w1)) \<and>
      write_packets (sample_fd, c1, w1) = Some (Inr (fd2, c2, w2)) \<and> channel c2 = [] \<and>
      w_sent w2 = w_sent (snd sample_queue) @ map (\<lambda>x. (fd_num sample_fd, snd x)) (channel sample_waiting)"
    using sample_waiting_ok chan(2) sample_queue_new(4,5)
    by (intro link_drains [where n = 1]) (simp_all add: PACKET_SIZE_def, simp_all add: sample_waiting_def)
  then show ?thesis using sent chan(1) by (auto simp: comp_def)
qed

end
