(* ===== verification/Link_Count.thy ===== *)
theory Link_Count
  imports Main Prelude Kernel Packets Packet_Queues Link_Packet_Queue Cellular_State Link_Queue
    Delay_Queue Release_Time Cellular_Queue Ferry Cellular_Channel Cellular_Start
begin

text \<open>
  The counter \<open>current_link_queue_size_\<close> of \<open>src/frontend/cellular_queue.cc\<close> against what the link
  holds, for every packet queue, the bounded ones included. No call is assumed to return; the
  lemmas say what a call that does return leaves behind. The counter never falls behind the
  packets the link holds, and a packet the queue drops puts it ahead of them for good.
\<close>

section \<open>The packet queues\<close>

lemma dq_dequeue_held:
  "dq_dequeue q = Inr (p, q') \<Longrightarrow> dq_internal_queue q = p # dq_internal_queue q'"
  by (auto simp: dq_dequeue_def andThen_Inr_iff Let_def split: list.splits)

lemma apq_dequeue_held: "apq_dequeue q = Inr (p, q') \<Longrightarrow> apq_held q = p # apq_held q'"
  by (cases q) (auto simp: andThen_Inr_iff infinite_dequeue_def dest!: dq_dequeue_held split: list.splits)

lemma drophead_trim_length:
  "drophead_trim q = Inr q' \<Longrightarrow> length (dq_internal_queue q') \<le> length (dq_internal_queue q)"
proof (induction q rule: drophead_trim.induct)
  case (1 q)
  from "1.prems" obtain ok where ok: "dq_good q = Inr ok"
    "(if ok then Inr q else andThen (dq_dequeue q) (\<lambda>r. drophead_trim (snd r))) = (Inr q' :: _ res)"
    unfolding drophead_trim.simps [of q] by (auto simp: andThen_Inr_iff)
  show ?case
  proof (cases ok)
    case False
    with ok(2) obtain r where r: "dq_dequeue q = Inr r" "drophead_trim (snd r) = Inr q'"
      by (auto simp: andThen_Inr_iff)
    have "length (dq_internal_queue q') \<le> length (dq_internal_queue (snd r))"
      by (rule "1.IH" [OF ok(1) False r])
    moreover have "length (dq_internal_queue (snd r)) < length (dq_internal_queue q)"
      using r(1) by (cases r) (auto dest: dq_dequeue_length)
    ultimately show ?thesis by simp
  qed (use ok in simp)
qed

lemma apq_enqueue_length:
  "apq_enqueue p q = Inr q' \<Longrightarrow> length (apq_held q') \<le> Suc (length (apq_held q))"
  by (cases q) (auto simp: andThen_Inr_iff infinite_enqueue_def droptail_enqueue_def drophead_enqueue_def
      dq_accept_def Let_def dest!: drophead_trim_length split: if_splits)

section \<open>The link\<close>

definition holds_no_more :: "'a link_stage_scheme \<Rightarrow> 'a link_stage_scheme \<Rightarrow> bool" where
  "holds_no_more l l' \<longleftrightarrow> length (link_contents l') \<le> length (link_contents l) \<and>
     current_link_queue_size l' = current_link_queue_size l \<and> link_stage.more l' = link_stage.more l"

lemma holds_no_more_refl [simp]: "holds_no_more l l"
  by (simp add: holds_no_more_def)

lemma holds_no_more_trans: "holds_no_more l l1 \<Longrightarrow> holds_no_more l1 l2 \<Longrightarrow> holds_no_more l l2"
  by (simp add: holds_no_more_def)

lemma link_fetch_count: "link_fetch l = Inr (Some l') \<Longrightarrow> holds_no_more l l'"
  by (auto simp: link_fetch_def holds_no_more_def link_contents_def in_transit_def andThen_Inr_iff
      dest!: apq_dequeue_held split: if_splits)

lemma link_send_count: "link_send t bl l = Inr (bl', l') \<Longrightarrow> holds_no_more l l'"
  by (auto simp: link_send_def holds_no_more_def link_contents_def in_transit_def andThen_Inr_iff
      Let_def split: if_splits)

lemma deliver_count: "deliver t bl l = Inr l' \<Longrightarrow> holds_no_more l l'"
proof (induction t bl l rule: deliver.induct)
  case (1 t bl l)
  show ?case
  proof (cases "bl = 0")
    case True
    then show ?thesis using "1.prems" by (simp add: deliver.simps [of t 0 l])
  next
    case False
    with "1.prems" obtain r where r: "link_fetch l = Inr r"
      "(case r of None \<Rightarrow> Inr l
        | Some l1 \<Rightarrow> andThen (link_send t bl l1) (\<lambda>(bl', l2). deliver t bl' l2)) = (Inr l' :: _ res)"
      by (auto simp: deliver.simps [of t bl] andThen_Inr_iff)
    show ?thesis
    proof (cases r)
      case (Some l1)
      with r(2) obtain bl' l2 where s: "link_send t bl l1 = Inr (bl', l2)" "deliver t bl' l2 = Inr l'"
        by (auto simp: andThen_Inr_iff)
      from "1.IH" [OF False r(1) Some s(1) refl s(2)]
      show ?thesis using link_fetch_count [of l l1] link_send_count [OF s(1)] r(1) Some
        by (auto intro: holds_no_more_trans)
    qed (use r in simp)
  qed
qed

lemma use_a_delivery_opportunity_count:
  "use_a_delivery_opportunity l = Inr l' \<Longrightarrow> holds_no_more l l'"
  by (auto simp: use_a_delivery_opportunity_def holds_no_more_def link_contents_def in_transit_def Let_def
      split: if_splits)

lemma rationalize_step_count: "rationalize_step now l = Inr (Some l') \<Longrightarrow> holds_no_more l l'"
  by (auto simp: rationalize_step_def andThen_Inr_iff split: if_splits
      dest!: use_a_delivery_opportunity_count deliver_count intro: holds_no_more_trans)

lemma rationalize_count:
  "rationalize now l = Some r \<Longrightarrow> case r of Inl e \<Rightarrow> True | Inr l' \<Rightarrow> holds_no_more l l'"
proof (rule rationalize.raw_induct [where P = "\<lambda>now l r. case r of Inl e \<Rightarrow> True | Inr l' \<Rightarrow> holds_no_more l l'"])
  fix self now l r
  assume IH: "\<And>now l r. self now l = Some r \<Longrightarrow> case r of Inl e \<Rightarrow> True | Inr l' \<Rightarrow> holds_no_more l l'"
    and body: "(case rationalize_step now l of Inl e \<Rightarrow> Some (Inl e) | Inr None \<Rightarrow> Some (Inr l)
      | Inr (Some l') \<Rightarrow> self now l') = Some r"
  show "case r of Inl e \<Rightarrow> True | Inr l' \<Rightarrow> holds_no_more l l'"
  proof (cases r)
    case r: (Inr l')
    with body consider "l' = l" | l1 where "rationalize_step now l = Inr (Some l1)" "self now l1 = Some r"
      by (auto split: sum.splits option.splits)
    then show ?thesis
    proof cases
      case 2
      from IH [OF 2(2)] rationalize_step_count [OF 2(1)] show ?thesis
        by (auto simp: r intro: holds_no_more_trans)
    qed (simp add: r)
  qed simp
qed

lemmas rationalize_Inr_count = rationalize_count [where r = "Inr l'" for l', simplified]

section \<open>The counter\<close>

text \<open>
  How far the counter is ahead of the packets in the link, and how far it can get: each packet in
  the delay queue may still be counted once.
\<close>

definition miscount :: "'a link_stage_scheme \<Rightarrow> int" where
  "miscount l = int (unat (current_link_queue_size l)) - int (length (link_contents l))"

definition countable :: "cellular_queue \<Rightarrow> nat" where
  "countable c = unat (current_link_queue_size c) + length (delay_packet_queue c)"

lemma holds_no_more_miscount: "holds_no_more l l' \<Longrightarrow> miscount l \<le> miscount l'"
  by (simp add: holds_no_more_def miscount_def)

lemma holds_no_more_countable:
  fixes c c' :: cellular_queue
  assumes "holds_no_more c c'"
  shows "countable c' = countable c" "delay_packet_queue c' = delay_packet_queue c"
  using assms delay_stage_cong [of c' c] by (simp_all add: holds_no_more_def countable_def)

lemma put_packet_count:
  fixes c c' :: cellular_queue
  assumes "put_packet_to_link_queue now p c = Some (Inr c')" "countable c + 1 < 2 ^ 32"
  shows "miscount c \<le> miscount c'" "countable c' = countable c + 1"
    "delay_packet_queue c' = delay_packet_queue c"
    "length (link_contents c') \<le> length (link_contents c) \<Longrightarrow> miscount c < miscount c'"
proof -
  from assms(1) obtain c1 q where c1: "rationalize now c = Some (Inr c1)"
    "apq_enqueue (to_link now p) (link_packet_queue c1) = Inr q"
    "c' = c1\<lparr>link_packet_queue := q, current_link_queue_size := current_link_queue_size c1 + 1\<rparr>"
    by (auto simp: put_packet_to_link_queue_def to_link_def andThenO_Some_Inr_iff andThen_Inr_iff
        split: if_splits)
  note more = rationalize_Inr_count [OF c1(1)]
  have size: "unat (current_link_queue_size c') = unat (current_link_queue_size c) + 1"
    using more assms(2) c1(3) by (subst c1(3)) (simp add: holds_no_more_def countable_def unat_add_small)
  have "length (link_contents c') \<le> length (link_contents c1) + 1"
    using apq_enqueue_length [OF c1(2)] by (simp add: c1(3) link_contents_def in_transit_def)
  then have "length (link_contents c') \<le> length (link_contents c) + 1"
    using more by (simp add: holds_no_more_def)
  with size show "miscount c \<le> miscount c'"
    "length (link_contents c') \<le> length (link_contents c) \<Longrightarrow> miscount c < miscount c'"
    by (simp_all add: miscount_def)
  show "delay_packet_queue c' = delay_packet_queue c"
    using holds_no_more_countable(2) [OF more] by (simp add: c1(3))
  with size show "countable c' = countable c + 1" by (simp add: countable_def)
qed

text \<open>\<open>hand p\<close>: the loop holds the packet \<open>p\<close>, or the empty packet that ends it.\<close>

definition hand :: "delay_queue_packet \<Rightarrow> nat" where
  "hand p = (if dp_contents p = [] then 0 else 1)"

lemma miscount_delay_queue [simp]: "miscount (c\<lparr>delay_packet_queue := q\<rparr>) = miscount c"
  by (simp add: miscount_def link_contents_def in_transit_def)

lemma get_next_count:
  assumes "get_next_from_delay_queue c w = Inr (p, c', w')"
  shows "miscount c' = miscount c" "countable c' + hand p \<le> countable c"
proof -
  consider "c' = c" "dp_contents p = []" | q r where "delay_packet_queue c = r # q" "c' = c\<lparr>delay_packet_queue := q\<rparr>"
  proof (cases "delay_packet_queue c")
    case Nil
    with assms that(1) show ?thesis
      by (auto simp: get_next_from_delay_queue_def delay_queue_packet_empty_def)
  next
    case (Cons r q)
    show ?thesis
    proof (cases "timestamp w")
      case (Inr t)
      obtain now w1 where t: "t = (now, w1)" by (cases t)
      show ?thesis
      proof (cases "dp_release_time r \<le> now")
        case True
        with assms Cons Inr t show ?thesis
          by (intro that(2) [OF Cons]) (simp add: get_next_from_delay_queue_def)
      next
        case False
        with assms Cons Inr t show ?thesis
          by (intro that(1)) (auto simp: get_next_from_delay_queue_def delay_queue_packet_empty_def)
      qed
    qed (use assms Cons in \<open>simp add: get_next_from_delay_queue_def\<close>)
  qed
  then have "miscount c' = miscount c \<and> countable c' + hand p \<le> countable c"
    by cases (simp_all add: countable_def hand_def)
  then show "miscount c' = miscount c" "countable c' + hand p \<le> countable c" by simp_all
qed

lemma log_line_count [simp]: "miscount (log_line t c) = miscount c" "countable (log_line t c) = countable c"
  by (simp_all add: miscount_def countable_def)

text \<open>A packet on its way to the descriptor or into the link.\<close>

lemma forward_packet_count:
  assumes "forward_packet now p (fd, c, w) = Some (Inr (fd', c', w'))" "countable c + 1 < 2 ^ 32"
  shows "miscount c \<le> miscount c'" "countable c' \<le> countable c + 1"
    "\<not> (dp_is_bypass_link_queue p \<and> current_link_queue_size c = 0) \<Longrightarrow>
       put_packet_to_link_queue now p c = Some (Inr c')"
proof -
  let ?bypass = "dp_is_bypass_link_queue p \<and> current_link_queue_size c = 0"
  show put: "put_packet_to_link_queue now p c = Some (Inr c')" if "\<not> ?bypass"
    using assms(1) that by (auto simp: forward_packet_def andThenO_Some_Inr_iff)
  have "miscount c' = miscount c \<and> countable c' = countable c" if ?bypass
    using assms(1) that by (auto simp: forward_packet_def andThen_Inr_iff)
  then show "miscount c \<le> miscount c'" "countable c' \<le> countable c + 1"
    using put_packet_count(1,2) [OF put assms(2)] by (cases ?bypass; simp)+
qed

lemma forward_step_split:
  assumes "forward_step now p (fd, c, w) = Some (Inr (p', s'))"
  obtains fd1 c1 w1 c2 w2 where
    "forward_packet now p (fd, c, w) = Some (Inr (fd1, c1, w1))"
    "get_next_from_delay_queue c1 w1 = Inr (p', c2, w2)" "s' = (fd1, c2, w2)"
  using assms that by (auto simp: forward_step_def andThenO_Some_Inr_iff)

definition counts_on :: "nat \<Rightarrow> writing \<Rightarrow> writing \<Rightarrow> bool" where
  \<comment> \<open>the counter fell no further behind, and at most \<open>k\<close> packets came in\<close>
  "counts_on k s s' \<longleftrightarrow>
     (case (s, s') of ((fd, c, w), (fd', c', w')) \<Rightarrow>
        miscount c \<le> miscount c' \<and> countable c' \<le> countable c + k)"

lemma forward_packets_count:
  "forward_packets now p s = Some r \<Longrightarrow>
   \<forall>s'. r = Inr s' \<and> countable (fst (snd s)) + hand p < 2 ^ 32 \<longrightarrow> counts_on (hand p) s s'"
proof (rule forward_packets.raw_induct [where P = "\<lambda>now p s r.
    \<forall>s'. r = Inr s' \<and> countable (fst (snd s)) + hand p < 2 ^ 32 \<longrightarrow> counts_on (hand p) s s'"])
  fix self :: "u64 \<Rightarrow> delay_queue_packet \<Rightarrow> writing \<Rightarrow> writing res option"
    and now p and s :: writing and r
  assume IH: "\<And>now p s r. self now p s = Some r \<Longrightarrow>
      \<forall>s'. r = Inr s' \<and> countable (fst (snd s)) + hand p < 2 ^ 32 \<longrightarrow> counts_on (hand p) s s'"
    and body: "(if dp_contents p = [] then Some (Inr s)
      else case forward_step now p s of None \<Rightarrow> None | Some (Inl e) \<Rightarrow> Some (Inl e)
        | Some (Inr (next_packet, s')) \<Rightarrow> self now next_packet s') = Some r"
  obtain fd c w where s: "s = (fd, c, w)" by (cases s) auto
  show "\<forall>s'. r = Inr s' \<and> countable (fst (snd s)) + hand p < 2 ^ 32 \<longrightarrow> counts_on (hand p) s s'"
  proof (intro allI impI, elim conjE)
    fix s' assume r: "r = Inr s'" and room: "countable (fst (snd s)) + hand p < 2 ^ 32"
    show "counts_on (hand p) s s'"
    proof (cases "dp_contents p = []")
      case True
      with body r s show ?thesis by (auto simp: counts_on_def)
    next
      case False
      with body r obtain p1 s1 where step: "forward_step now p s = Some (Inr (p1, s1))"
        "self now p1 s1 = Some (Inr s')" by (auto split: option.splits sum.splits)
      from forward_step_split [OF step(1) [unfolded s]] obtain fd1 c1 w1 c2 w2 where
        f: "forward_packet now p (fd, c, w) = Some (Inr (fd1, c1, w1))"
          "get_next_from_delay_queue c1 w1 = Inr (p1, c2, w2)" "s1 = (fd1, c2, w2)" by blast
      have hand: "hand p = 1" using False by (simp add: hand_def)
      with room s have "countable c + 1 < 2 ^ 32" by simp
      note count = forward_packet_count(1,2) [OF f(1) this] get_next_count [OF f(2)]
      have "countable c2 + hand p1 < 2 ^ 32" using count(2,4) room hand s by simp
      with IH [OF step(2)] f(3) have "counts_on (hand p1) s1 s'" by (cases s') simp
      then show ?thesis using count hand by (auto simp: counts_on_def s f(3) split: prod.splits)
    qed
  qed
qed

text \<open>The packets the link is done with: each that is written is taken off the counter.\<close>

lemma flush_output_count:
  "flush_output now ps (fd, c, w) = Inr s' \<Longrightarrow> output_queue c = ps \<Longrightarrow> counts_on 0 (fd, c, w) s'"
proof (induction ps arbitrary: fd c w)
  case Nil
  then show ?case by (auto simp: counts_on_def)
next
  case (Cons p ps)
  let ?c = "c\<lparr>output_queue := ps, current_link_queue_size := current_link_queue_size c - 1\<rparr>"
  from Cons.prems(1) obtain n fd1 w1 cols where
    step: "fd_write (qp_contents p) True fd w = Inr (n, fd1, w1)" "current_link_queue_size c > 0"
      "flush_output now ps (fd1, log_line cols ?c, w1) = Inr s'"
    by (auto simp: andThen_Inr_iff Let_def)
  have "unat (current_link_queue_size c - 1) = unat (current_link_queue_size c) - 1"
    "0 < unat (current_link_queue_size c)"
    using step(2) unat_diff_le [of 1 "current_link_queue_size c"]
    by (simp_all add: word_le_nat_alt word_less_nat_alt)
  then have "miscount ?c = miscount c" "countable ?c + 1 = countable c"
    using Cons.prems(2) by (simp_all add: miscount_def countable_def link_contents_def in_transit_def)
  then show ?case
    using Cons.IH [OF step(3)] by (auto simp: counts_on_def split: prod.splits)
qed

lemma write_from_link_count:
  "write_packets_from_link_queue (fd, c, w) = Inr s' \<Longrightarrow> counts_on 0 (fd, c, w) s'"
  by (auto simp: write_packets_from_link_queue_def andThen_Inr_iff counts_on_def
      dest!: flush_output_count)

lemma counts_on_trans: "counts_on k s s1 \<Longrightarrow> counts_on m s1 s2 \<Longrightarrow> counts_on (k + m) s s2"
  by (auto simp: counts_on_def split: prod.splits)

section \<open>The calls of the event loop\<close>

lemma write_packets_count:
  assumes "write_packets (fd, c, w) = Some (Inr s')" "countable c < 2 ^ 32"
  shows "counts_on 0 (fd, c, w) s'"
proof -
  from assms(1) obtain p c1 w1 now w2 s1 where
    run: "get_next_from_delay_queue c w = Inr (p, c1, w1)"
      "forward_packets now p (fd, c1, w2) = Some (Inr s1)" "write_packets_from_link_queue s1 = Inr s'"
    by (auto simp: write_packets_def andThenO_Some_Inr_iff)
  note next_packet = get_next_count [OF run(1)]
  have "counts_on (hand p) (fd, c1, w2) s1"
    using forward_packets_count [OF run(2)] next_packet(2) assms(2) by (cases s1) auto
  moreover have "counts_on 0 s1 s'" using run(3) by (cases s1) (auto intro: write_from_link_count)
  ultimately have "counts_on (hand p + 0) (fd, c1, w2) s'" by (rule counts_on_trans)
  then show ?thesis using next_packet by (auto simp: counts_on_def split: prod.splits)
qed

text \<open>A release time touches neither the link nor the delay queue.\<close>

lemma begin_train_link:
  assumes "begin_train time tr ps d = Some (Inr (r, d'))"
  shows "link_stage.truncate d' = link_stage.truncate d" "delay_packet_queue d' = delay_packet_queue d"
proof -
  from assms obtain idx base rel where "andThen (nthE tr (unat idx) ''delay_pdo_trace[current_delay_pdo_idx_]'') (\<lambda>inst.
      andThen (nthE tr (unat (idx + 1)) ''delay_pdo_trace[current_delay_pdo_idx_ + 1]'') (\<lambda>next.
      andThen (interpolated_delay inst next rel) (\<lambda>delay.
        Inr (time + scast delay, d\<lparr>current_delay_pdo_idx := idx, delay_base_timestamp := base,
          current_pdo_size := of_nat (length (pdo_list inst)), current_base_delay := ucast (scast delay :: u64),
          bypass_link_pdo := True, pdo_base_timestamp := rel, current_pdo_idx := 0,
          curr_delivery_opportunity := of_nat PACKET_SIZE - ps\<rparr>)))) = Inr (r, d')"
    unfolding begin_train_def Let_def andThenO_Some_Inr_iff by auto
  then obtain n delay where "d' = d\<lparr>current_delay_pdo_idx := idx, delay_base_timestamp := base,
      current_pdo_size := n, current_base_delay := delay, bypass_link_pdo := True, pdo_base_timestamp := rel,
      current_pdo_idx := 0, curr_delivery_opportunity := of_nat PACKET_SIZE - ps\<rparr>"
    unfolding andThen_Inr_iff by blast
  then show "link_stage.truncate d' = link_stage.truncate d" "delay_packet_queue d' = delay_packet_queue d"
    by (simp_all add: link_stage.truncate_def)
qed

lemma follow_train_link:
  assumes "follow_train time tr ps d = Inr (r, d')"
  shows "link_stage.truncate d' = link_stage.truncate d" "delay_packet_queue d' = delay_packet_queue d"
proof -
  from assms obtain idx opp b where "d' = d\<lparr>current_pdo_idx := idx,
      curr_delivery_opportunity := opp, bypass_link_pdo := b\<rparr>"
    by (fastforce simp only: follow_train_def andThen_Inr_iff Let_def Pair_inject sum.inject
        split: prod.splits if_splits)
  then show "link_stage.truncate d' = link_stage.truncate d" "delay_packet_queue d' = delay_packet_queue d"
    by (simp_all add: link_stage.truncate_def)
qed

lemma release_time_link:
  assumes "get_pkt_release_time time contents d = Some (Inr (r, d'))"
  shows "link_stage.truncate d' = link_stage.truncate d \<and> delay_packet_queue d' = delay_packet_queue d"
proof -
  from assms obtain r1 d1 where
    d1: "(if start_new_short_pdo_trace time d
          then begin_train time (delay_pdo_traces d) (of_nat (length contents)) d
          else Some (follow_train time (delay_pdo_traces d) (of_nat (length contents)) d)) = Some (Inr (r1, d1))"
      "d' = d1\<lparr>last_delay_queue_release_time := r\<rparr>"
    by (auto simp: get_pkt_release_time_def get_pkt_release_time_from_trace_def andThenO_Some_Inr_iff)
  then have "link_stage.truncate d1 = link_stage.truncate d \<and> delay_packet_queue d1 = delay_packet_queue d"
    using begin_train_link [of time _ _ d r1 d1] follow_train_link [of time _ _ d r1 d1]
    by (cases "start_new_short_pdo_trace time d") simp_all
  with d1(2) show ?thesis by (simp add: link_stage.truncate_def)
qed

lemma truncate_miscount:
  "link_stage.truncate (c' :: cellular_queue) = link_stage.truncate c \<Longrightarrow> miscount c' = miscount c"
  by (simp add: miscount_def link_stage_cong [of c' c])

lemma read_packet_split:
  assumes "read_packet x c w = Some (Inr (c', w'))"
  obtains now and c1 :: cellular_queue and r d where
    "link_contents c1 = link_contents c" "current_link_queue_size c1 = current_link_queue_size c"
    "delay_packet_queue c1 = delay_packet_queue c"
    "get_pkt_release_time now x c1 = Some (Inr (r, d))"
    "link_contents c' = link_contents d" "current_link_queue_size c' = current_link_queue_size d"
    "length (delay_packet_queue c') = length (delay_packet_queue d) + 1"
proof -
  have size: "\<not> length x < sizeof_iphdr" "\<not> PACKET_SIZE < length x"
    using assms by (auto simp: read_packet_def split: if_splits)
  note run = assms [unfolded read_packet_def if_not_P [OF size(1)] if_not_P [OF size(2)]
      andThenO_Some_Inr_iff Let_def]
  from run obtain now w1 where now: "timestamp w = Inr (now, w1)" by auto
  define c1 where "c1 = (if \<not> start_tick c
    then c\<lparr>start_tick := True, link_base_timestamp := now, delay_base_timestamp := now\<rparr> else c)"
  have c1: "link_contents c1 = link_contents c" "current_link_queue_size c1 = current_link_queue_size c"
    "delay_packet_queue c1 = delay_packet_queue c"
    by (simp_all add: c1_def link_contents_def in_transit_def)
  note run = run [unfolded now, simplified, folded c1_def]
  from run obtain info where info: "get_pkt_header_info x 4 = Inr info"
    by (cases "get_pkt_header_info x 4") simp_all
  note run = run [unfolded info andThenO_simps]
  from run obtain rd where "get_pkt_release_time now x c1 = Some (Inr rd)"
    unfolding andThenO_Some_Inr_iff [of "get_pkt_release_time now x c1"] by blast
  then obtain r d where g: "get_pkt_release_time now x c1 = Some (Inr (r, d))" by (cases rd) auto
  note run = run [unfolded g andThenO_simps prod.case]
  from run obtain v where v: "latency_offset d x = Inr v" by (cases "latency_offset d x") simp_all
  define r1 where "r1 = (if end_release_time d \<le> r + scast v then r + scast v else r)"
  note run = run [unfolded v andThenO_simps, folded r1_def]
  define e where "e = (if r1 < end_release_time d then d\<lparr>bypass_link_pdo := False\<rparr> else d)"
  have e: "link_contents e = link_contents d" "current_link_queue_size e = current_link_queue_size d"
    "delay_packet_queue e = delay_packet_queue d"
    by (simp_all add: e_def link_contents_def in_transit_def)
  obtain r2 where r2: "(if r1 < end_release_time d then (end_release_time d, d\<lparr>bypass_link_pdo := False\<rparr>)
      else (r1, d)) = (r2, e)" by (cases "r1 < end_release_time d") (simp_all add: e_def)
  note run = run [unfolded r2 prod.case option.inject]
  from run obtain cols p where "c' = (log_line cols (e\<lparr>end_release_time := r2,
      delay_packet_queue := pq_emplace p (delay_packet_queue e)\<rparr>))\<lparr>pkt_counter := pkt_counter e + 1\<rparr>"
    by (auto simp: andThen_Inr_iff)
  moreover have "link_contents (f\<lparr>pkt_counter := n\<rparr>) = link_contents f"
    "link_contents (f\<lparr>end_release_time := r, delay_packet_queue := q\<rparr>) = link_contents f"
    for f :: cellular_queue and n r q by (simp_all add: link_contents_def in_transit_def)
  ultimately have "link_contents c' = link_contents d" "current_link_queue_size c' = current_link_queue_size d"
    "length (delay_packet_queue c') = length (delay_packet_queue d) + 1"
    using e by simp_all
  with c1 g show thesis by (rule that)
qed

lemma read_packet_count:
  assumes "read_packet x c w = Some (Inr (c', w'))"
  shows "miscount c' = miscount c" "countable c' = countable c + 1"
proof -
  obtain now and c1 :: cellular_queue and r d where
    run: "link_contents c1 = link_contents c" "current_link_queue_size c1 = current_link_queue_size c"
    "delay_packet_queue c1 = delay_packet_queue c"
    "get_pkt_release_time now x c1 = Some (Inr (r, d))"
    "link_contents c' = link_contents d" "current_link_queue_size c' = current_link_queue_size d"
    "length (delay_packet_queue c') = length (delay_packet_queue d) + 1"
    by (rule read_packet_split [OF assms])
  from release_time_link [OF run(4)] have "link_contents d = link_contents c1"
    "current_link_queue_size d = current_link_queue_size c1" "delay_packet_queue d = delay_packet_queue c1"
    by (simp_all add: link_stage_cong [of d c1])
  with run show "miscount c' = miscount c" "countable c' = countable c + 1"
    by (simp_all add: miscount_def countable_def)
qed

lemma wait_time_count:
  assumes "wait_time c w = Some (Inr (t, c', w'))"
  shows "miscount c \<le> miscount c'" "countable c' = countable c"
proof -
  from assms obtain now where "rationalize now c = Some (Inr c')"
    by (auto simp: wait_time_def wait_time_link_queue_def andThenO_Some_Inr_iff Let_def)
  note r = rationalize_Inr_count [OF this]
  show "miscount c \<le> miscount c'" "countable c' = countable c"
    using holds_no_more_miscount [OF r] holds_no_more_countable(1) [OF r] by simp_all
qed

text \<open>Every sequence of calls that returns.\<close>

lemma ferry_run_count:
  "ferry_run cq_read write_packets cq_wait cq_pending calls s = Some (Inr s') \<Longrightarrow>
   countable (fst (snd s)) + length (datagrams calls) < 2 ^ 32 \<Longrightarrow>
   counts_on (length (datagrams calls)) s s'"
proof (induction calls arbitrary: s)
  case Nil
  then show ?case by (auto simp: counts_on_def split: prod.splits)
next
  case (Cons call calls)
  obtain fd c w where s: "s = (fd, c, w)" by (cases s) auto
  have step: ?case if "counts_on k s s1" "length (datagrams (call # calls)) = k + length (datagrams calls)"
    "ferry_run cq_read write_packets cq_wait cq_pending calls s1 = Some (Inr s')" for k s1
  proof -
    have "countable (fst (snd s1)) \<le> countable (fst (snd s)) + k"
      using that(1) by (auto simp: counts_on_def split: prod.splits)
    with Cons.IH [OF that(3)] Cons.prems(2) that(2) have "counts_on (length (datagrams calls)) s1 s'" by simp
    from counts_on_trans [OF that(1) this] that(2) show ?thesis by simp
  qed
  show ?case
  proof (cases call)
    case (Read_Packet x)
    with Cons.prems(1) s obtain c1 w1 where "read_packet x c w = Some (Inr (c1, w1))"
      "ferry_run cq_read write_packets cq_wait cq_pending calls (fd, c1, w1) = Some (Inr s')"
      by (auto simp: andThenO_Some_Inr_iff cq_read_def [of x])
    with read_packet_count [of x c w c1 w1] Read_Packet show ?thesis
      by (intro step [of 1 "(fd, c1, w1)"]) (simp_all add: counts_on_def s)
  next
    case Write_Packets
    with Cons.prems(1) obtain s1 where "write_packets s = Some (Inr s1)"
      "ferry_run cq_read write_packets cq_wait cq_pending calls s1 = Some (Inr s')"
      by (auto simp: andThenO_Some_Inr_iff)
    with write_packets_count [of fd c w s1] Write_Packets Cons.prems(2) show ?thesis
      by (intro step [of 0 s1]) (simp_all add: s)
  next
    case Wait_Time
    with Cons.prems(1) obtain t s1 where "cq_wait s = Some (Inr (t, s1))"
      and rest: "ferry_run cq_read write_packets cq_wait cq_pending calls s1 = Some (Inr s')"
      by (auto simp: andThenO_Some_Inr_iff)
    then obtain c1 w1 where "wait_time c w = Some (Inr (t, c1, w1))" "s1 = (fd, c1, w1)"
      by (auto simp: s cq_wait_def andThenO_Some_Inr_iff)
    note this rest
    with wait_time_count [of c w t c1 w1] Wait_Time show ?thesis
      by (intro step [of 0 "(fd, c1, w1)"]) (simp_all add: counts_on_def s)
  next
    case Pending_Output
    with Cons.prems(1) obtain b s1 where "cq_pending s = Inr (b, s1)"
      and rest: "ferry_run cq_read write_packets cq_wait cq_pending calls s1 = Some (Inr s')"
      by (auto simp: andThenO_Some_Inr_iff)
    then obtain w1 where "s1 = (fd, c, w1)" by (auto simp: s cq_pending_def andThen_Inr_iff)
    note this rest
    with Pending_Output show ?thesis
      by (intro step [of 0 "(fd, c, w1)"]) (simp_all add: counts_on_def s)
  qed
qed

section \<open>A dropped packet\<close>

text \<open>What \<open>write_packets\<close> still does when its loop stands at a packet.\<close>

definition rest_of_write :: "u64 \<Rightarrow> delay_queue_packet \<Rightarrow> writing \<Rightarrow> writing res option" where
  "rest_of_write now packet s =
     andThenO (forward_packets now packet s) (\<lambda>s. Some (write_packets_from_link_queue s))"

lemma write_packets_rest:
  "write_packets (fd, c, w) =
     andThenO (Some (get_next_from_delay_queue c w)) (\<lambda>(packet, c, w).
     andThenO (Some (timestamp w)) (\<lambda>(now, w). rest_of_write now packet (fd, c, w)))"
  by (simp add: write_packets_def rest_of_write_def)

text \<open>The calls from there on: the rest of the one that is running, then any others.\<close>

definition calls_after :: "u64 \<Rightarrow> delay_queue_packet \<Rightarrow> ferry_call list \<Rightarrow> writing \<Rightarrow> writing res option" where
  "calls_after now packet calls s =
     andThenO (rest_of_write now packet s) (ferry_run cq_read write_packets cq_wait cq_pending calls)"

lemma rest_of_write_drop:
  assumes "rest_of_write now p (fd, c, w) = Some (Inr s')" "dp_contents p \<noteq> []"
    and "current_link_queue_size c \<noteq> 0 \<or> \<not> dp_is_bypass_link_queue p"
    and "put_packet_to_link_queue now p c = Some (Inr c1)"
    and "length (link_contents c1) \<le> length (link_contents c)" "countable c + 1 < 2 ^ 32"
  shows "miscount c < miscount (fst (snd s'))" "countable (fst (snd s')) \<le> countable c + 1"
proof -
  from assms(1) obtain s2 where
    run: "forward_packets now p (fd, c, w) = Some (Inr s2)" "write_packets_from_link_queue s2 = Inr s'"
    by (auto simp: rest_of_write_def andThenO_Some_Inr_iff)
  from run(1) assms(2) obtain p1 s1 where
    step: "forward_step now p (fd, c, w) = Some (Inr (p1, s1))" "forward_packets now p1 s1 = Some (Inr s2)"
    unfolding forward_packets.simps [of now p "(fd, c, w)"] by (auto split: option.splits sum.splits)
  from forward_step_split [OF step(1)] obtain fd1 c1' w1 c2 w2 where
    f: "forward_packet now p (fd, c, w) = Some (Inr (fd1, c1', w1))"
      "get_next_from_delay_queue c1' w1 = Inr (p1, c2, w2)" "s1 = (fd1, c2, w2)" by blast
  have "c1' = c1" using forward_packet_count(3) [OF f(1) assms(6)] assms(3,4) by auto
  note put = put_packet_count(2,4) [OF assms(4,6)] and next_packet = get_next_count [OF f(2), unfolded this]
  have "counts_on (hand p1) s1 s2"
    using forward_packets_count [OF step(2)] put(1) next_packet(2) assms(6) f(3) by (cases s2) auto
  moreover have "counts_on 0 s2 s'" using run(2) by (cases s2) (auto intro: write_from_link_count)
  ultimately have "counts_on (hand p1 + 0) s1 s'" by (rule counts_on_trans)
  then show "miscount c < miscount (fst (snd s'))" "countable (fst (snd s')) \<le> countable c + 1"
    using put(1) put(2) [OF assms(5)] next_packet f(3) by (auto simp: counts_on_def split: prod.splits)
qed

text \<open>The counter starts level with the link, whatever the packet queue, and no call puts it behind.\<close>

lemma miscount_start:
  assumes "CellularQueue train heavy log_prefix rep queue up start loss offs timer w = Inr (c, w')"
    and "clock_steady w" "apq_held queue = []"
  shows "miscount c = 0" "countable c = 0"
  using CellularQueue_initial [OF assms(1,2)] assms(3)
  by (simp_all add: miscount_def countable_def link_contents_def in_transit_def)

lemma counter_not_behind:
  assumes "CellularQueue train heavy log_prefix rep queue up start loss offs timer w = Inr (c, w')"
    and "clock_steady w" "apq_held queue = []" "length (datagrams calls) < 2 ^ 32"
    and "ferry_run cq_read write_packets cq_wait cq_pending calls (fd, c, w') = Some (Inr (fd', c', w''))"
  shows "length (link_contents c') \<le> unat (current_link_queue_size c')"
proof -
  note start = miscount_start [OF assms(1-3)]
  from ferry_run_count [OF assms(5)] start(2) assms(4) have "miscount c \<le> miscount c'"
    by (simp add: counts_on_def)
  with start(1) show ?thesis unfolding miscount_def by linarith
qed

text \<open>A drop-tail queue of one packet that is full, behind the sample traces.\<close>

definition full_queue :: cellular_queue where
  "full_queue = (fst sample_queue)\<lparr>current_link_queue_size := 1, link_packet_queue := DropTailPacketQueue
      \<lparr>dq_queue_size_in_bytes = 1, dq_queue_size_in_packets = 1,
       dq_internal_queue = [sample_packet ''a''], dq_packet_limit = 1, dq_byte_limit = 0\<rparr>\<rparr>"

definition late_packet :: delay_queue_packet where
  "late_packet = mk_delay_queue_packet ''xyz'' [] 0 7 0 True"

lemma full_queue_fields:
  "next_delivery full_queue = 0" "heavy_pdo_schedule full_queue = [5, 20]"
  "link_base_timestamp full_queue = 0" "\<not> trace_finished full_queue" "output_queue full_queue = []"
  "packet_in_transit_bytes_left full_queue = 0" "delay_packet_queue full_queue = []"
  "current_link_queue_size full_queue = 1" "length (link_contents full_queue) = 1"
  "snd sample_queue = clock_tick (clock_tick sample_world)"
proof -
  note init = CellularQueue_initial [OF sample_queue_new(1) sample_world_steady(1)]
  have "clock_now sample_world = 0" by (simp add: clock_now_def clock_at_def sample_world_def)
  with init sample_queue_new(3,5) show
    "next_delivery full_queue = 0" "heavy_pdo_schedule full_queue = [5, 20]"
    "link_base_timestamp full_queue = 0" "\<not> trace_finished full_queue" "output_queue full_queue = []"
    "packet_in_transit_bytes_left full_queue = 0" "delay_packet_queue full_queue = []"
    "current_link_queue_size full_queue = 1" "length (link_contents full_queue) = 1"
    "snd sample_queue = clock_tick (clock_tick sample_world)"
    by (simp_all add: full_queue_def link_contents_def in_transit_def)
qed

lemma full_queue_drops:
  "put_packet_to_link_queue 3 late_packet full_queue = Some (Inr (full_queue\<lparr>current_link_queue_size := 2\<rparr>))"
proof -
  have "rationalize_step 3 full_queue = Inr None"
    by (simp add: rationalize_step_def next_delivery_time_def full_queue_fields)
  then have r: "rationalize 3 full_queue = Some (Inr full_queue)"
    by (simp add: rationalize.simps [of 3 full_queue])
  have "apq_enqueue q (link_packet_queue full_queue) = Inr (link_packet_queue full_queue)"
    if "length (qp_contents q) = 3" for q
    using that by (simp add: full_queue_def droptail_enqueue_def dq_good_with_def dq_good_def Let_def
        dq_size_bytes_def dq_size_packets_def word_le_nat_alt)
  then have "apq_enqueue (to_link 3 late_packet) (link_packet_queue full_queue)
      = Inr (link_packet_queue full_queue)"
    by (simp add: late_packet_def mk_delay_queue_packet_def)
  moreover have "full_queue\<lparr>link_packet_queue := link_packet_queue full_queue\<rparr> = full_queue" by simp
  ultimately show ?thesis
    using r full_queue_fields(8)
    by (simp add: put_packet_to_link_queue_def flip: to_link_def)
      (simp add: late_packet_def mk_delay_queue_packet_def PACKET_SIZE_def)
qed

lemma full_queue_calls:
  "calls_after 3 late_packet [Pending_Output] (sample_fd, full_queue, snd sample_queue) =
     Some (Inr (sample_fd, full_queue\<lparr>current_link_queue_size := 2\<rparr>,
       clock_tick (clock_tick (clock_tick sample_world))))"
proof -
  let ?c = "full_queue\<lparr>current_link_queue_size := 2\<rparr>" and ?w = "clock_tick (clock_tick sample_world)"
  have "forward_packet 3 late_packet (sample_fd, full_queue, ?w) = Some (Inr (sample_fd, ?c, ?w))"
    using full_queue_drops full_queue_fields(8) by (simp add: forward_packet_def)
  moreover have "get_next_from_delay_queue ?c ?w = Inr (delay_queue_packet_empty [] 0, ?c, ?w)"
    by (simp add: get_next_from_delay_queue_def full_queue_fields)
  ultimately have step: "forward_step 3 late_packet (sample_fd, full_queue, ?w)
      = Some (Inr (delay_queue_packet_empty [] 0, sample_fd, ?c, ?w))"
    by (simp add: forward_step_def)
  have "dp_contents (delay_queue_packet_empty [] 0) = []" by (simp add: delay_queue_packet_empty_def)
  then have stop: "forward_packets 3 (delay_queue_packet_empty [] 0) s = Some (Inr s)" for s
    by (simp add: forward_packets.simps [of 3 "delay_queue_packet_empty [] 0"])
  have "dp_contents late_packet \<noteq> []" by (simp add: late_packet_def mk_delay_queue_packet_def)
  with step stop have "forward_packets 3 late_packet (sample_fd, full_queue, ?w) = Some (Inr (sample_fd, ?c, ?w))"
    by (simp add: forward_packets.simps [of 3 late_packet])
  moreover have "timestamp ?w = Inr (clock_now ?w, clock_tick ?w)"
    using sample_world_steady(1) by (simp add: timestamp_ok)
  ultimately show ?thesis
    by (simp add: calls_after_def rest_of_write_def write_packets_from_link_queue_def cq_pending_def
        pending_output_def wait_time_delay_queue_def full_queue_fields)
qed

text \<open>
  C24. A packet that the link's queue drops stays in \<open>current_link_queue_size_\<close> forever. Let the loop of
  \<open>write_packets\<close> stand at a packet that does not bypass the link, with the counter not behind the
  packets the link holds (it starts level with them, and no call puts it behind), and let the link
  hold no more packets after the packet entered than before. Then after the rest of that call and any
  sequence of calls, as long as they return, the counter is ahead of the number of packets in the
  link; so it is not 0, and no packet whatever is let past the link by the bypass again. (Fewer than
  \<open>2^32\<close> packets are counted, so the counter does not wrap.)
\<close>

theorem dropped_packet_stays_counted:
  assumes "length (link_contents c) \<le> unat (current_link_queue_size c)"
    and "dp_contents p \<noteq> []" "current_link_queue_size c \<noteq> 0 \<or> \<not> dp_is_bypass_link_queue p"
    and "put_packet_to_link_queue now p c = Some (Inr c1)"
      "length (link_contents c1) \<le> length (link_contents c)"
    and "calls_after now p calls (fd, c, w) = Some (Inr (fd', c', w'))"
    and "unat (current_link_queue_size c) + length (delay_packet_queue c) + 1
      + length (datagrams calls) < 2 ^ 32"
  shows "length (link_contents c') < unat (current_link_queue_size c') \<and>
    (\<forall>t q. forward_packet t q (fd', c', w') =
       andThenO (put_packet_to_link_queue t q c') (\<lambda>c. Some (Inr (fd', c, w'))))"
proof -
  from assms(6) obtain s where s: "rest_of_write now p (fd, c, w) = Some (Inr s)"
    "ferry_run cq_read write_packets cq_wait cq_pending calls s = Some (Inr (fd', c', w'))"
    by (auto simp: calls_after_def andThenO_Some_Inr_iff)
  have room: "countable c + 1 + length (datagrams calls) < 2 ^ 32" using assms(7) by (simp add: countable_def)
  then have "countable c + 1 < 2 ^ 32" by linarith
  note drop = rest_of_write_drop [OF s(1) assms(2-5) this]
  have "countable (fst (snd s)) + length (datagrams calls) < 2 ^ 32" using drop(2) room by linarith
  from ferry_run_count [OF s(2) this] have "miscount (fst (snd s)) \<le> miscount c'"
    by (auto simp: counts_on_def split: prod.splits)
  with drop(1) assms(1) have "length (link_contents c') < unat (current_link_queue_size c')"
    unfolding miscount_def by linarith
  moreover from this have "current_link_queue_size c' \<noteq> 0" by auto
  ultimately show ?thesis by (simp add: forward_packet_def)
qed

theorem dropped_packet_stays_counted_witness:
  "\<exists>fd' c' w'. calls_after 3 late_packet [Pending_Output] (sample_fd, full_queue, snd sample_queue)
      = Some (Inr (fd', c', w')) \<and> length (link_contents c') < unat (current_link_queue_size c') \<and>
     forward_packet 4 late_packet (fd', c', w')
       = andThenO (put_packet_to_link_queue 4 late_packet c') (\<lambda>c. Some (Inr (fd', c, w')))"
proof -
  have "dp_contents late_packet \<noteq> []" by (simp add: late_packet_def mk_delay_queue_packet_def)
  moreover have "link_contents (full_queue\<lparr>current_link_queue_size := 2\<rparr>) = link_contents full_queue"
    by (simp add: link_contents_def in_transit_def)
  ultimately show ?thesis
    using dropped_packet_stays_counted [OF _ _ _ full_queue_drops _ full_queue_calls] full_queue_calls
      full_queue_fields by auto
qed

end
