(* ===== verification/Train_Text.thy ===== *)
theory Train_Text
  imports Main Prelude Ezio Kernel Packets Packet_Queues Link_Packet_Queue Cellular_State Delay_Queue
    Link_Queue Release_Time Cellular_Queue Ferry Cellular_Channel Cellular_Start
begin

text \<open>
  The packet train trace as text: what the constructor of \<open>CellularQueue\<close> makes of a file whose
  lines are a timestamp, a base delay and light PDOs in decimal, and what becomes of a trace that
  never leaves time 0.
\<close>

section \<open>Lines and words\<close>

fun join_words :: "string list \<Rightarrow> string" where
  "join_words [] = []"
| "join_words [word] = word"
| "join_words (word # next # ws) = word @ CHR '' '' # join_words (next # ws)"

text \<open>Timestamp, base delay and light PDOs of an instance.\<close>

type_synonym train = "nat \<times> nat \<times> nat list"

fun train_line :: "train \<Rightarrow> string" where
  "train_line (t, d, ps) = join_words (map dec (t # d # ps))"

definition train_text :: "train list \<Rightarrow> string" where
  "train_text trains = concat (map (\<lambda>tr. train_line tr @ [newline]) trains)"

fun train_instance :: "train \<Rightarrow> delay_pdo_instance" where
  "train_instance (t, d, ps) = DelayPDOInstance (of_nat t) (of_nat d) (map of_nat ps)"

fun train_fits :: "train \<Rightarrow> bool" where
  "train_fits (t, d, ps) \<longleftrightarrow> t < 2 ^ 63 \<and> d < 2 ^ 31 \<and> (\<forall>p \<in> set ps. p < 2 ^ 31)"

lemma getlines_word: "d \<notin> set xs \<Longrightarrow> xs \<noteq> [] \<Longrightarrow> getlines d xs = [xs]"
proof (induction xs)
  case (Cons x xs)
  then show ?case by (cases xs) auto
qed simp

lemma getlines_join_words:
  "\<forall>word \<in> set ws. CHR '' '' \<notin> set word \<and> word \<noteq> [] \<Longrightarrow> getlines (CHR '' '') (join_words ws) = ws"
  by (induction ws rule: join_words.induct) (simp_all add: getlines_word getlines_line)

lemma space_not_dec: "CHR '' '' \<notin> set (dec n)"
  using dec_digits [of "CHR '' ''" n] by (auto simp: is_digit_def)

lemma newline_not_join: "\<forall>word \<in> set ws. newline \<notin> set word \<Longrightarrow> newline \<notin> set (join_words ws)"
proof -
  have "newline \<noteq> CHR '' ''" unfolding newline_def by code_simp
  then show "\<forall>word \<in> set ws. newline \<notin> set word \<Longrightarrow> newline \<notin> set (join_words ws)"
    by (induction ws rule: join_words.induct) auto
qed

lemma train_line_chars: "newline \<notin> set (train_line tr)" "train_line tr \<noteq> []"
proof -
  obtain t d ps where tr: "tr = (t, d, ps)" by (cases tr)
  show "newline \<notin> set (train_line tr)"
    unfolding tr train_line.simps by (rule newline_not_join) (auto simp: newline_not_dec)
  show "train_line tr \<noteq> []" by (simp add: tr)
qed

lemma getlines_train_text: "getlines newline (train_text trains) = map train_line trains"
  by (induction trains) (simp_all add: train_text_def getlines_line train_line_chars)

lemma ucast_of_nat_i32: "ucast (of_nat n :: u64) = (of_nat n :: i32)"
  by transfer (simp add: take_bit_of_nat)

lemma read_train_words_pdos:
  "\<forall>p \<in> set ps. p < 2 ^ 31 \<Longrightarrow> 2 \<le> col \<Longrightarrow>
   read_train_words (map dec ps) col t d acc = Inr (t, d, acc @ map of_nat ps)"
  by (induction ps arbitrary: col acc) (simp_all add: myatoi_dec ucast_of_nat_i32)

lemma read_train_words_line:
  assumes "train_fits (t, d, ps)"
  shows "read_train_words (getlines (CHR '' '') (train_line (t, d, ps))) 0 0 (-1) []
    = Inr (of_nat t, of_nat d, map of_nat ps)"
proof -
  have "getlines (CHR '' '') (train_line (t, d, ps)) = map dec (t # d # ps)"
    unfolding train_line.simps by (intro getlines_join_words) (auto simp: space_not_dec)
  then show ?thesis
    using assms by (simp add: myatoi_dec ucast_of_nat_i32 read_train_words_pdos)
qed

text \<open>Lines in ascending order of time are read back, behind the instances read before them.\<close>

lemma read_train_lines_text:
  "\<forall>tr \<in> set trains. train_fits tr \<Longrightarrow> sorted (map fst trains) \<Longrightarrow>
   (acc \<noteq> [] \<longrightarrow> (\<forall>tr \<in> set trains. pdo_time (last acc) \<le> of_nat (fst tr))) \<Longrightarrow>
   read_train_lines f 0 (map train_line trains) acc = Inr (acc @ map train_instance trains)"
proof (induction trains arbitrary: acc)
  case (Cons tr trains)
  obtain t d ps where tr: "tr = (t, d, ps)" by (cases tr)
  have fits: "train_fits (t, d, ps)" using Cons.prems(1) tr by simp
  have d: "0 \<le> sint (of_nat d :: i32)"
    using fits not_neg_small [of "of_nat d :: i32"] by (simp add: unat_of_nat_small)
  have ordered: "\<not> (acc \<noteq> [] \<and> of_nat t < pdo_time (last acc))"
    using Cons.prems(3) tr by (auto simp: not_less)
  have later: "of_nat t \<le> (of_nat (fst tr') :: u64)" if "tr' \<in> set trains" for tr'
  proof -
    have "t \<le> fst tr'" "train_fits tr'" using Cons.prems(1,2) tr that by auto
    then show ?thesis using fits by (cases tr') (simp add: of_nat_u64_le)
  qed
  have "read_train_lines f 0 (map train_line trains) (acc @ [train_instance tr])
      = Inr ((acc @ [train_instance tr]) @ map train_instance trains)"
    using Cons.prems later by (intro Cons.IH) (auto simp: tr DelayPDOInstance_def)
  then show ?case
    using train_line_chars(2) [of tr] read_train_words_line [OF fits] d ordered
    by (simp add: tr del: train_line.simps)
qed simp

section \<open>A trace that stays at time 0\<close>

lemma read_train_trace_text:
  assumes "w_files w train = Some (train_text trains)" "2 < length trains"
    and "\<forall>tr \<in> set trains. train_fits tr" "sorted (map fst trains)"
  shows "read_train_trace w train 0 = Inr (map train_instance trains)"
  using read_train_lines_text [OF assms(3,4), of "[]" train] assms(1,2)
  by (simp add: read_train_trace_def getlines_train_text)

lemma readers_tick [simp]:
  "read_heavy_trace (clock_tick w) = read_heavy_trace w"
  "read_train_trace (clock_tick w) = read_train_trace w"
  "read_offset_file (clock_tick w) = read_offset_file w"
  "open_packet_log (clock_tick w) = open_packet_log w"
  "assert_not_root (clock_tick w) = assert_not_root w"
  by (simp_all add: fun_eq_iff read_heavy_trace_def read_train_trace_def read_offset_file_def
      open_packet_log_def assert_not_root_def)

text \<open>The read of the first datagram starts a train, and with it the search.\<close>

lemma first_read_diverges:
  assumes "clock_ok w" "datagram_ok x" "\<not> start_tick c" "current_base_delay c = -1"
    and "unat (current_delay_pdo_idx c) + 1 < length (delay_pdo_traces c)"
    and "2 < length (delay_pdo_traces c)" "length (delay_pdo_traces c) < 2 ^ 31"
      "\<forall>i \<in> set (delay_pdo_traces c). pdo_time i = 0"
  shows "read_packet x c w = None"
proof -
  obtain info where info: "get_pkt_header_info x 4 = Inr info"
    using assms(2) by (auto simp: datagram_ok_def split: sum.splits)
  have size: "\<not> length x < sizeof_iphdr" "\<not> PACKET_SIZE < length x"
    using assms(2) by (auto simp: datagram_ok_def)
  have "get_pkt_release_time now x (c\<lparr>start_tick := True, link_base_timestamp := now,
      delay_base_timestamp := now\<rparr>) = None" for now
    using assms(4) find_instance_diverges [OF assms(6-8,5)]
    by (simp add: get_pkt_release_time_def get_pkt_release_time_from_trace_def
        start_new_short_pdo_trace_def begin_train_def)
  with assms(3) show ?thesis
    unfolding read_packet_def if_not_P [OF size(1)] if_not_P [OF size(2)]
    by (simp add: timestamp_ok [OF assms(1)] info Let_def)
qed

lemma CellularQueue_accepts_trains:
  assumes "clock_ok w" "assert_not_root w = Inr ()"
    and "read_heavy_trace w heavy 0 = Inr schedule" "read_offset_file w offs = Inr offsets"
      "open_packet_log w log_prefix up train heavy = Inr (enabled, logs)"
    and "w_files w train = Some (train_text trains)" "2 < length trains"
      "\<forall>tr \<in> set trains. train_fits tr" "sorted (map fst trains)"
  shows "\<exists>c. CellularQueue train heavy log_prefix rep queue up 0 loss offs timer w
      = Inr (c, clock_tick (clock_tick w)) \<and>
    delay_pdo_traces c = map train_instance trains \<and> \<not> start_tick c \<and> current_base_delay c = -1 \<and>
    current_delay_pdo_idx c = 0"
  using assms(1-5) read_train_trace_text [OF assms(6-9)] by (simp add: CellularQueue_def timestamp_ok)

text \<open>
  C21. A packet train trace whose timestamps are all 0 (three lines or more, any base delays and light
  PDOs) passes every check of the constructor, whatever the other files and arguments are that it
  accepts. The call that reads the first datagram then never returns: the search for the current
  instance goes round the trace forever.
\<close>

theorem zero_trace_search_diverges:
  assumes "clock_ok w" "assert_not_root w = Inr ()"
    and "read_heavy_trace w heavy 0 = Inr schedule" "read_offset_file w offs = Inr offsets"
      "open_packet_log w log_prefix up train heavy = Inr (enabled, logs)"
    and "w_files w train = Some (train_text trains)" "2 < length trains" "length trains < 2 ^ 31"
      "\<forall>tr \<in> set trains. train_fits tr \<and> fst tr = 0"
  shows "\<exists>c w'. CellularQueue train heavy log_prefix rep queue up 0 loss offs timer w = Inr (c, w') \<and>
    delay_pdo_traces c = map train_instance trains \<and>
    (\<forall>fd x. datagram_ok x \<longrightarrow> cq_read x (fd, c, w') = None)"
proof -
  have "map fst trains = replicate (length trains) 0"
    using assms(9) by (intro replicate_eqI) auto
  then have "sorted (map fst trains)" by simp
  from CellularQueue_accepts_trains [OF assms(1-7) _ this] assms(9) obtain c where
    c: "CellularQueue train heavy log_prefix rep queue up 0 loss offs timer w
        = Inr (c, clock_tick (clock_tick w))"
      "delay_pdo_traces c = map train_instance trains" "\<not> start_tick c" "current_base_delay c = -1"
      "current_delay_pdo_idx c = 0" by blast
  have "\<forall>i \<in> set (delay_pdo_traces c). pdo_time i = 0"
    using assms(9) by (auto simp: c(2) DelayPDOInstance_def)
  then have "read_packet x c (clock_tick (clock_tick w)) = None" if "datagram_ok x" for x
    using that assms(1,7,8) c by (intro first_read_diverges) simp_all
  then show ?thesis using c(1,2) by (auto simp: cq_read_def)
qed

definition zero_trains :: "train list" where
  "zero_trains = [(0, 10, [2]), (0, 20, [2, 5]), (0, 30, [])]"

definition zero_world :: world where
  "zero_world = sample_world\<lparr>w_files := (\<lambda>f.
     if f = ''heavy'' then Some (trace_text [5, 20])
     else if f = ''train'' then Some (train_text zero_trains) else None)\<rparr>"

theorem zero_trace_search_diverges_witness:
  "\<exists>c w'. CellularQueue ''train'' ''heavy'' [] True sample_infinite True 0 0 [] 0 zero_world = Inr (c, w') \<and>
    pdo_time (delay_pdo_traces c ! 2) = 0 \<and> cq_read sample_datagram (sample_fd, c, w') = None"
proof -
  have clock: "clock_ok zero_world"
    using sample_world_steady(1) by (simp add: clock_steady_def zero_world_def clock_ok_def clock_at_def)
  have root: "assert_not_root zero_world = Inr ()"
    by (simp add: assert_not_root_def zero_world_def sample_world_def)
  have heavy: "read_heavy_trace zero_world ''heavy'' 0 = Inr [5, 20]"
    by (simp add: read_heavy_trace_def zero_world_def sample_traces)
  have offs: "read_offset_file zero_world [] = Inr []" by (simp add: read_offset_file_def)
  have logs: "open_packet_log zero_world [] True ''train'' ''heavy'' = Inr (False, [])"
    by (simp add: open_packet_log_def)
  have content: "w_files zero_world ''train'' = Some (train_text zero_trains)"
    by (simp add: zero_world_def)
  have size: "2 < length zero_trains" "length zero_trains < 2 ^ 31"
    "\<forall>tr \<in> set zero_trains. train_fits tr \<and> fst tr = 0"
    by (simp_all add: zero_trains_def)
  from zero_trace_search_diverges [OF clock root heavy offs logs content size] obtain c w' where
    "CellularQueue ''train'' ''heavy'' [] True sample_infinite True 0 0 [] 0 zero_world = Inr (c, w')"
    "delay_pdo_traces c = map train_instance zero_trains"
    "\<forall>fd x. datagram_ok x \<longrightarrow> cq_read x (fd, c, w') = None" by blast
  then show ?thesis
    using sample_datagram_ok by (auto simp: zero_trains_def DelayPDOInstance_def)
qed

end
