(* ===== verification/Codel_Queue.thy ===== *)
theory Codel_Queue
  imports Main Prelude Float_Round Kernel Packets Packet_Queues
begin

text \<open>
  \<open>src/packet/codel_packet_queue.hh/.cc\<close>: the queue that drops at \<open>dequeue\<close>, when packets have
  stayed longer than \<open>target\<close> for an \<open>interval\<close>. \<open>dequeue\<close> reads the clock, so it takes and
  returns the world.
\<close>

section \<open>Square roots\<close>

fun isqrt :: "nat \<Rightarrow> nat" where
  "isqrt n =
     (if n = 0 then 0
      else let r = 2 * isqrt (n div 4) in if (r + 1) * (r + 1) \<le> n then r + 1 else r)"

declare isqrt.simps [simp del]

text \<open>
  \<open>sqrt\<close> of an unsigned integer below \<open>2^32\<close>, as a \<open>double\<close>: with \<open>2^k \<le> sqrt n < 2^(k+1)\<close> the
  quantum is \<open>2^(k-52)\<close>, and the exact root, scaled by \<open>2^(52-k)\<close>, is rounded to an integer. The
  root is an integer or irrational, so there are no ties.
\<close>

definition sqrt_scale :: "nat \<Rightarrow> nat" where
  "sqrt_scale n = 53 - floorlog 2 (isqrt n)"

definition sqrt64 :: "nat \<Rightarrow> rat" where
  "sqrt64 n = of_nat ((isqrt (4 * (n * 4 ^ sqrt_scale n)) + 1) div 2) / 2 ^ sqrt_scale n"

section \<open>State\<close>

record codel_packet_queue = dropping_packet_queue +
  cd_target :: u32
  cd_interval :: u32
  cd_first_above_time :: u64
  cd_drop_next :: u64
  cd_count :: u32
  cd_lastcount :: u32
  cd_dropping :: bool

definition codel_type :: string where "codel_type = ''codel''"

definition codel_PACKET_SIZE :: u32 where "codel_PACKET_SIZE = 1504"

definition codel_init :: "string \<Rightarrow> codel_packet_queue res" where
  "codel_init args =
     andThen (dropping_init args) (\<lambda>d.
     andThen (get_arg args ''target'') (\<lambda>target.
     andThen (get_arg args ''interval'') (\<lambda>interval.
       if target = 0 \<or> interval = 0
       then Inl (Runtime_Error ''CoDel queue must have target and interval arguments.'')
       else Inr (dropping_packet_queue.extend d
              \<lparr>cd_target = target, cd_interval = interval, cd_first_above_time = 0,
               cd_drop_next = 0, cd_count = 0, cd_lastcount = 0, cd_dropping = False\<rparr>))))"

section \<open>Operations\<close>

text \<open>The packet and \<open>ok_to_drop\<close>.\<close>

record dodequeue_result =
  r_p :: queued_packet
  r_ok_to_drop :: bool

definition dodequeue ::
    "u64 \<Rightarrow> codel_packet_queue \<Rightarrow> (dodequeue_result \<times> codel_packet_queue) res" where
  "dodequeue now q =
     andThen (dq_dequeue q) (\<lambda>(p, q).
       let r = \<lparr>r_p = p, r_ok_to_drop = False\<rparr>
       in if dq_empty q then Inr (r, q\<lparr>cd_first_above_time := 0\<rparr>)
          else
            let sojourn_time = now - qp_arrival_time p
            in andThen (if sojourn_time < ucast (cd_target q) then Inr True
                        else andThen (dq_size_bytes q) (\<lambda>b. Inr (b \<le> codel_PACKET_SIZE))) (\<lambda>below.
                 if below then Inr (r, q\<lparr>cd_first_above_time := 0\<rparr>)
                 else if cd_first_above_time q = 0
                 then Inr (r, q\<lparr>cd_first_above_time := now + ucast (cd_interval q)\<rparr>)
                 else if cd_first_above_time q \<le> now then Inr (r\<lparr>r_ok_to_drop := True\<rparr>, q)
                 else Inr (r, q)))"

text \<open>\<open>interval_ / sqrt (count)\<close> is infinite for a count of 0, and not to be converted.\<close>

definition control_law :: "u32 \<Rightarrow> u64 \<Rightarrow> u32 \<Rightarrow> u64 res" where
  "control_law interval t count =
     (if count = 0 then Inl (Undefined ''floating-point value out of the range of uint64_t'')
      else let d = fl64 (of_nat (unat interval) / sqrt64 (unat count))
           in Inr (t + word_of_int (rat_trunc d)))"

text \<open>\<open>while ( now >= drop_next_ && dropping_ )\<close>: each round takes a packet off and drops it.\<close>

lemma dodequeue_front:
  assumes "dodequeue now q = Inr (r, q')"
  shows "\<exists>d t. dq_dequeue q = Inr (r_p r, d) \<and> q' = d\<lparr>cd_first_above_time := t\<rparr> \<and>
    (r_ok_to_drop r \<longrightarrow> dq_internal_queue d \<noteq> [])"
proof (cases "dq_dequeue q")
  case (Inr pd)
  obtain p d where pd: "pd = (p, d)" by (cases pd) auto
  define m where "m = (if now - qp_arrival_time p < ucast (cd_target d) then Inr True
      else andThen (dq_size_bytes d) (\<lambda>b. Inr (b \<le> codel_PACKET_SIZE)))"
  show ?thesis
  proof (cases "dq_empty d")
    case True
    with assms Inr pd show ?thesis by (auto simp: dodequeue_def Let_def)
  next
    case False
    then have ne: "dq_internal_queue d \<noteq> []" by (simp add: dq_empty_def)
    have "dodequeue now q = andThen m (\<lambda>below.
        if below then Inr (\<lparr>r_p = p, r_ok_to_drop = False\<rparr>, d\<lparr>cd_first_above_time := 0\<rparr>)
        else if cd_first_above_time d = 0
        then Inr (\<lparr>r_p = p, r_ok_to_drop = False\<rparr>,
                  d\<lparr>cd_first_above_time := now + ucast (cd_interval d)\<rparr>)
        else if cd_first_above_time d \<le> now then Inr (\<lparr>r_p = p, r_ok_to_drop = True\<rparr>, d)
        else Inr (\<lparr>r_p = p, r_ok_to_drop = False\<rparr>, d))"
      using Inr pd False by (simp add: dodequeue_def m_def Let_def cong: if_cong split del: if_split)
    with assms obtain below where
      r: "(if below then Inr (\<lparr>r_p = p, r_ok_to_drop = False\<rparr>, d\<lparr>cd_first_above_time := 0\<rparr>)
        else if cd_first_above_time d = 0
        then Inr (\<lparr>r_p = p, r_ok_to_drop = False\<rparr>,
                  d\<lparr>cd_first_above_time := now + ucast (cd_interval d)\<rparr>)
        else if cd_first_above_time d \<le> now then Inr (\<lparr>r_p = p, r_ok_to_drop = True\<rparr>, d)
        else Inr (\<lparr>r_p = p, r_ok_to_drop = False\<rparr>, d)) = (Inr (r, q') :: _ res)"
      by (cases m) simp_all
    have same: "\<exists>t. d = d\<lparr>cd_first_above_time := t\<rparr>"
      by (rule exI [of _ "cd_first_above_time d"]) simp
    have "r_p r = p \<and> (\<exists>t. q' = d\<lparr>cd_first_above_time := t\<rparr>)"
      using r same by (simp split: if_splits) auto
    with Inr pd ne show ?thesis by auto
  qed
qed (use assms in \<open>simp add: dodequeue_def\<close>)

lemma dodequeue_shorter:
  "dodequeue now q = Inr (r, q') \<Longrightarrow> length (dq_internal_queue q') < length (dq_internal_queue q)"
  by (drule dodequeue_front) (auto dest: dq_dequeue_length)

definition codel_drop_one :: "u64 \<Rightarrow> codel_packet_queue \<Rightarrow> codel_packet_queue res" where
  "codel_drop_one now q =
     andThen (dodequeue now q) (\<lambda>(r, q).
       let q = q\<lparr>cd_count := cd_count q + 1\<rparr>
       in if \<not> r_ok_to_drop r then Inr (q\<lparr>cd_dropping := False\<rparr>)
          else andThen (control_law (cd_interval q) (cd_drop_next q) (cd_count q)) (\<lambda>t.
            Inr (q\<lparr>cd_drop_next := t\<rparr>)))"

lemma codel_drop_one_shorter:
  "codel_drop_one now q = Inr q' \<Longrightarrow> length (dq_internal_queue q') < length (dq_internal_queue q)"
  by (auto simp: codel_drop_one_def Let_def andThen_Inr_iff dest!: dodequeue_shorter split: if_splits)

function codel_drop_loop :: "u64 \<Rightarrow> codel_packet_queue \<Rightarrow> codel_packet_queue res" where
  "codel_drop_loop now q =
     (if cd_drop_next q \<le> now \<and> cd_dropping q
      then andThen (codel_drop_one now q) (codel_drop_loop now) else Inr q)"
  by pat_completeness auto
termination
  by (relation "measure (\<lambda>(now, q). length (dq_internal_queue q))")
    (auto dest: codel_drop_one_shorter)

declare codel_drop_loop.simps [simp del]

definition codel_dequeue_at ::
    "u64 \<Rightarrow> codel_packet_queue \<Rightarrow> (queued_packet \<times> codel_packet_queue) res" where
  "codel_dequeue_at now q =
     andThen (dodequeue now q) (\<lambda>(r, q).
     andThen
       (if cd_dropping q then
          let q = (if \<not> r_ok_to_drop r then q\<lparr>cd_dropping := False\<rparr> else q)
          in codel_drop_loop now q
        else if r_ok_to_drop r then
          andThen (dodequeue now q) (\<lambda>(_, q).
            let q = q\<lparr>cd_dropping := True\<rparr>;
                delta = cd_count q - cd_lastcount q;
                count = (if 1 < delta \<and> now - cd_drop_next q < ucast (16 * cd_interval q)
                         then delta else 1);
                q = q\<lparr>cd_count := count\<rparr>
            in andThen (control_law (cd_interval q) now (cd_count q)) (\<lambda>t.
                 Inr (q\<lparr>cd_drop_next := t, cd_lastcount := cd_count q\<rparr>)))
        else Inr q) (\<lambda>q. Inr (r_p r, q)))"

definition codel_dequeue ::
    "codel_packet_queue \<times> world \<Rightarrow> (queued_packet \<times> codel_packet_queue \<times> world) res" where
  "codel_dequeue = (\<lambda>(q, w).
     andThen (timestamp w) (\<lambda>(now, w').
     andThen (codel_dequeue_at now q) (\<lambda>(p, q'). Inr (p, q', w'))))"

definition codel_enqueue :: "queued_packet \<Rightarrow> codel_packet_queue \<Rightarrow> codel_packet_queue res" where
  "codel_enqueue p q =
     andThen (dq_size_bytes q) (\<lambda>b.
     andThen (dq_size_packets q) (\<lambda>n.
       let q' = (if dq_good_with q (b + of_nat (length (qp_contents p))) (n + 1)
                 then dq_accept p q else q)
       in andThen (dq_good q') (\<lambda>ok. andThen (assertE ok ''good()'') (\<lambda>_. Inr q'))))"

section \<open>The square root is the rounded square root\<close>

lemma isqrt_spec: "isqrt n * isqrt n \<le> n \<and> n < (isqrt n + 1) * (isqrt n + 1)"
proof (induction n rule: isqrt.induct)
  case (1 n)
  show ?case
  proof (cases "n = 0")
    case False
    define r where "r = isqrt (n div 4)"
    with 1 False have r: "r * r \<le> n div 4" "n div 4 < (r + 1) * (r + 1)" by auto
    have "4 * (r * r) \<le> n" "n < 4 * ((r + 1) * (r + 1))" using r by linarith+
    moreover have "isqrt n = (if (2 * r + 1) * (2 * r + 1) \<le> n then 2 * r + 1 else 2 * r)"
      using False by (subst isqrt.simps) (simp add: r_def Let_def)
    ultimately show ?thesis by (auto simp: algebra_simps)
  qed (simp add: isqrt.simps)
qed

lemma le_isqrt_iff: "m \<le> isqrt n \<longleftrightarrow> m * m \<le> n"
proof
  assume "m \<le> isqrt n"
  then have "m * m \<le> isqrt n * isqrt n" by (intro mult_mono) simp_all
  also have "\<dots> \<le> n" using isqrt_spec by simp
  finally show "m * m \<le> n" .
next
  assume m: "m * m \<le> n"
  show "m \<le> isqrt n"
  proof (rule ccontr)
    assume "\<not> m \<le> isqrt n"
    then have "(isqrt n + 1) * (isqrt n + 1) \<le> m * m" by (intro mult_mono) simp_all
    with isqrt_spec [of n] m show False by linarith
  qed
qed

lemma isqrt_mono: "m \<le> n \<Longrightarrow> isqrt m \<le> isqrt n"
  using isqrt_spec [of m] by (simp add: le_isqrt_iff)

lemma isqrt_square [simp]: "isqrt (m * m) = m"
proof (rule order_antisym)
  show "m \<le> isqrt (m * m)" by (simp add: le_isqrt_iff)
  show "isqrt (m * m) \<le> m"
  proof (rule ccontr)
    assume "\<not> isqrt (m * m) \<le> m"
    then have "Suc m * Suc m \<le> m * m" by (simp only: not_le Suc_le_eq [symmetric] le_isqrt_iff)
    then show False by simp
  qed
qed

text \<open>For \<open>0 < n < 2^32\<close>: the binade of the root, and the scaled root.\<close>

lemma sqrt_scale_bounds:
  assumes "0 < n" "n < 2 ^ 32"
  obtains k where "sqrt_scale n + k = 52" "2 ^ k \<le> isqrt n" "isqrt n < 2 ^ (k + 1)"
proof -
  let ?m = "isqrt n"
  have m: "0 < ?m" using assms by (simp only: Suc_le_eq [symmetric] le_isqrt_iff)
  have "?m < 2 ^ 16"
  proof -
    have "\<not> 2 ^ 16 * 2 ^ 16 \<le> n" using assms(2) by simp
    then have "\<not> 2 ^ 16 \<le> ?m" by (simp only: le_isqrt_iff not_False_eq_True)
    then show ?thesis by simp
  qed
  moreover have f: "0 < floorlog 2 ?m" "2 ^ (floorlog 2 ?m - 1) \<le> ?m" "?m < 2 ^ floorlog 2 ?m"
    using floorlog_bounds [of ?m 2] floorlog_eq_zero_iff [of 2 ?m] m by auto
  ultimately have "(2::nat) ^ (floorlog 2 ?m - 1) < 2 ^ 16" by linarith
  then have "floorlog 2 ?m - 1 < 16" by (rule power_less_imp_less_exp [rotated]) simp
  with f that [of "floorlog 2 ?m - 1"] show ?thesis by (simp add: sqrt_scale_def)
qed

lemma sqrt64_binade:
  assumes "0 < n" "n < 2 ^ 32" "sqrt_scale n + k = 52"
    and "2 ^ k \<le> isqrt n" "isqrt n < 2 ^ (k + 1)"
  shows "2 ^ k \<le> sqrt64 n" "sqrt64 n \<le> 2 ^ (k + 1)"
proof -
  let ?s = "sqrt_scale n" and ?x = "isqrt (4 * (n * 4 ^ sqrt_scale n))"
  have four: "(4::nat) ^ i = 2 ^ i * 2 ^ i" for i by (simp flip: power_mult_distrib)
  have "2 ^ k * 2 ^ k \<le> n" using assms(4) by (simp only: le_isqrt_iff)
  then have "4 * (2 ^ k * 2 ^ k * (2 ^ ?s * 2 ^ ?s)) \<le> 4 * (n * 4 ^ ?s)"
    unfolding four by (intro mult_mono) simp_all
  also have "4 * (2 ^ k * 2 ^ k * (2 ^ ?s * 2 ^ ?s))
      = (2 * 2 ^ (k + ?s)) * (2 * 2 ^ (k + ?s) :: nat)"
    by (simp add: power_add mult_ac)
  finally have lo: "2 * 2 ^ (k + ?s) \<le> ?x" by (simp only: le_isqrt_iff)
  have "\<not> 2 ^ (k + 1) \<le> isqrt n" using assms(5) by linarith
  then have "n < 2 ^ (k + 1) * 2 ^ (k + 1)" by (simp only: le_isqrt_iff not_le)
  then have "4 * (n * (2 ^ ?s * 2 ^ ?s)) < 4 * (2 ^ (k + 1) * 2 ^ (k + 1) * (2 ^ ?s * 2 ^ ?s))" by simp
  also have "\<dots> = (2 * 2 ^ (k + 1 + ?s)) * (2 * 2 ^ (k + 1 + ?s) :: nat)"
    by (simp add: power_add mult_ac)
  finally have "\<not> 2 * 2 ^ (k + 1 + ?s) \<le> ?x" unfolding four by (simp only: le_isqrt_iff not_le)
  then have hi: "?x < 2 * 2 ^ (k + 1 + ?s)" by linarith
  have "2 ^ (k + ?s) \<le> (?x + 1) div 2" "(?x + 1) div 2 \<le> 2 ^ (k + 1 + ?s)"
    using lo hi by linarith+
  then have "of_nat (2 ^ (k + ?s)) \<le> (of_nat ((?x + 1) div 2) :: rat)"
    "of_nat ((?x + 1) div 2) \<le> (of_nat (2 ^ (k + 1 + ?s)) :: rat)"
    by (simp_all only: of_nat_le_iff)
  then have "(2::rat) ^ (k + ?s) \<le> of_nat ((?x + 1) div 2)"
    "of_nat ((?x + 1) div 2) \<le> (2::rat) ^ (k + 1 + ?s)"
    by (simp_all only: of_nat_power of_nat_numeral)
  then show "2 ^ k \<le> sqrt64 n" "sqrt64 n \<le> 2 ^ (k + 1)"
    by (simp_all only: sqrt64_def pos_le_divide_eq pos_divide_le_eq zero_less_power zero_less_numeral
        power_add)
qed

lemma sqrt64_mono:
  assumes "0 < m" "m \<le> n" "n < 2 ^ 32"
  shows "sqrt64 m \<le> sqrt64 n"
proof -
  from sqrt_scale_bounds [of m] assms obtain k where
    k: "sqrt_scale m + k = 52" "2 ^ k \<le> isqrt m" "isqrt m < 2 ^ (k + 1)" by auto
  from sqrt_scale_bounds [of n] assms obtain l where
    l: "sqrt_scale n + l = 52" "2 ^ l \<le> isqrt n" "isqrt n < 2 ^ (l + 1)" by auto
  have "(2::nat) ^ k < 2 ^ (l + 1)" using k(2) l(3) isqrt_mono [OF assms(2)] by linarith
  then have "k < l + 1" by (rule power_less_imp_less_exp [rotated]) simp
  then consider "k = l" | "k + 1 \<le> l" by linarith
  then show ?thesis
  proof cases
    case 1
    with k l have s: "sqrt_scale m = sqrt_scale n" by simp
    have "isqrt (4 * (m * 4 ^ sqrt_scale n)) \<le> isqrt (4 * (n * 4 ^ sqrt_scale n))"
      using assms by (intro isqrt_mono) simp
    then have "(isqrt (4 * (m * 4 ^ sqrt_scale n)) + 1) div 2
        \<le> (isqrt (4 * (n * 4 ^ sqrt_scale n)) + 1) div 2" by (intro div_le_mono) simp
    then show ?thesis by (simp add: sqrt64_def s divide_right_mono)
  next
    case 2
    have "sqrt64 m \<le> 2 ^ (k + 1)" using sqrt64_binade [OF _ _ k] assms by simp
    also have "\<dots> \<le> 2 ^ l" using 2 by (intro power_increasing) simp_all
    also have "\<dots> \<le> sqrt64 n" using sqrt64_binade [OF _ _ l] assms by simp
    finally show ?thesis .
  qed
qed

lemma sqrt64_square:
  assumes "0 < m" "m * m < 2 ^ 32"
  shows "sqrt64 (m * m) = of_nat m"
proof -
  let ?s = "sqrt_scale (m * m)"
  have "4 * (m * m * 4 ^ ?s) = (2 * (m * 2 ^ ?s)) * (2 * (m * 2 ^ ?s))"
    by (simp add: mult_ac flip: power_mult_distrib)
  then have "isqrt (4 * (m * m * 4 ^ ?s)) = 2 * (m * 2 ^ ?s)" by (simp only: isqrt_square)
  then show ?thesis by (simp add: sqrt64_def)
qed

lemma sqrt64_1 [simp]: "sqrt64 1 = 1"
  using sqrt64_square [of 1] by simp

lemma sqrt64_close: "\<bar>of_rat (sqrt64 n) - sqrt (of_nat n)\<bar> \<le> 1 / 2 ^ (sqrt_scale n + 1)"
proof -
  let ?s = "sqrt_scale n"
  define X where "X = isqrt (4 * (n * 4 ^ ?s))"
  define y where "y = 2 ^ ?s * sqrt (of_nat n)"
  have y: "4 * (y * y) = of_nat (4 * (n * 4 ^ ?s))" "0 \<le> y"
    by (simp_all add: y_def mult_ac flip: power_mult_distrib)
  have X: "X * X \<le> 4 * (n * 4 ^ ?s)" "4 * (n * 4 ^ ?s) < (X + 1) * (X + 1)"
    using isqrt_spec [of "4 * (n * 4 ^ ?s)"] by (simp_all add: X_def)
  have "of_nat (X * X) \<le> (of_nat (4 * (n * 4 ^ ?s)) :: real)"
    "(of_nat (4 * (n * 4 ^ ?s)) :: real) < of_nat ((X + 1) * (X + 1))"
    using X by (simp_all only: of_nat_le_iff of_nat_less_iff)
  then have "real X ^ 2 \<le> (2 * y) ^ 2" "(2 * y) ^ 2 < (real X + 1) ^ 2"
    using y(1) by (simp_all add: power2_eq_square algebra_simps)
  then have "real X \<le> 2 * y" "2 * y < real X + 1"
    using y(2) power2_le_imp_le [of "real X" "2 * y"] power2_less_imp_less [of "2 * y" "real X + 1"]
    by simp_all
  moreover have "2 * real ((X + 1) div 2) - 1 \<le> real X" "real X \<le> 2 * real ((X + 1) div 2)"
    by linarith+
  ultimately have "\<bar>real ((X + 1) div 2) - y\<bar> \<le> 1 / 2" by linarith
  then have "\<bar>real ((X + 1) div 2) - y\<bar> / 2 ^ ?s \<le> (1 / 2) / 2 ^ ?s"
    by (intro divide_right_mono) simp_all
  moreover have "of_rat (sqrt64 n) - sqrt (of_nat n) = (real ((X + 1) div 2) - y) / 2 ^ ?s"
    by (simp add: sqrt64_def X_def y_def of_rat_divide of_rat_power diff_divide_distrib)
  ultimately show ?thesis by (simp add: abs_divide)
qed

section \<open>The control law\<close>

definition law_gap :: "nat \<Rightarrow> nat \<Rightarrow> int" where
  \<comment> \<open>milliseconds to the next drop, for an interval and a drop count\<close>
  "law_gap interval n = rat_trunc (fl64 (of_nat interval / sqrt64 n))"

lemma control_law_gap:
  "count \<noteq> 0 \<Longrightarrow>
   control_law interval t count = Inr (t + word_of_int (law_gap (unat interval) (unat count)))"
  by (simp add: control_law_def law_gap_def)

lemma law_gap_1:
  assumes "v < 2 ^ 32"
  shows "law_gap v 1 = int v"
proof -
  have "fl64 (of_int (int v)) = of_int (int v)" using assms by (intro fl64_of_int) simp
  then show ?thesis
    unfolding law_gap_def sqrt64_1 div_by_1 by (metis of_int_of_nat_eq rat_trunc_of_int)
qed

lemma sqrt64_ge_1:
  assumes "0 < n" "n < 2 ^ 32"
  shows "1 \<le> sqrt64 n"
  using sqrt64_mono [of 1 n] assms by (simp only: sqrt64_1)

lemma law_gap_antimono:
  assumes "0 < m" "m \<le> n" "n < 2 ^ 32"
  shows "law_gap v n \<le> law_gap v m"
proof -
  have "(of_nat v :: rat) / sqrt64 n \<le> of_nat v / sqrt64 m"
    using sqrt64_mono [OF assms] sqrt64_ge_1 [of m] sqrt64_ge_1 [of n] assms
    by (intro divide_left_mono mult_pos_pos) auto
  then show ?thesis unfolding law_gap_def by (intro rat_trunc_mono fl64_mono)
qed

lemma law_gap_bounds:
  assumes "0 < n" "n < 2 ^ 32" "v < 2 ^ 32"
  shows "0 \<le> law_gap v n" "law_gap v n \<le> int v"
proof -
  have "(0::rat) \<le> of_nat v / sqrt64 n"
    using sqrt64_ge_1 [OF assms(1,2)] by simp
  then have "rat_trunc (fl64 0) \<le> law_gap v n"
    unfolding law_gap_def by (intro rat_trunc_mono fl64_mono)
  then show "0 \<le> law_gap v n" by (simp add: rat_trunc_def)
  have "law_gap v n \<le> law_gap v 1" using assms by (intro law_gap_antimono) simp_all
  with assms show "law_gap v n \<le> int v" by (simp only: law_gap_1)
qed

section \<open>One packet off the queue\<close>

lemma plus_interval:
  fixes t :: u64 and interval :: u32
  assumes "unat t < 2 ^ 62"
  shows "unat (t + ucast interval) = unat t + unat interval"
proof -
  have "unat (ucast interval :: u64) = unat interval" by transfer (simp add: take_bit_nat_eq_self_iff flip: take_bit_nat_eq_self_iff)
  moreover have "unat interval < 2 ^ 32" using unat_u32_less [of interval] by simp
  ultimately show ?thesis using assms by (subst unat_add_small) simp_all
qed

text \<open>
  A packet is \<open>late\<close> when it stayed for \<open>target\<close> and more than one full packet waits behind it.
  Being late starts the timer; when the timer has run out the queue may drop.
\<close>

definition packet_late :: "u32 \<Rightarrow> u64 \<Rightarrow> queued_packet \<Rightarrow> queued_packet list \<Rightarrow> bool" where
  "packet_late target now p behind \<longleftrightarrow>
     behind \<noteq> [] \<and> ucast target \<le> now - qp_arrival_time p \<and> 1504 < qp_bytes behind"

definition codel_late :: "u64 \<Rightarrow> codel_packet_queue \<Rightarrow> bool" where
  "codel_late now q \<longleftrightarrow>
     (case dq_internal_queue q of [] \<Rightarrow> False | p # ps \<Rightarrow> packet_late (cd_target q) now p ps)"

text \<open>
  The history the timer stands for: each packet that left the queue, handed out or dropped, with
  the time it left and whether it was late. \<open>late_since\<close> is when the run of late packets at the end
  of the history began.
\<close>

fun examined :: "u32 \<Rightarrow> u64 \<Rightarrow> queued_packet list \<Rightarrow> nat \<Rightarrow> (u64 \<times> bool) list" where
  "examined target now (p # ps) (Suc n) = (now, packet_late target now p ps) # examined target now ps n"
| "examined target now _ _ = []"

definition late_since :: "(u64 \<times> bool) list \<Rightarrow> u64 option" where
  "late_since hist = (case takeWhile snd (rev hist) of [] \<Rightarrow> None | es \<Rightarrow> Some (fst (last es)))"

fun timer_after :: "u32 \<Rightarrow> u64 \<Rightarrow> (u64 \<times> bool) list \<Rightarrow> u64" where
  "timer_after interval timer [] = timer"
| "timer_after interval timer ((now, late) # es) =
     timer_after interval (if \<not> late then 0 else if timer = 0 then now + ucast interval else timer) es"

lemma timer_after_append:
  "timer_after interval timer (es @ fs) = timer_after interval (timer_after interval timer es) fs"
  by (induction es arbitrary: timer) auto

lemma late_since_snoc:
  "late_since (hist @ [(now, late)]) =
     (if \<not> late then None else case late_since hist of None \<Rightarrow> Some now | Some t \<Rightarrow> Some t)"
  by (auto simp: late_since_def split: list.split)

lemma late_since_mem: "late_since hist = Some t \<Longrightarrow> (t, True) \<in> set hist"
proof (induction hist rule: rev_induct)
  case (snoc e hist)
  then show ?case by (cases e) (auto simp: late_since_snoc split: if_splits option.splits)
qed (simp add: late_since_def)

text \<open>The timer is set exactly while the history ends with late packets, and to an interval after the first.\<close>

lemma timer_after_late_since:
  assumes "\<forall>(t, late) \<in> set hist. unat t < 2 ^ 62" "0 < interval"
  shows "timer_after interval 0 hist
     = (case late_since hist of None \<Rightarrow> 0 | Some t \<Rightarrow> t + ucast interval)"
  using assms(1)
proof (induction hist rule: rev_induct)
  case (snoc e hist)
  obtain now late where e: "e = (now, late)" by (cases e)
  from snoc have IH: "timer_after interval 0 hist
      = (case late_since hist of None \<Rightarrow> 0 | Some t \<Rightarrow> t + ucast interval)" by simp
  have set: "t + ucast interval \<noteq> 0" if "late_since hist = Some t" for t
  proof -
    have "unat t < 2 ^ 62" using late_since_mem [OF that] snoc.prems by auto
    then have "unat (t + ucast interval) = unat t + unat interval"
      by (simp add: plus_interval)
    then show ?thesis using assms(2) by (auto simp: word_less_nat_alt)
  qed
  then show ?case
    using IH by (auto simp: e timer_after_append late_since_snoc split: option.splits)
qed (simp add: late_since_def)

lemma timer_runs_out:
  assumes "\<forall>(t, late) \<in> set hist. unat t < 2 ^ 62" "0 < interval"
  shows "timer_after interval 0 hist \<noteq> 0 \<and> timer_after interval 0 hist \<le> now \<longleftrightarrow>
    (case late_since hist of None \<Rightarrow> False | Some t0 \<Rightarrow> unat t0 + unat interval \<le> unat now)"
proof (cases "late_since hist")
  case (Some t)
  then have "unat (t + ucast interval) = unat t + unat interval"
    using late_since_mem [OF Some] assms(1) by (intro plus_interval) auto
  then have "t + ucast interval \<noteq> 0 \<and> (t + ucast interval \<le> now \<longleftrightarrow> unat t + unat interval \<le> unat now)"
    using assms(2) by (auto simp: word_less_nat_alt word_le_nat_alt)
  then show ?thesis using Some timer_after_late_since [OF assms] by simp
qed (use timer_after_late_since [OF assms] in simp)

definition codel_timer :: "u64 \<Rightarrow> codel_packet_queue \<Rightarrow> u64" where
  "codel_timer now q =
     (if \<not> codel_late now q then 0
      else if cd_first_above_time q = 0 then now + ucast (cd_interval q)
      else cd_first_above_time q)"

definition codel_may_drop :: "u64 \<Rightarrow> codel_packet_queue \<Rightarrow> bool" where
  "codel_may_drop now q \<longleftrightarrow>
     codel_late now q \<and> cd_first_above_time q \<noteq> 0 \<and> cd_first_above_time q \<le> now"

lemma dodequeue_eq:
  assumes "dq_inv q" "dq_internal_queue q = p # ps"
  shows "dodequeue now q = Inr (\<lparr>r_p = p, r_ok_to_drop = codel_may_drop now q\<rparr>,
    (dq_pop q)\<lparr>cd_first_above_time := codel_timer now q\<rparr>)"
proof -
  note pop = dq_dequeue_inv [OF assms]
  have wf: "dq_wf (dq_pop q)" using pop(2) by (simp add: dq_inv_def)
  have same: "cd_target (dq_pop q) = cd_target q" "cd_interval (dq_pop q) = cd_interval q"
    "cd_first_above_time (dq_pop q) = cd_first_above_time q"
    by (simp_all add: dq_pop_def)
  have "qp_bytes ps < 2 ^ 32" using wf assms(2) by (simp add: dq_wf_def)
  then have bytes: "(of_nat (qp_bytes ps) :: u32) \<le> codel_PACKET_SIZE \<longleftrightarrow> qp_bytes ps \<le> 1504"
    by (simp add: of_nat_le_limit codel_PACKET_SIZE_def)
  show ?thesis
  proof (cases "ps = []")
    case True
    with assms pop show ?thesis
      by (simp add: dodequeue_def Let_def dq_empty_def codel_late_def packet_late_def codel_timer_def codel_may_drop_def)
  next
    case False
    have late: "codel_late now q \<longleftrightarrow>
        \<not> (now - qp_arrival_time p < ucast (cd_target q) \<or> qp_bytes ps \<le> 1504)"
      using assms False by (auto simp: codel_late_def packet_late_def not_less not_le)
    have "dq_size_bytes (dq_pop q) = Inr (of_nat (qp_bytes ps))"
      using dq_wf_sizes(1) [OF wf] assms(2) by simp
    then have "(if now - qp_arrival_time p < ucast (cd_target q) then Inr True
        else andThen (dq_size_bytes (dq_pop q)) (\<lambda>b. Inr (b \<le> codel_PACKET_SIZE)))
      = (Inr (\<not> codel_late now q) :: bool res)"
      by (simp add: late bytes)
    with pop False assms(2) same show ?thesis
      unfolding dodequeue_def
      by (simp add: Let_def dq_empty_def codel_timer_def codel_may_drop_def cong: if_cong split del: if_split)
        simp
  qed
qed

text \<open>What no operation changes.\<close>

definition codel_params :: "codel_packet_queue \<Rightarrow> u32 \<times> u32 \<times> u32 \<times> u32" where
  "codel_params q = (dq_packet_limit q, dq_byte_limit q, cd_target q, cd_interval q)"

lemma dq_inv_codel_state [simp]:
  "dq_inv (q\<lparr>cd_first_above_time := t\<rparr>) = dq_inv q" "dq_inv (q\<lparr>cd_drop_next := t\<rparr>) = dq_inv q"
  "dq_inv (q\<lparr>cd_count := c\<rparr>) = dq_inv q" "dq_inv (q\<lparr>cd_lastcount := c\<rparr>) = dq_inv q"
  "dq_inv (q\<lparr>cd_dropping := b\<rparr>) = dq_inv q"
  by (simp_all add: dq_inv_def dq_wf_def dq_fits_def)

lemma codel_params_state [simp]:
  "codel_params (q\<lparr>cd_first_above_time := t\<rparr>) = codel_params q"
  "codel_params (q\<lparr>cd_drop_next := t\<rparr>) = codel_params q"
  "codel_params (q\<lparr>cd_count := c\<rparr>) = codel_params q"
  "codel_params (q\<lparr>cd_lastcount := c\<rparr>) = codel_params q"
  "codel_params (q\<lparr>cd_dropping := b\<rparr>) = codel_params q"
  "codel_params (dq_pop q) = codel_params q" "codel_params (dq_accept p q) = codel_params q"
  by (simp_all add: codel_params_def dq_pop_def dq_accept_def)

lemma dq_pop_codel_state [simp]:
  "cd_drop_next (dq_pop q) = cd_drop_next q" "cd_count (dq_pop q) = cd_count q"
  "cd_lastcount (dq_pop q) = cd_lastcount q" "cd_dropping (dq_pop q) = cd_dropping q"
  "cd_interval (dq_pop q) = cd_interval q"
  by (simp_all add: dq_pop_def)

lemma codel_may_drop_more: "codel_may_drop now q \<Longrightarrow> tl (dq_internal_queue q) \<noteq> []"
  by (auto simp: codel_may_drop_def codel_late_def packet_late_def split: list.splits)

text \<open>
  What a call leaves in the timer: the timer after each packet that left the queue was looked at.
\<close>

definition codel_tracked :: "u64 \<Rightarrow> codel_packet_queue \<Rightarrow> codel_packet_queue \<Rightarrow> bool" where
  "codel_tracked now q q' \<longleftrightarrow>
     cd_first_above_time q' = timer_after (cd_interval q) (cd_first_above_time q)
       (examined (cd_target q) now (dq_internal_queue q)
         (length (dq_internal_queue q) - length (dq_internal_queue q')))"

lemma codel_timer_after:
  "dq_internal_queue q = p # ps \<Longrightarrow>
   codel_timer now q = timer_after (cd_interval q) (cd_first_above_time q)
     [(now, packet_late (cd_target q) now p ps)]"
  by (simp add: codel_timer_def codel_late_def)

lemma codel_params_eq:
  "codel_params q' = codel_params q \<Longrightarrow> cd_target q' = cd_target q \<and> cd_interval q' = cd_interval q"
  by (simp add: codel_params_def)

lemma codel_tracked_first:
  assumes "dq_internal_queue q = p # ps" "dq_internal_queue q1 = ps" "codel_params q1 = codel_params q"
    and "cd_first_above_time q1 = codel_timer now q" "codel_tracked now q1 q'"
    and "length (dq_internal_queue q') \<le> length ps"
  shows "codel_tracked now q q'"
  using assms codel_params_eq [OF assms(3)]
  by (simp add: codel_tracked_def codel_timer_def codel_late_def Suc_diff_le)

lemma codel_tracked_refl:
  "dq_internal_queue q' = dq_internal_queue q \<Longrightarrow> cd_first_above_time q' = cd_first_above_time q \<Longrightarrow>
   codel_tracked now q q'"
  by (cases "dq_internal_queue q") (simp_all add: codel_tracked_def)

text \<open>A round of the drop loop, and the loop. The count never wraps: it grows by one a packet.\<close>

lemma unat_inc_small: "unat (c :: u32) + 1 < 2 ^ 32 \<Longrightarrow> unat (c + 1) = unat c + 1 \<and> c + 1 \<noteq> 0"
  using unat_add_small [of c 1] by (auto simp: unat_eq_zero [symmetric])

lemma codel_drop_one_ok:
  assumes "dq_inv q" "dq_internal_queue q = p # ps" "unat (cd_count q) + 1 < 2 ^ 32"
  shows "\<exists>q'. codel_drop_one now q = Inr q' \<and> dq_inv q' \<and> codel_params q' = codel_params q \<and>
    dq_internal_queue q' = ps \<and> unat (cd_count q') = unat (cd_count q) + 1 \<and>
    (cd_dropping q' \<longrightarrow> ps \<noteq> []) \<and> cd_lastcount q' = cd_lastcount q \<and>
    cd_first_above_time q' = codel_timer now q"
proof -
  note inc = unat_inc_small [OF assms(3)]
  show ?thesis
  proof (cases "codel_may_drop now q")
    case True
    with codel_may_drop_more [OF True] assms inc dq_dequeue_inv(2) [OF assms(1,2)] show ?thesis
      by (simp add: codel_drop_one_def dodequeue_eq Let_def control_law_gap)
  next
    case False
    with assms inc dq_dequeue_inv(2) [OF assms(1,2)] show ?thesis
      by (simp add: codel_drop_one_def dodequeue_eq Let_def)
  qed
qed

lemma codel_drop_loop_ok:
  assumes "dq_inv q" "cd_dropping q \<longrightarrow> dq_internal_queue q \<noteq> []"
    and "unat (cd_count q) + length (dq_internal_queue q) < 2 ^ 32"
  shows "\<exists>q'. codel_drop_loop now q = Inr q' \<and> dq_inv q' \<and> codel_params q' = codel_params q \<and>
    suffix (dq_internal_queue q') (dq_internal_queue q) \<and>
    unat (cd_count q') + length (dq_internal_queue q')
      = unat (cd_count q) + length (dq_internal_queue q) \<and> cd_lastcount q' = cd_lastcount q \<and>
    codel_tracked now q q' \<and>
    (dq_internal_queue q' \<noteq> dq_internal_queue q \<longleftrightarrow> cd_drop_next q \<le> now \<and> cd_dropping q)"
  using assms
proof (induction now q rule: codel_drop_loop.induct)
  case (1 now q)
  show ?case
  proof (cases "cd_drop_next q \<le> now \<and> cd_dropping q")
    case True
    with "1.prems"(2) obtain p ps where q: "dq_internal_queue q = p # ps"
      by (cases "dq_internal_queue q") auto
    from "1.prems"(3) q have "unat (cd_count q) + 1 < 2 ^ 32" by simp
    from codel_drop_one_ok [OF "1.prems"(1) q this] obtain q1 where
      q1: "codel_drop_one now q = Inr q1" "dq_inv q1" "codel_params q1 = codel_params q"
        "dq_internal_queue q1 = ps" "unat (cd_count q1) = unat (cd_count q) + 1"
        "cd_dropping q1 \<longrightarrow> ps \<noteq> []" "cd_lastcount q1 = cd_lastcount q"
        "cd_first_above_time q1 = codel_timer now q" by blast
    from "1.IH" [OF True q1(1,2)] q1 "1.prems"(3) q obtain q' where
      q': "codel_drop_loop now q1 = Inr q'" "dq_inv q'" "codel_params q' = codel_params q1"
      "suffix (dq_internal_queue q') ps"
      "unat (cd_count q') + length (dq_internal_queue q') = unat (cd_count q1) + length ps"
      "cd_lastcount q' = cd_lastcount q" "codel_tracked now q1 q'" by auto
    then have len: "length (dq_internal_queue q') \<le> length ps" by (simp add: suffix_length_le)
    note tracked = codel_tracked_first [OF q q1(4,3,8) q'(7) len]
    have "dq_internal_queue q' \<noteq> p # ps" using len by auto
    with q1 q True q' tracked show ?thesis
      by (subst codel_drop_loop.simps) (auto intro: suffix_ConsI)
  next
    case False
    with "1.prems" codel_tracked_refl show ?thesis by (subst codel_drop_loop.simps) auto
  qed
qed

text \<open>The whole of \<open>dequeue\<close>: the front packet comes out; what is dropped stood right behind it.\<close>

definition cd_inv :: "codel_packet_queue \<Rightarrow> bool" where
  "cd_inv q \<longleftrightarrow> dq_inv q \<and> cd_lastcount q \<le> cd_count q"

text \<open>Entering the dropping state: the packet behind the head is dropped.\<close>

lemma codel_enters_dropping:
  assumes "cd_inv q" "dq_internal_queue q = p # ps"
    and "\<not> cd_dropping q" "codel_may_drop now q"
  shows "\<exists>q'. codel_dequeue_at now q = Inr (p, q') \<and> cd_inv q' \<and> codel_params q' = codel_params q \<and>
    suffix (dq_internal_queue q') ps \<and>
    unat (cd_count q') + length (dq_internal_queue q') < unat (cd_count q) + length (dq_internal_queue q) \<and>
    codel_tracked now q q' \<and> dq_internal_queue q' \<noteq> ps"
proof -
  have q: "dq_inv q" "cd_lastcount q \<le> cd_count q" using assms(1) by (simp_all add: cd_inv_def)
  note deq = dodequeue_eq [OF q(1) assms(2), of now] and pop = dq_dequeue_inv(2) [OF q(1) assms(2)]
  define q1 where "q1 = (dq_pop q)\<lparr>cd_first_above_time := codel_timer now q\<rparr>"
  have q1: "dq_inv q1" "dq_internal_queue q1 = ps" "codel_params q1 = codel_params q"
    "cd_count q1 = cd_count q" "cd_lastcount q1 = cd_lastcount q" "cd_dropping q1 = cd_dropping q"
    "cd_interval q1 = cd_interval q" "cd_drop_next q1 = cd_drop_next q"
    "cd_first_above_time q1 = codel_timer now q"
    using pop assms(2) by (simp_all add: q1_def)
  from codel_may_drop_more [OF assms(4)] assms(2) obtain p2 ps2 where ps: "ps = p2 # ps2"
    by (cases ps) auto
  note deq2 = dodequeue_eq [OF q1(1), unfolded q1(2), OF ps, of now]
    and pop2 = dq_dequeue_inv(2) [OF q1(1), unfolded q1(2), OF ps]
  define q2 where "q2 = (dq_pop q1)\<lparr>cd_first_above_time := codel_timer now q1, cd_dropping := True\<rparr>"
  define c where "c = (if 1 < cd_count q - cd_lastcount q \<and>
    now - cd_drop_next q < ucast (16 * cd_interval q) then cd_count q - cd_lastcount q else 1)"
  have "unat (cd_count q - cd_lastcount q) \<le> unat (cd_count q)" using q(2) by (simp add: unat_diff_le)
  then have c: "c \<noteq> 0" "unat c \<le> unat (cd_count q) + 1" by (auto simp: c_def)
  have q2: "dq_inv q2" "dq_internal_queue q2 = ps2" "codel_params q2 = codel_params q"
    "cd_first_above_time q2 = codel_timer now q1"
    using pop2 q1 ps by (simp_all add: q2_def)
  define q3 where "q3 t = q2\<lparr>cd_count := c, cd_drop_next := t, cd_lastcount := c\<rparr>" for t
  have q1_ps: "dq_internal_queue q1 = p2 # ps2" using q1(2) ps by simp
  have "codel_tracked now q1 (q3 t)" for t
    using codel_timer_after [OF q1_ps, of now] q1_ps q2(2,4) by (simp add: codel_tracked_def q3_def)
  then have tracked: "codel_tracked now q (q3 t)" for t
    using codel_tracked_first [OF assms(2) q1(2,3,9)] q2(2) ps by (simp add: q3_def)
  have "codel_dequeue_at now q = andThen (andThen (control_law (cd_interval q) now c)
      (\<lambda>t. Inr (q3 t))) (\<lambda>q. Inr (p, q))"
    using assms(3,4) q1 deq deq2 unfolding c_def q3_def
    by (simp add: codel_dequeue_at_def Let_def q2_def flip: q1_def cong: if_cong split del: if_split)
  with c q2 ps assms(2) tracked show ?thesis
    by (simp add: control_law_gap cd_inv_def suffix_ConsI q3_def)
qed

lemma codel_dequeue_at_ok:
  assumes "cd_inv q" "dq_internal_queue q = p # ps"
    and "unat (cd_count q) + length (dq_internal_queue q) < 2 ^ 32"
  shows "\<exists>q'. codel_dequeue_at now q = Inr (p, q') \<and> cd_inv q' \<and> codel_params q' = codel_params q \<and>
    suffix (dq_internal_queue q') ps \<and>
    unat (cd_count q') + length (dq_internal_queue q') < unat (cd_count q) + length (dq_internal_queue q) \<and>
    codel_tracked now q q' \<and>
    (dq_internal_queue q' \<noteq> ps \<longleftrightarrow> codel_may_drop now q \<and> (cd_dropping q \<longrightarrow> cd_drop_next q \<le> now))"
proof -
  have q: "dq_inv q" "cd_lastcount q \<le> cd_count q" using assms(1) by (simp_all add: cd_inv_def)
  note deq = dodequeue_eq [OF q(1) assms(2), of now] and pop = dq_dequeue_inv(2) [OF q(1) assms(2)]
  define q1 where "q1 = (dq_pop q)\<lparr>cd_first_above_time := codel_timer now q\<rparr>"
  have q1: "dq_inv q1" "dq_internal_queue q1 = ps" "codel_params q1 = codel_params q"
    "cd_count q1 = cd_count q" "cd_lastcount q1 = cd_lastcount q" "cd_dropping q1 = cd_dropping q"
    "cd_interval q1 = cd_interval q" "cd_drop_next q1 = cd_drop_next q"
    "cd_first_above_time q1 = codel_timer now q"
    using pop assms(2) by (simp_all add: q1_def)
  note tracked = codel_tracked_first [OF assms(2) q1(2,3,9)]
  consider "cd_dropping q" "codel_may_drop now q" | "cd_dropping q" "\<not> codel_may_drop now q"
    | "\<not> cd_dropping q" "codel_may_drop now q" | "\<not> cd_dropping q" "\<not> codel_may_drop now q" by blast
  then show ?thesis
  proof cases
    case 1
    from codel_may_drop_more [OF 1(2)] assms(2,3) q1 have
      "cd_dropping q1 \<longrightarrow> dq_internal_queue q1 \<noteq> []"
      "unat (cd_count q1) + length (dq_internal_queue q1) < 2 ^ 32" by simp_all
    from codel_drop_loop_ok [OF q1(1) this] obtain q' where q':
      "codel_drop_loop now q1 = Inr q'" "dq_inv q'" "codel_params q' = codel_params q1"
      "suffix (dq_internal_queue q') ps" "cd_lastcount q' = cd_lastcount q"
      "unat (cd_count q') + length (dq_internal_queue q') = unat (cd_count q) + length ps"
      "codel_tracked now q1 q'" "dq_internal_queue q' \<noteq> ps \<longleftrightarrow> cd_drop_next q \<le> now \<and> cd_dropping q"
      unfolding q1 by blast
    from q'(4) have len: "length (dq_internal_queue q') \<le> length ps" by (simp add: suffix_length_le)
    note tracked = tracked [OF q'(7) len]
    from len q'(6) have "cd_count q \<le> cd_count q'" by (simp add: word_le_nat_alt)
    with q q'(5) have "cd_inv q'" using q'(2) by (simp add: cd_inv_def)
    with 1 q' q1 assms(2) deq tracked show ?thesis
      by (simp add: codel_dequeue_at_def flip: q1_def)
  next
    case 2
    define q2 where "q2 = q1\<lparr>cd_dropping := False\<rparr>"
    have "codel_drop_loop now q2 = Inr q2" by (subst codel_drop_loop.simps) (simp add: q2_def)
    moreover have "codel_tracked now q q2" if "dq_internal_queue q2 = ps"
      using that q1(9) by (intro tracked codel_tracked_refl) (simp_all add: q2_def q1)
    ultimately show ?thesis using 2 q1 assms(2) deq q
      by (simp add: codel_dequeue_at_def cd_inv_def flip: q1_def q2_def)
        (simp add: q2_def q1)
  next
    case 3
    with codel_enters_dropping [OF assms(1,2)] show ?thesis by auto
  next
    case 4
    have "codel_tracked now q q1" by (intro tracked codel_tracked_refl) (simp_all add: q1)
    with 4 q1 assms(2) deq q show ?thesis
      by (simp add: codel_dequeue_at_def cd_inv_def flip: q1_def)
  qed
qed

section \<open>The queue meets the interface\<close>

definition codel_enqueue_in :: "queued_packet \<Rightarrow> codel_packet_queue \<times> world \<Rightarrow>
    (codel_packet_queue \<times> world) res" where
  "codel_enqueue_in p = (\<lambda>(q, w). andThen (codel_enqueue p q) (\<lambda>q'. Inr (q', w)))"

definition codel_held :: "codel_packet_queue \<times> world \<Rightarrow> queued_packet list" where
  "codel_held = (\<lambda>(q, w). dq_internal_queue q)"

definition codel_empty :: "codel_packet_queue \<times> world \<Rightarrow> bool" where
  "codel_empty = (\<lambda>(q, w). dq_empty q)"

definition codel_ok :: "u32 \<times> u32 \<times> u32 \<times> u32 \<Rightarrow> codel_packet_queue \<times> world \<Rightarrow> bool" where
  "codel_ok ps = (\<lambda>(q, w). cd_inv q \<and> codel_params q = ps \<and> clock_ok w)"

definition codel_spent :: "codel_packet_queue \<times> world \<Rightarrow> nat" where
  "codel_spent = (\<lambda>(q, w). unat (cd_count q))"

lemmas codel_state = codel_enqueue_in_def codel_held_def codel_empty_def codel_ok_def codel_spent_def

lemma codel_enqueue_droptail: "codel_enqueue p q = droptail_enqueue p q"
  by (simp add: codel_enqueue_def droptail_enqueue_def)

lemma dq_accept_codel_state [simp]:
  "cd_count (dq_accept p q) = cd_count q" "cd_lastcount (dq_accept p q) = cd_lastcount q"
  by (simp_all add: dq_accept_def)

lemma dq_accept_timer [simp]: "cd_first_above_time (dq_accept p q) = cd_first_above_time q"
  by (simp add: dq_accept_def)

lemma codel_enqueue_in_ok:
  assumes "codel_ok ps s" "codel_spent s + sum_list (map qp_cost (codel_held s @ [p])) < 2 ^ 31"
  shows "\<exists>s'. codel_enqueue_in p s = Inr s' \<and> codel_ok ps s' \<and>
    sublist (codel_held s') (codel_held s @ [p]) \<and> codel_spent s' = codel_spent s \<and>
    cd_first_above_time (fst s') = cd_first_above_time (fst s)"
proof -
  obtain q w where s: "s = (q, w)" by (cases s)
  with assms have q: "dq_inv q" "cd_lastcount q \<le> cd_count q" "codel_params q = ps" "clock_ok w"
    "qp_bytes (dq_internal_queue q @ [p]) + length (dq_internal_queue q @ [p]) < 2 ^ 31"
    unfolding sum_qp_cost by (simp_all add: codel_state cd_inv_def)
  with s show ?thesis
    by (simp add: codel_state codel_enqueue_droptail droptail_enqueue_eq [OF q(1,5)] cd_inv_def
        dq_inv_accept)
qed

lemma length_le_cost: "length ps \<le> sum_list (map qp_cost ps)"
  by (simp add: sum_qp_cost)

lemma cost_suffix: "suffix rs ps \<Longrightarrow>
  length ps - length rs + sum_list (map qp_cost rs) \<le> sum_list (map qp_cost ps)"
  by (auto simp: suffix_def length_le_cost)

lemma codel_dequeue_ok:
  assumes "codel_ok ps s" "codel_held s = p # rest"
    and "codel_spent s + sum_list (map qp_cost (codel_held s)) < 2 ^ 31"
  shows "\<exists>s'. codel_dequeue s = Inr (p, s') \<and> codel_ok ps s' \<and> suffix (codel_held s') rest \<and>
    codel_spent s' + sum_list (map qp_cost (codel_held s'))
      \<le> codel_spent s + sum_list (map qp_cost (codel_held s)) \<and>
    snd s' = clock_tick (snd s) \<and> codel_tracked (clock_now (snd s)) (fst s) (fst s') \<and>
    (codel_held s' \<noteq> rest \<longleftrightarrow> codel_may_drop (clock_now (snd s)) (fst s) \<and>
      (cd_dropping (fst s) \<longrightarrow> cd_drop_next (fst s) \<le> clock_now (snd s)))"
proof -
  obtain q w where s: "s = (q, w)" by (cases s)
  with assms have q: "cd_inv q" "codel_params q = ps" "clock_ok w" "dq_internal_queue q = p # rest"
    by (simp_all add: codel_state)
  have "unat (cd_count q) + length (dq_internal_queue q) < 2 ^ 32"
    using assms(3) length_le_cost [of "dq_internal_queue q"] s by (simp add: codel_state)
  from codel_dequeue_at_ok [OF q(1,4) this, of "clock_now w"] obtain q' where q':
    "codel_dequeue_at (clock_now w) q = Inr (p, q')" "cd_inv q'" "codel_params q' = codel_params q"
    "suffix (dq_internal_queue q') rest"
    "unat (cd_count q') + length (dq_internal_queue q') < unat (cd_count q) + length (p # rest)"
    "codel_tracked (clock_now w) q q'"
    "dq_internal_queue q' \<noteq> rest \<longleftrightarrow>
       codel_may_drop (clock_now w) q \<and> (cd_dropping q \<longrightarrow> cd_drop_next q \<le> clock_now w)"
    unfolding q(4) by blast
  have "codel_dequeue s = Inr (p, q', clock_tick w)"
    using q' q(3) s by (simp add: codel_dequeue_def timestamp_ok)
  moreover have "length (dq_internal_queue q') \<le> length rest"
    using q'(4) by (rule suffix_length_le)
  moreover have "1 \<le> qp_cost p" by (simp add: qp_cost_def)
  ultimately show ?thesis
    using q q' s cost_suffix [OF q'(4)] by (simp add: codel_state)
qed

interpretation codel: total_packet_queue
  "\<lambda>_. codel_enqueue_in" "\<lambda>_. codel_dequeue" codel_empty codel_held "codel_ok ps" qp_cost
  codel_spent "2 ^ 31" for ps
proof unfold_locales
  fix s p s' assume "codel_ok ps s"
    "codel_spent s + sum_list (map qp_cost (codel_held s @ [p])) < 2 ^ 31"
  note law = codel_enqueue_in_ok [OF this]
  from law show "\<exists>s'. codel_enqueue_in p s = Inr s'" by blast
  assume "codel_enqueue_in p s = Inr s'"
  with law show "codel_ok ps s' \<and> sublist (codel_held s') (codel_held s @ [p]) \<and>
      codel_spent s' = codel_spent s" by auto
next
  fix s p rest assume "codel_ok ps s" "codel_held s = p # rest"
    "codel_spent s + sum_list (map qp_cost (codel_held s)) < 2 ^ 31"
  then show "\<exists>s'. codel_dequeue s = Inr (p, s') \<and> codel_ok ps s' \<and> suffix (codel_held s') rest \<and>
    codel_spent s' + sum_list (map qp_cost (codel_held s'))
      \<le> codel_spent s + sum_list (map qp_cost (codel_held s))" using codel_dequeue_ok by blast
qed (auto simp: codel_state dq_empty_def)

section \<open>Properties\<close>

lemma codel_init_ok:
  assumes "codel_init args = Inr q" "clock_ok w"
  shows "codel_ok (codel_params q) (q, w)" "codel_held (q, w) = []" "codel_spent (q, w) = 0"
  using assms
  by (auto simp: codel_init_def dropping_init_def andThen_Inr_iff codel_state cd_inv_def dq_inv_def
      dq_wf_def dq_fits_def dropping_packet_queue.defs split: if_splits)

lemma codel_init_timer: "codel_init args = Inr q \<Longrightarrow> cd_first_above_time q = 0 \<and> 0 < cd_interval q"
  by (auto simp: codel_init_def andThen_Inr_iff dropping_packet_queue.defs word_neq_0_conv split: if_splits)

lemma codel_params_fits: "codel_params q = codel_params r \<Longrightarrow> dq_fits q ps = dq_fits r ps"
  by (simp add: codel_params_def dq_fits_def)

text \<open>
  C25. Every history of a CoDel queue runs to its end: no assertion fails although packets are dropped
  while one is handed out, the drop loop ends, and the drop count never reaches a value the control
  law cannot take a root of. What comes out, then what is held, is what was enqueued, in order, less
  the dropped packets; the limits of the configuration hold after every history.
\<close>
theorem codel_queue_history:
  assumes "codel_init args = Inr q0" "clock_ok w"
    and "qp_bytes (enqueued ops) + length (enqueued ops) < 2 ^ 31"
  shows "\<exists>out q' w'. run_ops (\<lambda>_. codel_enqueue_in) (\<lambda>_. codel_dequeue) codel_empty ops (q0, w)
      = Inr (out, q', w') \<and>
    subseq (out @ dq_internal_queue q') (enqueued ops) \<and> dq_fits q0 (dq_internal_queue q')"
proof -
  note ok = codel_init_ok [OF assms(1,2)]
  have cap: "codel_spent (q0, w) + sum_list (map qp_cost (codel_held (q0, w) @ enqueued ops)) < 2 ^ 31"
    unfolding ok(2,3) using assms(3) by (simp add: sum_qp_cost)
  from codel.run_ops_total [OF ok(1) cap] obtain out q' w' where
    run: "run_ops (\<lambda>_. codel_enqueue_in) (\<lambda>_. codel_dequeue) codel_empty ops (q0, w)
      = Inr (out, q', w')" by auto
  from codel.run_ops_fifo [OF ok(1) cap run] have "codel_ok (codel_params q0) (q', w')"
    "subseq (out @ codel_held (q', w')) (codel_held (q0, w) @ enqueued ops)" by blast+
  then have "cd_inv q'" "codel_params q' = codel_params q0"
    "subseq (out @ dq_internal_queue q') (enqueued ops)"
    unfolding ok(2) by (simp_all add: codel_state)
  with run show ?thesis
    by (auto simp: cd_inv_def dq_inv_def codel_params_fits [of q' q0])
qed

definition codel_clock :: world where
  "codel_clock = \<lparr>w_clock = (\<lambda>n. (0, 0, of_nat n * 40000000)), w_clock_calls = 0, w_initial = Some 0,
      w_write = (\<lambda>n c. int c), w_write_calls = 0, w_sent = [], w_read = (\<lambda>fd n. (0, [])),
      w_read_calls = 0, w_received = [], w_euid = 1000, w_egid = 1000, w_files = (\<lambda>f. None),
      w_creatable = (\<lambda>f. True)\<rparr>"

lemma codel_clock_ok: "clock_ok codel_clock"
proof -
  have "unat (x div 1000000 :: u64) < 2 ^ 62" for x :: u64
    using unat_u64_less [of x] by (simp add: unat_div div_less_iff_less_mult)
  then show ?thesis by (simp add: codel_clock_def clock_ok_def clock_at_def)
qed

definition codel_sample :: codel_packet_queue where
  "codel_sample = \<lparr>dq_queue_size_in_bytes = 0,
    dq_queue_size_in_packets = 0, dq_internal_queue = [], dq_packet_limit = 2, dq_byte_limit = 0,
    cd_target = 5, cd_interval = 100, cd_first_above_time = 0, cd_drop_next = 0, cd_count = 0,
    cd_lastcount = 0, cd_dropping = False\<rparr>"

lemma codel_sample_init: "codel_init ''packets=2 target=5 interval=100'' = Inr codel_sample"
  unfolding codel_sample_def by code_simp

theorem codel_queue_history_witness:
  "\<exists>q0. codel_init ''packets=2 target=5 interval=100'' = Inr q0 \<and>
    (\<exists>out q' w'. run_ops (\<lambda>_::unit. codel_enqueue_in) (\<lambda>_. codel_dequeue) codel_empty
      [Enq () (sample_packet ''ab''), Enq () (sample_packet ''cd''), Enq () (sample_packet ''e''), Deq ()]
      (q0, codel_clock) = Inr (out, q', w') \<and> length (dq_internal_queue q') \<le> 2)"
proof -
  note q0 = codel_sample_init
  from codel_queue_history [OF q0 codel_clock_ok, of
      "[Enq () (sample_packet ''ab''), Enq () (sample_packet ''cd''), Enq () (sample_packet ''e''), Deq ()]"]
  have "\<exists>out q' w'. run_ops (\<lambda>_::unit. codel_enqueue_in) (\<lambda>_. codel_dequeue) codel_empty
      [Enq () (sample_packet ''ab''), Enq () (sample_packet ''cd''), Enq () (sample_packet ''e''), Deq ()]
      (codel_sample, codel_clock) = Inr (out, q', w') \<and> dq_fits codel_sample (dq_internal_queue q')"
    by (auto simp: sample_packet_def mk_queued_packet_def)
  then show ?thesis using q0 by (auto simp: codel_sample_def dq_fits_def)
qed

text \<open>
  The history of a sequence of calls: the packets each \<open>dequeue\<close> takes off the front, found from
  what the queue holds before and after the call.
\<close>

fun codel_past :: "('e, queued_packet) queue_op list \<Rightarrow> codel_packet_queue \<times> world \<Rightarrow>
    (u64 \<times> bool) list" where
  "codel_past [] s = []"
| "codel_past (Enq e p # ops) s =
     (case codel_enqueue_in p s of Inl _ \<Rightarrow> [] | Inr s' \<Rightarrow> codel_past ops s')"
| "codel_past (Deq e # ops) s =
     (if codel_empty s then codel_past ops s
      else case codel_dequeue s of
        Inl _ \<Rightarrow> []
      | Inr (p, s') \<Rightarrow> examined (cd_target (fst s)) (clock_now (snd s)) (codel_held s)
            (length (codel_held s) - length (codel_held s')) @ codel_past ops s')"

lemma examined_times: "(t, late) \<in> set (examined target now ps n) \<Longrightarrow> t = now"
  by (induction target now ps n rule: examined.induct) auto

lemma codel_past_timer:
  "codel_ok ps s \<Longrightarrow> codel_spent s + sum_list (map qp_cost (codel_held s @ enqueued ops)) < 2 ^ 31 \<Longrightarrow>
   run_ops (\<lambda>_. codel_enqueue_in) (\<lambda>_. codel_dequeue) codel_empty ops s = Inr (out, s') \<Longrightarrow>
   codel_ok ps s' \<and> codel_spent s' + sum_list (map qp_cost (codel_held s')) < 2 ^ 31 \<and>
   cd_first_above_time (fst s')
     = timer_after (cd_interval (fst s)) (cd_first_above_time (fst s)) (codel_past ops s) \<and>
   (\<forall>(t, late) \<in> set (codel_past ops s). unat t < 2 ^ 62)"
proof (induction ops arbitrary: s out)
  case (Cons op ops)
  have interval: "cd_interval (fst s1) = cd_interval (fst s)" if "codel_ok ps s1" for s1
    using that Cons.prems(1) by (auto simp: codel_ok_def codel_params_def)
  show ?case
  proof (cases op)
    case (Enq e p)
    with Cons.prems(3) obtain s1 where s1: "codel_enqueue_in p s = Inr s1"
      and run: "run_ops (\<lambda>_. codel_enqueue_in) (\<lambda>_. codel_dequeue) codel_empty ops s1 = Inr (out, s')"
      by (auto simp: andThen_Inr_iff)
    have "codel_spent s + sum_list (map qp_cost (codel_held s @ [p])) < 2 ^ 31"
      using Cons.prems(2) Enq by simp
    note law = codel_enqueue_in_ok [OF Cons.prems(1) this, unfolded s1]
    then have "codel_spent s1 + sum_list (map qp_cost (codel_held s1 @ enqueued ops)) < 2 ^ 31"
      using codel.cost_sublist [of "codel_held s1" "codel_held s @ [p]"] Cons.prems(2) Enq by simp
    with Cons.IH [of s1 out] law run interval [of s1] s1 Enq show ?thesis by simp
  next
    case (Deq e)
    show ?thesis
    proof (cases "codel_empty s")
      case True
      with Cons Deq show ?thesis by simp
    next
      case False
      with codel.is_empty_held [OF Cons.prems(1)] obtain p rest where h: "codel_held s = p # rest"
        by (cases "codel_held s") auto
      from Cons.prems(2) Deq have "codel_spent s + sum_list (map qp_cost (codel_held s)) < 2 ^ 31"
        by simp
      from codel_dequeue_ok [OF Cons.prems(1) h this] obtain s1 where
        s1: "codel_dequeue s = Inr (p, s1)" "codel_ok ps s1"
          "codel_spent s1 + sum_list (map qp_cost (codel_held s1))
             \<le> codel_spent s + sum_list (map qp_cost (codel_held s))"
          "codel_tracked (clock_now (snd s)) (fst s) (fst s1)" by blast
      from Cons.prems(3) Deq False s1(1) obtain out1 where
        run: "run_ops (\<lambda>_. codel_enqueue_in) (\<lambda>_. codel_dequeue) codel_empty ops s1 = Inr (out1, s')"
        by (auto simp: andThen_Inr_iff)
      have "codel_spent s1 + sum_list (map qp_cost (codel_held s1 @ enqueued ops)) < 2 ^ 31"
        using s1(3) Cons.prems(2) Deq by simp
      note IH = Cons.IH [OF s1(2) this run]
      have held: "dq_internal_queue (fst r) = codel_held r" for r by (cases r) (simp add: codel_held_def)
      have "unat (clock_now (snd s)) < 2 ^ 62"
        using Cons.prems(1) clock_now_bound by (cases s) (simp add: codel_ok_def)
      then have "\<forall>(t, late) \<in> set (examined (cd_target (fst s)) (clock_now (snd s)) (codel_held s) n).
          unat t < 2 ^ 62" for n by (auto dest: examined_times)
      with IH s1 interval [OF s1(2)] False Deq show ?thesis
        by (simp add: codel_tracked_def held timer_after_append ball_Un)
    qed
  qed
qed simp

text \<open>The front packet is late, and so were all that left since an interval ago or longer.\<close>

definition overdue :: "codel_packet_queue \<Rightarrow> (u64 \<times> bool) list \<Rightarrow> u64 \<Rightarrow> queued_packet \<Rightarrow>
    queued_packet list \<Rightarrow> bool" where
  "overdue q0 hist now p behind \<longleftrightarrow> packet_late (cd_target q0) now p behind \<and>
     (case late_since hist of None \<Rightarrow> False | Some t0 \<Rightarrow> unat t0 + unat (cd_interval q0) \<le> unat now)"

text \<open>
  C26. What CoDel hands out and when it drops, after any sequence of calls: the front packet comes
  out, whatever its delay, and only packets right behind it are dropped. Some are dropped exactly
  when the front packet is late (it stayed for the target at least, and more than one full packet
  waits behind it), every packet that left since a time \<open>t0\<close> at least an interval ago was late too,
  and the queue is not in its dropping state before the next drop is due.
\<close>
theorem codel_drops_only_late:
  assumes "codel_init args = Inr q0" "clock_ok w"
    and "qp_bytes (enqueued ops) + length (enqueued ops) < 2 ^ 31"
  shows "\<exists>out q w'. run_ops (\<lambda>_. codel_enqueue_in) (\<lambda>_. codel_dequeue) codel_empty ops (q0, w)
      = Inr (out, q, w') \<and>
    (\<forall>p behind. dq_internal_queue q = p # behind \<longrightarrow>
      (\<exists>q'. codel_dequeue (q, w') = Inr (p, q', clock_tick w') \<and>
        suffix (dq_internal_queue q') behind \<and>
        (dq_internal_queue q' \<noteq> behind \<longleftrightarrow>
          overdue q0 (codel_past ops (q0, w)) (clock_now w') p behind \<and>
          (cd_dropping q \<longrightarrow> cd_drop_next q \<le> clock_now w'))))"
proof -
  note ok = codel_init_ok [OF assms(1,2)]
  have cap: "codel_spent (q0, w) + sum_list (map qp_cost (codel_held (q0, w) @ enqueued ops)) < 2 ^ 31"
    unfolding ok(2,3) using assms(3) by (simp add: sum_qp_cost)
  from codel.run_ops_total [OF ok(1) cap] obtain out q w' where
    run: "run_ops (\<lambda>_. codel_enqueue_in) (\<lambda>_. codel_dequeue) codel_empty ops (q0, w)
      = Inr (out, q, w')" by auto
  let ?hist = "codel_past ops (q0, w)"
  have q0: "cd_first_above_time q0 = 0" "0 < cd_interval q0"
    using codel_init_timer [OF assms(1)] by simp_all
  from codel_past_timer [OF ok(1) cap run] q0 have
    past: "codel_ok (codel_params q0) (q, w')" "codel_spent (q, w') + sum_list (map qp_cost (codel_held (q, w'))) < 2 ^ 31"
      "cd_first_above_time q = timer_after (cd_interval q0) 0 ?hist"
      "\<forall>(t, late) \<in> set ?hist. unat t < 2 ^ 62" by simp_all
  have "codel_may_drop (clock_now w') q \<longleftrightarrow> overdue q0 ?hist (clock_now w') p behind"
    if "dq_internal_queue q = p # behind" for p behind
    using that past(1) timer_runs_out [OF past(4) q0(2)] past(3)
    by (simp add: codel_may_drop_def codel_late_def overdue_def codel_ok_def codel_params_def)
  moreover have "\<exists>q'. codel_dequeue (q, w') = Inr (p, q', clock_tick w') \<and>
      suffix (dq_internal_queue q') behind \<and>
      (dq_internal_queue q' \<noteq> behind \<longleftrightarrow> codel_may_drop (clock_now w') q \<and>
        (cd_dropping q \<longrightarrow> cd_drop_next q \<le> clock_now w'))"
    if "dq_internal_queue q = p # behind" for p behind
    using codel_dequeue_ok [OF past(1) _ past(2), of p behind] that by (auto simp: codel_held_def)
  ultimately show ?thesis using run by fastforce
qed

theorem codel_drops_only_late_witness:
  "\<exists>q0. codel_init ''packets=2 target=5 interval=100'' = Inr q0 \<and>
    (\<exists>out q w'. run_ops (\<lambda>_::unit. codel_enqueue_in) (\<lambda>_. codel_dequeue) codel_empty
      [Enq () (sample_packet ''ab''), Enq () (sample_packet ''cd''), Enq () (sample_packet ''e'')]
      (q0, codel_clock) = Inr (out, q, w') \<and>
      (\<forall>p behind. dq_internal_queue q = p # behind \<longrightarrow>
        (\<exists>q'. codel_dequeue (q, w') = Inr (p, q', clock_tick w') \<and> dq_internal_queue q' = behind)))"
proof -
  let ?ops = "[Enq () (sample_packet ''ab''), Enq () (sample_packet ''cd''), Enq () (sample_packet ''e'')]"
  have "qp_bytes (enqueued ?ops) + length (enqueued ?ops) < 2 ^ 31"
    by (simp add: sample_packet_def mk_queued_packet_def)
  note history = codel_drops_only_late [OF codel_sample_init codel_clock_ok this]
  have "\<not> overdue codel_sample (codel_past ?ops (codel_sample, codel_clock)) now p behind"
    for now p behind
    by (auto simp: overdue_def late_since_def split: sum.split)
  with history have "\<exists>out q w'. run_ops (\<lambda>_::unit. codel_enqueue_in) (\<lambda>_. codel_dequeue) codel_empty ?ops
      (codel_sample, codel_clock) = Inr (out, q, w') \<and>
      (\<forall>p behind. dq_internal_queue q = p # behind \<longrightarrow>
        (\<exists>q'. codel_dequeue (q, w') = Inr (p, q', clock_tick w') \<and> dq_internal_queue q' = behind))"
    by fastforce
  with codel_sample_init show ?thesis by blast
qed

text \<open>
  The control law: the time to the next drop is the whole interval at count 1, shrinks as the
  count grows, never exceeds the interval, and is undefined at count 0.
\<close>
theorem codel_control_law:
  assumes "0 < unat c" "c \<le> c'"
  shows "\<exists>gap gap'. control_law interval t c = Inr (t + of_nat gap) \<and>
     control_law interval t c' = Inr (t + of_nat gap') \<and>
     gap' \<le> gap \<and> gap \<le> unat interval \<and> (c = 1 \<longrightarrow> gap = unat interval)"
proof -
  let ?g = "\<lambda>c :: u32. nat (law_gap (unat interval) (unat c))"
  have c: "0 < unat c" "0 < unat c'" "unat c \<le> unat c'" "c \<noteq> 0" "c' \<noteq> 0"
    using assms by (auto simp: word_le_nat_alt)
  have u: "unat x < 2 ^ 32" for x :: u32 using unat_u32_less [of x] by simp
  note b = law_gap_bounds [OF c(1) u u] law_gap_bounds [OF c(2) u u]
  have "control_law interval t c = Inr (t + of_nat (?g c))"
    "control_law interval t c' = Inr (t + of_nat (?g c'))"
    using control_law_gap [OF c(4)] control_law_gap [OF c(5)] b(1) [of interval] b(3) [of interval]
    by (simp_all add: of_nat_nat)
  moreover have "?g c' \<le> ?g c"
    using law_gap_antimono [OF c(1,3) u] by (intro nat_mono)
  moreover have "?g c \<le> unat interval" using b(2) [of interval] by (simp add: nat_le_iff)
  moreover have "c = 1 \<longrightarrow> ?g c = unat interval" using law_gap_1 [OF u [of interval]] by simp
  ultimately show ?thesis by blast
qed

theorem codel_control_law_witness:
  "\<exists>gap gap'. control_law 100 7 1 = Inr (7 + of_nat gap) \<and> control_law 100 7 4 = Inr (7 + of_nat gap') \<and>
     gap' \<le> gap \<and> gap = 100"
  using codel_control_law [of 1 4 100 7] by auto

end
