(* ===== verification/Pie_Queue.thy ===== *)
theory Pie_Queue
  imports Main Prelude Float_Round Kernel Packets Packet_Queues
begin

text \<open>
  \<open>src/packet/pie_packet_queue.hh/.cc\<close>: the queue that drops at \<open>enqueue\<close> with a probability that a
  controller computes every 30 ms from the estimated delay. The periods missed since the last call
  are made up in a loop. A draw of the random engine is an argument of \<open>enqueue\<close>; the clock is read
  from the world. The members \<open>alpha_\<close>, \<open>beta_\<close>, \<open>t_update_\<close> and \<open>dq_threshold_\<close> are only ever set
  by the constructor, to the constants below.
\<close>

section \<open>State\<close>

record pie_packet_queue = dropping_packet_queue +
  pi_qdelay_ref :: u32
  pi_max_burst :: u32
  pi_drop_prob :: rat
  pi_burst_allowance :: u32
  pi_qdelay_old :: u32
  pi_current_qdelay :: u32
  pi_dq_count :: u32
  pi_dq_tstamp :: u32
  pi_avg_dq_rate :: u32
  pi_last_update :: u64

definition pie_type :: string where "pie_type = ''pie''"

definition pie_PACKET_SIZE :: u32 where "pie_PACKET_SIZE = 1504"

definition DQ_COUNT_INVALID :: u32 where "DQ_COUNT_INVALID = - 1"

definition pie_alpha :: rat where "pie_alpha = fl64 (125 / 1000)"

definition pie_beta :: rat where "pie_beta = fl64 (125 / 100)"

definition t_update :: u32 where "t_update = 30"

definition dq_threshold :: u32 where "dq_threshold = 16384"

definition pie_init :: "string \<Rightarrow> world \<Rightarrow> (pie_packet_queue \<times> world) res" where
  "pie_init args w =
     andThen (dropping_init args) (\<lambda>d.
     andThen (get_arg args ''qdelay_ref'') (\<lambda>qdelay_ref.
     andThen (get_arg args ''max_burst'') (\<lambda>max_burst.
     andThen (timestamp w) (\<lambda>(last_update, w').
       if qdelay_ref = 0 \<or> max_burst = 0
       then Inl (Runtime_Error ''PIE AQM queue must have qdelay_ref and max_burst parameters'')
       else Inr (dropping_packet_queue.extend d
              \<lparr>pi_qdelay_ref = qdelay_ref, pi_max_burst = max_burst, pi_drop_prob = 0,
               pi_burst_allowance = 0, pi_qdelay_old = 0, pi_current_qdelay = 0,
               pi_dq_count = DQ_COUNT_INVALID, pi_dq_tstamp = 0, pi_avg_dq_rate = 0,
               pi_last_update = last_update\<rparr>, w')))))"

section \<open>The controller\<close>

text \<open>
  The new drop probability of a period, from the old one, the two delays (as \<open>int\<close> differences of
  unsigned values) and \<open>update_prob\<close>. Decimal literals are the doubles nearest to them.
\<close>

definition pie_prob :: "rat \<Rightarrow> u32 \<Rightarrow> u32 \<Rightarrow> u32 \<Rightarrow> bool \<Rightarrow> rat" where
  "pie_prob drop_prob qdelay_ref qdelay_old current_qdelay update_prob =
     (let p = fl64 (fl64 (pie_alpha * of_int (sint (current_qdelay - qdelay_ref))) +
                    fl64 (pie_beta * of_int (sint (current_qdelay - qdelay_old))));
          p = (if drop_prob < fl64 (1 / 100) then fl64 (p / 128)
               else if drop_prob < fl64 (1 / 10) then fl64 (p / 32)
               else fl64 (p / 16));
          drop_prob = fl64 (drop_prob + p);
          (drop_prob, update_prob) =
            (if drop_prob < 0 then (0, update_prob)
             else if 1 < drop_prob then (1, False) else (drop_prob, update_prob))
      in if current_qdelay = 0 \<and> qdelay_old = 0 \<and> update_prob
         then fl64 (drop_prob * fl64 (98 / 100)) else drop_prob)"

text \<open>\<open>(int) burst_allowance_ - (int) t_update_\<close>.\<close>

definition burst_minus_period :: "u32 \<Rightarrow> int res" where
  "burst_minus_period burst =
     (let d = sint burst - sint t_update
      in if d < - (2 ^ 31) then Inl (Undefined ''signed overflow'') else Inr d)"

text \<open>The estimated delay, and the return to the burst state.\<close>

definition estimated_delay :: "u32 \<Rightarrow> u32 \<Rightarrow> u32" where
  "estimated_delay bytes avg_dq_rate = (if 0 < avg_dq_rate then bytes div avg_dq_rate else 0)"

definition pie_reset :: "pie_packet_queue \<Rightarrow> pie_packet_queue" where
  "pie_reset q =
     (if pi_drop_prob q = 0 \<and> pi_current_qdelay q < pi_qdelay_ref q div 2 \<and>
         pi_qdelay_old q < pi_qdelay_ref q div 2 \<and> 0 < pi_avg_dq_rate q
      then q\<lparr>pi_dq_count := DQ_COUNT_INVALID, pi_avg_dq_rate := 0,
             pi_burst_allowance := pi_max_burst q\<rparr>
      else q)"

text \<open>One round of \<open>calculate_drop_prob\<close>; \<open>size_bytes ()\<close> is evaluated in every round.\<close>

definition pie_period :: "pie_packet_queue \<Rightarrow> pie_packet_queue res" where
  "pie_period q =
     andThen (dq_size_bytes q) (\<lambda>bytes.
       let qdelay_old = pi_current_qdelay q;
           current_qdelay = estimated_delay bytes (pi_avg_dq_rate q);
           update_prob = (\<not> (current_qdelay = 0 \<and> bytes \<noteq> 0));
           drop_prob = pie_prob (pi_drop_prob q) (pi_qdelay_ref q) qdelay_old current_qdelay update_prob
       in andThen (burst_minus_period (pi_burst_allowance q)) (\<lambda>b.
            Inr (pie_reset (q\<lparr>pi_qdelay_old := qdelay_old, pi_current_qdelay := current_qdelay,
                     pi_drop_prob := drop_prob, pi_burst_allowance := word_of_int (max 0 b),
                     pi_last_update := pi_last_update q + ucast t_update\<rparr>))))"

text \<open>What no operation changes, and what the reset leaves.\<close>

definition pie_params :: "pie_packet_queue \<Rightarrow> u32 \<times> u32 \<times> u32 \<times> u32" where
  "pie_params q = (dq_packet_limit q, dq_byte_limit q, pi_qdelay_ref q, pi_max_burst q)"

lemma pie_reset_fields [simp]:
  "pi_last_update (pie_reset q) = pi_last_update q" "pi_drop_prob (pie_reset q) = pi_drop_prob q"
  "pi_current_qdelay (pie_reset q) = pi_current_qdelay q" "pi_qdelay_old (pie_reset q) = pi_qdelay_old q"
  "dq_internal_queue (pie_reset q) = dq_internal_queue q"
  "dq_inv (pie_reset q) = dq_inv q" "pie_params (pie_reset q) = pie_params q"
  by (simp_all add: pie_reset_def dq_inv_def dq_wf_def dq_fits_def pie_params_def)

lemma pie_period_clock:
  "pie_period q = Inr q' \<Longrightarrow> pi_last_update q' = pi_last_update q + ucast t_update"
  by (auto simp: pie_period_def Let_def andThen_Inr_iff)

lemma pie_period_nearer:
  assumes "ucast t_update < now - (prev :: u64)"
  shows "unat (now - (prev + ucast t_update)) + 30 = unat (now - prev)"
proof -
  define d where "d = now - prev"
  have t: "ucast t_update = (30 :: u64)" by (simp add: t_update_def)
  with assms have d: "30 < d" by (simp add: d_def)
  have "unat (d - 30) = unat d - 30" using d by (subst unat_diff_le) simp_all
  moreover have "now - (prev + 30) = d - 30" by (simp add: d_def)
  moreover have "30 < unat d" using d by (simp add: word_less_nat_alt)
  ultimately show ?thesis by (simp only: t d_def [symmetric])
qed

function pie_catch_up :: "u64 \<Rightarrow> pie_packet_queue \<Rightarrow> pie_packet_queue res" where
  "pie_catch_up now q =
     (if ucast t_update < now - pi_last_update q
      then andThen (pie_period q) (pie_catch_up now) else Inr q)"
  by pat_completeness auto
termination
proof (relation "measure (\<lambda>(now, q). unat (now - pi_last_update q))")
  fix now q q' assume "ucast t_update < now - pi_last_update q" "pie_period q = Inr q'"
  with pie_period_nearer [of now "pi_last_update q"] pie_period_clock [of q q']
  show "((now, q'), (now, q)) \<in> measure (\<lambda>(now, q). unat (now - pi_last_update q))" by simp
qed simp

declare pie_catch_up.simps [simp del]

definition calculate_drop_prob ::
    "pie_packet_queue \<times> world \<Rightarrow> (pie_packet_queue \<times> world) res" where
  "calculate_drop_prob = (\<lambda>(q, w).
     andThen (timestamp w) (\<lambda>(now, w').
     andThen (pie_catch_up now q) (\<lambda>q'. Inr (q', w'))))"

section \<open>Operations\<close>

definition drop_early :: "rat \<Rightarrow> pie_packet_queue \<Rightarrow> bool res" where
  \<comment> \<open>the first argument is what the uniform distribution yields, if asked\<close>
  "drop_early random q =
     (if 0 < pi_burst_allowance q then Inr False
      else if pi_qdelay_old q < pi_qdelay_ref q div 2 \<and> pi_drop_prob q < fl64 (2 / 10) then Inr False
      else andThen (dq_size_bytes q) (\<lambda>bytes.
        if bytes < 2 * pie_PACKET_SIZE then Inr False
        else Inr (random < pi_drop_prob q)))"

definition pie_enqueue ::
    "rat \<Rightarrow> queued_packet \<Rightarrow> pie_packet_queue \<times> world \<Rightarrow> (pie_packet_queue \<times> world) res" where
  "pie_enqueue random p s =
     andThen (calculate_drop_prob s) (\<lambda>(q, w).
     andThen (dq_size_bytes q) (\<lambda>b.
     andThen (dq_size_packets q) (\<lambda>n.
       if \<not> dq_good_with q (b + of_nat (length (qp_contents p))) (n + 1) then Inr (q, w)
       else
         andThen (drop_early random q) (\<lambda>drop.
           let q' = (if \<not> drop then dq_accept p q else q)
           in andThen (dq_good q') (\<lambda>ok. andThen (assertE ok ''good()'') (\<lambda>_. Inr (q', w)))))))"

text \<open>The estimate of the departure rate, updated when a packet of \<open>len\<close> bytes has left.\<close>

definition pie_measure :: "u32 \<Rightarrow> u32 \<Rightarrow> u32 \<Rightarrow> pie_packet_queue \<Rightarrow> pie_packet_queue" where
  "pie_measure now bytes len q =
     (let q = (if dq_threshold \<le> bytes \<and> pi_dq_count q = DQ_COUNT_INVALID
               then q\<lparr>pi_dq_tstamp := now, pi_dq_count := 0\<rparr> else q)
      in if pi_dq_count q = DQ_COUNT_INVALID then q
         else
           let q = q\<lparr>pi_dq_count := pi_dq_count q + len\<rparr>;
               dtime = now - pi_dq_tstamp q
           in if \<not> (dq_threshold < pi_dq_count q \<and> 0 < dtime) then q
              else
                let rate_sample = pi_dq_count q div dtime;
                    q = q\<lparr>pi_avg_dq_rate :=
                          (if pi_avg_dq_rate q = 0 then rate_sample
                           else (pi_avg_dq_rate q - drop_bit 3 (pi_avg_dq_rate q)) + drop_bit 3 rate_sample)\<rparr>;
                    q = (if bytes < dq_threshold then q\<lparr>pi_dq_count := DQ_COUNT_INVALID\<rparr>
                         else q\<lparr>pi_dq_count := 0, pi_dq_tstamp := now\<rparr>)
                in if 0 < pi_burst_allowance q then
                     (if dtime < pi_burst_allowance q
                      then q\<lparr>pi_burst_allowance := pi_burst_allowance q - dtime\<rparr>
                      else q\<lparr>pi_burst_allowance := 0\<rparr>)
                   else q)"

definition pie_dequeue ::
    "pie_packet_queue \<times> world \<Rightarrow> (queued_packet \<times> pie_packet_queue \<times> world) res" where
  "pie_dequeue = (\<lambda>(q, w).
     andThen (dq_dequeue q) (\<lambda>(ret, q).
     andThen (timestamp w) (\<lambda>(now, w).
     andThen (dq_size_bytes q) (\<lambda>bytes.
     andThen (calculate_drop_prob
                (pie_measure (ucast now) bytes (of_nat (length (qp_contents ret))) q, w)) (\<lambda>(q, w).
       Inr (ret, q, w))))))"

section \<open>The controller keeps its state sound\<close>

lemma fl64_bounds: "0 \<le> x \<Longrightarrow> x \<le> 1 \<Longrightarrow> 0 \<le> fl64 x \<and> fl64 x \<le> 1"
  using fl64_mono [of 0 x] fl64_mono [of x 1] by simp

lemma pie_prob_bounds: "0 \<le> pie_prob dp ref old cur up \<and> pie_prob dp ref old cur up \<le> 1"
proof -
  define p where "p = fl64 (fl64 (pie_alpha * of_int (sint (cur - ref))) +
    fl64 (pie_beta * of_int (sint (cur - old))))"
  define p' where "p' = (if dp < fl64 (1 / 100) then fl64 (p / 128)
    else if dp < fl64 (1 / 10) then fl64 (p / 32) else fl64 (p / 16))"
  define d where "d = fl64 (dp + p')"
  define d' where "d' = (if d < 0 then 0 else if 1 < d then 1 else d)"
  have d': "0 \<le> d'" "d' \<le> 1" by (auto simp: d'_def)
  have "0 \<le> fl64 (98 / 100) \<and> fl64 (98 / 100) \<le> 1" by (rule fl64_bounds) simp_all
  then have "0 \<le> d' * fl64 (98 / 100)" "d' * fl64 (98 / 100) \<le> 1"
    using d' by (auto intro: mult_le_one)
  then have "0 \<le> fl64 (d' * fl64 (98 / 100)) \<and> fl64 (d' * fl64 (98 / 100)) \<le> 1"
    by (rule fl64_bounds)
  moreover have "pie_prob dp ref old cur up \<in> {d', fl64 (d' * fl64 (98 / 100))}"
    unfolding pie_prob_def Let_def p_def [symmetric] p'_def [symmetric] d_def [symmetric]
    by (simp add: d'_def)
  ultimately show ?thesis using d' by auto
qed

definition pi_inv :: "pie_packet_queue \<Rightarrow> bool" where
  "pi_inv q \<longleftrightarrow> dq_inv q \<and> 0 \<le> pi_drop_prob q \<and> pi_drop_prob q \<le> 1 \<and>
     unat (pi_burst_allowance q) < 2 ^ 31 \<and> unat (pi_max_burst q) < 2 ^ 31"

lemma burst_minus_period_ok:
  assumes "unat burst < 2 ^ 31"
  shows "\<exists>b. burst_minus_period burst = Inr b \<and> unat (word_of_int (max 0 b) :: u32) < 2 ^ 31"
proof -
  define v where "v = unat burst"
  have s: "sint burst = int v" using sint_uint_small [of burst] assms by (simp add: v_def)
  define b where "b = int v - 30"
  have t: "sint t_update = 30" by (simp add: t_update_def)
  have "\<not> b < - (2 ^ 31)" by (simp add: b_def)
  then have "burst_minus_period burst = Inr b"
    unfolding burst_minus_period_def s t Let_def b_def [symmetric] by (simp only: if_False)
  moreover have "nat (max 0 b) < 2 ^ 31" using assms by (simp add: b_def flip: v_def)
  moreover from this have "unat (of_nat (nat (max 0 b)) :: u32) = nat (max 0 b)"
    by (intro unat_of_nat_small) simp
  moreover have "word_of_int (max 0 b) = (of_nat (nat (max 0 b)) :: u32)" by simp
  ultimately show ?thesis by metis
qed

lemma pie_reset_inv: "pi_inv q \<Longrightarrow> pi_inv (pie_reset q)"
  by (auto simp: pi_inv_def pie_reset_def dq_inv_def dq_wf_def dq_fits_def)

lemma pie_period_ok:
  assumes "pi_inv q"
  shows "\<exists>q'. pie_period q = Inr q' \<and> pi_inv q' \<and> pie_params q' = pie_params q \<and>
    dq_internal_queue q' = dq_internal_queue q"
proof -
  have wf: "dq_wf q" using assms by (simp add: pi_inv_def dq_inv_def)
  from burst_minus_period_ok [of "pi_burst_allowance q"] assms obtain b where
    b: "burst_minus_period (pi_burst_allowance q) = Inr b"
       "unat (word_of_int (max 0 b) :: u32) < 2 ^ 31" by (auto simp: pi_inv_def)
  have keep: "pi_inv (q\<lparr>pi_qdelay_old := o', pi_current_qdelay := c, pi_drop_prob := pie_prob d r o' c u,
      pi_burst_allowance := word_of_int (max 0 b), pi_last_update := t\<rparr>)" for o' c d r u t
    using assms b(2) pie_prob_bounds [of d r o' c u]
    by (simp add: pi_inv_def dq_inv_def dq_wf_def dq_fits_def)
  show ?thesis
    using b(1) pie_reset_inv [OF keep]
    by (simp add: pie_period_def Let_def dq_wf_sizes [OF wf]) (simp add: pie_params_def)
qed

lemma pie_catch_up_ok:
  assumes "pi_inv q"
  shows "\<exists>q'. pie_catch_up now q = Inr q' \<and> pi_inv q' \<and> pie_params q' = pie_params q \<and>
    dq_internal_queue q' = dq_internal_queue q \<and> now - pi_last_update q' \<le> 30"
  using assms
proof (induction now q rule: pie_catch_up.induct)
  case (1 now q)
  show ?case
  proof (cases "ucast t_update < now - pi_last_update q")
    case True
    from pie_period_ok [OF "1.prems"] obtain q1 where q1: "pie_period q = Inr q1" "pi_inv q1"
      "pie_params q1 = pie_params q" "dq_internal_queue q1 = dq_internal_queue q" by blast
    from "1.IH" [OF True q1(1,2)] q1 True show ?thesis
      by (subst pie_catch_up.simps) simp
  next
    case False
    then have "now - pi_last_update q \<le> 30" by (simp add: t_update_def)
    with False "1.prems" show ?thesis by (subst pie_catch_up.simps) simp
  qed
qed

lemma calculate_drop_prob_ok:
  assumes "pi_inv q" "clock_ok w"
  shows "\<exists>q' w'. calculate_drop_prob (q, w) = Inr (q', w') \<and> pi_inv q' \<and> clock_ok w' \<and>
    pie_params q' = pie_params q \<and> dq_internal_queue q' = dq_internal_queue q \<and>
    clock_now w - pi_last_update q' \<le> 30"
  using pie_catch_up_ok [OF assms(1), of "clock_now w"] assms(2)
  by (auto simp: calculate_drop_prob_def timestamp_ok)

lemma sub_keeps_small: "(d :: u32) < b \<Longrightarrow> unat b < n \<Longrightarrow> unat (b - d) < n"
  by (simp add: unat_diff_le less_imp_diff_less)

lemma pie_measure_ok:
  assumes "pi_inv q"
  shows "pi_inv (pie_measure now bytes len q)" "pie_params (pie_measure now bytes len q) = pie_params q"
    "dq_internal_queue (pie_measure now bytes len q) = dq_internal_queue q"
  using assms
  by (auto simp: pie_measure_def Let_def pi_inv_def pie_params_def dq_inv_def dq_wf_def dq_fits_def
      sub_keeps_small)

section \<open>The queue meets the interface\<close>

definition pie_held :: "pie_packet_queue \<times> world \<Rightarrow> queued_packet list" where
  "pie_held = (\<lambda>(q, w). dq_internal_queue q)"

definition pie_empty :: "pie_packet_queue \<times> world \<Rightarrow> bool" where
  "pie_empty = (\<lambda>(q, w). dq_empty q)"

definition pie_ok :: "u32 \<times> u32 \<times> u32 \<times> u32 \<Rightarrow> pie_packet_queue \<times> world \<Rightarrow> bool" where
  "pie_ok ps = (\<lambda>(q, w). pi_inv q \<and> pie_params q = ps \<and> clock_ok w)"

lemmas pie_state = pie_held_def pie_empty_def pie_ok_def

lemma dq_accept_pie_state [simp]:
  "pie_params (dq_accept p q) = pie_params q" "pie_params (dq_pop q) = pie_params q"
  "pi_inv (dq_accept p q) \<longleftrightarrow> dq_inv (dq_accept p q) \<and> 0 \<le> pi_drop_prob q \<and> pi_drop_prob q \<le> 1 \<and>
     unat (pi_burst_allowance q) < 2 ^ 31 \<and> unat (pi_max_burst q) < 2 ^ 31"
  "pi_inv (dq_pop q) \<longleftrightarrow> dq_inv (dq_pop q) \<and> 0 \<le> pi_drop_prob q \<and> pi_drop_prob q \<le> 1 \<and>
     unat (pi_burst_allowance q) < 2 ^ 31 \<and> unat (pi_max_burst q) < 2 ^ 31"
  by (simp_all add: pie_params_def pi_inv_def) (simp_all add: dq_accept_def dq_pop_def)

lemma drop_early_ok: "dq_wf q \<Longrightarrow> \<exists>d. drop_early random q = Inr d"
  by (auto simp: drop_early_def dq_wf_sizes)

text \<open>The fate of a packet: kept at the back, or not, and only for lack of room or by \<open>drop_early\<close>.\<close>

lemma pie_enqueue_ok:
  assumes "pie_ok ps s" "qp_bytes (pie_held s @ [p]) + length (pie_held s @ [p]) < 2 ^ 31"
  shows "\<exists>q w' q' dropped. calculate_drop_prob s = Inr (q, w') \<and> drop_early random q = Inr dropped \<and>
    pie_held s = dq_internal_queue q \<and> pie_enqueue random p s = Inr (q', w') \<and> pie_ok ps (q', w') \<and>
    dq_internal_queue q' =
      (if dq_fits q (dq_internal_queue q @ [p]) \<and> \<not> dropped then dq_internal_queue q @ [p]
       else dq_internal_queue q)"
proof -
  obtain q0 w where s: "s = (q0, w)" by (cases s)
  with assms have q0: "pi_inv q0" "clock_ok w" "pie_params q0 = ps" by (simp_all add: pie_state)
  from calculate_drop_prob_ok [OF q0(1,2)] obtain q w' where
    q: "calculate_drop_prob s = Inr (q, w')" "pi_inv q" "clock_ok w'" "pie_params q = ps"
      "dq_internal_queue q = dq_internal_queue q0" using s q0(3) by auto
  then have inv: "dq_inv q" "dq_wf q" by (simp_all add: pi_inv_def dq_inv_def)
  from assms(2) s q(5) have room:
    "qp_bytes (dq_internal_queue q @ [p]) + length (dq_internal_queue q @ [p]) < 2 ^ 31"
    by (simp add: pie_state)
  from drop_early_ok [OF inv(2)] obtain d where d: "drop_early random q = Inr d" by blast
  let ?g = "dq_good_with q (of_nat (qp_bytes (dq_internal_queue q)) + of_nat (length (qp_contents p)))
      (of_nat (length (dq_internal_queue q)) + 1)"
  have g: "?g \<longleftrightarrow> dq_fits q (dq_internal_queue q @ [p])" by (rule dq_room_fits [OF room])
  have "dq_good q = Inr True" using inv by (simp add: dq_good_wf dq_inv_def)
  moreover have "dq_good (dq_accept p q) = Inr (dq_fits q (dq_internal_queue q @ [p]))"
    using dq_good_wf [OF dq_wf_accept [OF inv(2) room]] by simp
  ultimately have "pie_enqueue random p s =
      Inr (if dq_fits q (dq_internal_queue q @ [p]) \<and> \<not> d then dq_accept p q else q, w')"
    by (simp add: pie_enqueue_def q(1) dq_wf_sizes [OF inv(2)] g d)
  then show ?thesis
    using q s d inv dq_inv_accept [OF inv(1) room] by (auto simp: pie_state pi_inv_def [of q])
qed

lemma pie_dequeue_ok:
  assumes "pie_ok ps s" "pie_held s = p # rest"
  shows "\<exists>s'. pie_dequeue s = Inr (p, s') \<and> pie_ok ps s' \<and> pie_held s' = rest"
proof -
  obtain q w where s: "s = (q, w)" by (cases s)
  with assms have q: "pi_inv q" "clock_ok w" "pie_params q = ps" "dq_internal_queue q = p # rest"
    by (simp_all add: pie_state)
  then have inv: "dq_inv q" by (simp add: pi_inv_def)
  note deq = dq_dequeue_inv [OF inv q(4)]
  have pop: "pi_inv (dq_pop q)" using deq(2) q(1) by (simp add: pi_inv_def [of q])
  then have bytes: "dq_size_bytes (dq_pop q) = Inr (of_nat (qp_bytes rest))"
    using q(4) by (simp add: dq_wf_sizes dq_inv_def)
  let ?q = "pie_measure (ucast (clock_now w)) (of_nat (qp_bytes rest))
    (of_nat (length (qp_contents p))) (dq_pop q)"
  have "clock_ok (clock_tick w)" using q(2) by simp
  from calculate_drop_prob_ok [OF pie_measure_ok(1) [OF pop] this, of "ucast (clock_now w)"
      "of_nat (qp_bytes rest)" "of_nat (length (qp_contents p))"] obtain q' w' where
    "calculate_drop_prob (?q, clock_tick w) = Inr (q', w')" "pi_inv q'" "clock_ok w'"
    "pie_params q' = ps" "dq_internal_queue q' = rest"
    using pie_measure_ok(2,3) [OF pop, of "ucast (clock_now w)" "of_nat (qp_bytes rest)"
      "of_nat (length (qp_contents p))"] q(3,4) by auto
  then show ?thesis
    using s q(2) deq(1) bytes by (simp add: pie_dequeue_def timestamp_ok pie_state)
qed

interpretation pie: total_packet_queue
  pie_enqueue "\<lambda>_. pie_dequeue" pie_empty pie_held "pie_ok ps" qp_cost "\<lambda>_. 0" "2 ^ 31" for ps
proof unfold_locales
  fix s random p s' assume ok: "pie_ok ps s" "0 + sum_list (map qp_cost (pie_held s @ [p])) < 2 ^ 31"
  from pie_enqueue_ok [OF ok(1), of p random] ok(2) obtain q' w' where e:
    "pie_enqueue random p s = Inr (q', w')" "pie_ok ps (q', w')"
    "pie_held (q', w') = pie_held s @ [p] \<or> pie_held (q', w') = pie_held s"
    by (simp only: sum_qp_cost) (auto simp: pie_held_def split: if_splits)
  then show "\<exists>s'. pie_enqueue random p s = Inr s'" by blast
  assume "pie_enqueue random p s = Inr s'"
  with e show "pie_ok ps s' \<and> sublist (pie_held s') (pie_held s @ [p]) \<and> (0 :: nat) = 0" by auto
next
  fix s p rest assume "pie_ok ps s" "pie_held s = p # rest"
  from pie_dequeue_ok [OF this] this(2)
  show "\<exists>s'. pie_dequeue s = Inr (p, s') \<and> pie_ok ps s' \<and> suffix (pie_held s') rest \<and>
    0 + sum_list (map qp_cost (pie_held s')) \<le> 0 + sum_list (map qp_cost (pie_held s))" by auto
qed (auto simp: pie_state dq_empty_def)

section \<open>Properties\<close>

lemma pie_init_ok:
  assumes "pie_init args w = Inr (q, w')" "clock_ok w" "unat (pi_max_burst q) < 2 ^ 31"
  shows "pie_ok (pie_params q) (q, w')" "pie_held (q, w') = []"
  using assms
  by (auto simp: pie_init_def dropping_init_def andThen_Inr_iff pie_state pi_inv_def dq_inv_def
      dq_wf_def dq_fits_def dropping_packet_queue.defs timestamp_ok split: if_splits)

lemma pie_params_fits: "pie_params q = pie_params r \<Longrightarrow> dq_fits q ps = dq_fits r ps"
  by (simp add: pie_params_def dq_fits_def)

text \<open>
  C27. Every history of a PIE queue runs to its end, whatever numbers the random engine yields: no
  assertion fails, the loop that makes up missed periods ends. What comes out, then what is held, is
  what was enqueued, in order, less the dropped packets, and the limits of the configuration hold.
  (\<open>max_burst\<close> is below \<open>2^31\<close>: the code converts it to \<open>int\<close>.)
\<close>
theorem pie_queue_history:
  assumes "pie_init args w = Inr (q0, w0)" "clock_ok w" "unat (pi_max_burst q0) < 2 ^ 31"
    and "qp_bytes (enqueued ops) + length (enqueued ops) < 2 ^ 31"
  shows "\<exists>out q' w'. run_ops pie_enqueue (\<lambda>_. pie_dequeue) pie_empty ops (q0, w0)
      = Inr (out, q', w') \<and>
    subseq (out @ dq_internal_queue q') (enqueued ops) \<and> dq_fits q0 (dq_internal_queue q')"
proof -
  note ok = pie_init_ok [OF assms(1-3)]
  have cap: "0 + sum_list (map qp_cost (pie_held (q0, w0) @ enqueued ops)) < 2 ^ 31"
    unfolding ok(2) using assms(4) by (simp add: sum_qp_cost)
  from pie.run_ops_total [OF ok(1) cap] obtain out q' w' where
    run: "run_ops pie_enqueue (\<lambda>_. pie_dequeue) pie_empty ops (q0, w0) = Inr (out, q', w')" by auto
  from pie.run_ops_fifo [OF ok(1) cap run] have "pie_ok (pie_params q0) (q', w')"
    "subseq (out @ pie_held (q', w')) (pie_held (q0, w0) @ enqueued ops)" by blast+
  then have "pi_inv q'" "pie_params q' = pie_params q0"
    "subseq (out @ dq_internal_queue q') (enqueued ops)"
    unfolding ok(2) by (simp_all add: pie_state)
  with run show ?thesis
    by (auto simp: pi_inv_def dq_inv_def pie_params_fits [of q' q0])
qed

definition pie_clock :: world where
  "pie_clock = \<lparr>w_clock = (\<lambda>n. (0, 0, 0)), w_clock_calls = 0, w_initial = Some 0,
      w_write = (\<lambda>n c. int c), w_write_calls = 0, w_sent = [], w_read = (\<lambda>fd n. (0, [])),
      w_read_calls = 0, w_received = [], w_euid = 1000, w_egid = 1000, w_files = (\<lambda>f. None),
      w_creatable = (\<lambda>f. True)\<rparr>"

lemma pie_clock_ok: "clock_ok pie_clock" "clock_now pie_clock = 0"
  by (simp_all add: pie_clock_def clock_ok_def clock_now_def clock_at_def)

definition sample_pie :: pie_packet_queue where
  "sample_pie = \<lparr>dq_queue_size_in_bytes = 0,
    dq_queue_size_in_packets = 0, dq_internal_queue = [], dq_packet_limit = 2, dq_byte_limit = 0,
    pi_qdelay_ref = 20, pi_max_burst = 100, pi_drop_prob = 0, pi_burst_allowance = 0,
    pi_qdelay_old = 0, pi_current_qdelay = 0, pi_dq_count = DQ_COUNT_INVALID, pi_dq_tstamp = 0,
    pi_avg_dq_rate = 0, pi_last_update = 0\<rparr>"

lemma sample_pie_new: "pie_init ''packets=2 qdelay_ref=20 max_burst=100'' pie_clock
    = Inr (sample_pie, clock_tick pie_clock)"
proof -
  have "dropping_init ''packets=2 qdelay_ref=20 max_burst=100'' = Inr \<lparr>dq_queue_size_in_bytes = 0,
      dq_queue_size_in_packets = 0, dq_internal_queue = [], dq_packet_limit = 2, dq_byte_limit = 0\<rparr>"
    "get_arg ''packets=2 qdelay_ref=20 max_burst=100'' ''qdelay_ref'' = Inr 20"
    "get_arg ''packets=2 qdelay_ref=20 max_burst=100'' ''max_burst'' = Inr 100"
    by code_simp+
  then show ?thesis
    by (simp add: pie_init_def timestamp_ok pie_clock_ok sample_pie_def dropping_packet_queue.defs)
qed

theorem pie_queue_history_witness:
  "\<exists>out q' w'. run_ops pie_enqueue (\<lambda>_. pie_dequeue) pie_empty
      [Enq 0 (sample_packet ''ab''), Enq 0 (sample_packet ''cd''), Enq 0 (sample_packet ''e''), Deq 0]
      (sample_pie, clock_tick pie_clock) = Inr (out, q', w') \<and> length (dq_internal_queue q') \<le> 2"
  using pie_queue_history [OF sample_pie_new pie_clock_ok(1), of
      "[Enq 0 (sample_packet ''ab''), Enq 0 (sample_packet ''cd''), Enq 0 (sample_packet ''e''), Deq 0]"]
  by (auto simp: sample_packet_def mk_queued_packet_def sample_pie_def dq_fits_def)

text \<open>
  C28. When PIE drops. A packet that fits the limits is kept at the back of the queue unless, after
  the controller has caught up with the clock, the burst allowance is used up, two full packets are
  already waiting, the delay is not low while the probability is below 0.2, and the random number is
  below the drop probability. A packet that does not fit is dropped silently.
\<close>
theorem pie_drop_rule:
  assumes "pi_inv q0" "clock_ok w"
    and "qp_bytes (dq_internal_queue q0 @ [p]) + length (dq_internal_queue q0 @ [p]) < 2 ^ 31"
  shows "\<exists>q w' q'. calculate_drop_prob (q0, w) = Inr (q, w') \<and>
    pie_enqueue random p (q0, w) = Inr (q', w') \<and>
    dq_internal_queue q' =
      (if dq_fits q (dq_internal_queue q0 @ [p]) \<and>
          (0 < pi_burst_allowance q \<or>
           pi_qdelay_old q < pi_qdelay_ref q div 2 \<and> pi_drop_prob q < fl64 (2 / 10) \<or>
           qp_bytes (dq_internal_queue q0) < 2 * 1504 \<or> pi_drop_prob q \<le> random)
       then dq_internal_queue q0 @ [p] else dq_internal_queue q0)"
proof -
  have "pie_ok (pie_params q0) (q0, w)" using assms by (simp add: pie_state)
  from pie_enqueue_ok [OF this, of p random] assms(3) obtain q w' q' d where
    e: "calculate_drop_prob (q0, w) = Inr (q, w')" "drop_early random q = Inr d"
      "dq_internal_queue q0 = dq_internal_queue q" "pie_enqueue random p (q0, w) = Inr (q', w')"
      "dq_internal_queue q' =
        (if dq_fits q (dq_internal_queue q @ [p]) \<and> \<not> d then dq_internal_queue q @ [p]
         else dq_internal_queue q)" by (auto simp: pie_held_def)
  from calculate_drop_prob_ok [OF assms(1,2)] e(1) have "dq_wf q"
    by (simp add: pi_inv_def dq_inv_def)
  moreover have "qp_bytes (dq_internal_queue q) < 2 ^ 32" using assms(3) e(3) by simp
  then have "(of_nat (qp_bytes (dq_internal_queue q)) :: u32) < 2 * pie_PACKET_SIZE
      \<longleftrightarrow> qp_bytes (dq_internal_queue q) < 2 * 1504"
    by (simp add: word_less_nat_alt unat_of_nat_small pie_PACKET_SIZE_def)
  ultimately have "d \<longleftrightarrow> \<not> (0 < pi_burst_allowance q \<or>
      pi_qdelay_old q < pi_qdelay_ref q div 2 \<and> pi_drop_prob q < fl64 (2 / 10) \<or>
      qp_bytes (dq_internal_queue q) < 2 * 1504 \<or> pi_drop_prob q \<le> random)"
    using e(2) by (auto simp: drop_early_def dq_wf_sizes split: if_splits)
  with e show ?thesis by auto
qed

lemma sample_pie_inv: "pi_inv sample_pie"
  by (simp add: sample_pie_def pi_inv_def dq_inv_def dq_wf_def dq_fits_def)

theorem pie_drop_rule_witness:
  "\<exists>q' w'. pie_enqueue (1 / 2) (sample_packet ''ab'') (sample_pie, pie_clock) = Inr (q', w') \<and>
    dq_internal_queue q' = [sample_packet ''ab'']"
proof -
  have q: "dq_internal_queue sample_pie = []" by (simp add: sample_pie_def)
  have "pie_catch_up 0 sample_pie = Inr sample_pie"
    by (subst pie_catch_up.simps) (simp add: sample_pie_def)
  then have "calculate_drop_prob (sample_pie, pie_clock) = Inr (sample_pie, clock_tick pie_clock)"
    by (simp add: calculate_drop_prob_def timestamp_ok pie_clock_ok)
  moreover have "dq_fits sample_pie [sample_packet ''ab'']" by (simp add: dq_fits_def sample_pie_def)
  ultimately show ?thesis
    using pie_drop_rule [OF sample_pie_inv pie_clock_ok(1), of "sample_packet ''ab''" "1 / 2"] q
    by (auto simp: sample_packet_def mk_queued_packet_def)
qed

text \<open>
  C29. The controller. \<open>calculate_drop_prob\<close> returns whatever the time since its last call; it makes up
  every period that has passed (less than one is left), leaves the queued packets alone, and the
  drop probability stays between 0 and 1, rounding errors included.
\<close>
theorem pie_controller:
  assumes "pi_inv q" "clock_ok w"
  shows "\<exists>q' w'. calculate_drop_prob (q, w) = Inr (q', w') \<and>
    0 \<le> pi_drop_prob q' \<and> pi_drop_prob q' \<le> 1 \<and> dq_internal_queue q' = dq_internal_queue q \<and>
    clock_now w - pi_last_update q' \<le> 30 \<and> unat (pi_burst_allowance q') < 2 ^ 31"
  using calculate_drop_prob_ok [OF assms] by (auto simp: pi_inv_def)

theorem pie_controller_witness:
  "\<exists>q' w'. calculate_drop_prob (sample_pie, pie_clock) = Inr (q', w') \<and>
    0 \<le> pi_drop_prob q' \<and> pi_drop_prob q' \<le> 1"
  using pie_controller [OF sample_pie_inv pie_clock_ok(1)] by blast

end
