(* ===== verification/Bytestream_Queue.thy ===== *)
theory Bytestream_Queue
  imports Main Prelude Kernel
begin

text \<open>
  \<open>src/util/bytestream_queue.cc\<close>: the ring buffer that carries a byte stream from one descriptor to
  another in the DNS proxy. \<open>byte_pipe\<close> is what its user relies on, as a locale; the ring buffer is
  refined to a list of bytes and interprets it.
\<close>

section \<open>What a byte pipe promises\<close>

text \<open>The calls of the poller: each direction is served only when its \<open>when_interested\<close> says so.\<close>

datatype pipe_op = Push | Pop

fun run_pipe :: "('s \<Rightarrow> 's res) \<Rightarrow> ('s \<Rightarrow> 's res) \<Rightarrow> ('s \<Rightarrow> bool) \<Rightarrow> ('s \<Rightarrow> bool) \<Rightarrow>
    pipe_op list \<Rightarrow> 's \<Rightarrow> 's res" where
  "run_pipe push pop can_push can_pop [] s = Inr s"
| "run_pipe push pop can_push can_pop (Push # ops) s =
     (if can_push s then andThen (push s) (run_pipe push pop can_push can_pop ops)
      else run_pipe push pop can_push can_pop ops s)"
| "run_pipe push pop can_push can_pop (Pop # ops) s =
     (if can_pop s then andThen (pop s) (run_pipe push pop can_push can_pop ops)
      else run_pipe push pop can_push can_pop ops s)"

locale byte_pipe =
  fixes push pop :: "'s \<Rightarrow> 's res"
    and can_push can_pop :: "'s \<Rightarrow> bool"
    and received content sent :: "'s \<Rightarrow> string"
    and inv :: "'s \<Rightarrow> bool"
  assumes push_error: "inv s \<Longrightarrow> can_push s \<Longrightarrow> push s = Inl e \<Longrightarrow> kernel_error e"
    and push_step: "inv s \<Longrightarrow> can_push s \<Longrightarrow> push s = Inr s' \<Longrightarrow>
      inv s' \<and> sent s' = sent s \<and>
      (\<exists>c. received s' = received s @ c \<and> content s' = content s @ c)"
    and pop_error: "inv s \<Longrightarrow> can_pop s \<Longrightarrow> pop s = Inl e \<Longrightarrow> kernel_error e"
    and pop_step: "inv s \<Longrightarrow> can_pop s \<Longrightarrow> pop s = Inr s' \<Longrightarrow>
      inv s' \<and> received s' = received s \<and>
      (\<exists>c. sent s' = sent s @ c \<and> content s = c @ content s')"
begin

lemma run_pipe_stream:
  assumes "inv s"
  shows "case run_pipe push pop can_push can_pop ops s of
      Inl e \<Rightarrow> kernel_error e
    | Inr s' \<Rightarrow> inv s' \<and>
        (\<exists>r. received s' = received s @ r \<and> sent s' @ content s' = sent s @ content s @ r)"
  using assms
proof (induction ops arbitrary: s)
  case Nil
  then show ?case by simp
next
  case (Cons op ops)
  define step where "step = (case op of Push \<Rightarrow> push | Pop \<Rightarrow> pop)"
  define can where "can = (case op of Push \<Rightarrow> can_push | Pop \<Rightarrow> can_pop)"
  have run: "run_pipe push pop can_push can_pop (op # ops) s =
      (if can s then andThen (step s) (run_pipe push pop can_push can_pop ops)
       else run_pipe push pop can_push can_pop ops s)"
    by (cases op) (simp_all add: step_def can_def)
  show ?case
  proof (cases "can s")
    case True
    show ?thesis
    proof (cases "step s")
      case (Inl e)
      then have "kernel_error e"
        using True push_error [OF Cons.prems] pop_error [OF Cons.prems]
        by (cases op) (simp_all add: step_def can_def)
      with Inl True run show ?thesis by simp
    next
      case (Inr s1)
      then have "inv s1 \<and> (\<exists>r. received s1 = received s @ r \<and>
          sent s1 @ content s1 = sent s @ content s @ r)"
        using True push_step [OF Cons.prems] pop_step [OF Cons.prems]
        by (cases op) (fastforce simp: step_def can_def)+
      with Cons.IH [of s1] Inr True run show ?thesis
        by (auto split: sum.splits)
    qed
  next
    case False
    with Cons run show ?thesis by simp
  qed
qed

end

section \<open>The ring buffer\<close>

record bytestream_queue =
  bs_buffer :: string
  bs_next_byte_to_push :: u64
  bs_next_byte_to_pop :: u64

datatype bs_result = Success | EndOfFile

definition bytestream_queue_init :: "u64 \<Rightarrow> bytestream_queue res" where
  "bytestream_queue_init s =
     andThen (assertE (1 < s) ''size > 1'') (\<lambda>_.
       Inr \<lparr>bs_buffer = replicate (unat s) (CHR 0x00), bs_next_byte_to_push = 0,
            bs_next_byte_to_pop = 0\<rparr>)"

definition bs_size :: "bytestream_queue \<Rightarrow> u64" where
  "bs_size q = of_nat (length (bs_buffer q))"

definition available_to_pop :: "bytestream_queue \<Rightarrow> u64" where
  "available_to_pop q = bs_next_byte_to_push q - bs_next_byte_to_pop q
     + (if bs_next_byte_to_push q < bs_next_byte_to_pop q then bs_size q else 0)"

definition available_to_push :: "bytestream_queue \<Rightarrow> u64" where
  "available_to_push q = bs_next_byte_to_pop q - bs_next_byte_to_push q - 1
     + (if bs_next_byte_to_push q < bs_next_byte_to_pop q then 0 else bs_size q)"

definition space_available :: "bytestream_queue \<Rightarrow> bool" where
  "space_available q \<longleftrightarrow> 0 < available_to_push q"

definition non_empty :: "bytestream_queue \<Rightarrow> bool" where
  "non_empty q \<longleftrightarrow> 0 < available_to_pop q"

text \<open>\<open>buffer_.at\<close> throws out of range; \<open>memcpy\<close> overwrites.\<close>

definition bs_memcpy :: "nat \<Rightarrow> string \<Rightarrow> string \<Rightarrow> string res" where
  "bs_memcpy at chunk buffer =
     (if length buffer \<le> at then Inl Out_Of_Range
      else if length buffer < at + length chunk then Inl (Undefined ''memcpy past the buffer'')
      else Inr (take at buffer @ chunk @ drop (at + length chunk) buffer))"

definition bs_push :: "bytestream_queue \<Rightarrow> file_descriptor \<Rightarrow> world \<Rightarrow>
    (bs_result \<times> bytestream_queue \<times> file_descriptor \<times> world) res" where
  "bs_push q fd w =
     andThen (assertE (space_available q) ''space_available()'') (\<lambda>_.
     let contiguous_space_to_push = available_to_push q;
         contiguous_space_to_push =
           (if bs_size q \<le> bs_next_byte_to_push q + contiguous_space_to_push
            then bs_size q - bs_next_byte_to_push q else contiguous_space_to_push)
     in andThen (assertE (0 < contiguous_space_to_push) ''contiguous_space_to_push > 0'') (\<lambda>_.
        andThen (fd_read (unat contiguous_space_to_push) fd w) (\<lambda>(new_chunk, fd', w').
          if new_chunk = [] then Inr (EndOfFile, q, fd', w')
          else
            andThen (assertE (of_nat (length new_chunk) \<le> bs_size q - bs_next_byte_to_push q)
                       ''new_chunk.size() <= buffer_.size() - next_byte_to_push'') (\<lambda>_.
            andThen (bs_memcpy (unat (bs_next_byte_to_push q)) new_chunk (bs_buffer q)) (\<lambda>buffer.
              let next = bs_next_byte_to_push q + of_nat (length new_chunk)
              in andThen (assertE (next \<le> bs_size q) ''next_byte_to_push <= buffer_.size()'') (\<lambda>_.
                 let q' = q\<lparr>bs_buffer := buffer,
                            bs_next_byte_to_push := (if next = bs_size q then 0 else next)\<rparr>
                 in andThen (assertE (non_empty q') ''non_empty()'') (\<lambda>_.
                      Inr (Success, q', fd', w'))))))))"

definition bs_pop :: "bytestream_queue \<Rightarrow> file_descriptor \<Rightarrow> world \<Rightarrow>
    (bytestream_queue \<times> file_descriptor \<times> world) res" where
  "bs_pop q fd w =
     andThen (assertE (non_empty q) ''non_empty()'') (\<lambda>_.
     let contiguous_space_to_pop = available_to_pop q;
         contiguous_space_to_pop =
           (if bs_size q \<le> bs_next_byte_to_pop q + contiguous_space_to_pop
            then bs_size q - bs_next_byte_to_pop q else contiguous_space_to_pop);
         end_of_pop = bs_next_byte_to_pop q + contiguous_space_to_pop
     in andThen (assertE (bs_next_byte_to_pop q \<le> end_of_pop) ''end_of_pop >= pop_iterator'') (\<lambda>_.
        andThen (fd_write_some (take (unat contiguous_space_to_pop)
                   (drop (unat (bs_next_byte_to_pop q)) (bs_buffer q))) fd w) (\<lambda>(rest, fd', w').
          let next = end_of_pop - of_nat (length rest)
          in andThen (assertE (next \<le> bs_size q) ''next_byte_to_pop <= buffer_.size()'') (\<lambda>_.
               Inr (q\<lparr>bs_next_byte_to_pop := (if next = bs_size q then 0 else next)\<rparr>, fd', w')))))"

definition bs_eof :: "bs_result \<Rightarrow> bool" where
  "bs_eof r \<longleftrightarrow> r = EndOfFile"

section \<open>Refinement to a list of bytes\<close>

definition ring :: "nat \<Rightarrow> nat \<Rightarrow> 'a list \<Rightarrow> 'a list" where
  \<comment> \<open>from position \<open>i\<close> up to \<open>j\<close>, around the end\<close>
  "ring i j b = (if i \<le> j then take (j - i) (drop i b) else drop i b @ take j b)"

definition bs_content :: "bytestream_queue \<Rightarrow> string" where
  "bs_content q = ring (unat (bs_next_byte_to_pop q)) (unat (bs_next_byte_to_push q)) (bs_buffer q)"

definition bs_ok :: "bytestream_queue \<Rightarrow> bool" where
  "bs_ok q \<longleftrightarrow> 1 < length (bs_buffer q) \<and> length (bs_buffer q) < 2 ^ 63 \<and>
     unat (bs_next_byte_to_push q) < length (bs_buffer q) \<and>
     unat (bs_next_byte_to_pop q) < length (bs_buffer q)"

text \<open>The two counts, as numbers: they never wrap, and together leave one byte free.\<close>

lemma bs_size_unat [simp]: "bs_ok q \<Longrightarrow> unat (bs_size q) = length (bs_buffer q)"
  by (simp add: bs_ok_def bs_size_def unat_of_nat_small)

lemma bs_content_length:
  "bs_ok q \<Longrightarrow> length (bs_content q) =
    (if unat (bs_next_byte_to_pop q) \<le> unat (bs_next_byte_to_push q)
     then unat (bs_next_byte_to_push q) - unat (bs_next_byte_to_pop q)
     else length (bs_buffer q) - unat (bs_next_byte_to_pop q) + unat (bs_next_byte_to_push q))"
  by (auto simp: bs_content_def bs_ok_def ring_def)

lemma unat_eqI: "unat (a :: u64) = n \<Longrightarrow> b = of_nat n \<Longrightarrow> a = b"
  by auto

lemma available_to_pop_eq:
  assumes "bs_ok q"
  shows "unat (available_to_pop q) = length (bs_content q)"
proof -
  define i j n where "i = unat (bs_next_byte_to_pop q)" and "j = unat (bs_next_byte_to_push q)"
    and "n = length (bs_buffer q)"
  have b: "i < n" "j < n" "n < 2 ^ 63" using assms by (simp_all add: bs_ok_def i_def j_def n_def)
  have w: "bs_next_byte_to_pop q = of_nat i" "bs_next_byte_to_push q = of_nat j" "bs_size q = of_nat n"
    by (simp_all add: i_def j_def n_def bs_size_def)
  have lt: "bs_next_byte_to_push q < bs_next_byte_to_pop q \<longleftrightarrow> j < i"
    by (simp add: word_less_nat_alt i_def j_def)
  have "available_to_pop q = of_nat (if j < i then n - i + j else j - i)"
    using b unfolding available_to_pop_def lt unfolding w by (auto simp: of_nat_diff)
  moreover have "(if j < i then n - i + j else j - i) < 2 ^ 64" using b by auto
  ultimately have "unat (available_to_pop q) = (if j < i then n - i + j else j - i)"
    by (simp only: unat_of_nat_u64)
  then show ?thesis by (simp add: bs_content_length [OF assms] i_def j_def n_def)
qed

lemma available_to_push_eq:
  assumes "bs_ok q"
  shows "unat (available_to_push q) = length (bs_buffer q) - 1 - length (bs_content q)"
proof -
  define i j n where "i = unat (bs_next_byte_to_pop q)" and "j = unat (bs_next_byte_to_push q)"
    and "n = length (bs_buffer q)"
  have b: "i < n" "j < n" "n < 2 ^ 63" using assms by (simp_all add: bs_ok_def i_def j_def n_def)
  have w: "bs_next_byte_to_pop q = of_nat i" "bs_next_byte_to_push q = of_nat j" "bs_size q = of_nat n"
    by (simp_all add: i_def j_def n_def bs_size_def)
  have lt: "bs_next_byte_to_push q < bs_next_byte_to_pop q \<longleftrightarrow> j < i"
    by (simp add: word_less_nat_alt i_def j_def)
  have "available_to_push q = of_nat (if j < i then i - j - 1 else n - 1 - (j - i))"
    using b unfolding available_to_push_def lt unfolding w by (auto simp: of_nat_diff)
  moreover have "(if j < i then i - j - 1 else n - 1 - (j - i)) < 2 ^ 64" using b by auto
  ultimately have "unat (available_to_push q) = (if j < i then i - j - 1 else n - 1 - (j - i))"
    by (simp only: unat_of_nat_u64)
  with b show ?thesis by (auto simp: bs_content_length [OF assms] i_def j_def n_def)
qed

text \<open>Writing a chunk at \<open>j\<close> appends it; moving \<open>i\<close> on takes a prefix off.\<close>

lemma ring_append:
  assumes "i < length b" "j < length b" "length c \<le> length b - j"
    and "length c \<le> length b - 1 - length (ring i j b)"
  shows "ring i (if j + length c = length b then 0 else j + length c)
      (take j b @ c @ drop (j + length c) b) = ring i j b @ c"
proof (cases "i \<le> j")
  case True
  show ?thesis
  proof (cases "j + length c = length b")
    case e: True
    have "i \<noteq> 0"
    proof
      assume "i = 0"
      then have "length c \<le> length b - 1 - j" using assms(2,4) by (simp add: ring_def)
      with e assms(1,2) show False by simp
    qed
    with True e assms(1,2) show ?thesis by (simp add: ring_def drop_take)
  next
    case False
    with True assms show ?thesis by (simp add: ring_def drop_take)
  qed
next
  case False
  then have "j + length c < i" using assms by (simp add: ring_def)
  with False assms show ?thesis by (simp add: ring_def)
qed

lemma ring_advance:
  assumes "i < length b" "j < length b" "m \<le> length b - i" "m \<le> length (ring i j b)"
  shows "ring i j b = take m (drop i b) @ ring (if i + m = length b then 0 else i + m) j b"
proof (cases "i \<le> j")
  case True
  with assms have m: "i + m \<le> j" by (simp add: ring_def)
  then have "take (j - i) (drop i b) = take m (drop i b) @ take (j - i - m) (drop (i + m) b)"
    using take_add [of m "j - i - m" "drop i b"] by (simp add: add.commute)
  with True m assms show ?thesis by (auto simp: ring_def)
next
  case False
  show ?thesis
  proof (cases "i + m = length b")
    case True
    with False assms show ?thesis by (simp add: ring_def)
  next
    case n: False
    have "drop i b = take m (drop i b) @ drop (i + m) b"
      by (metis append_take_drop_id drop_drop add.commute)
    with n False assms show ?thesis by (simp add: ring_def)
  qed
qed

text \<open>The contiguous space either way, as a number.\<close>

lemma contiguous:
  assumes "bs_ok q" "unat p < length (bs_buffer q)" "unat a < length (bs_buffer q)"
  shows "unat (if bs_size q \<le> p + a then bs_size q - p else a)
    = min (unat a) (length (bs_buffer q) - unat p)"
proof -
  note n = bs_size_unat [OF assms(1)]
  have b: "length (bs_buffer q) < 2 ^ 63" using assms(1) by (simp add: bs_ok_def)
  have "unat (p + a) = unat p + unat a"
    using assms(2,3) b by (intro unat_add_small) simp
  then have "bs_size q \<le> p + a \<longleftrightarrow> length (bs_buffer q) \<le> unat p + unat a"
    by (simp add: word_le_nat_alt n)
  moreover have "unat (bs_size q - p) = length (bs_buffer q) - unat p"
    using assms(2) by (subst unat_diff_le) (simp_all add: word_le_nat_alt n)
  ultimately show ?thesis using assms(2) by auto
qed

section \<open>The two operations\<close>

lemma space_available_content:
  "bs_ok q \<Longrightarrow> space_available q \<longleftrightarrow> length (bs_content q) < length (bs_buffer q) - 1"
  using available_to_push_eq [of q] by (auto simp: space_available_def word_less_nat_alt)

lemma non_empty_content: "bs_ok q \<Longrightarrow> non_empty q \<longleftrightarrow> bs_content q \<noteq> []"
  using available_to_pop_eq [of q] by (auto simp: non_empty_def word_less_nat_alt)

definition push_room :: "bytestream_queue \<Rightarrow> nat" where
  "push_room q = min (length (bs_buffer q) - 1 - length (bs_content q))
     (length (bs_buffer q) - unat (bs_next_byte_to_push q))"

definition bs_pushed :: "string \<Rightarrow> bytestream_queue \<Rightarrow> bytestream_queue" where
  "bs_pushed c q =
     (let j = unat (bs_next_byte_to_push q); n = length (bs_buffer q)
      in q\<lparr>bs_buffer := take j (bs_buffer q) @ c @ drop (j + length c) (bs_buffer q),
           bs_next_byte_to_push := of_nat (if j + length c = n then 0 else j + length c)\<rparr>)"

lemma bs_pushed:
  assumes "bs_ok q" "length c \<le> push_room q"
  shows "bs_ok (bs_pushed c q)" "bs_content (bs_pushed c q) = bs_content q @ c"
    "length (bs_buffer (bs_pushed c q)) = length (bs_buffer q)"
proof -
  let ?n = "length (bs_buffer q)" and ?j = "unat (bs_next_byte_to_push q)"
  have b: "1 < ?n" "?n < 2 ^ 63" "?j < ?n" "unat (bs_next_byte_to_pop q) < ?n" "length c \<le> ?n - ?j"
    "length c \<le> ?n - 1 - length (bs_content q)"
    using assms by (simp_all add: bs_ok_def push_room_def)
  show len: "length (bs_buffer (bs_pushed c q)) = ?n"
    using b by (simp add: bs_pushed_def Let_def)
  have "(if ?j + length c = ?n then 0 else ?j + length c) < ?n" using b by auto
  then have j: "unat (bs_next_byte_to_push (bs_pushed c q)) =
      (if ?j + length c = ?n then 0 else ?j + length c)"
  proof -
    let ?X = "if ?j + length c = ?n then 0 else ?j + length c"
    have "bs_next_byte_to_push (bs_pushed c q) = of_nat ?X"
      unfolding bs_pushed_def Let_def by simp
    moreover have "unat (of_nat ?X :: u64) = ?X"
      using \<open>?X < ?n\<close> b(2) by (intro unat_of_nat_u64) (simp split: if_splits)
    ultimately show ?thesis by (simp only:)
  qed
  have i: "bs_next_byte_to_pop (bs_pushed c q) = bs_next_byte_to_pop q"
    by (simp add: bs_pushed_def Let_def)
  show "bs_ok (bs_pushed c q)" using b j i len by (auto simp: bs_ok_def)
  have "bs_buffer (bs_pushed c q) = take ?j (bs_buffer q) @ c @ drop (?j + length c) (bs_buffer q)"
    by (simp add: bs_pushed_def Let_def)
  then show "bs_content (bs_pushed c q) = bs_content q @ c"
    using ring_append [OF b(4,3,5)] b(6) unfolding bs_content_def j i by simp
qed

text \<open>What \<open>push\<close> does with the bytes it has read.\<close>

lemma chunk_stored:
  assumes "bs_ok q" and c: "c \<noteq> []" "length c \<le> push_room q"
  shows "andThen (assertE (of_nat (length c) \<le> bs_size q - bs_next_byte_to_push q)
          ''new_chunk.size() <= buffer_.size() - next_byte_to_push'') (\<lambda>_.
        andThen (bs_memcpy (unat (bs_next_byte_to_push q)) c (bs_buffer q)) (\<lambda>buffer.
          let next = bs_next_byte_to_push q + of_nat (length c)
          in andThen (assertE (next \<le> bs_size q) ''next_byte_to_push <= buffer_.size()'') (\<lambda>_.
             let q' = q\<lparr>bs_buffer := buffer,
                        bs_next_byte_to_push := (if next = bs_size q then 0 else next)\<rparr>
             in andThen (assertE (non_empty q') ''non_empty()'') (\<lambda>_. Inr (Success, q', fd', w')))))
      = Inr (Success, bs_pushed c q, fd', w')"
proof -
  let ?n = "length (bs_buffer q)" and ?j = "unat (bs_next_byte_to_push q)"
  have b: "1 < ?n" "?n < 2 ^ 63" "?j < ?n" using assms(1) by (simp_all add: bs_ok_def)
  have size: "unat (bs_size q - bs_next_byte_to_push q) = ?n - ?j"
    using b(3) bs_size_unat [OF assms(1)] by (subst unat_diff_le) (simp_all add: word_le_nat_alt)
  have cj: "length c \<le> ?n - ?j" using c(2) by (simp add: push_room_def)
  then have lc: "unat (of_nat (length c) :: u64) = length c"
    using b(2) by (intro unat_of_nat_u64) simp
  define nx where "nx = bs_next_byte_to_push q + of_nat (length c)"
  have nx: "unat nx = ?j + length c"
    unfolding nx_def using b cj lc by (subst unat_add_small) simp_all
  then have nx_eq: "nx = bs_size q \<longleftrightarrow> ?j + length c = ?n"
    using bs_size_unat [OF assms(1)] by (metis word_unat_eq_iff)
  have "nx = of_nat (unat nx)" by simp
  then have "nx = of_nat (?j + length c)" unfolding nx .
  then have q': "q\<lparr>bs_buffer := take ?j (bs_buffer q) @ c @ drop (?j + length c) (bs_buffer q),
      bs_next_byte_to_push := (if nx = bs_size q then 0 else nx)\<rparr> = bs_pushed c q"
    unfolding bs_pushed_def Let_def nx_eq by simp
  have ne: "non_empty (bs_pushed c q)"
    using non_empty_content [OF bs_pushed(1) [OF assms(1) c(2)]] bs_pushed(2) [OF assms(1) c(2)] c(1)
    by simp
  have "(of_nat (length c) :: u64) \<le> bs_size q - bs_next_byte_to_push q"
    using cj lc size by (simp add: word_le_nat_alt)
  moreover have "nx \<le> bs_size q" using nx cj b(3) bs_size_unat [OF assms(1)]
    by (simp add: word_le_nat_alt)
  moreover have "bs_memcpy ?j c (bs_buffer q) =
      Inr (take ?j (bs_buffer q) @ c @ drop (?j + length c) (bs_buffer q))"
    using b(3) cj by (simp add: bs_memcpy_def)
  ultimately show ?thesis
    by (simp add: Let_def nx_def [symmetric] q' ne)
qed

lemma bs_push_eq:
  assumes "bs_ok q" "space_available q"
  shows "bs_push q fd w = andThen (fd_read (push_room q) fd w) (\<lambda>(c, fd', w').
      if c = [] then Inr (EndOfFile, q, fd', w') else Inr (Success, bs_pushed c q, fd', w'))"
proof -
  let ?n = "length (bs_buffer q)" and ?j = "unat (bs_next_byte_to_push q)"
  have b: "1 < ?n" "?n < 2 ^ 63" "?j < ?n" using assms(1) by (simp_all add: bs_ok_def)
  define k where "k = (if bs_size q \<le> bs_next_byte_to_push q + available_to_push q
     then bs_size q - bs_next_byte_to_push q else available_to_push q)"
  have k: "unat k = push_room q"
    using contiguous [OF assms(1) b(3), of "available_to_push q"] available_to_push_eq [OF assms(1)] b(1)
    by (simp add: k_def push_room_def)
  have "0 < push_room q"
    using assms(2) b(3) space_available_content [OF assms(1)] by (simp add: push_room_def)
  then have k0: "0 < k" using k by (simp add: word_less_nat_alt)
  show ?thesis
  proof (cases "fd_read (push_room q) fd w")
    case (Inl e)
    then show ?thesis using assms(2) k0 k by (simp add: bs_push_def Let_def flip: k_def)
  next
    case (Inr r)
    then obtain c fd' w' where r: "r = (c, fd', w')" "fd_read (push_room q) fd w = Inr (c, fd', w')"
      by (cases r) auto
    from fd_read_Inr [OF r(2)] have "length c \<le> push_room q" by simp
    then show ?thesis
      using assms(2) k0 k r(2) chunk_stored [OF assms(1), of c fd' w']
      by (simp add: bs_push_def Let_def [of "available_to_push q"] Let_def [of k] flip: k_def)
  qed
qed

definition pop_room :: "bytestream_queue \<Rightarrow> nat" where
  "pop_room q = min (length (bs_content q)) (length (bs_buffer q) - unat (bs_next_byte_to_pop q))"

definition bs_popped :: "nat \<Rightarrow> bytestream_queue \<Rightarrow> bytestream_queue" where
  "bs_popped m q =
     (let i = unat (bs_next_byte_to_pop q)
      in q\<lparr>bs_next_byte_to_pop := of_nat (if i + m = length (bs_buffer q) then 0 else i + m)\<rparr>)"

lemma bs_popped:
  assumes "bs_ok q" "m \<le> pop_room q"
  shows "bs_ok (bs_popped m q)"
    "bs_content q = take m (drop (unat (bs_next_byte_to_pop q)) (bs_buffer q)) @ bs_content (bs_popped m q)"
proof -
  let ?n = "length (bs_buffer q)" and ?i = "unat (bs_next_byte_to_pop q)"
  let ?X = "if ?i + m = ?n then 0 else ?i + m"
  have b: "?n < 2 ^ 63" "?i < ?n" "unat (bs_next_byte_to_push q) < ?n" "m \<le> ?n - ?i"
    "m \<le> length (ring ?i (unat (bs_next_byte_to_push q)) (bs_buffer q))"
    using assms by (simp_all add: bs_ok_def pop_room_def bs_content_def)
  have "?X < ?n" using b by auto
  then have "unat (of_nat ?X :: u64) = ?X" using b(1) by (intro unat_of_nat_u64) (simp split: if_splits)
  then have i: "unat (bs_next_byte_to_pop (bs_popped m q)) = ?X"
    unfolding bs_popped_def Let_def by simp
  have same: "bs_buffer (bs_popped m q) = bs_buffer q"
    "bs_next_byte_to_push (bs_popped m q) = bs_next_byte_to_push q"
    by (simp_all add: bs_popped_def Let_def)
  show "bs_ok (bs_popped m q)" using assms(1) \<open>?X < ?n\<close> by (simp add: bs_ok_def same i)
  show "bs_content q = take m (drop ?i (bs_buffer q)) @ bs_content (bs_popped m q)"
    unfolding bs_content_def i same by (rule ring_advance [OF b(2-5)])
qed

text \<open>What \<open>pop\<close> does when \<open>rest\<close> is left of what it wanted to write; \<open>e\<close> is its index behind that.\<close>

lemma chunk_taken:
  assumes "bs_ok q" "length rest \<le> pop_room q" and e: "unat e = unat (bs_next_byte_to_pop q) + pop_room q"
  shows "andThen (assertE (e - of_nat (length rest) \<le> bs_size q) ''next_byte_to_pop <= buffer_.size()'') (\<lambda>_.
      Inr (q\<lparr>bs_next_byte_to_pop := (if e - of_nat (length rest) = bs_size q then 0
             else e - of_nat (length rest))\<rparr>, fd', w'))
    = Inr (bs_popped (pop_room q - length rest) q, fd', w')"
proof -
  let ?n = "length (bs_buffer q)" and ?i = "unat (bs_next_byte_to_pop q)"
  have b: "1 < ?n" "?n < 2 ^ 63" "?i < ?n" using assms(1) by (simp_all add: bs_ok_def)
  have room: "pop_room q \<le> ?n - ?i" by (simp add: pop_room_def)
  note r = assms(2)
  then have lr: "unat (of_nat (length rest) :: u64) = length rest"
    using r room b by (intro unat_of_nat_u64) (simp split: if_splits)
  define x where "x = e - of_nat (length rest)"
  have x: "unat x = ?i + (pop_room q - length rest)"
    unfolding x_def using e r lr by (subst unat_diff_le) (simp_all add: word_le_nat_alt)
  then have "x = bs_size q \<longleftrightarrow> ?i + (pop_room q - length rest) = ?n"
    using bs_size_unat [OF assms(1)] by (metis word_unat_eq_iff)
  moreover have "x = of_nat (unat x)" by simp
  then have "x = of_nat (?i + (pop_room q - length rest))" unfolding x .
  ultimately have "q\<lparr>bs_next_byte_to_pop := (if x = bs_size q then 0 else x)\<rparr>
      = bs_popped (pop_room q - length rest) q"
    unfolding bs_popped_def Let_def by simp
  moreover have "x \<le> bs_size q"
    using x room b(3) bs_size_unat [OF assms(1)] by (simp add: word_le_nat_alt)
  ultimately show ?thesis unfolding x_def [symmetric] by (simp split del: if_split)
qed

lemma bs_pop_eq:
  assumes "bs_ok q" "non_empty q"
  shows "bs_pop q fd w = andThen (fd_write_some (take (pop_room q)
        (drop (unat (bs_next_byte_to_pop q)) (bs_buffer q))) fd w) (\<lambda>(rest, fd', w').
      Inr (bs_popped (pop_room q - length rest) q, fd', w'))"
proof -
  let ?n = "length (bs_buffer q)" and ?i = "unat (bs_next_byte_to_pop q)"
  have b: "1 < ?n" "?n < 2 ^ 63" "?i < ?n" using assms(1) by (simp_all add: bs_ok_def)
  define k where "k = (if bs_size q \<le> bs_next_byte_to_pop q + available_to_pop q
     then bs_size q - bs_next_byte_to_pop q else available_to_pop q)"
  have "length (bs_content q) < ?n"
    using assms(1) by (auto simp: bs_content_length bs_ok_def)
  then have k: "unat k = pop_room q"
    using contiguous [OF assms(1) b(3), of "available_to_pop q"] available_to_pop_eq [OF assms(1)]
    by (simp add: k_def pop_room_def)
  have room: "pop_room q \<le> ?n - ?i" by (simp add: pop_room_def)
  define e where "e = bs_next_byte_to_pop q + k"
  have e: "unat e = ?i + pop_room q"
    unfolding e_def using b room k by (subst unat_add_small) simp_all
  then have le: "bs_next_byte_to_pop q \<le> e" by (simp add: word_le_nat_alt)
  let ?s = "take (pop_room q) (drop ?i (bs_buffer q))"
  show ?thesis
  proof (cases "fd_write_some ?s fd w")
    case (Inl err)
    then show ?thesis
      using assms(2) k le by (simp add: bs_pop_def Let_def flip: k_def e_def)
  next
    case (Inr r)
    then obtain rest fd' w' where r: "r = (rest, fd', w')" "fd_write_some ?s fd w = Inr (rest, fd', w')"
      by (cases r) auto
    have "length rest \<le> pop_room q" using fd_write_some_Inr [OF r(2)] by auto
    from chunk_taken [OF assms(1) this e, of fd' w'] show ?thesis
      using assms(2) k le r(2)
      by (simp add: bs_pop_def Let_def cong: if_cong split del: if_split flip: k_def e_def)
  qed
qed

section \<open>The ring buffer is a byte pipe\<close>

type_synonym pipe_state = "bytestream_queue \<times> file_descriptor \<times> file_descriptor \<times> world"

definition pipe_push :: "pipe_state \<Rightarrow> pipe_state res" where
  "pipe_push = (\<lambda>(q, src, dst, w).
     andThen (bs_push q src w) (\<lambda>(r, q', src', w'). Inr (q', src', dst, w')))"

definition pipe_pop :: "pipe_state \<Rightarrow> pipe_state res" where
  "pipe_pop = (\<lambda>(q, src, dst, w).
     andThen (bs_pop q dst w) (\<lambda>(q', dst', w'). Inr (q', src, dst', w')))"

definition pipe_can_push :: "pipe_state \<Rightarrow> bool" where
  "pipe_can_push = (\<lambda>(q, src, dst, w). space_available q)"

definition pipe_can_pop :: "pipe_state \<Rightarrow> bool" where
  "pipe_can_pop = (\<lambda>(q, src, dst, w). non_empty q)"

definition pipe_received :: "int \<Rightarrow> pipe_state \<Rightarrow> string" where
  "pipe_received a = (\<lambda>(q, src, dst, w). received_bytes a w)"

definition pipe_sent :: "int \<Rightarrow> pipe_state \<Rightarrow> string" where
  "pipe_sent b = (\<lambda>(q, src, dst, w). sent_bytes b w)"

definition pipe_content :: "pipe_state \<Rightarrow> string" where
  "pipe_content = (\<lambda>(q, src, dst, w). bs_content q)"

definition pipe_ok :: "int \<Rightarrow> int \<Rightarrow> pipe_state \<Rightarrow> bool" where
  "pipe_ok a b = (\<lambda>(q, src, dst, w). bs_ok q \<and> fd_num src = a \<and> fd_num dst = b \<and> honest_writes w)"

lemmas pipe_defs = pipe_push_def pipe_pop_def pipe_can_push_def pipe_can_pop_def pipe_received_def
  pipe_sent_def pipe_content_def pipe_ok_def

lemma pop_room_pos: "bs_ok q \<Longrightarrow> non_empty q \<Longrightarrow> 0 < pop_room q"
  by (simp add: pop_room_def non_empty_content bs_ok_def)

lemma pipe_push_step:
  assumes "pipe_ok a b s" "pipe_can_push s" "pipe_push s = Inr s'"
  shows "pipe_ok a b s' \<and> pipe_sent b s' = pipe_sent b s \<and>
    (\<exists>c. pipe_received a s' = pipe_received a s @ c \<and> pipe_content s' = pipe_content s @ c)"
proof -
  obtain q src dst w where s: "s = (q, src, dst, w)" by (cases s)
  with assms have q: "bs_ok q" "space_available q" by (simp_all add: pipe_defs)
  from assms(3) s bs_push_eq [OF q] obtain c fd' w' where
    r: "fd_read (push_room q) src w = Inr (c, fd', w')"
      "s' = (if c = [] then (q, fd', dst, w') else (bs_pushed c q, fd', dst, w'))"
    by (auto simp: pipe_push_def andThen_Inr_iff split: if_splits)
  from fd_read_Inr [OF r(1)] have c: "length c \<le> push_room q" by simp
  from fd_read_Inr [OF r(1)] bs_pushed [OF q(1) c] r(2) assms(1) s show ?thesis
    by (auto simp: pipe_defs)
qed

lemma pipe_pop_step:
  assumes "pipe_ok a b s" "pipe_can_pop s" "pipe_pop s = Inr s'"
  shows "pipe_ok a b s' \<and> pipe_received a s' = pipe_received a s \<and>
    (\<exists>c. pipe_sent b s' = pipe_sent b s @ c \<and> pipe_content s = c @ pipe_content s')"
proof -
  obtain q src dst w where s: "s = (q, src, dst, w)" by (cases s)
  with assms have q: "bs_ok q" "non_empty q" by (simp_all add: pipe_defs)
  let ?s = "take (pop_room q) (drop (unat (bs_next_byte_to_pop q)) (bs_buffer q))"
  from assms(3) s bs_pop_eq [OF q] obtain rest fd' w' where
    r: "fd_write_some ?s dst w = Inr (rest, fd', w')"
      "s' = (bs_popped (pop_room q - length rest) q, src, fd', w')"
    by (auto simp: pipe_pop_def andThen_Inr_iff)
  have "length ?s = pop_room q" using q(1) by (simp add: pop_room_def)
  with fd_write_some_Inr [OF r(1)] obtain m where m: "m \<le> pop_room q" "rest = drop m ?s"
    "fd_num fd' = fd_num dst" "sent_bytes (fd_num dst) w' = sent_bytes (fd_num dst) w @ take m ?s"
    "honest_writes w' = honest_writes w" "\<forall>n. received_bytes n w' = received_bytes n w" by auto
  from m(1,2) \<open>length ?s = pop_room q\<close> have "pop_room q - length rest = m" by simp
  with bs_popped [OF q(1) m(1)] m r(2) assms(1) s show ?thesis
    by (auto simp: pipe_defs min_def)
qed

interpretation ring_pipe: byte_pipe
  pipe_push pipe_pop pipe_can_push pipe_can_pop "pipe_received a" pipe_content "pipe_sent b" "pipe_ok a b"
  for a b
proof unfold_locales
  fix s e assume s: "pipe_ok a b s" "pipe_can_push s" "pipe_push s = Inl e"
  then show "kernel_error e"
    by (auto simp: pipe_defs bs_push_eq andThen_Inl_iff dest!: fd_read_Inl split: prod.splits if_splits)
next
  fix s e assume s: "pipe_ok a b s" "pipe_can_pop s" "pipe_pop s = Inl e"
  obtain q src dst w where p: "s = (q, src, dst, w)" by (cases s)
  with s have q: "bs_ok q" "non_empty q" "honest_writes w" by (simp_all add: pipe_defs)
  let ?s = "take (pop_room q) (drop (unat (bs_next_byte_to_pop q)) (bs_buffer q))"
  have "fd_write_some ?s dst w = Inl e"
    using s(3) p bs_pop_eq [OF q(1,2)] by (auto simp: pipe_pop_def andThen_Inl_iff split: prod.splits)
  moreover have "?s \<noteq> []" using pop_room_pos [OF q(1,2)] q(1) by (simp add: bs_ok_def)
  ultimately have "e \<in> {Unix_Error ''write'', Runtime_Error ''write returned 0''}"
    using fd_write_some_Inl q(3) by blast
  then show "kernel_error e" by auto
qed (fact pipe_push_step pipe_pop_step)+

section \<open>Property\<close>

lemma bytestream_queue_init_ok:
  assumes "bytestream_queue_init s = Inr q" "unat s < 2 ^ 63"
  shows "bs_ok q" "bs_content q = []" "length (bs_buffer q) = unat s"
  using assms
  by (auto simp: bytestream_queue_init_def andThen_Inr_iff bs_ok_def bs_content_def ring_def
      word_less_nat_alt)

lemma pipe_content_room: "bs_ok q \<Longrightarrow> length (bs_content q) < length (bs_buffer q)"
  by (auto simp: bs_content_length bs_ok_def)

text \<open>
  C30. The ring buffer refines a byte stream. From construction on, over every sequence of \<open>push\<close> and
  \<open>pop\<close> calls, each made when the buffer says it can be, with a kernel that returns and takes as few
  bytes at a time as it likes: no assertion fails and no index runs out of the buffer, an error is
  one the kernel reported, and the bytes written to one descriptor followed by the bytes the buffer
  holds are the bytes read from the other, in order.
\<close>

theorem ring_buffer_stream:
  assumes "bytestream_queue_init s = Inr q" "unat s < 2 ^ 63" "honest_writes w"
  shows "case run_pipe pipe_push pipe_pop pipe_can_push pipe_can_pop ops (q, src, dst, w) of
      Inl e \<Rightarrow> kernel_error e
    | Inr (q', src', dst', w') \<Rightarrow>
        (\<exists>r. received_bytes (fd_num src) w' = received_bytes (fd_num src) w @ r \<and>
             sent_bytes (fd_num dst) w' @ bs_content q' = sent_bytes (fd_num dst) w @ r) \<and>
        length (bs_content q') < length (bs_buffer q')"
proof -
  note q = bytestream_queue_init_ok [OF assms(1,2)]
  let ?s = "(q, src, dst, w)"
  have "pipe_ok (fd_num src) (fd_num dst) ?s" using q assms(3) by (simp add: pipe_defs)
  from ring_pipe.run_pipe_stream [OF this, of ops] q(2) pipe_content_room show ?thesis
    by (fastforce simp: pipe_received_def pipe_sent_def pipe_content_def pipe_ok_def split: sum.splits)
qed

text \<open>A kernel that gives three bytes and takes at most two at a time.\<close>

definition stingy_world :: world where
  "stingy_world = \<lparr>w_clock = (\<lambda>n. (0, 0, 0)), w_clock_calls = 0, w_initial = Some 0,
     w_write = (\<lambda>n c. int (min 2 c)), w_write_calls = 0, w_sent = [],
     w_read = (\<lambda>fd n. (3, ''abc'')), w_read_calls = 0, w_received = [], w_euid = 1000,
     w_egid = 1000, w_files = (\<lambda>f. None), w_creatable = (\<lambda>f. True)\<rparr>"

definition plain_fd :: "int \<Rightarrow> file_descriptor" where
  "plain_fd n = \<lparr>fd_num = n, fd_eof = False, fd_read_count = 0, fd_write_count = 0\<rparr>"

lemma stingy_world_start [simp]:
  "honest_writes stingy_world" "received_bytes n stingy_world = []" "sent_bytes n stingy_world = []"
  "fd_num (plain_fd n) = n"
  by (simp_all add: stingy_world_def honest_writes_def received_bytes_def sent_bytes_def plain_fd_def)

theorem ring_buffer_stream_witness:
  "\<exists>q. bytestream_queue_init 4 = Inr q \<and>
    (case run_pipe pipe_push pipe_pop pipe_can_push pipe_can_pop [Push, Pop, Push, Pop]
       (q, plain_fd 7, plain_fd 8, stingy_world) of
      Inl e \<Rightarrow> kernel_error e
    | Inr (q', src', dst', w') \<Rightarrow>
        sent_bytes 8 w' @ bs_content q' = received_bytes 7 w' \<and>
        length (bs_content q') < length (bs_buffer q'))"
proof -
  obtain q where q: "bytestream_queue_init 4 = Inr q" by (simp add: bytestream_queue_init_def)
  show ?thesis
    using ring_buffer_stream [where ops = "[Push, Pop, Push, Pop]" and src = "plain_fd 7"
        and dst = "plain_fd 8" and w = stingy_world, OF q] q
    by (simp del: run_pipe.simps split: sum.splits prod.splits)
qed

end
