(* ===== verification/Poller.thy ===== *)
theory Poller
  imports Main Prelude Kernel
begin

unbundle bit_operations_syntax

text \<open>
  \<open>src/util/poller.cc/.hh\<close>: the list of actions on descriptors, and one round of \<open>poll\<close>: ask each
  action whether it is interested, let the kernel wait, run the callbacks whose event came. A
  callback works on the whole state \<open>'s\<close> of the program; a reference to a descriptor is the function
  that reads it out of the state. What the kernel's \<open>poll\<close> answers is an argument. \<open>poll_client\<close> is
  what the poller's user must provide, as a locale.
\<close>

section \<open>State\<close>

datatype direction = In | Out

definition POLLIN :: u16 where "POLLIN = 1"

definition POLLOUT :: u16 where "POLLOUT = 4"

definition POLL_ERROR :: u16 where
  \<comment> \<open>\<open>POLLERR | POLLHUP | POLLNVAL\<close>\<close>
  "POLL_ERROR = 8 OR 16 OR 32"

fun direction_events :: "direction \<Rightarrow> u16" where
  "direction_events In = POLLIN"
| "direction_events Out = POLLOUT"

datatype result_type = Continue | Exit | Cancel

record action_result =
  ar_result :: result_type
  ar_exit_status :: u32

record 's poll_action =
  pa_fd :: "'s \<Rightarrow> file_descriptor"
  pa_direction :: direction
  pa_callback :: "'s \<Rightarrow> (action_result \<times> 's) res option"
  pa_when_interested :: "'s \<Rightarrow> (bool \<times> 's) res option"
  pa_active :: bool

definition mk_action :: "('s \<Rightarrow> file_descriptor) \<Rightarrow> direction \<Rightarrow>
    ('s \<Rightarrow> (action_result \<times> 's) res option) \<Rightarrow> ('s \<Rightarrow> (bool \<times> 's) res option) \<Rightarrow> 's poll_action" where
  "mk_action fd dir callback interested =
     \<lparr>pa_fd = fd, pa_direction = dir, pa_callback = callback, pa_when_interested = interested,
      pa_active = True\<rparr>"

definition always_interested :: "'s \<Rightarrow> (bool \<times> 's) res option" where
  "always_interested s = Some (Inr (True, s))"

record pollfd =
  pfd_fd :: int
  pfd_events :: u16
  pfd_revents :: u16

record 's poller =
  po_actions :: "'s poll_action list"
  po_pollfds :: "pollfd list"

datatype poll_result = Poll_Success | Poll_Timeout | Poll_Exit u32

section \<open>Operations\<close>

definition empty_poller :: "'s poller" where
  "empty_poller = \<lparr>po_actions = [], po_pollfds = []\<rparr>"

definition add_action :: "'s \<Rightarrow> 's poll_action \<Rightarrow> 's poller \<Rightarrow> 's poller" where
  "add_action s action p =
     p\<lparr>po_actions := po_actions p @ [action],
       po_pollfds := po_pollfds p @ [\<lparr>pfd_fd = fd_num (pa_fd action s), pfd_events = 0, pfd_revents = 0\<rparr>]\<rparr>"

definition service_count :: "'s \<Rightarrow> 's poll_action \<Rightarrow> u32" where
  "service_count s a =
     (case pa_direction a of In \<Rightarrow> fd_read_count (pa_fd a s) | Out \<Rightarrow> fd_write_count (pa_fd a s))"

text \<open>The first loop of \<open>poll\<close>: the events to ask for.\<close>

fun poll_prepare :: "'s poll_action list \<Rightarrow> pollfd list \<Rightarrow> 's \<Rightarrow> (pollfd list \<times> 's) res option" where
  "poll_prepare (a # as) (f # fs) s =
     (if pfd_fd f \<noteq> fd_num (pa_fd a s)
      then Some (Inl (Assert_Failed ''pollfds_.at( i ).fd == actions_.at( i ).fd.fd_num()''))
      else
        andThenO (if pa_active a then pa_when_interested a s else Some (Inr (False, s))) (\<lambda>(want, s).
          let events = (if want then direction_events (pa_direction a) else 0);
              events = (if pa_direction a = In \<and> fd_eof (pa_fd a s) then 0 else events)
          in andThenO (poll_prepare as fs s) (\<lambda>(fs', s).
               Some (Inr (f\<lparr>pfd_events := events\<rparr> # fs', s)))))"
| "poll_prepare [] fs s = Some (Inr (fs, s))"
| "poll_prepare as [] s = Some (Inl Out_Of_Range)"

text \<open>The second loop: the callbacks. \<open>Some status\<close> ends the poll with \<open>Exit\<close>.\<close>

fun poll_dispatch :: "'s poll_action list \<Rightarrow> pollfd list \<Rightarrow> 's \<Rightarrow>
    (u32 option \<times> 's poll_action list \<times> 's) res option" where
  "poll_dispatch (a # as) (f # fs) s =
     (if pfd_revents f AND POLL_ERROR \<noteq> 0 then Some (Inr (Some 0, a # as, s))
      else if pfd_revents f AND pfd_events f \<noteq> 0 then
        andThenO (pa_callback a s) (\<lambda>(result, s).
          if ar_result result = Exit then Some (Inr (Some (ar_exit_status result), a # as, s))
          else
            let a' = (if ar_result result = Cancel then a\<lparr>pa_active := False\<rparr> else a)
            in andThenO (poll_dispatch as fs s) (\<lambda>(x, as', s). Some (Inr (x, a' # as', s))))
      else andThenO (poll_dispatch as fs s) (\<lambda>(x, as', s). Some (Inr (x, a # as', s))))"
| "poll_dispatch as fs s = Some (Inr (None, as, s))"

text \<open>The kernel answers with the value of \<open>::poll\<close> and the \<open>revents\<close> of each entry.\<close>

definition set_revents :: "(nat \<Rightarrow> u16) \<Rightarrow> pollfd list \<Rightarrow> pollfd list" where
  "set_revents revents fs = map (\<lambda>(i, f). f\<lparr>pfd_revents := revents i\<rparr>) (enumerate 0 fs)"

definition poll :: "(pollfd list \<Rightarrow> int \<times> (nat \<Rightarrow> u16)) \<Rightarrow> 's poller \<Rightarrow> 's \<Rightarrow>
    (poll_result \<times> 's poller \<times> 's) res option" where
  "poll answer p s =
     (if length (po_pollfds p) \<noteq> length (po_actions p)
      then Some (Inl (Assert_Failed ''pollfds_.size() == actions_.size()''))
      else
        andThenO (poll_prepare (po_actions p) (po_pollfds p) s) (\<lambda>(fs, s).
          if \<forall>f \<in> set fs. pfd_events f = 0 then Some (Inr (Poll_Exit 0, p\<lparr>po_pollfds := fs\<rparr>, s))
          else
            let (ret, revents) = answer fs; fs = set_revents revents fs; p = p\<lparr>po_pollfds := fs\<rparr>
            in andThenO (Some (SystemCall ''poll'' ret)) (\<lambda>n.
                 if n = 0 then Some (Inr (Poll_Timeout, p, s))
                 else
                   andThenO (poll_dispatch (po_actions p) fs s) (\<lambda>(x, as, s).
                     Some (Inr (case x of None \<Rightarrow> Poll_Success | Some status \<Rightarrow> Poll_Exit status,
                                p\<lparr>po_actions := as\<rparr>, s))))))"

text \<open>
  \<open>while ( true ) { poll ( wait_time () ); .. }\<close> of \<open>EventLoop::internal_loop\<close>, for as many rounds as the
  kernel gives answers; \<open>None\<close> means that the loop is still running then. The timeout goes to the
  kernel.
\<close>

type_synonym poll_answers = "(i32 \<Rightarrow> pollfd list \<Rightarrow> int \<times> (nat \<Rightarrow> u16)) list"

fun poll_loop :: "('s \<Rightarrow> (i32 \<times> 's) res option) \<Rightarrow> poll_answers \<Rightarrow> 's poller \<Rightarrow> 's \<Rightarrow>
    (u32 option \<times> 's poller \<times> 's) res option" where
  "poll_loop wait [] p s = Some (Inr (None, p, s))"
| "poll_loop wait (k # ks) p s =
     andThenO (wait s) (\<lambda>(t, s).
     andThenO (poll (k t) p s) (\<lambda>(r, p, s).
       case r of Poll_Exit status \<Rightarrow> Some (Inr (Some status, p, s)) | _ \<Rightarrow> poll_loop wait ks p s))"

section \<open>What the user of the poller provides\<close>

text \<open>
  \<open>inv k s\<close>: the state is sound and good for callbacks that cost \<open>k\<close> in all; \<open>prog s s'\<close>: the state
  went from \<open>s\<close> to \<open>s'\<close>; \<open>allowed e\<close>: an error that may end the program; \<open>ready a s\<close>: what makes the
  callback of \<open>a\<close> safe, which its interest promises; \<open>independent a b\<close>: the callback of \<open>a\<close> leaves \<open>b\<close>
  ready, as it must when \<open>b\<close> is later in the list. Every action keeps its descriptor.
\<close>

locale poll_client =
  fixes inv :: "nat \<Rightarrow> 's \<Rightarrow> bool"
    and prog :: "'s \<Rightarrow> 's \<Rightarrow> bool"
    and allowed :: "exn \<Rightarrow> bool"
    and action_ok :: "'s poll_action \<Rightarrow> bool"
    and cost :: "'s poll_action \<Rightarrow> nat"
    and wait :: "'s \<Rightarrow> (i32 \<times> 's) res option"
    and ready :: "'s poll_action \<Rightarrow> 's \<Rightarrow> bool"
    and independent :: "'s poll_action \<Rightarrow> 's poll_action \<Rightarrow> bool"
  assumes prog_refl: "prog s s"
    and prog_trans: "prog s s1 \<Longrightarrow> prog s1 s2 \<Longrightarrow> prog s s2"
    and inv_mono: "inv (k + n) s \<Longrightarrow> inv k s"
    and poll_allowed: "allowed (Unix_Error ''poll'')"
    and action_ok_inactive: "action_ok a \<Longrightarrow> action_ok (a\<lparr>pa_active := b\<rparr>)"
    and cost_inactive: "cost (a\<lparr>pa_active := b\<rparr>) = cost a"
    and independent_inactive:
      "independent (a\<lparr>pa_active := b\<rparr>) c = independent a c"
      "independent c (a\<lparr>pa_active := b\<rparr>) = independent c a"
    and action_fd: "action_ok a \<Longrightarrow> prog s s' \<Longrightarrow> fd_num (pa_fd a s') = fd_num (pa_fd a s)"
    and callback_law: "action_ok a \<Longrightarrow> inv (k + cost a) s \<Longrightarrow> ready a s \<Longrightarrow>
      (\<exists>e. pa_callback a s = Some (Inl e) \<and> allowed e) \<or>
      (\<exists>r s'. pa_callback a s = Some (Inr (r, s')) \<and> inv k s' \<and> prog s s' \<and>
         (\<forall>b. action_ok b \<longrightarrow> independent a b \<longrightarrow> ready b s \<longrightarrow> ready b s'))"
    and interest_law: "action_ok a \<Longrightarrow> inv k s \<Longrightarrow>
      (\<exists>e. pa_when_interested a s = Some (Inl e) \<and> allowed e) \<or>
      (\<exists>want s'. pa_when_interested a s = Some (Inr (want, s')) \<and> inv k s' \<and> prog s s' \<and>
         (want \<longrightarrow> ready a s') \<and> (\<forall>b. action_ok b \<longrightarrow> ready b s \<longrightarrow> ready b s'))"
    and wait_law: "inv k s \<Longrightarrow>
      (\<exists>e. wait s = Some (Inl e) \<and> allowed e) \<or>
      (\<exists>t s'. wait s = Some (Inr (t, s')) \<and> inv k s' \<and> prog s s')"
begin

definition fds_ok :: "'s \<Rightarrow> 's poll_action list \<Rightarrow> pollfd list \<Rightarrow> bool" where
  "fds_ok s as fs \<longleftrightarrow> (\<forall>a \<in> set as. action_ok a) \<and> sorted_wrt independent as \<and>
     list_all2 (\<lambda>a f. pfd_fd f = fd_num (pa_fd a s)) as fs"

definition armed :: "'s \<Rightarrow> 's poll_action list \<Rightarrow> pollfd list \<Rightarrow> bool" where
  \<comment> \<open>events are asked for only where the callback is safe\<close>
  "armed s as fs \<longleftrightarrow> list_all2 (\<lambda>a f. pfd_events f \<noteq> 0 \<longrightarrow> ready a s) as fs"

lemma fds_ok_prog: "fds_ok s as fs \<Longrightarrow> prog s s' \<Longrightarrow> fds_ok s' as fs"
  by (auto simp: fds_ok_def list_all2_conv_all_nth action_fd)

lemma fds_ok_Cons: "fds_ok s (a # as) (f # fs) \<longleftrightarrow>
    action_ok a \<and> (\<forall>b \<in> set as. independent a b) \<and> pfd_fd f = fd_num (pa_fd a s) \<and> fds_ok s as fs"
  by (auto simp: fds_ok_def)

lemma armed_simps [simp]:
  "armed s [] []" "armed s (a # as) (f # fs) \<longleftrightarrow> (pfd_events f \<noteq> 0 \<longrightarrow> ready a s) \<and> armed s as fs"
  by (simp_all add: armed_def)

lemma armed_independent:
  "armed s as fs \<Longrightarrow> \<forall>b \<in> set as. ready b s \<longrightarrow> ready b s' \<Longrightarrow> armed s' as fs"
  unfolding armed_def by (auto simp: list_all2_conv_all_nth)

definition total_cost :: "'s poll_action list \<Rightarrow> nat" where
  "total_cost as = sum_list (map cost as)"

lemma total_cost_simps [simp]: "total_cost [] = 0" "total_cost (a # as) = cost a + total_cost as"
  by (simp_all add: total_cost_def)

lemma prepare_ok:
  "fds_ok s as fs \<Longrightarrow> inv k s \<Longrightarrow>
   (\<exists>e. poll_prepare as fs s = Some (Inl e) \<and> allowed e) \<or>
   (\<exists>fs' s'. poll_prepare as fs s = Some (Inr (fs', s')) \<and> inv k s' \<and> prog s s' \<and> fds_ok s' as fs' \<and>
      armed s' as fs' \<and> (\<forall>b. action_ok b \<longrightarrow> ready b s \<longrightarrow> ready b s'))"
proof (induction as fs s rule: poll_prepare.induct)
  case (1 a as f fs s)
  from "1.prems"(1) have a: "action_ok a" "\<forall>b \<in> set as. independent a b"
    "pfd_fd f = fd_num (pa_fd a s)" "fds_ok s as fs"
    by (simp_all add: fds_ok_Cons)
  define ask where "ask = (if pa_active a then pa_when_interested a s else Some (Inr (False, s)))"
  have "(\<exists>e. ask = Some (Inl e) \<and> allowed e) \<or>
      (\<exists>b s'. ask = Some (Inr (b, s')) \<and> inv k s' \<and> prog s s' \<and> (b \<longrightarrow> ready a s') \<and>
         (\<forall>b. action_ok b \<longrightarrow> ready b s \<longrightarrow> ready b s'))"
    using interest_law [OF a(1) "1.prems"(2)] "1.prems"(2) by (auto simp: ask_def intro: prog_refl)
  then show ?case
  proof (elim disjE exE conjE)
    fix e assume "ask = Some (Inl e)" "allowed e"
    then show ?thesis using a(3) by (simp flip: ask_def)
  next
    fix want s1 assume s1: "ask = Some (Inr (want, s1))" "inv k s1" "prog s s1" "want \<longrightarrow> ready a s1"
      "\<forall>b. action_ok b \<longrightarrow> ready b s \<longrightarrow> ready b s1"
    let ?rest = "poll_prepare as fs s1"
    from "1.IH" [OF _ refl refl fds_ok_prog [OF a(4) s1(3)] s1(2)] a(3) s1(1)
    have "(\<exists>e. ?rest = Some (Inl e) \<and> allowed e) \<or>
      (\<exists>fs' s'. ?rest = Some (Inr (fs', s')) \<and> inv k s' \<and> prog s1 s' \<and> fds_ok s' as fs' \<and>
         armed s' as fs' \<and> (\<forall>b. action_ok b \<longrightarrow> ready b s1 \<longrightarrow> ready b s'))"
      by simp
    then show ?thesis
    proof (elim disjE exE conjE)
      fix e assume "?rest = Some (Inl e)" "allowed e"
      then show ?thesis using a(3) s1(1) by (simp flip: ask_def)
    next
      fix fs' s' assume r: "?rest = Some (Inr (fs', s'))" "inv k s'" "prog s1 s'"
        "fds_ok s' as fs'" "armed s' as fs'" "\<forall>b. action_ok b \<longrightarrow> ready b s1 \<longrightarrow> ready b s'"
      have p: "prog s s'" using s1(3) r(3) by (rule prog_trans)
      then have "fd_num (pa_fd a s') = fd_num (pa_fd a s)" using action_fd a(1) by blast
      moreover have "want \<longrightarrow> ready a s'" using s1(4) r(6) a(1) by blast
      moreover have "\<forall>b. action_ok b \<longrightarrow> ready b s \<longrightarrow> ready b s'" using s1(5) r(6) by blast
      ultimately show ?thesis using r p a s1(1) by (auto simp: fds_ok_Cons simp flip: ask_def)
    qed
  qed
next
  case (2 fs s)
  then show ?case by (auto simp: fds_ok_def armed_def intro: prog_refl)
next
  case (3 a as s)
  then show ?case by (simp add: fds_ok_def)
qed

text \<open>What the loop over the callbacks may end with.\<close>

definition dispatched :: "nat \<Rightarrow> 's \<Rightarrow> 's poll_action list \<Rightarrow> pollfd list \<Rightarrow>
    (u32 option \<times> 's poll_action list \<times> 's) res option \<Rightarrow> bool" where
  "dispatched k s as fs res \<longleftrightarrow>
     (\<exists>e. res = Some (Inl e) \<and> allowed e) \<or>
     (\<exists>x as' s'. res = Some (Inr (x, as', s')) \<and> inv k s' \<and> prog s s' \<and>
        fds_ok s' as' fs \<and> total_cost as' = total_cost as \<and>
        (\<forall>c. (\<forall>b \<in> set as. independent c b) \<longrightarrow> (\<forall>b \<in> set as'. independent c b)))"

lemma dispatched_Cons:
  assumes "dispatched k s1 as fs res" "prog s s1" "fds_ok s (a # as) (f # fs)"
    and "a' = a \<or> a' = a\<lparr>pa_active := False\<rparr>"
  shows "dispatched k s (a # as) (f # fs) (andThenO res (\<lambda>(x, as', s). Some (Inr (x, a' # as', s))))"
proof -
  from assms(3) have a: "action_ok a" "\<forall>b \<in> set as. independent a b" "pfd_fd f = fd_num (pa_fd a s)"
    by (simp_all add: fds_ok_Cons)
  have a': "action_ok a'" "pa_fd a' = pa_fd a" "cost a' = cost a"
    "\<And>b. independent a' b = independent a b" "\<And>c. independent c a' = independent c a"
    using assms(4) a(1) by (auto simp: action_ok_inactive cost_inactive independent_inactive)
  from assms(1) show ?thesis
    unfolding dispatched_def [of k s1]
  proof (elim disjE exE conjE)
    fix x as' s' assume r: "res = Some (Inr (x, as', s'))" "inv k s'" "prog s1 s'" "fds_ok s' as' fs"
      "total_cost as' = total_cost as"
      "\<forall>c. (\<forall>b \<in> set as. independent c b) \<longrightarrow> (\<forall>b \<in> set as'. independent c b)"
    have p: "prog s s'" using assms(2) r(3) by (rule prog_trans)
    have "\<forall>b \<in> set as'. independent a b" using a(2) r(6) by blast
    with a a' action_fd [OF a(1) p] r(4) have "fds_ok s' (a' # as') (f # fs)"
      by (simp add: fds_ok_Cons)
    with r p a' show ?thesis by (simp add: dispatched_def)
  qed (simp add: dispatched_def)
qed

lemma dispatch_ok:
  "fds_ok s as fs \<Longrightarrow> armed s as fs \<Longrightarrow> inv (k + total_cost as) s \<Longrightarrow>
   dispatched k s as fs (poll_dispatch as fs s)"
proof (induction as fs s rule: poll_dispatch.induct)
  case (1 a as f fs s)
  from "1.prems"(1) have a: "action_ok a" "\<forall>b \<in> set as. independent a b" "fds_ok s as fs"
    by (simp_all add: fds_ok_Cons)
  from "1.prems"(2) have armed: "pfd_events f \<noteq> 0 \<longrightarrow> ready a s" "armed s as fs" by simp_all
  have inv: "inv (k + total_cost as + cost a) s" using "1.prems"(3) by (simp add: ac_simps)
  consider (error) "pfd_revents f AND POLL_ERROR \<noteq> 0"
    | (run) "pfd_revents f AND POLL_ERROR = 0" "pfd_revents f AND pfd_events f \<noteq> 0"
    | (skip) "pfd_revents f AND POLL_ERROR = 0" "pfd_revents f AND pfd_events f = 0" by blast
  then show ?case
  proof cases
    case error
    with "1.prems" inv_mono [OF "1.prems"(3)] show ?thesis by (simp add: dispatched_def prog_refl)
  next
    case skip
    with "1.IH"(2) [OF _ _ a(3) armed(2) inv_mono [OF inv]]
    have "dispatched k s as fs (poll_dispatch as fs s)" by simp
    from dispatched_Cons [OF this prog_refl "1.prems"(1)] skip show ?thesis by simp
  next
    case run
    then have "ready a s" using armed(1) by auto
    from callback_law [OF a(1) inv this] show ?thesis
    proof (elim disjE exE conjE)
      fix e assume "pa_callback a s = Some (Inl e)" "allowed e"
      with run show ?thesis by (simp add: dispatched_def)
    next
      fix r s1 assume s1: "pa_callback a s = Some (Inr (r, s1))" "inv (k + total_cost as) s1" "prog s s1"
        "\<forall>b. action_ok b \<longrightarrow> independent a b \<longrightarrow> ready b s \<longrightarrow> ready b s1"
      show ?thesis
      proof (cases "ar_result r = Exit")
        case True
        with run s1 inv_mono [OF s1(2)] fds_ok_prog [OF "1.prems"(1) s1(3)] show ?thesis
          by (simp add: dispatched_def)
      next
        case False
        have "\<forall>b \<in> set as. ready b s \<longrightarrow> ready b s1" using s1(4) a(2,3) by (auto simp: fds_ok_def)
        with armed(2) have "armed s1 as fs" by (rule armed_independent)
        with "1.IH"(1) [OF _ _ False refl fds_ok_prog [OF a(3) s1(3)] _ s1(2)] run
        have "dispatched k s1 as fs (poll_dispatch as fs s1)" by simp
        from dispatched_Cons [OF this s1(3) "1.prems"(1)] False run s1(1) show ?thesis by simp
      qed
    qed
  qed
qed (auto simp: dispatched_def fds_ok_def intro: prog_refl)

definition poller_ok :: "'s \<Rightarrow> 's poller \<Rightarrow> bool" where
  "poller_ok s p \<longleftrightarrow> fds_ok s (po_actions p) (po_pollfds p)"

lemma poller_ok_empty: "poller_ok s empty_poller"
  by (simp add: poller_ok_def empty_poller_def fds_ok_def)

lemma poller_ok_add:
  "poller_ok s p \<Longrightarrow> action_ok a \<Longrightarrow> \<forall>b \<in> set (po_actions p). independent b a \<Longrightarrow>
   poller_ok s (add_action s a p)"
  by (auto simp: poller_ok_def fds_ok_def add_action_def sorted_wrt_append intro!: list_all2_appendI)

lemma armed_revents: "armed s as (set_revents r fs) = armed s as fs"
  by (simp add: armed_def set_revents_def list_all2_conv_all_nth nth_enumerate_eq cong: conj_cong)

lemma fds_ok_revents: "fds_ok s as (set_revents r fs) = fds_ok s as fs"
  by (simp add: fds_ok_def set_revents_def list_all2_conv_all_nth nth_enumerate_eq cong: conj_cong)

text \<open>One round, whatever the kernel answers.\<close>

lemma poll_ok:
  assumes "poller_ok s p" "inv (k + total_cost (po_actions p)) s"
  shows "(\<exists>e. poll answer p s = Some (Inl e) \<and> allowed e) \<or>
    (\<exists>r p' s'. poll answer p s = Some (Inr (r, p', s')) \<and> inv k s' \<and> prog s s' \<and> poller_ok s' p' \<and>
       total_cost (po_actions p') = total_cost (po_actions p))"
proof -
  let ?as = "po_actions p"
  have fds: "fds_ok s ?as (po_pollfds p)" using assms(1) by (simp add: poller_ok_def)
  then have len: "length (po_pollfds p) = length ?as"
    by (auto simp: fds_ok_def dest: list_all2_lengthD)
  from prepare_ok [OF fds assms(2)] show ?thesis
  proof (elim disjE exE conjE)
    fix e assume "poll_prepare ?as (po_pollfds p) s = Some (Inl e)" "allowed e"
    with len show ?thesis by (simp add: poll_def)
  next
    fix fs s1 assume s1: "poll_prepare ?as (po_pollfds p) s = Some (Inr (fs, s1))"
      "inv (k + total_cost ?as) s1" "prog s s1" "fds_ok s1 ?as fs" "armed s1 ?as fs"
    obtain ret revents where ans: "answer fs = (ret, revents)" by (cases "answer fs")
    let ?fs = "set_revents revents fs"
    have k: "inv k s1" using s1(2) by (rule inv_mono)
    have fs: "fds_ok s1 ?as ?fs" using s1(4) by (simp add: fds_ok_revents)
    have armed: "armed s1 ?as ?fs" using s1(5) by (simp add: armed_revents)
    show ?thesis
    proof (cases "\<forall>f \<in> set fs. pfd_events f = 0")
      case True
      with len s1 k show ?thesis by (simp add: poll_def poller_ok_def)
    next
      case False
      show ?thesis
      proof (cases "SystemCall ''poll'' ret")
        case (Inl e)
        then have "e = Unix_Error ''poll''" by (simp add: SystemCall_def split: if_splits)
        with Inl False len s1(1) ans show ?thesis by (auto simp: poll_def poll_allowed)
      next
        case (Inr n)
        show ?thesis
        proof (cases "n = 0")
          case True
          with Inr False len s1(1,3) k fs ans show ?thesis
            by (auto simp: poll_def Let_def poller_ok_def)
        next
          case n: False
          from dispatch_ok [OF fs armed s1(2)] show ?thesis
            unfolding dispatched_def
          proof (elim disjE exE conjE)
            fix e assume "poll_dispatch ?as ?fs s1 = Some (Inl e)" "allowed e"
            with n Inr False len s1(1) ans show ?thesis by (auto simp: poll_def Let_def)
          next
            fix x as' s' assume r: "poll_dispatch ?as ?fs s1 = Some (Inr (x, as', s'))" "inv k s'"
              "prog s1 s'" "fds_ok s' as' ?fs" "total_cost as' = total_cost ?as"
            have "prog s s'" using s1(3) r(3) by (rule prog_trans)
            with r n Inr False len s1(1) ans show ?thesis
              by (auto simp: poll_def Let_def poller_ok_def)
          qed
        qed
      qed
    qed
  qed
qed

text \<open>The loop, for every sequence of answers.\<close>

lemma poll_loop_ok:
  "poller_ok s p \<Longrightarrow> inv (k + length answers * total_cost (po_actions p)) s \<Longrightarrow>
   (\<exists>e. poll_loop wait answers p s = Some (Inl e) \<and> allowed e) \<or>
   (\<exists>r p' s'. poll_loop wait answers p s = Some (Inr (r, p', s')) \<and> inv k s' \<and> prog s s')"
proof (induction answers arbitrary: p s)
  case Nil
  then show ?case by (simp add: prog_refl)
next
  case (Cons answer answers)
  let ?m = "total_cost (po_actions p)"
  from wait_law [OF Cons.prems(2)] show ?case
  proof (elim disjE exE conjE)
    fix e assume "wait s = Some (Inl e)" "allowed e"
    then show ?thesis by simp
  next
    fix t s1 assume s1: "wait s = Some (Inr (t, s1))" "inv (k + length (answer # answers) * ?m) s1"
      "prog s s1"
    have p1: "poller_ok s1 p" using Cons.prems(1) s1(3) by (auto simp: poller_ok_def intro: fds_ok_prog)
    have "inv ((k + length answers * ?m) + ?m) s1" using s1(2) by (simp add: add_ac)
    from poll_ok [OF p1 this, of "answer t"] show ?thesis
    proof (elim disjE exE conjE)
      fix e assume "poll (answer t) p s1 = Some (Inl e)" "allowed e"
      with s1 show ?thesis by simp
    next
      fix r p' s2 assume s2: "poll (answer t) p s1 = Some (Inr (r, p', s2))"
        "inv (k + length answers * ?m) s2" "prog s1 s2" "poller_ok s2 p'"
        "total_cost (po_actions p') = ?m"
      have prog: "prog s s2" using s1(3) s2(3) by (rule prog_trans)
      have "(\<exists>status. r = Poll_Exit status) \<or> poll_loop wait (answer # answers) p s = poll_loop wait answers p' s2"
        using s1(1) s2(1) by (cases r) simp_all
      then show ?thesis
      proof (elim disjE exE)
        fix status assume "r = Poll_Exit status"
        moreover have "inv k s2" using s2(2) by (rule inv_mono)
        ultimately show ?thesis using s1(1) s2(1) prog by simp
      next
        assume loop: "poll_loop wait (answer # answers) p s = poll_loop wait answers p' s2"
        have "inv (k + length answers * total_cost (po_actions p')) s2" using s2(2,5) by simp
        from Cons.IH [OF s2(4) this] prog show ?thesis unfolding loop
          by (elim disjE exE conjE) (auto intro: prog_trans)
      qed
    qed
  qed
qed

end

text \<open>
  A user whose callbacks are safe whenever the state is sound, interest or not.
\<close>

locale simple_poll_client =
  fixes inv :: "nat \<Rightarrow> 's \<Rightarrow> bool"
    and prog :: "'s \<Rightarrow> 's \<Rightarrow> bool"
    and allowed :: "exn \<Rightarrow> bool"
    and action_ok :: "'s poll_action \<Rightarrow> bool"
    and cost :: "'s poll_action \<Rightarrow> nat"
    and wait :: "'s \<Rightarrow> (i32 \<times> 's) res option"
  assumes prog_refl: "prog s s"
    and prog_trans: "prog s s1 \<Longrightarrow> prog s1 s2 \<Longrightarrow> prog s s2"
    and inv_mono: "inv (k + n) s \<Longrightarrow> inv k s"
    and poll_allowed: "allowed (Unix_Error ''poll'')"
    and action_ok_inactive: "action_ok a \<Longrightarrow> action_ok (a\<lparr>pa_active := b\<rparr>)"
    and cost_inactive: "cost (a\<lparr>pa_active := b\<rparr>) = cost a"
    and action_fd: "action_ok a \<Longrightarrow> prog s s' \<Longrightarrow> fd_num (pa_fd a s') = fd_num (pa_fd a s)"
    and callback_law: "action_ok a \<Longrightarrow> inv (k + cost a) s \<Longrightarrow>
      (\<exists>e. pa_callback a s = Some (Inl e) \<and> allowed e) \<or>
      (\<exists>r s'. pa_callback a s = Some (Inr (r, s')) \<and> inv k s' \<and> prog s s')"
    and interest_law: "action_ok a \<Longrightarrow> inv k s \<Longrightarrow>
      (\<exists>e. pa_when_interested a s = Some (Inl e) \<and> allowed e) \<or>
      (\<exists>b s'. pa_when_interested a s = Some (Inr (b, s')) \<and> inv k s' \<and> prog s s')"
    and wait_law: "inv k s \<Longrightarrow>
      (\<exists>e. wait s = Some (Inl e) \<and> allowed e) \<or>
      (\<exists>t s'. wait s = Some (Inr (t, s')) \<and> inv k s' \<and> prog s s')"

sublocale simple_poll_client \<subseteq> general: poll_client inv prog allowed action_ok cost wait
  "\<lambda>a s. True" "\<lambda>a b. True"
  using prog_refl inv_mono poll_allowed action_ok_inactive cost_inactive action_fd callback_law
    interest_law wait_law
  by unfold_locales (simp_all, (blast intro: prog_trans)+)

end
