(* ===== verification/Util.thy ===== *)
theory Util
  imports Main Prelude Kernel
begin

text \<open>
  \<open>src/util/util.cc/.hh\<close>: user and group identities, the checks before the program starts, and small
  helpers. The calls on identities are a parameter: an \<open>id_calls\<close> on some state \<open>'w\<close> of the kernel,
  whose documented behaviour is \<open>id_laws\<close>. \<open>linux_ids\<close> is a kernel with the saved identities of
  Linux.
\<close>

section \<open>The kernel's calls on identities\<close>

record 'w id_calls =
  k_getuid :: "'w \<Rightarrow> nat"
  k_geteuid :: "'w \<Rightarrow> nat"
  k_getgid :: "'w \<Rightarrow> nat"
  k_getegid :: "'w \<Rightarrow> nat"
  k_setreuid :: "nat \<Rightarrow> nat \<Rightarrow> 'w \<Rightarrow> int \<times> 'w"
  k_setregid :: "nat \<Rightarrow> nat \<Rightarrow> 'w \<Rightarrow> int \<times> 'w"
  k_seteuid :: "nat \<Rightarrow> 'w \<Rightarrow> int \<times> 'w"
  k_setegid :: "nat \<Rightarrow> 'w \<Rightarrow> int \<times> 'w"

definition ids :: "'w id_calls \<Rightarrow> 'w \<Rightarrow> nat \<times> nat \<times> nat \<times> nat" where
  \<comment> \<open>real and effective user, real and effective group\<close>
  "ids k w = (k_getuid k w, k_geteuid k w, k_getgid k w, k_getegid k w)"

definition obeys :: "'w id_calls \<Rightarrow> 'w \<Rightarrow> int \<times> 'w \<Rightarrow> (nat \<times> nat \<times> nat \<times> nat) \<Rightarrow> bool" where
  \<comment> \<open>a call returns 0 and has set the identities, or returns -1 and has not\<close>
  "obeys k w r new \<longleftrightarrow> fst r = 0 \<and> ids k (snd r) = new \<or> fst r = -1 \<and> ids k (snd r) = ids k w"

definition id_laws :: "'w id_calls \<Rightarrow> bool" where
  "id_laws k \<longleftrightarrow> (\<forall>w a b.
     obeys k w (k_setreuid k a b w) (a, b, k_getgid k w, k_getegid k w) \<and>
     obeys k w (k_setregid k a b w) (k_getuid k w, k_geteuid k w, a, b) \<and>
     obeys k w (k_seteuid k a w) (k_getuid k w, a, k_getgid k w, k_getegid k w) \<and>
     obeys k w (k_setegid k a w) (k_getuid k w, k_geteuid k w, k_getgid k w, a))"

definition id_call :: "string \<Rightarrow> int \<times> 'w \<Rightarrow> 'w res" where
  "id_call attempt r = andThen (SystemCall attempt (fst r)) (\<lambda>_. Inr (snd r))"

section \<open>drop_privileges\<close>

text \<open>\<open>_exit ( EXIT_FAILURE )\<close> ends the process: \<open>Exit_Failure\<close>.\<close>

datatype 'w dropped = Dropped 'w | Exit_Failure

definition drop_privileges :: "'w id_calls \<Rightarrow> 'w \<Rightarrow> 'w dropped res" where
  "drop_privileges k w =
     (let real_gid = k_getgid k w; eff_gid = k_getegid k w;
          real_uid = k_getuid k w; eff_uid = k_geteuid k w
      in andThen (if real_gid \<noteq> eff_gid
                  then id_call ''setregid'' (k_setregid k real_gid real_gid w) else Inr w) (\<lambda>w.
         andThen (if real_uid \<noteq> eff_uid
                  then id_call ''setreuid'' (k_setreuid k real_uid real_uid w) else Inr w) (\<lambda>w.
         let (r, w1) = (if real_gid \<noteq> eff_gid then k_setegid k eff_gid w else (-1, w))
         in if real_gid \<noteq> eff_gid \<and> (r \<noteq> -1 \<or> k_getegid k w1 \<noteq> real_gid) then Inr Exit_Failure
            else
              let (r, w2) = (if real_uid \<noteq> eff_uid then k_seteuid k eff_uid w1 else (-1, w1))
              in if real_uid \<noteq> eff_uid \<and> (r \<noteq> -1 \<or> k_geteuid k w2 \<noteq> real_uid) then Inr Exit_Failure
                 else Inr (Dropped w2))))"

section \<open>TemporarilyUnprivileged\<close>

record temporarily_unprivileged =
  orig_euid :: nat
  orig_egid :: nat

definition ids_assert_not_root :: "'w id_calls \<Rightarrow> 'w \<Rightarrow> unit res" where
  "ids_assert_not_root k w =
     (if k_geteuid k w = 0 \<or> k_getegid k w = 0
      then Inl (Runtime_Error ''BUG: privileges not dropped in sensitive region'') else Inr ())"

definition TemporarilyUnprivileged :: "'w id_calls \<Rightarrow> 'w \<Rightarrow> (temporarily_unprivileged \<times> 'w) res" where
  "TemporarilyUnprivileged k w =
     (let tu = \<lparr>orig_euid = k_geteuid k w, orig_egid = k_getegid k w\<rparr>
      in andThen (id_call ''setegid'' (k_setegid k (k_getgid k w) w)) (\<lambda>w.
         andThen (id_call ''seteuid'' (k_seteuid k (k_getuid k w) w)) (\<lambda>w.
         andThen (ids_assert_not_root k w) (\<lambda>_. Inr (tu, w)))))"

definition tu_destroy :: "'w id_calls \<Rightarrow> temporarily_unprivileged \<Rightarrow> 'w \<Rightarrow> 'w res" where
  "tu_destroy k tu w =
     andThen (id_call ''seteuid'' (k_seteuid k (orig_euid tu) w)) (\<lambda>w.
       id_call ''setegid'' (k_setegid k (orig_egid tu) w))"

section \<open>Checks and helpers\<close>

text \<open>
  \<open>check_requirements\<close>: \<open>argv0\<close> is \<open>argv[ 0 ]\<close>; \<open>environ\<close> says whether an environment is set; the
  two \<open>open\<close> calls answer with a descriptor, each followed by the answer of its \<open>fcntl\<close>.
\<close>

definition check_requirements ::
    "int \<Rightarrow> string \<Rightarrow> 'w id_calls \<Rightarrow> 'w \<Rightarrow> bool \<Rightarrow> int \<times> int \<Rightarrow> int \<times> int \<Rightarrow> world \<Rightarrow> unit res" where
  "check_requirements argc argv0 k kw environ dev_null ip_forward w =
     (if argc \<le> 0 then Inl (Runtime_Error ''missing argv[ 0 ]: argc <= 0'')
      else
        andThen (andThen (SystemCall ''open /dev/null'' (fst dev_null)) (\<lambda>fd.
                   FileDescriptor fd (snd dev_null))) (\<lambda>_.
        if k_geteuid k kw \<noteq> 0 then
          Inl (Runtime_Error (argv0 @ '': needs to be installed setuid root''))
        else if k_getuid k kw = 0 \<or> k_getgid k kw = 0 then
          Inl (Runtime_Error (argv0 @ '': please run as non-root''))
        else if environ then
          Inl (Runtime_Error ''BUG: environment not cleared in sensitive region'')
        else
          andThen (andThen (SystemCall ''open /proc/sys/net/ipv4/ip_forward'' (fst ip_forward)) (\<lambda>fd.
                     FileDescriptor fd (snd ip_forward))) (\<lambda>ipf.
          andThen (fd_read BUFFER_SIZE ipf w) (\<lambda>(content, _).
            if content \<noteq> [CHR ''1'', CHR 0x0A] then
              Inl (Runtime_Error (argv0 @ '': Please run ''
                @ [CHR 0x22] @ ''sudo sysctl -w net.ipv4.ip_forward=1'' @ [CHR 0x22]
                @ '' to enable IP forwarding''))
            else Inr ()))))"

definition make_directory :: "world \<Rightarrow> string \<Rightarrow> int \<Rightarrow> int res" where
  "make_directory w directory mkdir_ret =
     andThen (assert_not_root w) (\<lambda>_.
     andThen (assertE (directory \<noteq> []) ''not directory.empty()'') (\<lambda>_.
     andThen (assertE (last directory = CHR ''/'') ''directory.back() == /'') (\<lambda>_.
       SystemCall (''mkdir '' @ directory) mkdir_ret)))"

definition shell_path :: "string option \<Rightarrow> string res" where
  \<comment> \<open>the argument is the shell in the user's \<open>passwd\<close> entry, if there is one\<close>
  "shell_path pw_shell =
     (case pw_shell of
        None \<Rightarrow> Inl (Unix_Error ''getpwuid'')
      | Some s \<Rightarrow> Inr (if s = [] then ''/bin/sh'' else s))"

text \<open>\<open>join\<close>; \<open>front\<close> of an empty vector is undefined.\<close>

definition join :: "string list \<Rightarrow> string res" where
  "join command =
     (case command of
        [] \<Rightarrow> Inl (Undefined ''front of an empty vector'')
      | c # cs \<Rightarrow> Inr (foldl (\<lambda>a b. a @ '' '' @ b) c cs))"

text \<open>The environment is a map; \<open>setenv\<close> answers with a value each time.\<close>

type_synonym environment = "string \<rightharpoonup> string"

definition prepend_shell_prefix :: "string \<Rightarrow> int \<Rightarrow> int \<Rightarrow> environment \<Rightarrow> environment res" where
  "prepend_shell_prefix str setenv1 setenv2 env =
     (let prefix_text = (case env ''MAHIMAHI_SHELL_PREFIX'' of None \<Rightarrow> [] | Some s \<Rightarrow> s);
          mahimahi_prefix = prefix_text @ str
      in andThen (SystemCall ''setenv'' setenv1) (\<lambda>_.
           let env = env(''MAHIMAHI_SHELL_PREFIX'' \<mapsto> mahimahi_prefix)
           in andThen (SystemCall ''setenv'' setenv2) (\<lambda>_.
                Inr (env(''PROMPT_COMMAND'' \<mapsto>
                  ''PS1='' @ [CHR 0x22] @ ''$MAHIMAHI_SHELL_PREFIX$PS1'' @ [CHR 0x22]
                  @ '' PROMPT_COMMAND='')))))"

definition list_directory_contents :: "world \<Rightarrow> string \<Rightarrow> string list option \<Rightarrow> int \<Rightarrow> string list res" where
  \<comment> \<open>the directory's entries, if it can be opened, and the answer of \<open>closedir\<close>, whose failure
    throws out of a destructor and aborts the process\<close>
  "list_directory_contents w dir entries closedir_ret =
     andThen (assert_not_root w) (\<lambda>_.
       case entries of
         None \<Rightarrow> Inl (Unix_Error (''opendir ('' @ dir @ '')''))
       | Some names \<Rightarrow>
           if closedir_ret < 0 then Inl (Assert_Failed ''terminate: exception from a destructor'')
           else Inr (map ((@) dir) (filter (\<lambda>n. n \<noteq> ''.'' \<and> n \<noteq> ''..'') names)))"

definition get_working_directory :: "string option \<Rightarrow> string res" where
  "get_working_directory cwd =
     (case cwd of None \<Rightarrow> Inl (Unix_Error ''getcwd'') | Some s \<Rightarrow> Inr s)"

section \<open>Identities: what is guaranteed\<close>

lemma id_call_Inr_iff: "id_call attempt r = Inr w \<longleftrightarrow> 0 \<le> fst r \<and> w = snd r"
  by (auto simp: id_call_def SystemCall_def)

lemma id_call_Inl_iff: "id_call attempt r = Inl e \<longleftrightarrow> fst r < 0 \<and> e = Unix_Error attempt"
  by (auto simp: id_call_def SystemCall_def)

lemma id_lawsD:
  assumes "id_laws k"
  shows "obeys k w (k_setreuid k a b w) (a, b, k_getgid k w, k_getegid k w)"
    "obeys k w (k_setregid k a b w) (k_getuid k w, k_geteuid k w, a, b)"
    "obeys k w (k_seteuid k a w) (k_getuid k w, a, k_getgid k w, k_getegid k w)"
    "obeys k w (k_setegid k a w) (k_getuid k w, k_geteuid k w, k_getgid k w, a)"
  using assms by (simp_all add: id_laws_def)

lemma obeys_set: "obeys k w r new \<Longrightarrow> id_call s r = Inr w' \<Longrightarrow> ids k w' = new"
  by (auto simp: obeys_def id_call_Inr_iff)

lemmas id_calls_set = id_lawsD [THEN obeys_set]

lemma ids_eq_iff:
  "ids k w = (ru, eu, rg, eg) \<longleftrightarrow>
     k_getuid k w = ru \<and> k_geteuid k w = eu \<and> k_getgid k w = rg \<and> k_getegid k w = eg"
  by (simp add: ids_def)

text \<open>Inside its scope the process has its real identities, neither of them root; the end of the
  scope restores what was there.\<close>

lemma temporarily_unprivileged:
  assumes "id_laws k" "TemporarilyUnprivileged k w = Inr (tu, w1)"
  shows "ids k w1 = (k_getuid k w, k_getuid k w, k_getgid k w, k_getgid k w)"
    "k_getuid k w \<noteq> 0" "k_getgid k w \<noteq> 0"
    "ids k w2 = ids k w1 \<Longrightarrow> tu_destroy k tu w2 = Inr w3 \<Longrightarrow> ids k w3 = ids k w"
proof -
  from assms(2) obtain wa where
    a: "id_call ''setegid'' (k_setegid k (k_getgid k w) w) = Inr wa"
      "id_call ''seteuid'' (k_seteuid k (k_getuid k wa) wa) = Inr w1"
      "ids_assert_not_root k w1 = Inr ()" "tu = \<lparr>orig_euid = k_geteuid k w, orig_egid = k_getegid k w\<rparr>"
    by (auto simp: TemporarilyUnprivileged_def Let_def andThen_Inr_iff)
  from id_calls_set(4) [OF assms(1) a(1)] id_calls_set(3) [OF assms(1) a(2)]
  show w1: "ids k w1 = (k_getuid k w, k_getuid k w, k_getgid k w, k_getgid k w)"
    by (simp add: ids_eq_iff)
  with a(3) show "k_getuid k w \<noteq> 0" "k_getgid k w \<noteq> 0"
    by (auto simp: ids_assert_not_root_def ids_eq_iff split: if_splits)
  assume w2: "ids k w2 = ids k w1" and "tu_destroy k tu w2 = Inr w3"
  then obtain wb where
    b: "id_call ''seteuid'' (k_seteuid k (k_geteuid k w) w2) = Inr wb"
      "id_call ''setegid'' (k_setegid k (k_getegid k w) wb) = Inr w3"
    by (auto simp: tu_destroy_def a(4) andThen_Inr_iff)
  from id_calls_set(3) [OF assms(1) b(1)] id_calls_set(4) [OF assms(1) b(2)] w1 w2
  show "ids k w3 = ids k w" by (simp add: ids_def)
qed

text \<open>
  The two halves of \<open>drop_privileges\<close>: setting the real identities, and trying to get the privileged
  ones back.
\<close>

definition set_real_ids :: "'w id_calls \<Rightarrow> 'w \<Rightarrow> 'w res" where
  "set_real_ids k w =
     andThen (if k_getgid k w \<noteq> k_getegid k w
              then id_call ''setregid'' (k_setregid k (k_getgid k w) (k_getgid k w) w) else Inr w) (\<lambda>w'.
       if k_getuid k w \<noteq> k_geteuid k w
       then id_call ''setreuid'' (k_setreuid k (k_getuid k w) (k_getuid k w) w') else Inr w')"

definition test_dropped :: "'w id_calls \<Rightarrow> nat \<times> nat \<times> nat \<times> nat \<Rightarrow> 'w \<Rightarrow> 'w dropped res" where
  "test_dropped k old w =
     (case old of (ru, eu, rg, eg) \<Rightarrow>
       case if rg \<noteq> eg then k_setegid k eg w else (-1, w) of (r, w1) \<Rightarrow>
         if rg \<noteq> eg \<and> (r \<noteq> -1 \<or> k_getegid k w1 \<noteq> rg) then Inr Exit_Failure
         else
           case if ru \<noteq> eu then k_seteuid k eu w1 else (-1, w1) of (r, w2) \<Rightarrow>
             if ru \<noteq> eu \<and> (r \<noteq> -1 \<or> k_geteuid k w2 \<noteq> ru) then Inr Exit_Failure else Inr (Dropped w2))"

lemma drop_privileges_halves:
  fixes k :: "'a id_calls"
  shows "drop_privileges k w = andThen (set_real_ids k w) (test_dropped k (ids k w))"
proof -
  have "andThen (andThen m f) g = andThen m (\<lambda>x. andThen (f x) g)"
    for m :: "'a res" and f :: "'a \<Rightarrow> 'a res" and g :: "'a \<Rightarrow> 'a dropped res"
    by (simp add: andThen_def split: sum.split)
  then show ?thesis
    by (simp only: drop_privileges_def set_real_ids_def test_dropped_def [abs_def] ids_def Let_def prod.case)
qed

lemma set_real_ids_outcome:
  assumes "id_laws k" "ids k w = (ru, eu, rg, eg)"
  shows "case set_real_ids k w of
      Inl e \<Rightarrow> e = Unix_Error ''setregid'' \<and> rg \<noteq> eg \<or> e = Unix_Error ''setreuid'' \<and> ru \<noteq> eu
    | Inr w' \<Rightarrow> ids k w' = (ru, ru, rg, rg)"
proof (cases "set_real_ids k w")
  case (Inl e)
  with assms(2) have "e = Unix_Error ''setregid'' \<and> rg \<noteq> eg \<or> e = Unix_Error ''setreuid'' \<and> ru \<noteq> eu"
    by (auto simp: set_real_ids_def ids_eq_iff andThen_Inl_iff id_call_Inl_iff split: if_splits)
  with Inl show ?thesis by simp
next
  case (Inr w')
  then obtain wa where wa: "(if rg \<noteq> eg then id_call ''setregid'' (k_setregid k rg rg w) else Inr w) = Inr wa"
    and w': "(if ru \<noteq> eu then id_call ''setreuid'' (k_setreuid k ru ru wa) else Inr wa) = Inr w'"
    using assms(2) by (auto simp: set_real_ids_def ids_eq_iff andThen_Inr_iff)
  have "ids k wa = (ru, eu, rg, rg)"
    using assms(2) wa id_calls_set(2) [OF assms(1), of _ rg rg w wa] by (auto simp: ids_eq_iff split: if_splits)
  with w' Inr show ?thesis
    using id_calls_set(1) [OF assms(1), of _ ru ru wa w'] by (auto simp: ids_eq_iff split: if_splits)
qed

lemma test_dropped_outcome:
  assumes "id_laws k" "ids k w = (ru, ru, rg, rg)"
  shows "case test_dropped k (ru, eu, rg, eg) w of
      Inl e \<Rightarrow> False
    | Inr Exit_Failure \<Rightarrow> \<exists>w0. ids k w0 = (ru, ru, rg, rg) \<and>
        (rg \<noteq> eg \<and> fst (k_setegid k eg w0) = 0 \<or> ru \<noteq> eu \<and> fst (k_seteuid k eu w0) = 0)
    | Inr (Dropped w') \<Rightarrow> ids k w' = (ru, ru, rg, rg) \<and>
        (\<exists>w0. ids k w0 = ids k w' \<and> (rg \<noteq> eg \<longrightarrow> fst (k_setegid k eg w0) = -1)) \<and>
        (\<exists>w0. ids k w0 = ids k w' \<and> (ru \<noteq> eu \<longrightarrow> fst (k_seteuid k eu w0) = -1))"
proof -
  obtain r1 w1 where r1: "(if rg \<noteq> eg then k_setegid k eg w else (-1, w)) = (r1, w1)" by fastforce
  obtain r2 w2 where r2: "(if ru \<noteq> eu then k_seteuid k eu w1 else (-1, w1)) = (r2, w2)" by fastforce
  note run = test_dropped_def [of k "(ru, eu, rg, eg)" w, unfolded prod.case r1 r2]
  have law1: "obeys k w (k_setegid k eg w) (k_getuid k w, k_geteuid k w, k_getgid k w, eg)"
    and law2: "obeys k w1 (k_seteuid k eu w1) (k_getuid k w1, eu, k_getgid k w1, k_getegid k w1)"
    using assms(1) by (rule id_lawsD)+
  show ?thesis
  proof (cases "rg \<noteq> eg \<and> (r1 \<noteq> -1 \<or> k_getegid k w1 \<noteq> rg)")
    case True
    with law1 r1 assms(2) have "fst (k_setegid k eg w) = 0" by (auto simp: obeys_def ids_eq_iff)
    with True assms(2) run show ?thesis by auto
  next
    case False
    with law1 r1 assms(2) have w1: "ids k w1 = (ru, ru, rg, rg)" "rg \<noteq> eg \<longrightarrow> fst (k_setegid k eg w) = -1"
      by (auto simp: obeys_def split: if_splits)
    show ?thesis
    proof (cases "ru \<noteq> eu \<and> (r2 \<noteq> -1 \<or> k_geteuid k w2 \<noteq> ru)")
      case True
      with law2 r2 w1 have "fst (k_seteuid k eu w1) = 0" by (auto simp: obeys_def ids_eq_iff)
      with True False w1 run show ?thesis by auto
    next
      case ok: False
      with law2 r2 w1 have w2: "ids k w2 = (ru, ru, rg, rg)" "ru \<noteq> eu \<longrightarrow> fst (k_seteuid k eu w1) = -1"
        by (auto simp: obeys_def split: if_splits)
      have "test_dropped k (ru, eu, rg, eg) w = Inr (Dropped w2)" using run False ok by simp
      with w1 w2 assms(2) show ?thesis by auto
    qed
  qed
qed

text \<open>
  C37. Dropping privileges. On a kernel whose calls set the identities they return 0 for and leave
  them alone when they return -1, \<open>drop_privileges\<close> ends in one of three ways. It throws, because
  the kernel refused to set the real identities. Or it lets the process exit, because the
  privileged identity could be had back afterwards. Or it returns; then user and group are the
  real ones, both as real and as effective identity, and an attempt to get the privileged user or
  group back has just failed.
\<close>

theorem privileges_dropped:
  fixes k :: "'w id_calls" and w :: 'w
  defines "ru \<equiv> k_getuid k w" and "eu \<equiv> k_geteuid k w" and "rg \<equiv> k_getgid k w" and "eg \<equiv> k_getegid k w"
  assumes laws: "id_laws k"
  shows "case drop_privileges k w of
      Inl e \<Rightarrow> e = Unix_Error ''setregid'' \<and> rg \<noteq> eg \<or> e = Unix_Error ''setreuid'' \<and> ru \<noteq> eu
    | Inr Exit_Failure \<Rightarrow> \<exists>w0. ids k w0 = (ru, ru, rg, rg) \<and>
        (rg \<noteq> eg \<and> fst (k_setegid k eg w0) = 0 \<or> ru \<noteq> eu \<and> fst (k_seteuid k eu w0) = 0)
    | Inr (Dropped w') \<Rightarrow> ids k w' = (ru, ru, rg, rg) \<and>
        (\<exists>w0. ids k w0 = ids k w' \<and> (rg \<noteq> eg \<longrightarrow> fst (k_setegid k eg w0) = -1)) \<and>
        (\<exists>w0. ids k w0 = ids k w' \<and> (ru \<noteq> eu \<longrightarrow> fst (k_seteuid k eu w0) = -1))"
proof -
  have old: "ids k w = (ru, eu, rg, eg)" by (simp add: ids_def ru_def eu_def rg_def eg_def)
  show ?thesis
  proof (cases "set_real_ids k w")
    case (Inl e)
    with set_real_ids_outcome [OF laws old] show ?thesis by (simp add: drop_privileges_halves)
  next
    case (Inr w1)
    with set_real_ids_outcome [OF laws old] have "ids k w1 = (ru, ru, rg, rg)" by simp
    from test_dropped_outcome [OF laws this, where eu = eu and eg = eg] Inr show ?thesis
      by (simp add: drop_privileges_halves old split: sum.splits)
  qed
qed

text \<open>A kernel with saved identities: an identity may be set to a real, effective or saved one, or by
  root to any.\<close>

record credentials =
  cr_ruid :: nat
  cr_euid :: nat
  cr_suid :: nat
  cr_rgid :: nat
  cr_egid :: nat
  cr_sgid :: nat

definition linux_ids :: "credentials id_calls" where
  "linux_ids = \<lparr>k_getuid = cr_ruid, k_geteuid = cr_euid, k_getgid = cr_rgid, k_getegid = cr_egid,
     k_setreuid = (\<lambda>r e c.
       if cr_euid c = 0 \<or> {r, e} \<subseteq> {cr_ruid c, cr_euid c, cr_suid c}
       then (0, c\<lparr>cr_ruid := r, cr_euid := e, cr_suid := e\<rparr>) else (-1, c)),
     k_setregid = (\<lambda>r e c.
       if cr_euid c = 0 \<or> {r, e} \<subseteq> {cr_rgid c, cr_egid c, cr_sgid c}
       then (0, c\<lparr>cr_rgid := r, cr_egid := e, cr_sgid := e\<rparr>) else (-1, c)),
     k_seteuid = (\<lambda>e c. if cr_euid c = 0 \<or> e \<in> {cr_ruid c, cr_suid c}
       then (0, c\<lparr>cr_euid := e\<rparr>) else (-1, c)),
     k_setegid = (\<lambda>e c. if cr_euid c = 0 \<or> e \<in> {cr_rgid c, cr_sgid c}
       then (0, c\<lparr>cr_egid := e\<rparr>) else (-1, c))\<rparr>"

lemma linux_ids_simps [simp]:
  "k_getuid linux_ids c = cr_ruid c" "k_geteuid linux_ids c = cr_euid c"
  "k_getgid linux_ids c = cr_rgid c" "k_getegid linux_ids c = cr_egid c"
  "k_setreuid linux_ids r e c =
     (if cr_euid c = 0 \<or> {r, e} \<subseteq> {cr_ruid c, cr_euid c, cr_suid c}
      then (0, c\<lparr>cr_ruid := r, cr_euid := e, cr_suid := e\<rparr>) else (-1, c))"
  "k_setregid linux_ids r e c =
     (if cr_euid c = 0 \<or> {r, e} \<subseteq> {cr_rgid c, cr_egid c, cr_sgid c}
      then (0, c\<lparr>cr_rgid := r, cr_egid := e, cr_sgid := e\<rparr>) else (-1, c))"
  "k_seteuid linux_ids e c =
     (if cr_euid c = 0 \<or> e \<in> {cr_ruid c, cr_suid c} then (0, c\<lparr>cr_euid := e\<rparr>) else (-1, c))"
  "k_setegid linux_ids e c =
     (if cr_euid c = 0 \<or> e \<in> {cr_rgid c, cr_sgid c} then (0, c\<lparr>cr_egid := e\<rparr>) else (-1, c))"
  by (simp_all add: linux_ids_def)

lemma linux_id_laws: "id_laws linux_ids"
  unfolding id_laws_def by (intro allI conjI; simp add: obeys_def ids_def del: insert_subset)

definition setuid_root :: credentials where
  "setuid_root = \<lparr>cr_ruid = 7, cr_euid = 0, cr_suid = 0, cr_rgid = 7, cr_egid = 7,
     cr_sgid = 7\<rparr>"

theorem privileges_dropped_witness:
  "\<exists>c. drop_privileges linux_ids setuid_root = Inr (Dropped c) \<and>
    ids linux_ids c = (7, 7, 7, 7)"
proof -
  have "drop_privileges linux_ids setuid_root =
      Inr (Dropped (setuid_root\<lparr>cr_euid := 7, cr_suid := 7\<rparr>))"
    by (simp add: drop_privileges_def id_call_def setuid_root_def
        cong: andThen_weak_cong let_weak_cong prod.case_cong_weak)
  moreover have "k_getuid linux_ids setuid_root = 7" "k_getgid linux_ids setuid_root = 7"
    by (simp_all add: setuid_root_def)
  moreover note privileges_dropped [OF linux_id_laws, of setuid_root]
  ultimately show ?thesis by simp
qed

end
