(* ===== verification/Child_Process.thy ===== *)
theory Child_Process
  imports Main Prelude Kernel
begin

unbundle bit_operations_syntax

text \<open>
  \<open>src/util/child_process.cc/.hh\<close>: a child process as the program sees it, and the calls by which
  its state follows the kernel's. The answers of \<open>waitid\<close>, \<open>kill\<close> and \<open>raise\<close> are held in a
  \<open>proc_world\<close>, in the order of the calls; the signals that were sent are recorded there.
\<close>

section \<open>Signals and the kernel's answers\<close>

definition SIGHUP :: int where "SIGHUP = 1"
definition SIGINT :: int where "SIGINT = 2"
definition SIGQUIT :: int where "SIGQUIT = 3"
definition SIGTERM :: int where "SIGTERM = 15"
definition SIGCHLD :: int where "SIGCHLD = 17"
definition SIGCONT :: int where "SIGCONT = 18"
definition SIGSTOP :: int where "SIGSTOP = 19"

lemmas signal_numbers = SIGHUP_def SIGINT_def SIGQUIT_def SIGTERM_def SIGCHLD_def SIGCONT_def
  SIGSTOP_def

definition CLD_EXITED :: int where "CLD_EXITED = 1"
definition CLD_KILLED :: int where "CLD_KILLED = 2"
definition CLD_DUMPED :: int where "CLD_DUMPED = 3"
definition CLD_STOPPED :: int where "CLD_STOPPED = 5"
definition CLD_CONTINUED :: int where "CLD_CONTINUED = 6"

lemmas cld_codes = CLD_EXITED_def CLD_KILLED_def CLD_DUMPED_def CLD_STOPPED_def CLD_CONTINUED_def

definition WNOHANG :: u32 where "WNOHANG = 1"
definition CHANGES :: u32 where
  \<comment> \<open>\<open>WEXITED | WSTOPPED | WCONTINUED\<close>\<close>
  "CHANGES = 4 OR 2 OR 8"
definition WNOWAIT :: u32 where "WNOWAIT = 0x01000000"

record siginfo =
  si_pid :: int
  si_signo :: int
  si_code :: int
  si_status :: i32

record proc_world =
  pw_waitid :: "nat \<Rightarrow> int \<Rightarrow> u32 \<Rightarrow> int \<times> siginfo" \<comment> \<open>given the pid and the options\<close>
  pw_waitids :: nat
  pw_kill :: "nat \<Rightarrow> int"
  pw_kills :: nat
  pw_killed :: "(int \<times> int) list" \<comment> \<open>pid and signal of each successful \<open>kill\<close>\<close>
  pw_raise :: "nat \<Rightarrow> int"
  pw_raised :: "int list"

section \<open>State\<close>

record child_process =
  cp_name :: string
  cp_pid :: int
  cp_running :: bool
  cp_terminated :: bool
  cp_exit_status :: i32
  cp_died_on_signal :: bool
  cp_graceful_termination_signal :: int
  cp_moved_away :: bool

section \<open>Operations\<close>

text \<open>
  \<open>do_clone\<close>: \<open>stat\<close> of \<open>/proc/self/task\<close> answers with a value and a link count, \<open>clone\<close> with a pid.
\<close>

definition do_clone :: "int \<Rightarrow> nat \<Rightarrow> int \<Rightarrow> int res" where
  "do_clone stat_ret st_nlink clone_ret =
     andThen (SystemCall ''stat'' stat_ret) (\<lambda>_.
       if st_nlink \<noteq> 3 then Inl (Runtime_Error ''ChildProcess constructed in multi-threaded program'')
       else SystemCall ''clone'' clone_ret)"

text \<open>
  The constructor returns in the parent only; the child runs its procedure with no signal blocked
  and exits with its value, or with \<open>EXIT_FAILURE\<close> after an exception. The procedure's outcome is an
  argument: \<open>None\<close> if it does not end.
\<close>

datatype forked = In_Parent child_process | In_Child i32

definition caught :: "exn \<Rightarrow> bool" where
  \<comment> \<open>what \<open>catch (const exception &)\<close> receives; anything else ends the process another way\<close>
  "caught e =
     (case e of Runtime_Error _ \<Rightarrow> True | Unix_Error _ \<Rightarrow> True | Out_Of_Range \<Rightarrow> True
     | Invalid_Argument _ \<Rightarrow> True | _ \<Rightarrow> False)"

definition child_main :: "int \<Rightarrow> i32 res option \<Rightarrow> i32 res option" where
  "child_main sigprocmask_ret child_procedure =
     (case andThenO (Some (SystemCall ''sigprocmask'' sigprocmask_ret)) (\<lambda>_. child_procedure) of
        None \<Rightarrow> None
      | Some (Inr status) \<Rightarrow> Some (Inr status)
      | Some (Inl e) \<Rightarrow> if caught e then Some (Inr 1) else Some (Inl e))"

definition ChildProcess ::
    "string \<Rightarrow> i32 res option \<Rightarrow> int \<Rightarrow> int \<Rightarrow> nat \<Rightarrow> int \<Rightarrow> int \<Rightarrow> forked res option" where
  "ChildProcess s_name child_procedure termination_signal stat_ret st_nlink clone_ret sigprocmask_ret =
     andThenO (Some (do_clone stat_ret st_nlink clone_ret)) (\<lambda>pid.
       if pid = 0 then
         andThenO (child_main sigprocmask_ret child_procedure) (\<lambda>status. Some (Inr (In_Child status)))
       else Some (Inr (In_Parent
         \<lparr>cp_name = s_name, cp_pid = pid, cp_running = True, cp_terminated = False,
          cp_exit_status = 0, cp_died_on_signal = False,
          cp_graceful_termination_signal = termination_signal, cp_moved_away = False\<rparr>)))"

definition cp_move :: "child_process \<Rightarrow> (child_process \<times> child_process) res" where
  \<comment> \<open>the new object and what is left of the old one\<close>
  "cp_move other =
     andThen (assertE (\<not> cp_moved_away other) ''!other.moved_away_'') (\<lambda>_.
       Inr (other, other\<lparr>cp_moved_away := True\<rparr>))"

definition not_moved :: "child_process \<Rightarrow> unit res" where
  "not_moved p = assertE (\<not> cp_moved_away p) ''!moved_away_''"

definition running :: "child_process \<Rightarrow> bool res" where
  "running p = andThen (not_moved p) (\<lambda>_. Inr (cp_running p))"

definition terminated :: "child_process \<Rightarrow> bool res" where
  "terminated p = andThen (not_moved p) (\<lambda>_. Inr (cp_terminated p))"

definition died_on_signal :: "child_process \<Rightarrow> bool res" where
  "died_on_signal p =
     andThen (not_moved p) (\<lambda>_. andThen (assertE (cp_terminated p) ''terminated_'') (\<lambda>_.
       Inr (cp_died_on_signal p)))"

definition exit_status :: "child_process \<Rightarrow> i32 res" where
  "exit_status p =
     andThen (not_moved p) (\<lambda>_. andThen (assertE (cp_terminated p) ''terminated_'') (\<lambda>_.
       Inr (cp_exit_status p)))"

definition throw_exception :: "child_process \<Rightarrow> 'a res" where
  "throw_exception p =
     andThen (not_moved p) (\<lambda>_.
     andThen (died_on_signal p) (\<lambda>died.
     andThen (exit_status p) (\<lambda>status.
       Inl (Runtime_Error (''`'' @ cp_name p @ [CHR 0x27] @ '': process ''
         @ (if died then ''died on signal '' else ''exited with failure status '')
         @ dec_int (sint status))))))"

definition waitid :: "int \<Rightarrow> u32 \<Rightarrow> proc_world \<Rightarrow> (siginfo \<times> proc_world) res" where
  "waitid pid options w =
     (let (ret, infop) = pw_waitid w (pw_waitids w) pid options
      in andThen (SystemCall ''waitid'' ret) (\<lambda>_.
           Inr (infop, w\<lparr>pw_waitids := Suc (pw_waitids w)\<rparr>)))"

definition waitable :: "child_process \<Rightarrow> proc_world \<Rightarrow> (bool \<times> proc_world) res" where
  "waitable p w =
     andThen (not_moved p) (\<lambda>_.
     andThen (assertE (\<not> cp_terminated p) ''!terminated_'') (\<lambda>_.
     andThen (waitid (cp_pid p) (CHANGES OR WNOHANG OR WNOWAIT) w) (\<lambda>(infop, w).
       if si_pid infop = 0 then Inr (False, w)
       else if si_pid infop = cp_pid p then Inr (True, w)
       else Inl (Runtime_Error
         ''waitid: unexpected value in siginfo_t si_pid field (not 0 or pid)''))))"

definition change_state :: "siginfo \<Rightarrow> child_process \<Rightarrow> child_process res" where
  \<comment> \<open>the \<open>switch\<close> of \<open>wait\<close>\<close>
  "change_state infop p =
     (if si_code infop = CLD_EXITED then
        Inr (p\<lparr>cp_terminated := True, cp_exit_status := si_status infop\<rparr>)
      else if si_code infop = CLD_KILLED \<or> si_code infop = CLD_DUMPED then
        Inr (p\<lparr>cp_terminated := True, cp_exit_status := si_status infop, cp_died_on_signal := True\<rparr>)
      else if si_code infop = CLD_STOPPED then Inr (p\<lparr>cp_running := False\<rparr>)
      else if si_code infop = CLD_CONTINUED then Inr (p\<lparr>cp_running := True\<rparr>)
      else Inl (Runtime_Error ''waitid: unexpected siginfo_t si_code''))"

definition cp_wait :: "bool \<Rightarrow> child_process \<Rightarrow> proc_world \<Rightarrow> (child_process \<times> proc_world) res" where
  "cp_wait nonblocking p w =
     andThen (not_moved p) (\<lambda>_.
     andThen (assertE (\<not> cp_terminated p) ''!terminated_'') (\<lambda>_.
     andThen (waitid (cp_pid p) (CHANGES OR (if nonblocking then WNOHANG else 0)) w) (\<lambda>(infop, w).
       if nonblocking \<and> si_pid infop = 0 then
         Inl (Runtime_Error ''nonblocking wait: process was not waitable'')
       else if si_pid infop \<noteq> cp_pid p then
         Inl (Runtime_Error ''waitid: unexpected value in siginfo_t si_pid field'')
       else if si_signo infop \<noteq> SIGCHLD then
         Inl (Runtime_Error ''waitid: unexpected value in siginfo_t si_signo field (not SIGCHLD)'')
       else andThen (change_state infop p) (\<lambda>p. Inr (p, w)))))"

definition cp_signal :: "int \<Rightarrow> child_process \<Rightarrow> proc_world \<Rightarrow> proc_world res" where
  "cp_signal sig p w =
     andThen (not_moved p) (\<lambda>_.
       if cp_terminated p then Inr w
       else
         andThen (SystemCall ''kill'' (pw_kill w (pw_kills w))) (\<lambda>_.
           Inr (w\<lparr>pw_kills := Suc (pw_kills w), pw_killed := pw_killed w @ [(cp_pid p, sig)]\<rparr>)))"

definition cp_resume :: "child_process \<Rightarrow> proc_world \<Rightarrow> proc_world res" where
  "cp_resume p w =
     andThen (not_moved p) (\<lambda>_. if cp_running p then Inr w else cp_signal SIGCONT p w)"

text \<open>
  The destructor: one round of its loop, the loop, and the \<open>try\<close> around it. \<open>Inl e\<close> means that the
  exception \<open>e\<close> was printed and the destructor returned with the child still there.
\<close>

definition destroy_round :: "child_process \<Rightarrow> proc_world \<Rightarrow> (child_process \<times> proc_world) res" where
  "destroy_round p w =
     andThen (cp_resume p w) (\<lambda>w.
     andThen (cp_signal (cp_graceful_termination_signal p) p w) (\<lambda>w. cp_wait False p w))"

partial_function (option) destroy_loop ::
    "child_process \<Rightarrow> proc_world \<Rightarrow> (child_process \<times> proc_world) res option" where
  "destroy_loop p w =
     (if cp_terminated p then Some (Inr (p, w))
      else (case destroy_round p w of
              Inl e \<Rightarrow> Some (Inl e)
            | Inr r \<Rightarrow> (case r of (p', w') \<Rightarrow> destroy_loop p' w')))"

definition cp_destroy :: "child_process \<Rightarrow> proc_world \<Rightarrow> (child_process \<times> proc_world) res option" where
  "cp_destroy p w = (if cp_moved_away p then Some (Inr (p, w)) else destroy_loop p w)"

section \<open>What the calls do\<close>

text \<open>
  The errors a kernel's answer can cause here: a failed call or an unexpected report, never a failed
  assertion.
\<close>

fun process_error :: "exn \<Rightarrow> bool" where
  "process_error (Unix_Error s) = True"
| "process_error (Runtime_Error s) = True"
| "process_error e = False"

named_theorems child_defs \<open>the calls on a child process, unfolded\<close>

declare not_moved_def [child_defs] running_def [child_defs] terminated_def [child_defs]
  died_on_signal_def [child_defs] exit_status_def [child_defs] throw_exception_def [child_defs]
  waitid_def [child_defs] waitable_def [child_defs] cp_wait_def [child_defs]
  cp_signal_def [child_defs] cp_resume_def [child_defs]

lemma SystemCall_Inr_iff: "SystemCall s r = Inr x \<longleftrightarrow> 0 \<le> r \<and> x = r"
  by (auto simp: SystemCall_def)

lemma SystemCall_Inl_iff: "SystemCall s r = Inl e \<longleftrightarrow> r < 0 \<and> e = Unix_Error s"
  by (auto simp: SystemCall_def)

text \<open>A child that was not moved away keeps its identity.\<close>

definition same_child :: "child_process \<Rightarrow> child_process \<Rightarrow> bool" where
  "same_child p p' \<longleftrightarrow> cp_name p' = cp_name p \<and> cp_pid p' = cp_pid p \<and>
     cp_graceful_termination_signal p' = cp_graceful_termination_signal p \<and>
     cp_moved_away p' = cp_moved_away p"

lemma same_child_refl [simp]: "same_child p p"
  by (simp add: same_child_def)

lemma accessors [simp]:
  assumes "\<not> cp_moved_away p"
  shows "running p = Inr (cp_running p)" "terminated p = Inr (cp_terminated p)"
    "cp_terminated p \<Longrightarrow> exit_status p = Inr (cp_exit_status p)"
    "cp_terminated p \<Longrightarrow> died_on_signal p = Inr (cp_died_on_signal p)"
  using assms by (simp_all add: child_defs)

section \<open>The destructor\<close>

text \<open>What the destructor sends, given the reports of stops and continuations it waits through.\<close>

fun destructor_signals :: "int \<Rightarrow> int \<Rightarrow> bool \<Rightarrow> siginfo list \<Rightarrow> (int \<times> int) list" where
  "destructor_signals pid sig is_running [] =
     (if is_running then [] else [(pid, SIGCONT)]) @ [(pid, sig)]"
| "destructor_signals pid sig is_running (r # rs) =
     (if is_running then [] else [(pid, SIGCONT)]) @ (pid, sig)
       # destructor_signals pid sig (si_code r = CLD_CONTINUED) rs"

definition reports :: "siginfo list \<Rightarrow> int \<Rightarrow> proc_world \<Rightarrow> bool" where
  \<comment> \<open>the next answers to a blocking wait for the child\<close>
  "reports rs pid w \<longleftrightarrow> (\<forall>i < length rs. si_pid (rs ! i) = pid \<and> si_signo (rs ! i) = SIGCHLD \<and>
     pw_waitid w (pw_waitids w + i) pid CHANGES = (0, rs ! i))"

lemma reports_tl:
  assumes "reports (r # rs) pid w" "pw_waitid w' = pw_waitid w" "pw_waitids w' = Suc (pw_waitids w)"
  shows "reports rs pid w'"
  unfolding reports_def
proof (intro allI impI)
  fix i assume "i < length rs"
  with assms(1) [unfolded reports_def, rule_format, of "Suc i"] assms(2,3)
  show "si_pid (rs ! i) = pid \<and> si_signo (rs ! i) = SIGCHLD \<and>
     pw_waitid w' (pw_waitids w' + i) pid CHANGES = (0, rs ! i)" by simp
qed

lemma destroy_round_Inr:
  assumes "\<not> cp_moved_away p" "\<not> cp_terminated p" "\<forall>n. 0 \<le> pw_kill w n"
    and "pw_waitid w (pw_waitids w) (cp_pid p) CHANGES = (0, r)"
    and "si_pid r = cp_pid p" "si_signo r = SIGCHLD" "change_state r p = Inr p'"
  shows "\<exists>w'. destroy_round p w = Inr (p', w') \<and> pw_waitids w' = Suc (pw_waitids w) \<and>
    pw_kill w' = pw_kill w \<and> pw_waitid w' = pw_waitid w \<and>
    pw_killed w' = pw_killed w @ (if cp_running p then [] else [(cp_pid p, SIGCONT)])
      @ [(cp_pid p, cp_graceful_termination_signal p)]"
  using assms by (auto simp: destroy_round_def child_defs)

lemma destroy_loop_reaps:
  "\<not> cp_moved_away p \<Longrightarrow> \<not> cp_terminated p \<Longrightarrow> \<forall>n. 0 \<le> pw_kill w n \<Longrightarrow>
   reports (changes @ [final]) (cp_pid p) w \<Longrightarrow>
   \<forall>r \<in> set changes. si_code r \<in> {CLD_STOPPED, CLD_CONTINUED} \<Longrightarrow>
   si_code final \<in> {CLD_EXITED, CLD_KILLED, CLD_DUMPED} \<Longrightarrow> \<not> cp_died_on_signal p \<Longrightarrow>
   \<exists>p' w'. destroy_loop p w = Some (Inr (p', w')) \<and> same_child p p' \<and> cp_terminated p' \<and>
     cp_exit_status p' = si_status final \<and>
     cp_died_on_signal p' = (si_code final \<noteq> CLD_EXITED) \<and>
     pw_waitids w' = pw_waitids w + length changes + 1 \<and>
     pw_killed w' = pw_killed w @
       destructor_signals (cp_pid p) (cp_graceful_termination_signal p) (cp_running p) changes"
proof (induction changes arbitrary: p w)
  case Nil
  define p' where "p' = p\<lparr>cp_terminated := True, cp_exit_status := si_status final,
    cp_died_on_signal := (si_code final \<noteq> CLD_EXITED)\<rparr>"
  have change: "change_state final p = Inr p'"
    using Nil.prems(6,7) by (cases p) (auto simp: change_state_def p'_def cld_codes)
  from Nil.prems(4) have r: "pw_waitid w (pw_waitids w) (cp_pid p) CHANGES = (0, final)"
    "si_pid final = cp_pid p" "si_signo final = SIGCHLD" by (simp_all add: reports_def)
  from destroy_round_Inr [OF Nil.prems(1-3) r change] obtain w' where
    w': "destroy_round p w = Inr (p', w')" "pw_waitids w' = Suc (pw_waitids w)"
      "pw_killed w' = pw_killed w @ (if cp_running p then [] else [(cp_pid p, SIGCONT)])
      @ [(cp_pid p, cp_graceful_termination_signal p)]" by blast
  have "destroy_loop p' w' = Some (Inr (p', w'))"
    by (subst destroy_loop.simps) (simp add: p'_def)
  then have "destroy_loop p w = Some (Inr (p', w'))"
    using Nil.prems(2) w'(1) by (subst destroy_loop.simps) simp
  with w' show ?case by (simp add: p'_def same_child_def)
next
  case (Cons r changes)
  define p1 where "p1 = p\<lparr>cp_running := (si_code r = CLD_CONTINUED)\<rparr>"
  have change: "change_state r p = Inr p1"
    using Cons.prems(5) by (auto simp: change_state_def p1_def cld_codes)
  from Cons.prems(4) have r: "pw_waitid w (pw_waitids w) (cp_pid p) CHANGES = (0, r)"
    "si_pid r = cp_pid p" "si_signo r = SIGCHLD" by (auto simp: reports_def)
  from destroy_round_Inr [OF Cons.prems(1-3) r change] obtain w1 where
    w1: "destroy_round p w = Inr (p1, w1)" "pw_waitids w1 = Suc (pw_waitids w)"
      "pw_kill w1 = pw_kill w" "pw_waitid w1 = pw_waitid w"
      "pw_killed w1 = pw_killed w @ (if cp_running p then [] else [(cp_pid p, SIGCONT)])
      @ [(cp_pid p, cp_graceful_termination_signal p)]" by blast
  have loop: "destroy_loop p w = destroy_loop p1 w1"
    using Cons.prems(2) w1(1) by (subst destroy_loop.simps) simp
  have "reports (changes @ [final]) (cp_pid p1) w1"
    using reports_tl [of r "changes @ [final]" "cp_pid p" w w1] Cons.prems(4) w1(2,4)
    by (simp add: p1_def)
  from Cons.IH [of p1 w1, OF _ _ _ this] Cons.prems w1(3) obtain p' w' where
    "destroy_loop p1 w1 = Some (Inr (p', w'))" "same_child p1 p'" "cp_terminated p'"
      "cp_exit_status p' = si_status final" "cp_died_on_signal p' = (si_code final \<noteq> CLD_EXITED)"
      "pw_waitids w' = pw_waitids w1 + length changes + 1"
      "pw_killed w' = pw_killed w1 @
        destructor_signals (cp_pid p1) (cp_graceful_termination_signal p1) (cp_running p1) changes"
    by (auto simp: p1_def)
  with w1 show ?case unfolding loop by (simp add: p1_def same_child_def)
qed

text \<open>
  C36. The destructor of a running child process ends it. Whatever stops and continuations of the
  child the kernel reports first, once it reports the end of the child the destructor returns,
  after as many waits as there were reports, with the child's exit status or fatal signal in the
  object; each round sent the termination signal, after \<open>SIGCONT\<close> if the child was stopped.
\<close>

theorem destructor_reaps:
  assumes "\<not> cp_moved_away p" "\<not> cp_terminated p" "\<not> cp_died_on_signal p" "\<forall>n. 0 \<le> pw_kill w n"
    and "reports (changes @ [final]) (cp_pid p) w"
    and "\<forall>r \<in> set changes. si_code r \<in> {CLD_STOPPED, CLD_CONTINUED}"
    and "si_code final \<in> {CLD_EXITED, CLD_KILLED, CLD_DUMPED}"
  shows "\<exists>p' w'. cp_destroy p w = Some (Inr (p', w')) \<and> same_child p p' \<and> cp_terminated p' \<and>
    cp_exit_status p' = si_status final \<and>
    cp_died_on_signal p' = (si_code final \<noteq> CLD_EXITED) \<and>
    pw_waitids w' = pw_waitids w + length changes + 1 \<and>
    pw_killed w' = pw_killed w @
      destructor_signals (cp_pid p) (cp_graceful_termination_signal p) (cp_running p) changes"
  using destroy_loop_reaps [OF assms(1,2,4-7,3)] assms(1) by (simp add: cp_destroy_def)

definition sample_child :: child_process where
  "sample_child = \<lparr>cp_name = ''sh'', cp_pid = 42, cp_running = True, cp_terminated = False,
     cp_exit_status = 0, cp_died_on_signal = False, cp_graceful_termination_signal = SIGHUP,
     cp_moved_away = False\<rparr>"

definition report :: "int \<Rightarrow> int \<Rightarrow> i32 \<Rightarrow> siginfo" where
  "report pid code status = \<lparr>si_pid = pid, si_signo = SIGCHLD, si_code = code, si_status = status\<rparr>"

definition stop_then_die :: proc_world where
  "stop_then_die = \<lparr>pw_waitid = (\<lambda>n pid options. (0, if n = 0 then report pid CLD_STOPPED 19
       else report pid CLD_KILLED 1)), pw_waitids = 0, pw_kill = (\<lambda>n. 0), pw_kills = 0,
     pw_killed = [], pw_raise = (\<lambda>n. 0), pw_raised = []\<rparr>"

theorem destructor_reaps_witness:
  "\<exists>p' w'. cp_destroy sample_child stop_then_die = Some (Inr (p', w')) \<and> cp_terminated p' \<and>
    cp_died_on_signal p' \<and> pw_killed w' = [(42, SIGHUP), (42, SIGCONT), (42, SIGHUP)]"
proof -
  let ?c = "[report 42 CLD_STOPPED 19]" and ?f = "report 42 CLD_KILLED 1"
  have "reports (?c @ [?f]) (cp_pid sample_child) stop_then_die"
    by (auto simp: reports_def sample_child_def stop_then_die_def report_def nth_Cons')
  from destructor_reaps [OF _ _ _ _ this] show ?thesis
    by (auto simp: sample_child_def stop_then_die_def report_def cld_codes)
qed

end
