(* ===== verification/System_Runner.thy ===== *)
theory System_Runner
  imports Main Prelude Kernel Util Child_Process
begin

text \<open>
  \<open>src/util/system_runner.cc\<close>: replacing the process by a program (\<open>ezexec\<close>) and running a program
  to its end (\<open>run\<close>).
\<close>

section \<open>ezexec\<close>

text \<open>
  What \<open>execve\<close> gets: the search flag, the arguments up to their terminating NUL, and the
  environment, if one is set. Its answer is \<open>None\<close> when the process has been replaced.
\<close>

record executed =
  ex_path_search :: bool
  ex_argv :: "string list"
  ex_environ :: "environment option"

definition c_string :: "string \<Rightarrow> string" where
  "c_string s = takeWhile (\<lambda>c. c \<noteq> CHR 0x00) (s @ [CHR 0x00])"

definition ezexec :: "'w id_calls \<Rightarrow> 'w \<Rightarrow> environment option \<Rightarrow> string list \<Rightarrow> bool \<Rightarrow> int option \<Rightarrow>
    executed res" where
  "ezexec k kw environ command path_search exec_answer =
     (if command = [] then Inl (Runtime_Error ''ezexec: empty command'')
      else
        let root = k_geteuid k kw = 0 \<or> k_getegid k kw = 0
        in if root \<and> environ \<noteq> None then Inl (Runtime_Error ''BUG: root's environment not cleared'')
           else if root \<and> path_search then Inl (Runtime_Error ''BUG: root should not search PATH'')
           else
             let argv = map c_string command
             in case exec_answer of
                  None \<Rightarrow> Inr \<lparr>ex_path_search = path_search, ex_argv = argv, ex_environ = environ\<rparr>
                | Some ret \<Rightarrow> andThen (SystemCall (hd argv) ret) (\<lambda>_.
                    Inl (Runtime_Error ''execve: failed'')))"

section \<open>run\<close>

text \<open>The parent's loop, and the whole of \<open>run\<close>; in the child, \<open>ezexec\<close>'s outcome is an argument.\<close>

partial_function (option) run_wait ::
    "child_process \<Rightarrow> proc_world \<Rightarrow> (child_process \<times> proc_world) res option" where
  "run_wait p w =
     (case terminated p of
        Inl e \<Rightarrow> Some (Inl e)
      | Inr t \<Rightarrow>
          if t then Some (Inr (p, w))
          else (case cp_wait False p w of
                  Inl e \<Rightarrow> Some (Inl e)
                | Inr r \<Rightarrow> (case r of (p', w') \<Rightarrow> run_wait p' w')))"

datatype ran = Ran proc_world | Ran_In_Child i32

definition run :: "string list \<Rightarrow> i32 res option \<Rightarrow> int \<Rightarrow> nat \<Rightarrow> int \<Rightarrow> int \<Rightarrow> proc_world \<Rightarrow> ran res option" where
  "run command child_procedure stat_ret st_nlink clone_ret sigprocmask_ret w =
     andThenO (Some (join command)) (\<lambda>name.
     andThenO (ChildProcess name child_procedure SIGHUP stat_ret st_nlink clone_ret sigprocmask_ret) (\<lambda>f.
       case f of
         In_Child status \<Rightarrow> Some (Inr (Ran_In_Child status))
       | In_Parent p \<Rightarrow>
           andThenO (run_wait p w) (\<lambda>(p, w).
           andThenO (Some (exit_status p)) (\<lambda>status.
             if status \<noteq> 0 then Some (throw_exception p) else Some (Inr (Ran w))))))"

section \<open>What is guaranteed\<close>

text \<open>
  The effective root user or group never starts a program with an environment or through \<open>PATH\<close>,
  and the program gets the command's words, each up to its first NUL.
\<close>

lemma ezexec_guard:
  assumes "ezexec k kw environ command path_search exec_answer = Inr ex"
  shows "ex_argv ex = map c_string command" "command \<noteq> []"
    "k_geteuid k kw = 0 \<or> k_getegid k kw = 0 \<Longrightarrow> ex_environ ex = None \<and> \<not> ex_path_search ex"
  using assms by (auto simp: ezexec_def Let_def andThen_Inr_iff split: if_splits option.splits)

lemma c_string_id: "CHR 0x00 \<notin> set s \<Longrightarrow> c_string s = s"
  unfolding c_string_def by (induction s) auto

text \<open>
  \<open>run\<close> waits through stops and continuations until the kernel reports the end of the child; it
  returns if and only if the child then exited with status 0.
\<close>

lemma cp_wait_report:
  assumes "\<not> cp_moved_away p" "\<not> cp_terminated p"
    and "pw_waitid w (pw_waitids w) (cp_pid p) CHANGES = (0, r)"
    and "si_pid r = cp_pid p" "si_signo r = SIGCHLD" "change_state r p = Inr p'"
  shows "cp_wait False p w = Inr (p', w\<lparr>pw_waitids := Suc (pw_waitids w)\<rparr>)"
  using assms by (simp add: child_defs)

lemma run_wait_reaps:
  "\<not> cp_moved_away p \<Longrightarrow> \<not> cp_terminated p \<Longrightarrow> reports (changes @ [final]) (cp_pid p) w \<Longrightarrow>
   \<forall>r \<in> set changes. si_code r \<in> {CLD_STOPPED, CLD_CONTINUED} \<Longrightarrow>
   si_code final \<in> {CLD_EXITED, CLD_KILLED, CLD_DUMPED} \<Longrightarrow>
   \<exists>p' w'. run_wait p w = Some (Inr (p', w')) \<and> same_child p p' \<and> cp_terminated p' \<and>
     cp_exit_status p' = si_status final"
proof (induction changes arbitrary: p w)
  case Nil
  from Nil.prems(5) obtain p' where p': "change_state final p = Inr p'" "same_child p p'"
    "cp_terminated p'" "cp_exit_status p' = si_status final"
    by (auto simp: change_state_def same_child_def cld_codes)
  from Nil.prems(3) have "cp_wait False p w = Inr (p', w\<lparr>pw_waitids := Suc (pw_waitids w)\<rparr>)"
    using cp_wait_report [OF Nil.prems(1,2) _ _ _ p'(1), of w] by (simp add: reports_def)
  moreover have "\<not> cp_moved_away p'" using p'(2) Nil.prems(1) by (simp add: same_child_def)
  then have "run_wait p' w' = Some (Inr (p', w'))" for w'
    using p'(3) by (subst run_wait.simps) simp
  ultimately have "run_wait p w = Some (Inr (p', w\<lparr>pw_waitids := Suc (pw_waitids w)\<rparr>))"
    using Nil.prems(1,2) by (subst run_wait.simps) simp
  with p' show ?case by blast
next
  case (Cons r changes)
  from Cons.prems(4) obtain p1 where p1: "change_state r p = Inr p1" "same_child p p1"
    "\<not> cp_terminated p1" using Cons.prems(2)
    by (auto simp: change_state_def same_child_def cld_codes)
  from Cons.prems(3) have "cp_wait False p w = Inr (p1, w\<lparr>pw_waitids := Suc (pw_waitids w)\<rparr>)"
    using cp_wait_report [OF Cons.prems(1,2) _ _ _ p1(1), of w] by (auto simp: reports_def)
  then have loop: "run_wait p w = run_wait p1 (w\<lparr>pw_waitids := Suc (pw_waitids w)\<rparr>)"
    using Cons.prems(1,2) by (subst run_wait.simps) simp
  have "reports (changes @ [final]) (cp_pid p1) (w\<lparr>pw_waitids := Suc (pw_waitids w)\<rparr>)"
    using reports_tl [of r "changes @ [final]" "cp_pid p" w] Cons.prems(3) p1(2)
    by (simp add: same_child_def)
  moreover have "\<not> cp_moved_away p1" using p1(2) Cons.prems(1) by (simp add: same_child_def)
  moreover have "\<forall>r \<in> set changes. si_code r \<in> {CLD_STOPPED, CLD_CONTINUED}"
    using Cons.prems(4) by simp
  ultimately obtain p' w' where "run_wait p1 (w\<lparr>pw_waitids := Suc (pw_waitids w)\<rparr>) = Some (Inr (p', w'))"
    "same_child p1 p'" "cp_terminated p'" "cp_exit_status p' = si_status final"
    using Cons.IH [OF _ p1(3) _ _ Cons.prems(5)] by blast
  with p1(2) show ?case unfolding loop by (auto simp: same_child_def)
qed

end
