(* ===== verification/Event_Loop.thy ===== *)
theory Event_Loop
  imports Main Prelude Kernel Util Child_Process Poller
begin

text \<open>
  \<open>src/util/signalfd.cc/.hh\<close> and \<open>src/util/event_loop.cc/.hh\<close>: signal masks and the descriptor that
  signals are read from, what the event loop does on each signal, and its loop. The state of the
  loop is a record that its users extend (\<open>Ferry_Loop\<close>), as \<open>Ferry\<close> extends \<open>EventLoop\<close>.
\<close>

section \<open>Signal masks\<close>

definition SIGRTMAX :: int where "SIGRTMAX = 64"

definition sigismember :: "int list \<Rightarrow> int \<Rightarrow> int" where
  \<comment> \<open>-1 for a number that is no signal\<close>
  "sigismember sigs signum =
     (if signum < 1 \<or> SIGRTMAX < signum then -1 else if signum \<in> set sigs then 1 else 0)"

definition SignalMask :: "int list \<Rightarrow> int list res" where
  \<comment> \<open>\<open>sigaddset\<close> refuses a number that is no signal\<close>
  "SignalMask signals =
     (if \<exists>s \<in> set signals. s < 1 \<or> SIGRTMAX < s then Inl (Unix_Error ''sigaddset'') else Inr signals)"

definition current_mask :: "int \<times> int list \<Rightarrow> int list res" where
  \<comment> \<open>what \<open>sigprocmask\<close> returns and the mask it reports\<close>
  "current_mask answer = andThen (SystemCall ''sigprocmask'' (fst answer)) (\<lambda>_. Inr (snd answer))"

definition set_as_mask :: "int list \<Rightarrow> int \<Rightarrow> int list res" where
  \<comment> \<open>the process's mask from now on\<close>
  "set_as_mask sigs ret = andThen (SystemCall ''sigprocmask'' ret) (\<lambda>_. Inr sigs)"

definition mask_eq :: "int list \<Rightarrow> int list \<Rightarrow> bool" where
  \<comment> \<open>\<open>operator==\<close>\<close>
  "mask_eq a b \<longleftrightarrow> (\<forall>signum \<in> set [0..SIGRTMAX - 1]. sigismember a signum = sigismember b signum)"

definition SIGINFO_SIZE :: nat where "SIGINFO_SIZE = 128"

definition ssi_signo :: "string \<Rightarrow> int" where
  \<comment> \<open>the first four bytes of the structure, the least significant first\<close>
  "ssi_signo s = (\<Sum>i \<leftarrow> [0..<4]. of_char (s ! i) * 256 ^ i)"

definition SignalFD :: "int \<Rightarrow> int \<Rightarrow> file_descriptor res" where
  "SignalFD signalfd_ret fcntl_ret =
     andThen (SystemCall ''signalfd'' signalfd_ret) (\<lambda>fd. FileDescriptor fd fcntl_ret)"

definition read_signal :: "file_descriptor \<Rightarrow> world \<Rightarrow> (int \<times> file_descriptor \<times> world) res" where
  "read_signal fd w =
     andThen (fd_read SIGINFO_SIZE fd w) (\<lambda>(str, fd, w).
       if length str \<noteq> SIGINFO_SIZE then Inl (Runtime_Error ''signalfd read size mismatch'')
       else Inr (ssi_signo str, fd, w))"

section \<open>Signals\<close>

text \<open>The children, each with the exit status that does not end the parent.\<close>

type_synonym children = "(i32 \<times> child_process) list"

definition handled :: "result_type \<Rightarrow> action_result" where
  \<comment> \<open>\<open>Result\<close> from a \<open>ResultType\<close>, with status \<open>EXIT_SUCCESS\<close>\<close>
  "handled t = \<lparr>ar_result = t, ar_exit_status = 0\<rparr>"

fun resume_all :: "children \<Rightarrow> proc_world \<Rightarrow> proc_world res" where
  "resume_all [] w = Inr w"
| "resume_all (x # xs) w = andThen (cp_resume (snd x) w) (resume_all xs)"

fun all_terminated :: "children \<Rightarrow> bool res" where
  "all_terminated [] = Inr True"
| "all_terminated (x # xs) =
     andThen (terminated (snd x)) (\<lambda>t. if t then all_terminated xs else Inr False)"

definition raise :: "int \<Rightarrow> proc_world \<Rightarrow> proc_world res" where
  "raise sig w =
     andThen (SystemCall ''raise'' (pw_raise w (length (pw_raised w)))) (\<lambda>_.
       Inr (w\<lparr>pw_raised := pw_raised w @ [sig]\<rparr>))"

text \<open>
  The loop over the children on \<open>SIGCHLD\<close>; \<open>before\<close> are the children it has passed. The result for
  a child that has just terminated is that of \<open>child_result\<close>.
\<close>

definition child_result :: "children \<Rightarrow> i32 \<Rightarrow> child_process \<Rightarrow> action_result res" where
  "child_result all status proc =
     andThen (exit_status proc) (\<lambda>st.
       if st \<noteq> 0 \<and> st \<noteq> status then throw_exception proc
       else
         andThen (all_terminated all) (\<lambda>done.
           Inr (handled (if done then Exit else if st = status then Continue else Exit))))"

fun sigchld_loop :: "children \<Rightarrow> children \<Rightarrow> proc_world \<Rightarrow> (action_result \<times> children \<times> proc_world) res"
where
  "sigchld_loop before [] w = Inr (handled Continue, before, w)"
| "sigchld_loop before ((status, proc) # rest) w =
     andThen (terminated proc) (\<lambda>t.
     andThen (if t then Inr (False, w) else waitable proc w) (\<lambda>(ready, w).
       if \<not> ready then sigchld_loop (before @ [(status, proc)]) rest w
       else
         andThen (cp_wait True proc w) (\<lambda>(proc, w).
         andThen (terminated proc) (\<lambda>t.
           if t then
             let all = before @ (status, proc) # rest
             in andThen (child_result all status proc) (\<lambda>r. Inr (r, all, w))
           else
             andThen (running proc) (\<lambda>r.
             andThen (if r then Inr w else raise SIGSTOP w) (\<lambda>w.
               sigchld_loop (before @ [(status, proc)]) rest w))))))"

definition handle_signal ::
    "int \<Rightarrow> children \<Rightarrow> proc_world \<Rightarrow> (action_result \<times> children \<times> proc_world) res" where
  "handle_signal sig children w =
     (if sig = SIGCONT then
        andThen (resume_all children w) (\<lambda>w. Inr (handled Continue, children, w))
      else if sig = SIGCHLD then
        if children = [] then Inl (Runtime_Error ''received SIGCHLD without any managed children'')
        else sigchld_loop [] children w
      else if sig \<in> {SIGHUP, SIGTERM, SIGQUIT, SIGINT} then Inr (handled Exit, children, w)
      else Inl (Runtime_Error ''EventLoop: unknown signal''))"

section \<open>The event loop\<close>

record event_loop =
  el_signals :: "int list"
  el_children :: children
  el_procs :: proc_world
  el_signal_fd :: file_descriptor
  el_world :: world

definition EventLoop_signals :: "int list" where
  "EventLoop_signals = [SIGCHLD, SIGCONT, SIGHUP, SIGTERM, SIGQUIT, SIGINT]"

definition EventLoop :: "int \<Rightarrow> (int list \<times> int list) res" where
  \<comment> \<open>\<open>signals_\<close> and the process's mask; there are no actions and no children yet\<close>
  "EventLoop sigprocmask_ret =
     andThen (SignalMask EventLoop_signals) (\<lambda>signals.
     andThen (set_as_mask signals sigprocmask_ret) (\<lambda>blocked. Inr (signals, blocked)))"

definition add_special_child_process ::
    "i32 \<Rightarrow> child_process \<Rightarrow> 'a event_loop_scheme \<Rightarrow> 'a event_loop_scheme" where
  "add_special_child_process continue_status p s =
     s\<lparr>el_children := el_children s @ [(continue_status, p)]\<rparr>"

definition add_child_process :: "child_process \<Rightarrow> 'a event_loop_scheme \<Rightarrow> 'a event_loop_scheme" where
  "add_child_process p = add_special_child_process (-1) p"

definition simple_input_handler :: "('s \<Rightarrow> file_descriptor) \<Rightarrow>
    ('s \<Rightarrow> (action_result \<times> 's) res option) \<Rightarrow> 's poll_action" where
  "simple_input_handler fd callback = mk_action fd In callback always_interested"

definition on_signal :: "'a event_loop_scheme \<Rightarrow> (action_result \<times> 'a event_loop_scheme) res option" where
  "on_signal s = Some (
     andThen (read_signal (el_signal_fd s) (el_world s)) (\<lambda>(sig, fd, w).
     let s = s\<lparr>el_signal_fd := fd, el_world := w\<rparr>
     in andThen (handle_signal sig (el_children s) (el_procs s)) (\<lambda>(r, cs, pw).
          Inr (r, s\<lparr>el_children := cs, el_procs := pw\<rparr>))))"

text \<open>
  \<open>internal_loop\<close>. The kernel's answers: the current signal mask, what \<open>signalfd\<close> and its \<open>fcntl\<close>
  return, and what each \<open>poll\<close> answers. \<open>None\<close> as status: the loop is still running when the
  answers end; otherwise it has returned and the privileges are as before.
\<close>

definition internal_loop :: "'k id_calls \<Rightarrow> 'k \<Rightarrow> int \<times> int list \<Rightarrow> int \<times> int \<Rightarrow>
    ('a event_loop_scheme \<Rightarrow> (i32 \<times> 'a event_loop_scheme) res option) \<Rightarrow> poll_answers \<Rightarrow>
    'a event_loop_scheme poller \<Rightarrow> 'a event_loop_scheme \<Rightarrow>
    (u32 option \<times> 'a event_loop_scheme \<times> 'k) res option" where
  "internal_loop k kw mask_answer signalfd_answer wait answers p s =
     andThenO (Some (TemporarilyUnprivileged k kw)) (\<lambda>(tu, kw).
     andThenO (Some (current_mask mask_answer)) (\<lambda>blocked.
     if \<not> mask_eq (el_signals s) blocked then
       Some (Inl (Runtime_Error ''EventLoop: signal mask has been altered''))
     else
       andThenO (Some (SignalFD (fst signalfd_answer) (snd signalfd_answer))) (\<lambda>fd.
       let s = s\<lparr>el_signal_fd := fd\<rparr>;
           p = add_action s (simple_input_handler el_signal_fd on_signal) p
       in andThenO (poll_loop wait answers p s) (\<lambda>(status, p, s).
            case status of
              None \<Rightarrow> Some (Inr (None, s, kw))
            | Some n \<Rightarrow> andThenO (Some (tu_destroy k tu kw)) (\<lambda>kw. Some (Inr (Some n, s, kw)))))))"

definition el_loop :: "'k id_calls \<Rightarrow> 'k \<Rightarrow> int \<times> int list \<Rightarrow> int \<times> int \<Rightarrow> poll_answers \<Rightarrow>
    'a event_loop_scheme poller \<Rightarrow> 'a event_loop_scheme \<Rightarrow>
    (u32 option \<times> 'a event_loop_scheme \<times> 'k) res option" where
  \<comment> \<open>\<open>loop\<close>: no timeout\<close>
  "el_loop k kw mask_answer signalfd_answer answers p s =
     internal_loop k kw mask_answer signalfd_answer (\<lambda>s. Some (Inr (-1, s))) answers p s"

section \<open>What a signal does\<close>

definition alive :: "children \<Rightarrow> bool" where
  \<comment> \<open>no child object has been moved from\<close>
  "alive cs \<longleftrightarrow> (\<forall>x \<in> set cs. \<not> cp_moved_away (snd x))"

lemma alive_append [simp]:
  "alive (xs @ ys) = (alive xs \<and> alive ys)" "alive (x # xs) = (\<not> cp_moved_away (snd x) \<and> alive xs)"
  "alive []"
  by (auto simp: alive_def)

lemma all_terminated_eq: "alive cs \<Longrightarrow> all_terminated cs = Inr (\<forall>x \<in> set cs. cp_terminated (snd x))"
  by (induction cs) auto

lemma resume_all_outcome:
  "alive cs \<Longrightarrow> (\<exists>e. resume_all cs w = Inl e \<and> process_error e) \<or> (\<exists>w'. resume_all cs w = Inr w')"
proof (induction cs arbitrary: w)
  case (Cons x cs)
  then have "(\<exists>e. cp_resume (snd x) w = Inl e \<and> process_error e) \<or> (\<exists>w'. cp_resume (snd x) w = Inr w')"
    by (auto simp: child_defs SystemCall_def)
  with Cons show ?case by (metis alive_append(2) andThen_simps resume_all.simps(2))
qed simp

text \<open>What the parent says of a child that has ended and should not have.\<close>

definition ended_badly :: "child_process \<Rightarrow> exn" where
  "ended_badly p = Runtime_Error (''`'' @ cp_name p @ [CHR 0x27] @ '': process ''
     @ (if cp_died_on_signal p then ''died on signal '' else ''exited with failure status '')
     @ dec_int (sint (cp_exit_status p)))"

lemma throw_exception_eq:
  "\<not> cp_moved_away p \<Longrightarrow> cp_terminated p \<Longrightarrow> throw_exception p = Inl (ended_badly p)"
  by (simp add: throw_exception_def not_moved_def ended_badly_def)

section \<open>What the kernel reports of the children\<close>

text \<open>
  The report on one child, with \<open>n\<close> calls of \<open>waitid\<close> and \<open>m\<close> of \<open>raise\<close> made before: the exception the
  kernel's answers cause, nothing new, or a change of state. A child that has terminated is not
  asked about; one of which there is nothing to say takes one call of \<open>waitid\<close>, another two.
\<close>

definition ended :: "siginfo \<Rightarrow> bool" where
  "ended r \<longleftrightarrow> si_code r \<in> {CLD_EXITED, CLD_KILLED, CLD_DUMPED}"

definition child_report :: "proc_world \<Rightarrow> nat \<Rightarrow> nat \<Rightarrow> child_process \<Rightarrow> siginfo option res" where
  "child_report w n m p =
     (let (peek_ret, peek) = pw_waitid w n (cp_pid p) (CHANGES OR WNOHANG OR WNOWAIT);
          (ret, r) = pw_waitid w (Suc n) (cp_pid p) (CHANGES OR WNOHANG)
      in if cp_terminated p then Inr None
         else if peek_ret < 0 then Inl (Unix_Error ''waitid'')
         else if si_pid peek = 0 then Inr None
         else if si_pid peek \<noteq> cp_pid p then
           Inl (Runtime_Error ''waitid: unexpected value in siginfo_t si_pid field (not 0 or pid)'')
         else if ret < 0 then Inl (Unix_Error ''waitid'')
         else if si_pid r = 0 then Inl (Runtime_Error ''nonblocking wait: process was not waitable'')
         else if si_pid r \<noteq> cp_pid p then
           Inl (Runtime_Error ''waitid: unexpected value in siginfo_t si_pid field'')
         else if si_signo r \<noteq> SIGCHLD then
           Inl (Runtime_Error ''waitid: unexpected value in siginfo_t si_signo field (not SIGCHLD)'')
         else if \<not> ended r \<and> si_code r \<notin> {CLD_STOPPED, CLD_CONTINUED} then
           Inl (Runtime_Error ''waitid: unexpected siginfo_t si_code'')
         else if si_code r = CLD_STOPPED \<and> pw_raise w m < 0 then Inl (Unix_Error ''raise'')
         else Inr (Some r))"

text \<open>The calls and the signals to itself that the reports up to a point come with.\<close>

definition waitids_for :: "i32 \<times> child_process \<Rightarrow> siginfo option res \<Rightarrow> nat" where
  "waitids_for x v = (if cp_terminated (snd x) then 0 else if v = Inr None then 1 else 2)"

definition stops_for :: "siginfo option res \<Rightarrow> nat" where
  "stops_for v = (case v of Inr (Some r) \<Rightarrow> if si_code r = CLD_STOPPED then 1 else 0 | _ \<Rightarrow> 0)"

fun child_reports :: "proc_world \<Rightarrow> nat \<Rightarrow> nat \<Rightarrow> children \<Rightarrow> siginfo option res list" where
  "child_reports w n m [] = []"
| "child_reports w n m (x # xs) =
     (let v = child_report w n m (snd x)
      in v # child_reports w (n + waitids_for x v) (m + stops_for v) xs)"

definition harmless :: "siginfo option res \<Rightarrow> bool" where
  "harmless v \<longleftrightarrow> (case v of Inl e \<Rightarrow> False | Inr None \<Rightarrow> True | Inr (Some r) \<Rightarrow> \<not> ended r)"

definition after_report :: "i32 \<times> child_process \<Rightarrow> siginfo option res \<Rightarrow> i32 \<times> child_process" where
  "after_report x v =
     (fst x, case v of
        Inr (Some r) \<Rightarrow>
          if ended r then
            (snd x)\<lparr>cp_terminated := True, cp_exit_status := si_status r,
              cp_died_on_signal := cp_died_on_signal (snd x) \<or> si_code r \<noteq> CLD_EXITED\<rparr>
          else (snd x)\<lparr>cp_running := (si_code r = CLD_CONTINUED)\<rparr>
      | _ \<Rightarrow> snd x)"

definition after_reports :: "children \<Rightarrow> siginfo option res list \<Rightarrow> proc_world \<Rightarrow> proc_world" where
  "after_reports cs vs w =
     w\<lparr>pw_waitids := pw_waitids w + sum_list (map2 waitids_for cs vs),
       pw_raised := pw_raised w @ replicate (sum_list (map stops_for vs)) SIGSTOP\<rparr>"

lemma child_report_world [simp]:
  "child_report (w\<lparr>pw_waitids := a\<rparr>) = child_report w" "child_report (w\<lparr>pw_raised := b\<rparr>) = child_report w"
  by (simp_all add: child_report_def fun_eq_iff cong: if_cong)

lemma child_reports_world [simp]:
  "child_reports (w\<lparr>pw_waitids := a\<rparr>) n m cs = child_reports w n m cs"
  "child_reports (w\<lparr>pw_raised := b\<rparr>) n m cs = child_reports w n m cs"
  by (induction cs arbitrary: n m) (simp_all add: Let_def)

lemma child_reports_length [simp]: "length (child_reports w n m cs) = length cs"
  by (induction cs arbitrary: n m) (simp_all add: Let_def)

lemma child_report_error: "child_report w n m p = Inl e \<Longrightarrow> process_error e"
  by (auto simp: child_report_def Let_def split: prod.splits if_splits)

lemma after_report_alive [simp]: "cp_moved_away (snd (after_report x v)) = cp_moved_away (snd x)"
  by (auto simp: after_report_def split: sum.split option.split)

lemma after_report_terminated:
  "cp_terminated (snd (after_report x v)) \<longleftrightarrow>
     cp_terminated (snd x) \<or> (\<exists>r. v = Inr (Some r) \<and> ended r)"
  by (auto simp: after_report_def split: sum.split option.split)

lemma alive_after: "length vs = length xs \<Longrightarrow> alive (map2 after_report xs vs) = alive xs"
  by (induction vs xs rule: list_induct2) auto

text \<open>The look at one child is the code's two questions to the kernel and what follows from them.\<close>

lemma waitable_eq:
  assumes "\<not> cp_moved_away p" "\<not> cp_terminated p"
    and "pw_waitid w (pw_waitids w) (cp_pid p) (CHANGES OR WNOHANG OR WNOWAIT) = (ret, r)"
  shows "waitable p w =
    (if ret < 0 then Inl (Unix_Error ''waitid'')
     else if si_pid r = 0 then Inr (False, w\<lparr>pw_waitids := Suc (pw_waitids w)\<rparr>)
     else if si_pid r = cp_pid p then Inr (True, w\<lparr>pw_waitids := Suc (pw_waitids w)\<rparr>)
     else Inl (Runtime_Error ''waitid: unexpected value in siginfo_t si_pid field (not 0 or pid)''))"
  using assms by (simp add: child_defs SystemCall_def)

lemma change_state_eq:
  "change_state r p =
    (if ended r then Inr (p\<lparr>cp_terminated := True, cp_exit_status := si_status r,
       cp_died_on_signal := cp_died_on_signal p \<or> si_code r \<noteq> CLD_EXITED\<rparr>)
     else if si_code r \<in> {CLD_STOPPED, CLD_CONTINUED}
     then Inr (p\<lparr>cp_running := (si_code r = CLD_CONTINUED)\<rparr>)
     else Inl (Runtime_Error ''waitid: unexpected siginfo_t si_code''))"
  by (simp add: change_state_def ended_def cld_codes)

lemma cp_wait_eq:
  assumes "\<not> cp_moved_away p" "\<not> cp_terminated p"
    and "pw_waitid w (pw_waitids w) (cp_pid p) (CHANGES OR WNOHANG) = (ret, r)"
  shows "cp_wait True p w =
    (if ret < 0 then Inl (Unix_Error ''waitid'')
     else if si_pid r = 0 then Inl (Runtime_Error ''nonblocking wait: process was not waitable'')
     else if si_pid r \<noteq> cp_pid p then
       Inl (Runtime_Error ''waitid: unexpected value in siginfo_t si_pid field'')
     else if si_signo r \<noteq> SIGCHLD then
       Inl (Runtime_Error ''waitid: unexpected value in siginfo_t si_signo field (not SIGCHLD)'')
     else andThen (change_state r p) (\<lambda>p. Inr (p, w\<lparr>pw_waitids := Suc (pw_waitids w)\<rparr>)))"
  using assms by (simp add: child_defs SystemCall_def)

lemma sigchld_turn:
  assumes p: "\<not> cp_moved_away p"
    and v: "child_report w (pw_waitids w) (length (pw_raised w)) p = v"
  shows "sigchld_loop before ((status, p) # rest) w =
    (case v of
       Inl e \<Rightarrow> Inl e
     | Inr _ \<Rightarrow>
         let x = after_report (status, p) v; w' = after_reports [(status, p)] [v] w in
         if harmless v then sigchld_loop (before @ [x]) rest w'
         else andThen (child_result (before @ x # rest) status (snd x)) (\<lambda>r.
           Inr (r, before @ x # rest, w')))"
proof -
  obtain a peek where peek:
    "pw_waitid w (pw_waitids w) (cp_pid p) (CHANGES OR WNOHANG OR WNOWAIT) = (a, peek)" by fastforce
  obtain b r where second:
    "pw_waitid w (Suc (pw_waitids w)) (cp_pid p) (CHANGES OR WNOHANG) = (b, r)" by fastforce
  note spec = after_report_def after_reports_def waitids_for_def stops_for_def harmless_def
  note v = v [unfolded child_report_def peek second Let_def prod.case, symmetric]
  show ?thesis
  proof (cases "cp_terminated p")
    case True
    then show ?thesis using p by (simp add: v spec)
  next
    case running: False
    note waitable = waitable_eq [OF p running peek]
    show ?thesis
    proof (cases "0 \<le> a \<and> si_pid peek = cp_pid p \<and> cp_pid p \<noteq> 0")
      case False
      then consider "a < 0" | "\<not> a < 0" "si_pid peek = 0"
        | "\<not> a < 0" "si_pid peek \<noteq> 0" "si_pid peek \<noteq> cp_pid p" by fastforce
      then show ?thesis using p running by cases (simp_all add: v spec waitable)
    next
      case ready: True
      let ?w = "w\<lparr>pw_waitids := Suc (pw_waitids w)\<rparr>"
      have "pw_waitid ?w (pw_waitids ?w) (cp_pid p) (CHANGES OR WNOHANG) = (b, r)" using second by simp
      note wait = cp_wait_eq [OF p running this]
      have run: "sigchld_loop before ((status, p) # rest) w =
          andThen (cp_wait True p ?w) (\<lambda>(proc, w).
          andThen (terminated proc) (\<lambda>t.
            if t then let all = before @ (status, proc) # rest
              in andThen (child_result all status proc) (\<lambda>r. Inr (r, all, w))
            else andThen (running proc) (\<lambda>r. andThen (if r then Inr w else raise SIGSTOP w) (\<lambda>w.
              sigchld_loop (before @ [(status, proc)]) rest w))))"
        using p running ready by (simp add: waitable)
      show ?thesis
      proof (cases "0 \<le> b \<and> si_pid r = cp_pid p \<and> si_signo r = SIGCHLD")
        case False
        then consider "b < 0" | "\<not> b < 0" "si_pid r = 0" | "\<not> b < 0" "si_pid r \<noteq> 0" "si_pid r \<noteq> cp_pid p"
          | "\<not> b < 0" "si_pid r \<noteq> 0" "si_pid r = cp_pid p" "si_signo r \<noteq> SIGCHLD" using ready by fastforce
        then show ?thesis unfolding run wait using running ready by cases (simp_all add: v)
      next
        case True
        with ready have r: "\<not> b < 0" "si_pid r \<noteq> 0" "si_pid r = cp_pid p" "si_signo r = SIGCHLD" by auto
        have a: "\<not> a < 0" "si_pid peek \<noteq> 0" "si_pid peek = cp_pid p" using ready by auto
        consider "ended r" | "\<not> ended r" "si_code r = CLD_STOPPED" | "\<not> ended r" "si_code r = CLD_CONTINUED"
          | "\<not> ended r" "si_code r \<notin> {CLD_STOPPED, CLD_CONTINUED}" by blast
        then show ?thesis
        proof cases
          case 1
          then have "si_code r \<noteq> CLD_STOPPED" by (auto simp: ended_def cld_codes)
          with 1 show ?thesis unfolding run wait change_state_eq
            using p running r a by (simp add: v spec Let_def)
        next
          case 2
          have "CLD_STOPPED \<noteq> CLD_CONTINUED" by (simp add: cld_codes)
          with 2 show ?thesis unfolding run wait change_state_eq
            using p running r a by (simp add: v spec raise_def SystemCall_def)
        next
          case 3
          have "CLD_CONTINUED \<noteq> CLD_STOPPED" by (simp add: cld_codes)
          with 3 show ?thesis unfolding run wait change_state_eq
            using p running r a by (simp add: v spec)
        next
          case 4
          then show ?thesis unfolding run wait change_state_eq
            using p running r a by (simp add: v)
        qed
      qed
    qed
  qed
qed

lemma after_reports_Cons:
  "after_reports (x # xs) (v # vs) w = after_reports xs vs (after_reports [x] [v] w)"
  by (simp add: after_reports_def replicate_add)

lemma after_reports_counts [simp]:
  "pw_waitids (after_reports [x] [v] w) = pw_waitids w + waitids_for x v"
  "length (pw_raised (after_reports [x] [v] w)) = length (pw_raised w) + stops_for v"
  "child_reports (after_reports cs vs w) = child_reports w"
  by (simp_all add: after_reports_def fun_eq_iff)

text \<open>The children passed over leave their states and what the kernel was asked behind.\<close>

lemma sigchld_passes:
  assumes "alive (xs @ rest)"
    and "child_reports w (pw_waitids w) (length (pw_raised w)) (xs @ rest) = vs @ us"
    and "length vs = length xs" "list_all harmless vs"
  shows "sigchld_loop before (xs @ rest) w =
      sigchld_loop (before @ map2 after_report xs vs) rest (after_reports xs vs w) \<and>
    child_reports w (pw_waitids (after_reports xs vs w)) (length (pw_raised (after_reports xs vs w))) rest = us"
  using assms
proof (induction xs arbitrary: vs before w)
  case Nil
  then show ?case by (simp add: after_reports_def)
next
  case (Cons x xs)
  obtain status p where x: "x = (status, p)" by (cases x)
  from Cons.prems(3) obtain v vs' where vs: "vs = v # vs'" "length vs' = length xs" by (cases vs) auto
  let ?w = "after_reports [x] [v] w"
  have "child_report w (pw_waitids w) (length (pw_raised w)) p = v"
    using Cons.prems(2) by (simp add: x vs Let_def)
  with Cons.prems have v: "child_report w (pw_waitids w) (length (pw_raised w)) p = v"
    "harmless v" "\<not> cp_moved_away p"
    "child_reports ?w (pw_waitids ?w) (length (pw_raised ?w)) (xs @ rest) = vs' @ us"
    by (simp_all add: x vs Let_def)
  then have "sigchld_loop before (x # xs @ rest) w
      = sigchld_loop (before @ [after_report x v]) (xs @ rest) ?w"
    using sigchld_turn [OF v(3,1), of before status "xs @ rest"]
    by (auto simp: x harmless_def Let_def split: sum.splits)
  with Cons.IH [OF _ v(4) vs(2), of "before @ [after_report x v]"] Cons.prems(1,4)
  show ?case by (simp add: vs after_reports_Cons [of x xs])
qed

lemma child_result_outcome:
  assumes "alive all" "\<not> cp_moved_away p" "cp_terminated p"
  shows "child_result all status p =
    (if cp_exit_status p \<noteq> 0 \<and> cp_exit_status p \<noteq> status then throw_exception p
     else Inr (handled (if (\<forall>x \<in> set all. cp_terminated (snd x)) \<or> cp_exit_status p \<noteq> status
                        then Exit else Continue)))"
  using assms by (simp add: child_result_def all_terminated_eq)

text \<open>
  What \<open>handle_signal\<close> makes of the reports: \<open>before\<close> are those up to the first that ends the search.
\<close>

definition sigchld_end :: "children \<Rightarrow> siginfo option res list \<Rightarrow> siginfo \<Rightarrow> proc_world \<Rightarrow>
    (action_result \<times> children \<times> proc_world) res" where
  \<comment> \<open>after the reports \<open>before\<close> the next child has ended: \<open>r\<close>\<close>
  "sigchld_end cs before r w =
     (let k = length before; status = fst (cs ! k);
          child = snd (after_report (cs ! k) (Inr (Some r)));
          all = map2 after_report (take k cs) before @ (status, child) # drop (Suc k) cs
      in if si_status r \<noteq> 0 \<and> si_status r \<noteq> status then
           Inl (ended_badly child)
         else
           Inr (handled (if (\<forall>x \<in> set all. cp_terminated (snd x)) \<or> si_status r \<noteq> status
                         then Exit else Continue), all,
                after_reports (take (Suc k) cs) (before @ [Inr (Some r)]) w))"

lemma after_reports_snoc:
  "length vs = length xs \<Longrightarrow>
   after_reports (xs @ [x]) (vs @ [v]) w = after_reports [x] [v] (after_reports xs vs w)"
  by (simp add: after_reports_def zip_append replicate_add)

lemma sigchld_ends:
  assumes "alive cs" and vs: "child_reports w (pw_waitids w) (length (pw_raised w)) cs = before @ u # us"
    and "list_all harmless before" "\<not> harmless u"
  shows "handle_signal SIGCHLD cs w =
    (case u of Inl e \<Rightarrow> Inl e | Inr None \<Rightarrow> undefined | Inr (Some r) \<Rightarrow> sigchld_end cs before r w)"
proof -
  let ?k = "length before"
  have len: "?k < length cs" using arg_cong [OF vs, of length] by simp
  define xs where "xs = take ?k cs"
  obtain status p where x: "cs ! ?k = (status, p)" by fastforce
  have cs: "cs = xs @ (status, p) # drop (Suc ?k) cs"
    using id_take_nth_drop [OF len] by (simp add: xs_def x)
  have xs: "length before = length xs" using len by (simp add: xs_def)
  let ?w = "after_reports xs before w"
  have alive: "alive (map2 after_report xs before)" "\<not> cp_moved_away p" "alive (drop (Suc ?k) cs)"
    using assms(1) cs alive_after [OF xs] by (metis alive_append(1,2) snd_conv)+
  note passes = sigchld_passes [of xs "(status, p) # drop (Suc ?k) cs" w before "u # us" "[]",
      folded cs, OF assms(1) vs xs assms(3)]
  from passes have run: "sigchld_loop [] cs w =
      sigchld_loop (map2 after_report xs before) ((status, p) # drop (Suc ?k) cs) ?w"
    by (simp only: append_Nil)
  from passes have u: "child_report ?w (pw_waitids ?w) (length (pw_raised ?w)) p = u"
    by (simp add: Let_def after_reports_def del: sigchld_loop.simps)
  have start: "handle_signal SIGCHLD cs w = sigchld_loop [] cs w"
    using len by (auto simp: handle_signal_def signal_numbers)
  show ?thesis
  proof (cases u)
    case (Inl e)
    then show ?thesis unfolding start run sigchld_turn [OF alive(2) u] by simp
  next
    case (Inr v)
    with assms(4) obtain r where r: "v = Some r" "ended r"
      by (auto simp: harmless_def split: option.splits)
    with Inr have u_eq: "u = Inr (Some r)" by simp
    define p' where "p' = snd (after_report (status, p) u)"
    have x': "after_report (status, p) u = (status, p')"
      by (simp add: after_report_def p'_def)
    have p': "cp_terminated p'" "cp_exit_status p' = si_status r" "\<not> cp_moved_away p'"
      using r Inr alive(2) by (simp_all add: after_report_def p'_def)
    define all where "all = map2 after_report xs before @ (status, p') # drop (Suc ?k) cs"
    have all: "alive all" using alive p'(3) by (simp add: all_def)
    have take: "take (Suc ?k) cs = xs @ [(status, p)]" using len by (simp add: take_Suc_conv_app_nth xs_def x)
    have result: "handle_signal SIGCHLD cs w = andThen (child_result all status p') (\<lambda>r.
        Inr (r, all, after_reports [(status, p)] [u] ?w))"
      unfolding start run sigchld_turn [OF alive(2) u] x' all_def using Inr assms(4) by (simp add: Let_def)
    have "sigchld_end cs before r w =
        (if si_status r \<noteq> 0 \<and> si_status r \<noteq> status then Inl (ended_badly p')
         else Inr (handled (if (\<forall>x \<in> set all. cp_terminated (snd x)) \<or> si_status r \<noteq> status
                         then Exit else Continue), all, after_reports [(status, p)] [u] ?w))"
      unfolding sigchld_end_def take x Let_def all_def
      using after_reports_snoc [OF xs] by (simp flip: u_eq xs_def add: x')
    also have "\<dots> = handle_signal SIGCHLD cs w"
      unfolding result child_result_outcome [OF all p'(3,1)] p'(2) throw_exception_eq [OF p'(3,1)]
      by (cases "si_status r \<noteq> 0 \<and> si_status r \<noteq> status") simp_all
    finally show ?thesis by (simp add: u_eq)
  qed
qed

lemma sigchld_ends_not:
  assumes "alive cs" "cs \<noteq> []" and vs: "child_reports w (pw_waitids w) (length (pw_raised w)) cs = vs"
    and "list_all harmless vs"
  shows "handle_signal SIGCHLD cs w =
    Inr (handled Continue, map2 after_report cs vs, after_reports cs vs w)"
  using sigchld_passes [of cs "[]" w vs "[]" "[]"] assms
  by (auto simp: handle_signal_def signal_numbers)

lemma child_reports_error: "Inl e \<in> set (child_reports w n m cs) \<Longrightarrow> process_error e"
  by (induction cs arbitrary: n m) (auto simp: Let_def dest: sym [THEN child_report_error])

lemma handle_signal_safe:
  assumes "alive cs"
  shows "(\<exists>e. handle_signal sig cs w = Inl e \<and> process_error e) \<or>
    (\<exists>r cs' w'. handle_signal sig cs w = Inr (r, cs', w') \<and> alive cs')"
proof (cases "sig = SIGCHLD \<and> cs \<noteq> []")
  case True
  let ?vs = "child_reports w (pw_waitids w) (length (pw_raised w)) cs"
  show ?thesis
  proof (cases "list_all harmless ?vs")
    case all: True
    then show ?thesis using True sigchld_ends_not [OF assms _ refl] alive_after [of ?vs cs] assms by auto
  next
    case False
    then obtain before u us where u: "?vs = before @ u # us" "list_all harmless before" "\<not> harmless u"
      by (auto simp: list_all_iff dest!: split_list_first_prop)
    note ends = sigchld_ends [OF assms u]
    show ?thesis
    proof (cases u)
      case (Inl e)
      then have "Inl e \<in> set ?vs" using u(1) by simp
      then have "process_error e" by (rule child_reports_error)
      then show ?thesis using True ends Inl by simp
    next
      case (Inr v)
      with u(3) obtain r where v: "v = Some r" by (auto simp: harmless_def split: option.splits)
      let ?k = "length before"
      have k: "?k < length cs" using arg_cong [OF u(1), of length] by simp
      have "alive (take ?k cs)" "alive (drop (Suc ?k) cs)" "\<not> cp_moved_away (snd (cs ! ?k))"
        using assms k by (auto simp: alive_def dest: in_set_takeD in_set_dropD)
      then have "alive (map2 after_report (take ?k cs) before @
          (fst (cs ! ?k), snd (after_report (cs ! ?k) (Inr (Some r)))) # drop (Suc ?k) cs)"
        using k alive_after [of before "take ?k cs"] by simp
      then show ?thesis using True ends Inr v by (simp add: sigchld_end_def Let_def ended_badly_def)
    qed
  qed
next
  case False
  with resume_all_outcome [OF assms, of w] assms show ?thesis
    by (auto simp: handle_signal_def)
qed

text \<open>
  C35. What the parent does on \<open>SIGCHLD\<close>, for every answer of the kernel about its children (none of
  them an object that was moved away). The children are asked in turn. As long as a child has
  terminated before, or there is no news of it, or it has stopped or continued, the search goes on;
  a child that has stopped makes the parent raise \<open>SIGSTOP\<close>; the children asked carry the state
  reported, and the calls to \<open>waitid\<close> are counted. If it never ends otherwise, the loop continues.
  The first failed call or unexpected answer ends it with its exception. The first child found to
  have ended ends it too, and those behind are not asked: with an exception naming that child if its
  status is neither 0 nor its continue status; otherwise the loop ends if all have terminated or the
  status is not the continue status, and continues if not.
\<close>

theorem sigchld_result:
  assumes "alive cs" "cs \<noteq> []"
    and "vs = child_reports w (pw_waitids w) (length (pw_raised w)) cs"
  shows "(list_all harmless vs \<longrightarrow> handle_signal SIGCHLD cs w =
       Inr (handled Continue, map2 after_report cs vs, after_reports cs vs w)) \<and>
    (\<forall>before e rest. vs = before @ Inl e # rest \<and> list_all harmless before \<longrightarrow>
       handle_signal SIGCHLD cs w = Inl e \<and> process_error e) \<and>
    (\<forall>before r rest. vs = before @ Inr (Some r) # rest \<and> list_all harmless before \<and> ended r \<longrightarrow>
       handle_signal SIGCHLD cs w = sigchld_end cs before r w)"
proof (intro conjI allI impI)
  assume "list_all harmless vs"
  then show "handle_signal SIGCHLD cs w =
      Inr (handled Continue, map2 after_report cs vs, after_reports cs vs w)"
    using sigchld_ends_not [OF assms(1,2) assms(3) [symmetric]] by blast
next
  fix before e rest assume "vs = before @ Inl e # rest \<and> list_all harmless before"
  then have u: "child_reports w (pw_waitids w) (length (pw_raised w)) cs = before @ Inl e # rest"
    "list_all harmless before" "\<not> harmless (Inl e)" using assms(3) by (simp_all add: harmless_def)
  from sigchld_ends [OF assms(1) this] show "handle_signal SIGCHLD cs w = Inl e" by simp
  have "Inl e \<in> set (child_reports w (pw_waitids w) (length (pw_raised w)) cs)" using u(1) by simp
  then show "process_error e" by (rule child_reports_error)
next
  fix before r rest
  assume "vs = before @ Inr (Some r) # rest \<and> list_all harmless before \<and> ended r"
  then have "child_reports w (pw_waitids w) (length (pw_raised w)) cs = before @ Inr (Some r) # rest"
    "list_all harmless before" "\<not> harmless (Inr (Some r))" using assms(3) by (simp_all add: harmless_def)
  from sigchld_ends [OF assms(1) this] show "handle_signal SIGCHLD cs w = sigchld_end cs before r w"
    by simp
qed

text \<open>
  Three children: there is no news of the first, the second has stopped, the third has exited. The
  parent stops itself for the second, and continues after the third, as the others have not ended.
\<close>

definition one_stopped :: proc_world where
  "one_stopped = \<lparr>pw_waitid = (\<lambda>n pid options. (0,
       if pid = 42 then \<lparr>si_pid = 0, si_signo = 0, si_code = 0, si_status = 0\<rparr>
       else if pid = 43 then report 43 CLD_STOPPED 19 else report 44 CLD_EXITED 0)),
     pw_waitids = 0, pw_kill = (\<lambda>n. 0), pw_kills = 0, pw_killed = [], pw_raise = (\<lambda>n. 0), pw_raised = []\<rparr>"

definition three_children :: children where
  "three_children =
     [(0, sample_child), (-1, sample_child\<lparr>cp_pid := 43\<rparr>), (0, sample_child\<lparr>cp_pid := 44\<rparr>)]"

theorem sigchld_result_witness:
  "handle_signal SIGCHLD three_children one_stopped =
     Inr (handled Continue,
       [(0, sample_child), (-1, sample_child\<lparr>cp_pid := 43, cp_running := False\<rparr>),
        (0, sample_child\<lparr>cp_pid := 44, cp_terminated := True\<rparr>)],
       one_stopped\<lparr>pw_waitids := 5, pw_raised := [SIGSTOP]\<rparr>)"
proof -
  let ?before = "[Inr None, Inr (Some (report 43 CLD_STOPPED 19))]"
  have vs: "child_reports one_stopped (pw_waitids one_stopped) (length (pw_raised one_stopped))
      three_children = ?before @ Inr (Some (report 44 CLD_EXITED 0)) # []"
    by (simp add: one_stopped_def three_children_def sample_child_def child_report_def report_def
        waitids_for_def stops_for_def ended_def cld_codes)
  have "alive three_children" "three_children \<noteq> []"
    by (simp_all add: three_children_def sample_child_def)
  from sigchld_result [OF this refl, of one_stopped, unfolded vs] have
    "handle_signal SIGCHLD three_children one_stopped
       = sigchld_end three_children ?before (report 44 CLD_EXITED 0) one_stopped"
    by (simp add: harmless_def ended_def report_def cld_codes)
  then show ?thesis
    by (simp add: sigchld_end_def three_children_def sample_child_def after_report_def
        after_reports_def report_def ended_def cld_codes waitids_for_def stops_for_def
        one_stopped_def eval_nat_numeral)
qed

section \<open>The loop\<close>

text \<open>
  \<open>internal_loop\<close> up to its poller: an exception of its own calls, or what the poller's loop makes of
  the actions and the signal's handler behind them.
\<close>

definition loop_on :: "('a event_loop_scheme \<Rightarrow> (i32 \<times> 'a event_loop_scheme) res option) \<Rightarrow> poll_answers \<Rightarrow>
    'a event_loop_scheme poller \<Rightarrow> 'a event_loop_scheme \<Rightarrow>
    (u32 option \<times> 'a event_loop_scheme poller \<times> 'a event_loop_scheme) res option" where
  \<comment> \<open>the signal's descriptor is made\<close>
  "loop_on wait answers p s =
     poll_loop wait answers (add_action s (simple_input_handler el_signal_fd on_signal) p) s"

lemma internal_loop_outcome:
  obtains (error) e where
      "internal_loop k kw mask_answer signalfd_answer wait answers p s = Some (Inl e)" "process_error e"
    | (loop) fd where "fd_num fd = fst signalfd_answer"
      "case loop_on wait answers p (s\<lparr>el_signal_fd := fd\<rparr>) of
         None \<Rightarrow> internal_loop k kw mask_answer signalfd_answer wait answers p s = None
       | Some (Inl e) \<Rightarrow> internal_loop k kw mask_answer signalfd_answer wait answers p s = Some (Inl e)
       | Some (Inr (status, p', s')) \<Rightarrow>
           \<exists>kw'. internal_loop k kw mask_answer signalfd_answer wait answers p s = Some (Inr (status, s', kw'))"
proof -
  let ?loop = "internal_loop k kw mask_answer signalfd_answer wait answers p s"
  have tu: "process_error e" if "TemporarilyUnprivileged k kw = Inl e" for e
    using that by (auto simp: TemporarilyUnprivileged_def Let_def andThen_Inl_iff id_call_Inl_iff
        ids_assert_not_root_def split: if_splits)
  have tu_end: "process_error e" if "tu_destroy k tu kw = Inl e" for e tu kw
    using that by (auto simp: tu_destroy_def andThen_Inl_iff id_call_Inl_iff)
  show thesis
  proof (cases "TemporarilyUnprivileged k kw")
    case (Inl e)
    with tu error show ?thesis by (simp add: internal_loop_def)
  next
    case unprivileged: (Inr r)
    obtain t kw1 where r: "r = (t, kw1)" by (cases r)
    show ?thesis
    proof (cases "\<exists>sigs. current_mask mask_answer = Inr sigs \<and> mask_eq (el_signals s) sigs")
      case False
      have "\<exists>e. ?loop = Some (Inl e) \<and> process_error e"
        using unprivileged r False by (cases "fst mask_answer < 0") (auto simp: internal_loop_def current_mask_def SystemCall_def)
      with error show ?thesis by blast
    next
      case intact: True
      show ?thesis
      proof (cases "SignalFD (fst signalfd_answer) (snd signalfd_answer)")
        case (Inl e)
        then have "process_error e" by (auto simp: SignalFD_def SystemCall_def FileDescriptor_def split: if_splits)
        with Inl intact unprivileged r error show ?thesis by (auto simp: internal_loop_def)
      next
        case (Inr fd)
        then have fd: "fd_num fd = fst signalfd_answer"
          by (auto simp: SignalFD_def SystemCall_def FileDescriptor_def split: if_splits)
        have eq: "?loop = andThenO (loop_on wait answers p (s\<lparr>el_signal_fd := fd\<rparr>)) (\<lambda>(status, p, s). case status of None \<Rightarrow> Some (Inr (None, s, kw1))
            | Some n \<Rightarrow> andThenO (Some (tu_destroy k t kw1)) (\<lambda>kw. Some (Inr (Some n, s, kw))))"
          using intact unprivileged r Inr by (auto simp: internal_loop_def Let_def loop_on_def)
        show ?thesis
        proof (cases "\<exists>n p' s' e. loop_on wait answers p (s\<lparr>el_signal_fd := fd\<rparr>) = Some (Inr (Some n, p', s')) \<and> tu_destroy k t kw1 = Inl e")
          case True
          with eq tu_end error show ?thesis by auto
        next
          case False
          with eq have "case loop_on wait answers p (s\<lparr>el_signal_fd := fd\<rparr>) of
              None \<Rightarrow> ?loop = None
            | Some (Inl e) \<Rightarrow> ?loop = Some (Inl e)
            | Some (Inr (status, p', s')) \<Rightarrow> \<exists>kw'. ?loop = Some (Inr (status, s', kw'))"
            by (cases "tu_destroy k t kw1") (auto split: option.split sum.split)
          then show ?thesis by (rule loop [OF fd])
        qed
      qed
    qed
  qed
qed

end
