(* ===== verification/Ferry_Loop.thy ===== *)
theory Ferry_Loop
  imports Main Prelude Kernel Delay_Queue Link_Queue Cellular_State Ferry Cellular_Queue
    Cellular_Channel Cellular_Start Util Child_Process Poller Event_Loop
begin

text \<open>
  \<open>PacketShell::Ferry::loop\<close> (\<open>src/packet/packetshell.cc\<close>) on a \<open>CellularQueue\<close>: its four actions, run
  by the event loop. The locale \<open>poll_client\<close> of the poller is interpreted on them, with the laws
  of the locale \<open>ferry_queue\<close> that \<open>Cellular_Channel\<close> has proved.
\<close>

section \<open>The loop\<close>

record ferry_state = event_loop +
  fs_tun :: file_descriptor
  fs_sibling :: file_descriptor
  fs_queue :: cellular_queue

definition on_datagram :: "ferry_state \<Rightarrow> (action_result \<times> ferry_state) res option" where
  "on_datagram s =
     andThenO (Some (fd_read BUFFER_SIZE (fs_tun s) (el_world s))) (\<lambda>(x, fd, w).
     andThenO (read_packet x (fs_queue s) w) (\<lambda>(c, w).
       Some (Inr (handled Continue, s\<lparr>fs_tun := fd, fs_queue := c, el_world := w\<rparr>))))"

definition on_writable :: "ferry_state \<Rightarrow> (action_result \<times> ferry_state) res option" where
  "on_writable s =
     andThenO (write_packets (fs_sibling s, fs_queue s, el_world s)) (\<lambda>(fd, c, w).
       Some (Inr (handled Continue, s\<lparr>fs_sibling := fd, fs_queue := c, el_world := w\<rparr>)))"

definition wants_write :: "ferry_state \<Rightarrow> (bool \<times> ferry_state) res option" where
  "wants_write s =
     Some (andThen (pending_output (fs_queue s) (el_world s)) (\<lambda>(b, w). Inr (b, s\<lparr>el_world := w\<rparr>)))"

definition on_finished :: "ferry_state \<Rightarrow> (action_result \<times> ferry_state) res option" where
  "on_finished s = Some (Inr (handled Exit, s))"

definition wants_exit :: "ferry_state \<Rightarrow> (bool \<times> ferry_state) res option" where
  "wants_exit s = Some (Inr (finished (fs_queue s), s))"

definition ferry_wait :: "ferry_state \<Rightarrow> (i32 \<times> ferry_state) res option" where
  "ferry_wait s =
     andThenO (wait_time (fs_queue s) (el_world s)) (\<lambda>(t, c, w).
       Some (Inr (t, s\<lparr>fs_queue := c, el_world := w\<rparr>)))"

definition ferry_actions :: "ferry_state \<Rightarrow> ferry_state poller \<Rightarrow> ferry_state poller" where
  "ferry_actions s p =
     (let p = add_action s (simple_input_handler fs_tun on_datagram) p;
          p = add_action s (mk_action fs_sibling Out on_writable wants_write) p;
          p = add_action s (mk_action fs_sibling Out on_finished wants_exit) p
      in p)"

definition Ferry_loop :: "'k id_calls \<Rightarrow> 'k \<Rightarrow> int \<times> int list \<Rightarrow> int \<times> int \<Rightarrow> poll_answers \<Rightarrow>
    ferry_state poller \<Rightarrow> ferry_state \<Rightarrow> (u32 option \<times> ferry_state \<times> 'k) res option" where
  "Ferry_loop k kw mask_answer signalfd_answer answers p s =
     internal_loop k kw mask_answer signalfd_answer ferry_wait answers (ferry_actions s p) s"

section \<open>The queue leaves what was read alone\<close>

definition quiet :: "world \<Rightarrow> world \<Rightarrow> bool" where
  "quiet w w' \<longleftrightarrow> w_read w' = w_read w \<and> w_received w' = w_received w"

lemma quiet_refl [simp]: "quiet w w"
  by (simp add: quiet_def)

lemma quiet_trans: "quiet w w1 \<Longrightarrow> quiet w1 w2 \<Longrightarrow> quiet w w2"
  by (simp add: quiet_def)

lemma timestamp_quiet: "timestamp w = Inr (t, w') \<Longrightarrow> quiet w w'"
  by (auto simp: timestamp_def raw_timestamp_def initial_timestamp_def Let_def andThen_Inr_iff quiet_def
      split: prod.splits option.splits)

lemma fd_write_quiet:
  "fd_write buffer all fd w = Inr (rest, fd', w') \<Longrightarrow> quiet w w' \<and> fd_num fd' = fd_num fd"
proof (induction buffer all fd w arbitrary: rest fd' w' rule: fd_write.induct)
  case (1 buffer all fd w)
  from "1.prems" obtain r where r: "fd_write_some buffer fd w = Inr r"
    "(if all \<and> fst r \<noteq> [] then fd_write (fst r) all (fst (snd r)) (snd (snd r)) else Inr r) = Inr (rest, fd', w')"
    by (subst (asm) fd_write.simps) (auto simp: andThen_Inr_iff)
  from r(1) have q: "quiet w (snd (snd r)) \<and> fd_num (fst (snd r)) = fd_num fd"
    by (auto simp: fd_write_some_def Let_def andThen_Inr_iff quiet_def register_write_def split: if_splits)
  show ?case
  proof (cases "all \<and> fst r \<noteq> []")
    case True
    with r(2) "1.IH" [OF r(1) True] q show ?thesis by (auto intro: quiet_trans)
  next
    case False
    with r(2) q show ?thesis by auto
  qed
qed

lemma read_packet_quiet: "read_packet x c w = Some (Inr (c', w')) \<Longrightarrow> quiet w w'"
  by (auto simp: read_packet_def Let_def andThenO_Some_Inr_iff andThen_Inr_iff
      dest: timestamp_quiet split: if_splits prod.splits)

definition same_device :: "writing \<Rightarrow> writing \<Rightarrow> bool" where
  "same_device s s' \<longleftrightarrow> fd_num (fst s') = fd_num (fst s) \<and> quiet (snd (snd s)) (snd (snd s'))"

lemma same_device_trans: "same_device s s1 \<Longrightarrow> same_device s1 s2 \<Longrightarrow> same_device s s2"
  by (auto simp: same_device_def intro: quiet_trans)

lemma get_next_quiet: "get_next_from_delay_queue c w = Inr (p, c', w') \<Longrightarrow> quiet w w'"
  by (auto simp: get_next_from_delay_queue_def andThen_Inr_iff dest: timestamp_quiet split: if_splits)

lemma forward_packet_device:
  assumes "forward_packet now p s = Some (Inr s')"
  shows "same_device s s'"
proof -
  obtain fd c w where s: "s = (fd, c, w)" by (cases s) auto
  show ?thesis
  proof (cases "dp_is_bypass_link_queue p \<and> current_link_queue_size c = 0")
    case True
    with assms obtain x fd' w' where "fd_write (dp_contents p) True fd w = Inr (x, fd', w')"
      "fst s' = fd'" "snd (snd s') = w'"
      unfolding forward_packet_def s prod.case
      by (simp add: andThen_Inr_iff split: prod.splits) fastforce
    with fd_write_quiet show ?thesis by (simp add: same_device_def s)
  next
    case False
    with assms have "fst s' = fd \<and> snd (snd s') = w"
      unfolding forward_packet_def s prod.case if_not_P [OF False]
      by (auto simp: andThenO_Some_Inr_iff)
    then show ?thesis by (simp add: same_device_def s)
  qed
qed

lemma forward_step_device:
  assumes "forward_step now p s = Some (Inr (p', s'))"
  shows "same_device s s'"
proof -
  from assms obtain fd c w c' w' where "forward_packet now p s = Some (Inr (fd, c, w))"
    "get_next_from_delay_queue c w = Inr (p', c', w')" "s' = (fd, c', w')"
    by (auto simp: forward_step_def andThenO_Some_Inr_iff)
  with forward_packet_device [of now p s] get_next_quiet [of c w] show ?thesis
    by (auto simp: same_device_def elim: quiet_trans)
qed

lemma forward_packets_device_res:
  "forward_packets now p s = Some r \<Longrightarrow> (case r of Inl e \<Rightarrow> True | Inr s' \<Rightarrow> same_device s s')"
proof (rule forward_packets.raw_induct [where P = "\<lambda>now p s r.
      case r of Inl e \<Rightarrow> True | Inr s' \<Rightarrow> same_device s s'"])
  fix forward now p s r
  assume IH: "\<And>now p s r. forward now p s = Some r \<Longrightarrow>
      (case r of Inl e \<Rightarrow> True | Inr s' \<Rightarrow> same_device s s')"
    and body: "(if dp_contents p = [] then Some (Inr s)
      else case forward_step now p s of None \<Rightarrow> None
           | Some (Inl e) \<Rightarrow> Some (Inl e)
           | Some (Inr (p', s')) \<Rightarrow> forward now p' s') = Some r"
  show "case r of Inl e \<Rightarrow> True | Inr s' \<Rightarrow> same_device s s'"
  proof (cases "dp_contents p = []")
    case True
    with body show ?thesis by (auto simp: same_device_def)
  next
    case False
    with body obtain q where q: "forward_step now p s = Some q" by (auto split: option.splits)
    show ?thesis
    proof (cases q)
      case (Inl e)
      with body False q show ?thesis by auto
    next
      case (Inr ns)
      obtain p' s1 where ns: "ns = (p', s1)" by (cases ns)
      have "same_device s s1" using q Inr ns by (auto intro: forward_step_device)
      moreover have "case r of Inl e \<Rightarrow> True | Inr s' \<Rightarrow> same_device s1 s'"
        using IH [of now p' s1 r] body False q Inr ns by simp
      ultimately show ?thesis by (auto split: sum.splits intro: same_device_trans)
    qed
  qed
qed

lemma forward_packets_device:
  "forward_packets now p s = Some (Inr s') \<Longrightarrow> same_device s s'"
  by (auto dest: forward_packets_device_res)

lemma flush_output_device: "flush_output now ps s = Inr s' \<Longrightarrow> same_device s s'"
proof (induction ps arbitrary: s)
  case Nil
  then show ?case by (simp add: same_device_def)
next
  case (Cons p ps)
  obtain fd c w where s: "s = (fd, c, w)" by (cases s) auto
  from Cons.prems obtain x fd1 w1 c1 where
    "fd_write (qp_contents p) True fd w = Inr (x, fd1, w1)" "flush_output now ps (fd1, c1, w1) = Inr s'"
    by (auto simp: s andThen_Inr_iff Let_def)
  with Cons.IH fd_write_quiet show ?case
    by (fastforce simp: s same_device_def intro: quiet_trans)
qed

lemma write_packets_device:
  assumes "write_packets s = Some (Inr s')"
  shows "same_device s s'"
proof -
  obtain fd c w where s: "s = (fd, c, w)" by (cases s) auto
  from assms obtain p c1 w1 now w2 s1 where
    r: "get_next_from_delay_queue c w = Inr (p, c1, w1)" "timestamp w1 = Inr (now, w2)"
      "forward_packets now p (fd, c1, w2) = Some (Inr s1)" "write_packets_from_link_queue s1 = Inr s'"
    by (auto simp: s write_packets_def andThenO_Some_Inr_iff)
  obtain fd1 c3 w3 where s1: "s1 = (fd1, c3, w3)" by (cases s1) auto
  from r(4) obtain now' w4 where f: "timestamp w3 = Inr (now', w4)"
    "flush_output now' (output_queue c3) (fd1, c3, w4) = Inr s'"
    by (auto simp: s1 write_packets_from_link_queue_def andThen_Inr_iff)
  have "same_device s (fd, c1, w2)" "same_device s1 (fd1, c3, w4)"
    using get_next_quiet [OF r(1)] timestamp_quiet [OF r(2)] timestamp_quiet [OF f(1)]
    by (auto simp: s s1 same_device_def intro: quiet_trans)
  with forward_packets_device [OF r(3)] flush_output_device [OF f(2)] show ?thesis
    by (blast intro: same_device_trans)
qed

lemma wait_time_delay_queue_quiet: "wait_time_delay_queue c w = Inr (t, w') \<Longrightarrow> quiet w w'"
  by (auto simp: wait_time_delay_queue_def andThen_Inr_iff dest: timestamp_quiet split: if_splits)

lemma wait_time_quiet: "wait_time c w = Some (Inr (t, c', w')) \<Longrightarrow> quiet w w'"
  by (fastforce simp: wait_time_def wait_time_link_queue_def andThenO_Some_Inr_iff Let_def
      dest: wait_time_delay_queue_quiet timestamp_quiet intro: quiet_trans)

lemma pending_output_quiet: "pending_output c w = Inr (b, w') \<Longrightarrow> quiet w w'"
  by (auto simp: pending_output_def andThen_Inr_iff dest: wait_time_delay_queue_quiet split: if_splits)

section \<open>A read leaves the queue alone\<close>

lemma fd_read_accepts:
  assumes "fd_read limit f w = Inr (x, f', w')"
  shows "cq_accepts (fd, c, w') xs = cq_accepts (fd, c, w) xs" "w_sent w' = w_sent w"
    "w_read w' = w_read w" "fd_num f' = fd_num f"
    "w_received w' = w_received w @ [(fd_num f, x)]"
proof -
  from assms have w': "w_sent w' = w_sent w" "w_read w' = w_read w" "w_clock w' = w_clock w"
    "w_initial w' = w_initial w" "w_clock_calls w' = w_clock_calls w" "w_write w' = w_write w"
    and rest: "fd_num f' = fd_num f" "w_received w' = w_received w @ [(fd_num f, x)]"
    by (auto simp: fd_read_def Let_def andThen_Inr_iff register_read_def split: prod.splits)
  show "w_sent w' = w_sent w" "w_read w' = w_read w" "fd_num f' = fd_num f"
    "w_received w' = w_received w @ [(fd_num f, x)]" by fact+
  have "world_ok c w' = world_ok c w"
    using w' clock_steady_same [of w' w]
    by (simp add: world_ok_def whole_writes_def clock_now_def clock_at_def)
  then show "cq_accepts (fd, c, w') xs = cq_accepts (fd, c, w) xs" by (simp add: cq_accepts_def)
qed

section \<open>Any number of datagrams\<close>

definition accepts_more :: "nat \<Rightarrow> writing \<Rightarrow> bool" where
  "accepts_more k s \<longleftrightarrow>
     (\<forall>xs. length xs \<le> k \<longrightarrow> (\<forall>x \<in> set xs. datagram_ok x) \<longrightarrow> cq_accepts s xs)"

lemma accepts_moreI:
  "(\<And>xs. length xs \<le> k \<Longrightarrow> \<forall>x \<in> set xs. datagram_ok x \<Longrightarrow> cq_accepts s xs) \<Longrightarrow> accepts_more k s"
  by (simp add: accepts_more_def)

lemma datagram_lengths:
  assumes "\<forall>x \<in> set xs. datagram_ok x"
  shows "(\<Sum>x \<leftarrow> xs. length x + 1) \<le> length xs * (PACKET_SIZE + 1)"
proof -
  have "(\<Sum>x \<leftarrow> xs. length x + 1) \<le> (\<Sum>x \<leftarrow> xs. PACKET_SIZE + 1)"
    using assms by (intro sum_list_mono) (auto simp: datagram_ok_def)
  then show ?thesis by (simp add: sum_list_triv)
qed

lemma accepts_more_mono: "accepts_more (k + n) s \<Longrightarrow> accepts_more k s"
  by (simp add: accepts_more_def)

lemma accepts_more_Nil: "accepts_more k s \<Longrightarrow> cq_accepts s []"
  by (simp add: accepts_more_def)

lemma more_read:
  assumes "accepts_more (k + 1) s" "datagram_ok x"
  shows "\<exists>s'. cq_read x s = Some (Inr s') \<and> accepts_more k s' \<and> cq_sent s' = cq_sent s \<and>
    cq_held s' = cq_held s @ [x]"
proof -
  have law: "\<exists>s'. cq_read x s = Some (Inr s') \<and> cq_accepts s' xs \<and> cq_sent s' = cq_sent s \<and>
      cq_held s' = cq_held s @ [x]" if "length xs \<le> k" "\<forall>x \<in> set xs. datagram_ok x" for xs
    using assms that by (intro cellular.rd_law) (simp add: accepts_more_def)
  from law [of "[]"] obtain s' where s': "cq_read x s = Some (Inr s')" "cq_sent s' = cq_sent s"
    "cq_held s' = cq_held s @ [x]" by auto
  moreover have "accepts_more k s'" using law s'(1) by (intro accepts_moreI) fastforce
  ultimately show ?thesis by blast
qed

lemma more_write:
  assumes "accepts_more k s"
  shows "\<exists>s' out. write_packets s = Some (Inr s') \<and> accepts_more k s' \<and> cq_sent s' = cq_sent s @ out \<and>
    cq_held s = out @ cq_held s'"
proof -
  have law: "\<exists>s' out. write_packets s = Some (Inr s') \<and> cq_accepts s' xs \<and> cq_sent s' = cq_sent s @ out \<and>
      cq_held s = out @ cq_held s'" if "length xs \<le> k" "\<forall>x \<in> set xs. datagram_ok x" for xs
    using assms that by (intro cellular.wr_law) (simp add: accepts_more_def)
  from law [of "[]"] obtain s' out where s': "write_packets s = Some (Inr s')"
    "cq_sent s' = cq_sent s @ out" "cq_held s = out @ cq_held s'" by auto
  moreover have "accepts_more k s'" using law s'(1) by (intro accepts_moreI) fastforce
  ultimately show ?thesis by blast
qed

lemma more_wait:
  assumes "accepts_more k s"
  shows "\<exists>t s'. cq_wait s = Some (Inr (t, s')) \<and> accepts_more k s' \<and> cq_sent s' = cq_sent s \<and>
    cq_held s' = cq_held s"
proof -
  have law: "\<exists>t s'. cq_wait s = Some (Inr (t, s')) \<and> cq_accepts s' xs \<and> cq_sent s' = cq_sent s \<and>
      cq_held s' = cq_held s" if "length xs \<le> k" "\<forall>x \<in> set xs. datagram_ok x" for xs
    using assms that by (intro cellular.wait_law) (simp add: accepts_more_def)
  from law [of "[]"] obtain t s' where s': "cq_wait s = Some (Inr (t, s'))" "cq_sent s' = cq_sent s"
    "cq_held s' = cq_held s" by auto
  moreover have "accepts_more k s'" using law s'(1) by (intro accepts_moreI) fastforce
  ultimately show ?thesis by blast
qed

lemma more_pending:
  assumes "accepts_more k s"
  shows "\<exists>b s'. cq_pending s = Inr (b, s') \<and> accepts_more k s' \<and> cq_sent s' = cq_sent s \<and>
    cq_held s' = cq_held s"
proof -
  have law: "\<exists>b s'. cq_pending s = Inr (b, s') \<and> cq_accepts s' xs \<and> cq_sent s' = cq_sent s \<and>
      cq_held s' = cq_held s" if "length xs \<le> k" "\<forall>x \<in> set xs. datagram_ok x" for xs
    using assms that by (intro cellular.pend_law) (simp add: accepts_more_def)
  from law [of "[]"] obtain b s' where s': "cq_pending s = Inr (b, s')" "cq_sent s' = cq_sent s"
    "cq_held s' = cq_held s" by auto
  moreover have "accepts_more k s'" using law s'(1) by (intro accepts_moreI) fastforce
  ultimately show ?thesis by blast
qed

section \<open>The poller's user\<close>

definition writing_of :: "ferry_state \<Rightarrow> writing" where
  "writing_of s = (fs_sibling s, fs_queue s, el_world s)"

definition datagrams_read :: "ferry_state \<Rightarrow> string list" where
  "datagrams_read s =
     map snd (filter (\<lambda>x. fst x = fd_num (fs_tun s)) (w_received (el_world s)))"

text \<open>The TUN device hands out datagrams the emulator can parse, one per successful read.\<close>

definition tun_delivers :: "int \<Rightarrow> world \<Rightarrow> bool" where
  "tun_delivers n w \<longleftrightarrow> (\<forall>i. case w_read w n i of (ret, data) \<Rightarrow>
     0 \<le> ret \<longrightarrow> datagram_ok (take (nat ret) (take BUFFER_SIZE data)))"

lemma fd_read_datagram:
  "fd_read BUFFER_SIZE fd w = Inr (x, fd', w') \<Longrightarrow> tun_delivers (fd_num fd) w \<Longrightarrow> datagram_ok x"
  by (cases "w_read w (fd_num fd) (w_read_calls w)")
    (auto simp: fd_read_def Let_def andThen_Inr_iff tun_delivers_def SystemCall_Inr_iff
      dest: spec [of _ "w_read_calls w"])

definition loop_inv :: "nat \<Rightarrow> ferry_state \<Rightarrow> bool" where
  "loop_inv k s \<longleftrightarrow> alive (el_children s) \<and> fd_num (el_signal_fd s) \<noteq> fd_num (fs_tun s) \<and>
     tun_delivers (fd_num (fs_tun s)) (el_world s) \<and> accepts_more k (writing_of s)"

definition loop_prog :: "ferry_state \<Rightarrow> ferry_state \<Rightarrow> bool" where
  "loop_prog s s' \<longleftrightarrow>
     fd_num (fs_tun s') = fd_num (fs_tun s) \<and> fd_num (fs_sibling s') = fd_num (fs_sibling s) \<and>
     fd_num (el_signal_fd s') = fd_num (el_signal_fd s) \<and>
     (\<exists>out ins. cq_sent (writing_of s') = cq_sent (writing_of s) @ out \<and>
        datagrams_read s' = datagrams_read s @ ins \<and>
        out @ cq_held (writing_of s') = cq_held (writing_of s) @ ins)"

lemma loop_prog_refl: "loop_prog s s"
  by (simp add: loop_prog_def)

lemma loop_prog_trans:
  assumes "loop_prog s s1" "loop_prog s1 s2"
  shows "loop_prog s s2"
proof -
  from assms obtain out1 ins1 out2 ins2 where
    "cq_sent (writing_of s1) = cq_sent (writing_of s) @ out1" "datagrams_read s1 = datagrams_read s @ ins1"
    "out1 @ cq_held (writing_of s1) = cq_held (writing_of s) @ ins1"
    "cq_sent (writing_of s2) = cq_sent (writing_of s1) @ out2" "datagrams_read s2 = datagrams_read s1 @ ins2"
    and held: "out2 @ cq_held (writing_of s2) = cq_held (writing_of s1) @ ins2"
    by (auto simp: loop_prog_def)
  moreover from this have "(out1 @ out2) @ cq_held (writing_of s2) = cq_held (writing_of s) @ (ins1 @ ins2)"
    by (metis append_assoc)
  ultimately show ?thesis
    using assms unfolding loop_prog_def
    by (intro conjI exI [of _ "out1 @ out2"] exI [of _ "ins1 @ ins2"]) simp_all
qed

lemma quiet_step:
  assumes "loop_inv k s" "accepts_more k' (writing_of s')"
    and "fs_tun s' = fs_tun s" "el_signal_fd s' = el_signal_fd s" "el_children s' = el_children s"
    and "same_device (writing_of s) (writing_of s')"
    and "cq_sent (writing_of s') = cq_sent (writing_of s) @ out"
    and "cq_held (writing_of s) = out @ cq_held (writing_of s')"
  shows "loop_inv k' s' \<and> loop_prog s s'"
proof -
  from assms(6) have d: "fd_num (fs_sibling s') = fd_num (fs_sibling s)"
    "w_read (el_world s') = w_read (el_world s)" "w_received (el_world s') = w_received (el_world s)"
    by (simp_all add: same_device_def writing_of_def quiet_def)
  then have "loop_inv k' s'" using assms(1-5) by (simp add: loop_inv_def tun_delivers_def)
  moreover have "datagrams_read s' = datagrams_read s" using d assms(3) by (simp add: datagrams_read_def)
  ultimately show ?thesis using assms d by (simp add: loop_prog_def)
qed

text \<open>The four actions.\<close>

definition the_actions :: "ferry_state poll_action list" where
  "the_actions = [simple_input_handler fs_tun on_datagram,
     mk_action fs_sibling Out on_writable wants_write,
     mk_action fs_sibling Out on_finished wants_exit,
     simple_input_handler el_signal_fd on_signal]"

definition ferry_action :: "ferry_state poll_action \<Rightarrow> bool" where
  "ferry_action a \<longleftrightarrow> a\<lparr>pa_active := True\<rparr> \<in> set the_actions"

definition action_cost :: "ferry_state poll_action \<Rightarrow> nat" where
  "action_cost a = (case pa_direction a of In \<Rightarrow> 1 | Out \<Rightarrow> 0)"

lemma ferry_action_cases:
  assumes "ferry_action a"
  obtains (tun) "pa_fd a = fs_tun" "pa_callback a = on_datagram" "pa_when_interested a = always_interested"
      "action_cost a = 1"
    | (out) "pa_fd a = fs_sibling" "pa_callback a = on_writable" "pa_when_interested a = wants_write"
      "action_cost a = 0"
    | (fin) "pa_fd a = fs_sibling" "pa_callback a = on_finished" "pa_when_interested a = wants_exit"
      "action_cost a = 0"
    | (sgn) "pa_fd a = el_signal_fd" "pa_callback a = on_signal"
      "pa_when_interested a = always_interested" "action_cost a = 1"
proof -
  obtain fd dir cb int act where a: "a = \<lparr>pa_fd = fd, pa_direction = dir, pa_callback = cb,
    pa_when_interested = int, pa_active = act\<rparr>" by (cases a)
  from assms that show ?thesis
    by (auto simp: a ferry_action_def the_actions_def simple_input_handler_def mk_action_def
        action_cost_def)
qed

text \<open>Each of them keeps the laws.\<close>

lemma cq_read_Inr:
  "cq_read x (fd, c, w) = Some (Inr s') \<Longrightarrow>
   \<exists>c' w'. read_packet x c w = Some (Inr (c', w')) \<and> s' = (fd, c', w')"
  by (auto simp: cq_read_def andThenO_Some_Inr_iff)

lemma on_datagram_ok:
  assumes "loop_inv (k + 1) s"
  shows "(\<exists>e. on_datagram s = Some (Inl e) \<and> process_error e) \<or>
    (\<exists>r s'. on_datagram s = Some (Inr (r, s')) \<and> loop_inv k s' \<and> loop_prog s s')"
proof (cases "fd_read BUFFER_SIZE (fs_tun s) (el_world s)")
  case (Inl e)
  with fd_read_Inl [OF Inl] show ?thesis by (simp add: on_datagram_def)
next
  case (Inr r)
  obtain x f w where r: "r = (x, f, w)" by (cases r) auto
  note rd = fd_read_accepts [OF Inr [unfolded r]]
  have x: "datagram_ok x"
    using assms fd_read_datagram [OF Inr [unfolded r]] by (simp add: loop_inv_def)
  have "accepts_more (k + 1) (fs_sibling s, fs_queue s, w)"
    using assms rd(1) by (simp add: loop_inv_def accepts_more_def writing_of_def)
  from more_read [OF this x] obtain s1 where
    s1: "cq_read x (fs_sibling s, fs_queue s, w) = Some (Inr s1)" "accepts_more k s1"
      "cq_sent s1 = cq_sent (fs_sibling s, fs_queue s, w)"
      "cq_held s1 = cq_held (fs_sibling s, fs_queue s, w) @ [x]" by blast
  from cq_read_Inr [OF s1(1)] obtain c' w' where
    p: "read_packet x (fs_queue s) w = Some (Inr (c', w'))" "s1 = (fs_sibling s, c', w')" by blast
  let ?s = "s\<lparr>fs_tun := f, fs_queue := c', el_world := w'\<rparr>"
  have q: "w_read w' = w_read (el_world s)" "w_received w' = w_received (el_world s) @ [(fd_num (fs_tun s), x)]"
    using read_packet_quiet [OF p(1)] rd by (simp_all add: quiet_def)
  have "loop_inv k ?s"
    using assms rd(4) s1(2) p(2) q(1) by (simp add: loop_inv_def tun_delivers_def writing_of_def)
  moreover have "loop_prog s ?s"
    using rd s1(3,4) p(2) q
    by (simp add: loop_prog_def writing_of_def datagrams_read_def cq_sent_def cq_held_def)
  moreover have "on_datagram s = Some (Inr (handled Continue, ?s))"
    using Inr r p by (simp add: on_datagram_def)
  ultimately show ?thesis by blast
qed

lemma on_writable_ok:
  assumes "loop_inv k s"
  shows "\<exists>r s'. on_writable s = Some (Inr (r, s')) \<and> loop_inv k s' \<and> loop_prog s s'"
proof -
  from assms more_write [of k "writing_of s"] obtain s1 out where
    s1: "write_packets (writing_of s) = Some (Inr s1)" "accepts_more k s1"
      "cq_sent s1 = cq_sent (writing_of s) @ out" "cq_held (writing_of s) = out @ cq_held s1"
    by (auto simp: loop_inv_def)
  obtain fd c w where "s1 = (fd, c, w)" by (cases s1) auto
  with quiet_step [OF assms, of k "s\<lparr>fs_sibling := fd, fs_queue := c, el_world := w\<rparr>" out] s1
    write_packets_device [OF s1(1)]
  show ?thesis by (auto simp: on_writable_def writing_of_def)
qed

lemma wants_write_ok:
  assumes "loop_inv k s"
  shows "\<exists>b s'. wants_write s = Some (Inr (b, s')) \<and> loop_inv k s' \<and> loop_prog s s'"
proof -
  from assms more_pending [of k "writing_of s"] obtain b s1 where
    s1: "cq_pending (writing_of s) = Inr (b, s1)" "accepts_more k s1"
      "cq_sent s1 = cq_sent (writing_of s)" "cq_held s1 = cq_held (writing_of s)"
    by (auto simp: loop_inv_def)
  then obtain w where p: "pending_output (fs_queue s) (el_world s) = Inr (b, w)"
    "s1 = (fs_sibling s, fs_queue s, w)"
    by (auto simp: cq_pending_def writing_of_def andThen_Inr_iff)
  with quiet_step [OF assms, of k "s\<lparr>el_world := w\<rparr>" "[]"] s1 pending_output_quiet [OF p(1)]
  show ?thesis by (simp add: wants_write_def writing_of_def same_device_def)
qed

lemma ferry_wait_ok:
  assumes "loop_inv k s"
  shows "\<exists>t s'. ferry_wait s = Some (Inr (t, s')) \<and> loop_inv k s' \<and> loop_prog s s'"
proof -
  from assms more_wait [of k "writing_of s"] obtain t s1 where
    s1: "cq_wait (writing_of s) = Some (Inr (t, s1))" "accepts_more k s1"
      "cq_sent s1 = cq_sent (writing_of s)" "cq_held s1 = cq_held (writing_of s)"
    by (auto simp: loop_inv_def)
  then obtain c w where p: "wait_time (fs_queue s) (el_world s) = Some (Inr (t, c, w))"
    "s1 = (fs_sibling s, c, w)"
    by (auto simp: cq_wait_def writing_of_def andThenO_Some_Inr_iff)
  with quiet_step [OF assms, of k "s\<lparr>fs_queue := c, el_world := w\<rparr>" "[]"] s1 wait_time_quiet [OF p(1)]
  show ?thesis by (simp add: ferry_wait_def writing_of_def same_device_def)
qed

lemma read_signal_ok:
  "(\<exists>e. read_signal fd w = Inl e \<and> process_error e) \<or>
   (\<exists>sig fd' w' x. read_signal fd w = Inr (sig, fd', w') \<and> fd_read SIGINFO_SIZE fd w = Inr (x, fd', w'))"
proof (cases "fd_read SIGINFO_SIZE fd w")
  case (Inl e)
  with fd_read_Inl [OF Inl] show ?thesis by (simp add: read_signal_def)
next
  case (Inr r)
  then show ?thesis by (cases r) (simp add: read_signal_def)
qed

lemma on_signal_ok:
  fixes s :: ferry_state
  assumes "loop_inv k s"
  shows "(\<exists>e. on_signal s = Some (Inl e) \<and> process_error e) \<or>
    (\<exists>r s'. on_signal s = Some (Inr (r, s')) \<and> loop_inv k s' \<and> loop_prog s s')"
proof -
  from read_signal_ok [of "el_signal_fd s" "el_world s"] show ?thesis
  proof (elim disjE exE conjE)
    fix e assume "read_signal (el_signal_fd s) (el_world s) = Inl e" "process_error e"
    then show ?thesis by (simp add: on_signal_def)
  next
    fix sig fd w x
    assume rs: "read_signal (el_signal_fd s) (el_world s) = Inr (sig, fd, w)"
      and rd: "fd_read SIGINFO_SIZE (el_signal_fd s) (el_world s) = Inr (x, fd, w)"
    note rd = fd_read_accepts [OF rd]
    from assms have cs: "alive (el_children s)" by (simp add: loop_inv_def)
    from handle_signal_safe [OF cs, of sig "el_procs s"] show ?thesis
    proof (elim disjE exE conjE)
      fix e assume "handle_signal sig (el_children s) (el_procs s) = Inl e" "process_error e"
      with rs show ?thesis by (simp add: on_signal_def)
    next
      fix r cs' pw' assume h: "handle_signal sig (el_children s) (el_procs s) = Inr (r, cs', pw')" "alive cs'"
      let ?s = "s\<lparr>el_signal_fd := fd, el_world := w, el_children := cs', el_procs := pw'\<rparr>"
      have "loop_inv k ?s"
        using assms rd h(2) by (simp add: loop_inv_def tun_delivers_def accepts_more_def writing_of_def)
      moreover have "loop_prog s ?s"
        using assms rd
        by (simp add: loop_inv_def loop_prog_def writing_of_def datagrams_read_def cq_sent_def cq_held_def)
      moreover have "on_signal s = Some (Inr (r, ?s))" using rs h(1) by (simp add: on_signal_def)
      ultimately show ?thesis by blast
    qed
  qed
qed

interpretation ferry: simple_poll_client loop_inv loop_prog process_error ferry_action action_cost ferry_wait
proof unfold_locales
  fix a s k assume a: "ferry_action a" and inv: "loop_inv (k + action_cost a) s"
  from a show "(\<exists>e. pa_callback a s = Some (Inl e) \<and> process_error e) \<or>
      (\<exists>r s'. pa_callback a s = Some (Inr (r, s')) \<and> loop_inv k s' \<and> loop_prog s s')"
  proof (cases rule: ferry_action_cases)
    case tun
    with inv on_datagram_ok [of k s] show ?thesis by simp
  next
    case out
    with inv on_writable_ok [of k s] show ?thesis by simp
  next
    case fin
    with inv show ?thesis by (simp add: on_finished_def loop_prog_refl)
  next
    case sgn
    have "loop_inv k s" using inv by (auto simp: loop_inv_def intro: accepts_more_mono)
    with on_signal_ok [of k s] sgn show ?thesis by simp
  qed
next
  fix a s k assume "ferry_action a" "loop_inv k s"
  then show "(\<exists>e. pa_when_interested a s = Some (Inl e) \<and> process_error e) \<or>
      (\<exists>b s'. pa_when_interested a s = Some (Inr (b, s')) \<and> loop_inv k s' \<and> loop_prog s s')"
    using wants_write_ok [of k s]
    by (elim ferry_action_cases) (simp_all add: always_interested_def wants_exit_def loop_prog_refl ex_bool_eq)
next
  fix s k assume "loop_inv k s"
  then show "(\<exists>e. ferry_wait s = Some (Inl e) \<and> process_error e) \<or>
      (\<exists>t s'. ferry_wait s = Some (Inr (t, s')) \<and> loop_inv k s' \<and> loop_prog s s')"
    using ferry_wait_ok by blast
next
  fix a s s' assume "ferry_action a" "loop_prog s s'"
  then show "fd_num (pa_fd a s') = fd_num (pa_fd a s)"
    by (elim ferry_action_cases) (simp_all add: loop_prog_def)
qed (auto simp: loop_prog_refl loop_inv_def ferry_action_def action_cost_def
    intro: loop_prog_trans accepts_more_mono)

section \<open>The emulator under the event loop\<close>

definition loop_poller :: "ferry_state \<Rightarrow> ferry_state poller" where
  "loop_poller s =
     add_action s (simple_input_handler el_signal_fd on_signal) (ferry_actions s empty_poller)"

lemma loop_poller_ok: "ferry.general.poller_ok s (loop_poller s)"
  unfolding loop_poller_def ferry_actions_def Let_def
  by (intro ferry.general.poller_ok_add ferry.general.poller_ok_empty)
    (simp_all add: ferry_action_def the_actions_def simple_input_handler_def mk_action_def)

lemma loop_poller_cost: "ferry.general.total_cost (po_actions (loop_poller s)) = 2"
  by (simp add: loop_poller_def ferry_actions_def add_action_def empty_poller_def action_cost_def
      simple_input_handler_def mk_action_def)

lemma ferry_actions_signal_fd:
  "ferry_actions (s\<lparr>el_signal_fd := fd\<rparr>) p = ferry_actions s p"
  by (simp add: ferry_actions_def add_action_def simple_input_handler_def mk_action_def)

lemma Ferry_loop_ok:
  assumes "alive (el_children s)" "tun_delivers (fd_num (fs_tun s)) (el_world s)"
    and "fst signalfd_answer \<noteq> fd_num (fs_tun s)" "accepts_more (2 * length answers) (writing_of s)"
  shows "(\<exists>e. Ferry_loop k kw mask_answer signalfd_answer answers empty_poller s = Some (Inl e) \<and>
        process_error e) \<or>
    (\<exists>status f s' kw'. Ferry_loop k kw mask_answer signalfd_answer answers empty_poller s =
        Some (Inr (status, s', kw')) \<and> loop_prog (s\<lparr>el_signal_fd := f\<rparr>) s')"
proof (cases rule: internal_loop_outcome [of k kw mask_answer signalfd_answer ferry_wait answers "ferry_actions s empty_poller" s])
  case error
  then show ?thesis by (simp add: Ferry_loop_def)
next
  case (loop fd)
  let ?s = "s\<lparr>el_signal_fd := fd\<rparr>"
  have "loop_inv (0 + length answers * ferry.general.total_cost (po_actions (loop_poller ?s))) ?s"
    using assms loop(1) by (simp add: loop_poller_cost loop_inv_def writing_of_def mult.commute)
  from ferry.general.poll_loop_ok [OF loop_poller_ok this] loop(2) show ?thesis
    by (auto simp: Ferry_loop_def loop_on_def loop_poller_def ferry_actions_signal_fd)
qed

text \<open>
  C31. The emulator under its real event loop, on a machine that treats it well. \<open>Ferry::loop\<close> is
  started on a freshly constructed \<open>CellularQueue\<close> with a usable trace and an unbounded packet queue
  (\<open>config_ok\<close>). Assumed of the machine: the clock is not set back (\<open>clock_steady\<close>), every write to
  the sibling device succeeds and takes the whole packet (\<open>whole_writes\<close>), and every read from the
  TUN device that succeeds brings a datagram the header parser can read (\<open>tun_delivers\<close>; a datagram
  too short for it is read past its end, which is undefined behaviour); the signal descriptor has a number
  of its own, and no child object has been moved away. Not restricted are the answers of \<open>poll\<close> in
  each of fewer than \<open>2^18\<close> rounds (timeouts, any events on any descriptor, errors), failed reads,
  the signals, and what the children do. Then the loop either ends with an exception that
  a system call, a signal or a child has caused (never with a failed assertion, undefined behaviour,
  or a callback that does not return), or has returned or is still running; and in the last two
  cases what was written to the sibling device, followed by what the emulator holds, is what was read
  from the TUN device, unchanged and in order.
\<close>

theorem emulator_event_loop:
  assumes "CellularQueue train heavy log_prefix rep queue up start loss offs timer w = Inr (c, w')"
    and "clock_steady w" "whole_writes w" "config_ok queue c"
    and "fs_queue s = c" "el_world s = w'" "alive (el_children s)"
    and "tun_delivers (fd_num (fs_tun s)) w'" "fst signalfd_answer \<noteq> fd_num (fs_tun s)"
    and "length answers < 2 ^ 18"
  shows "case Ferry_loop k kw mask_answer signalfd_answer answers empty_poller s of
      None \<Rightarrow> False
    | Some (Inl e) \<Rightarrow> process_error e
    | Some (Inr (status, s', kw')) \<Rightarrow>
        (\<exists>out ins. map snd (w_sent (el_world s')) = map snd (w_sent w) @ out \<and>
           datagrams_read s' = datagrams_read s @ ins \<and>
           out @ map snd (channel (fs_queue s')) = ins)"
proof -
  have "accepts_more (2 * length answers) (writing_of s)"
  proof (rule accepts_moreI)
    fix xs assume xs: "length xs \<le> 2 * length answers" "\<forall>x \<in> set xs. datagram_ok x"
    have "(\<Sum>x \<leftarrow> xs. length x + 1) < 2 ^ 30"
      using datagram_lengths [OF xs(2)] xs(1) assms(10) by (simp add: PACKET_SIZE_def)
    then show "cq_accepts (writing_of s) xs"
      using CellularQueue_accepts [OF assms(1-4) xs(2)] assms(5,6) by (simp add: writing_of_def)
  qed
  moreover have "tun_delivers (fd_num (fs_tun s)) (el_world s)" using assms(6,8) by simp
  moreover have "channel c = []" "w_sent w' = w_sent w" using CellularQueue_ok(3,5) [OF assms(1-4)] .
  ultimately show ?thesis
    using Ferry_loop_ok [OF assms(7) _ assms(9), of answers k kw mask_answer] assms(5,6)
    by (auto simp: loop_prog_def writing_of_def datagrams_read_def cq_sent_def cq_held_def)
qed

definition sample_ferry :: ferry_state where
  "sample_ferry = \<lparr>el_signals = EventLoop_signals, el_children = [(-1, sample_child)],
     el_procs = stop_then_die, el_signal_fd = sample_fd, el_world = snd sample_queue,
     fs_tun = sample_fd\<lparr>fd_num := 9\<rparr>, fs_sibling = sample_fd, fs_queue = fst sample_queue\<rparr>"

lemma sample_ferry_tun: "tun_delivers 9 (snd sample_queue)"
proof -
  have "snd sample_queue = clock_tick (clock_tick sample_world)"
    using CellularQueue_initial(15) [OF sample_queue_new(1) sample_world_steady(1)] .
  then have "w_read (snd sample_queue) 9 i = (int (length sample_datagram), sample_datagram)" for i
    by (simp add: clock_tick_def sample_world_def)
  then show ?thesis
    using sample_datagram_ok by (simp add: tun_delivers_def sample_datagram_length BUFFER_SIZE_def)
qed

theorem emulator_event_loop_witness:
  "case Ferry_loop linux_ids setuid_root (0, EventLoop_signals) (8, 0)
       [\<lambda>t fs. (1, \<lambda>i. if i = 0 then POLLIN else 0), \<lambda>t fs. (0, \<lambda>i. 0)] empty_poller sample_ferry of
      None \<Rightarrow> False
    | Some (Inl e) \<Rightarrow> process_error e
    | Some (Inr (status, s', kw')) \<Rightarrow>
        map snd (w_sent (el_world s')) @ map snd (channel (fs_queue s')) = datagrams_read s'"
proof -
  have "w_received (snd sample_queue) = []" "w_sent sample_world = []"
    using CellularQueue_initial(15) [OF sample_queue_new(1) sample_world_steady(1)]
    by (simp_all add: clock_tick_def sample_world_def)
  moreover have "alive (el_children sample_ferry)" by (simp add: sample_ferry_def sample_child_def)
  moreover have "tun_delivers (fd_num (fs_tun sample_ferry)) (snd sample_queue)"
    using sample_ferry_tun by (simp add: sample_ferry_def)
  ultimately show ?thesis
    using emulator_event_loop [OF sample_queue_new(1) sample_world_steady sample_queue_new(2),
        of sample_ferry "(8, 0)" "[\<lambda>t fs. (1, \<lambda>i. if i = 0 then POLLIN else 0), \<lambda>t fs. (0, \<lambda>i. 0)]"
          linux_ids setuid_root "(0, EventLoop_signals)"]
    by (auto simp: sample_ferry_def datagrams_read_def split: option.splits sum.splits prod.splits)
qed

end
