(* ===== verification/Addresses.thy ===== *)
theory Addresses
  imports Main Prelude Kernel Ezio
begin

text \<open>
  \<open>src/util/address.cc/.hh\<close>: socket addresses. An address is what the class stores: a size and the
  128 bytes of a \<open>sockaddr_storage\<close>. Name resolution (\<open>getaddrinfo\<close>) is a parameter, a function of
  node, service and whether only numeric text is allowed; \<open>gai_numeric\<close> is what it documents for
  numeric text. \<open>getnameinfo\<close> is used in its numeric mode only and is modelled for IPv4.
\<close>

section \<open>The stored form\<close>

record address =
  ad_size :: nat
  ad_raw :: string

definition STORAGE_SIZE :: nat where "STORAGE_SIZE = 128"

definition SOCKADDR_IN_SIZE :: nat where "SOCKADDR_IN_SIZE = 16"

text \<open>\<open>sockaddr_in\<close>: family \<open>AF_INET\<close>, port in network order, the four bytes of the address, padding.\<close>

definition sockaddr_in :: "u16 \<Rightarrow> string \<Rightarrow> string" where
  "sockaddr_in port addr =
     [CHR 0x02, CHR 0x00, char_of (unat port div 256), char_of (unat port mod 256)] @ addr
       @ replicate 8 (CHR 0x00)"

definition Address_sockaddr :: "string \<Rightarrow> nat \<Rightarrow> address res" where
  "Address_sockaddr addr s =
     (if STORAGE_SIZE < s then Inl (Runtime_Error ''invalid sockaddr size'')
      else Inr \<lparr>ad_size = s, ad_raw = take s addr @ replicate (STORAGE_SIZE - s) (CHR 0x00)\<rparr>)"

definition Address_in :: "string \<Rightarrow> address res" where
  "Address_in addr =
     andThen (assertE (SOCKADDR_IN_SIZE \<le> STORAGE_SIZE) ''size_ <= sizeof( addr_ )'') (\<lambda>_.
       Inr \<lparr>ad_size = SOCKADDR_IN_SIZE,
            ad_raw = take SOCKADDR_IN_SIZE addr
              @ replicate (STORAGE_SIZE - SOCKADDR_IN_SIZE) (CHR 0x00)\<rparr>)"

section \<open>Name resolution\<close>

text \<open>
  \<open>getaddrinfo\<close> answers with a value and the first result's bytes, if it has a result. The text of
  the error always says "numeric": its test combines the flags with \<open>|\<close>.
\<close>

type_synonym resolver = "string \<Rightarrow> string \<Rightarrow> bool \<Rightarrow> int \<times> string option"

definition Address_resolve :: "resolver \<Rightarrow> string \<Rightarrow> string \<Rightarrow> bool \<Rightarrow> address res" where
  "Address_resolve gai node service numeric =
     (let (gai_ret, resolved) = gai node service numeric
      in if gai_ret \<noteq> 0 then
           Inl (Unix_Error (''getaddrinfo('' @ node @ '':'' @ service @ '', numeric'' @ '')''))
         else
           case resolved of
             None \<Rightarrow> Inl (Runtime_Error ''getaddrinfo returned successfully but with no results'')
           | Some addr \<Rightarrow> Address_sockaddr addr (length addr))"

definition Address_name :: "resolver \<Rightarrow> string \<Rightarrow> string \<Rightarrow> address res" where
  "Address_name gai hostname service = Address_resolve gai hostname service False"

definition Address_numeric :: "resolver \<Rightarrow> string \<Rightarrow> u16 \<Rightarrow> address res" where
  "Address_numeric gai ip port = Address_resolve gai ip (dec (unat port)) True"

definition Address_default :: "resolver \<Rightarrow> address res" where
  "Address_default gai = Address_numeric gai ''0'' 0"

section \<open>Accessors\<close>

definition byte :: "string \<Rightarrow> nat \<Rightarrow> nat" where
  "byte s i = of_char (s ! i)"

definition dotted :: "nat list \<Rightarrow> string" where
  "dotted bs = dec (bs ! 0) @ ''.'' @ dec (bs ! 1) @ ''.'' @ dec (bs ! 2) @ ''.'' @ dec (bs ! 3)"

definition getnameinfo :: "string \<Rightarrow> nat \<Rightarrow> (string \<times> string) option" where
  \<comment> \<open>numeric host and service; \<open>None\<close> for a family other than IPv4 or a short size\<close>
  "getnameinfo raw s =
     (if s < SOCKADDR_IN_SIZE \<or> byte raw 0 \<noteq> 2 \<or> byte raw 1 \<noteq> 0 then None
      else Some (dotted (map (byte raw) [4..<8]), dec (byte raw 2 * 256 + byte raw 3)))"

definition ip_port :: "address \<Rightarrow> (string \<times> u16) res" where
  "ip_port a =
     (case getnameinfo (ad_raw a) (ad_size a) of
        None \<Rightarrow> Inl (Unix_Error ''getnameinfo'')
      | Some (ip, port) \<Rightarrow> andThen (myatoi port 10) (\<lambda>p. Inr (ip, ucast p)))"

definition ad_ip :: "address \<Rightarrow> string res" where
  "ad_ip a = andThen (ip_port a) (\<lambda>r. Inr (fst r))"

definition ad_port :: "address \<Rightarrow> u16 res" where
  "ad_port a = andThen (ip_port a) (\<lambda>r. Inr (snd r))"

definition ad_str :: "string \<Rightarrow> address \<Rightarrow> string res" where
  "ad_str port_separator a =
     andThen (ip_port a) (\<lambda>r. Inr (fst r @ port_separator @ dec (unat (snd r))))"

section \<open>Comparisons\<close>

fun memcmp :: "string \<Rightarrow> string \<Rightarrow> int" where
  "memcmp (a # as) (b # bs) =
     (if a = b then memcmp as bs else if (of_char a :: nat) < of_char b then -1 else 1)"
| "memcmp as bs = 0"

definition ad_eq :: "address \<Rightarrow> address \<Rightarrow> bool" where
  "ad_eq a b \<longleftrightarrow> memcmp (take (ad_size a) (ad_raw a)) (take (ad_size a) (ad_raw b)) = 0"

definition ad_less :: "address \<Rightarrow> address \<Rightarrow> bool" where
  "ad_less a b \<longleftrightarrow> memcmp (ad_raw a) (ad_raw b) < 0"

section \<open>Carrier-grade NAT addresses\<close>

definition cgnat :: "resolver \<Rightarrow> u8 \<Rightarrow> address res" where
  "cgnat gai last_octet = Address_numeric gai (''100.64.0.'' @ dec (unat last_octet)) 0"

section \<open>What an address keeps\<close>

definition ipv4 :: "nat list \<Rightarrow> bool" where
  "ipv4 bs \<longleftrightarrow> length bs = 4 \<and> (\<forall>b \<in> set bs. b < 256)"

definition gai_numeric :: "resolver \<Rightarrow> bool" where
  "gai_numeric gai \<longleftrightarrow> (\<forall>bs port. ipv4 bs \<longrightarrow>
     gai (dotted bs) (dec (unat port)) True = (0, Some (sockaddr_in port (map char_of bs))))"

lemma sockaddr_in_length: "length addr = 4 \<Longrightarrow> length (sockaddr_in port addr) = SOCKADDR_IN_SIZE"
  by (simp add: sockaddr_in_def SOCKADDR_IN_SIZE_def)

definition in_address :: "u16 \<Rightarrow> nat list \<Rightarrow> address" where
  "in_address port bs = \<lparr>ad_size = SOCKADDR_IN_SIZE,
     ad_raw = sockaddr_in port (map char_of bs) @ replicate (STORAGE_SIZE - SOCKADDR_IN_SIZE) (CHR 0x00)\<rparr>"

lemma Address_in_eq: "length bs = 4 \<Longrightarrow> Address_in (sockaddr_in port (map char_of bs)) = Inr (in_address port bs)"
  using sockaddr_in_length [of "map char_of bs" port]
  by (simp add: Address_in_def in_address_def SOCKADDR_IN_SIZE_def STORAGE_SIZE_def)

lemma Address_numeric_eq:
  "gai_numeric gai \<Longrightarrow> ipv4 bs \<Longrightarrow> Address_numeric gai (dotted bs) port = Inr (in_address port bs)"
  using sockaddr_in_length [of "map char_of bs" port]
  by (simp add: Address_numeric_def Address_resolve_def gai_numeric_def Address_sockaddr_def
      in_address_def ipv4_def SOCKADDR_IN_SIZE_def STORAGE_SIZE_def)

lemma ip_port_in_address:
  assumes "ipv4 bs"
  shows "ip_port (in_address port bs) = Inr (dotted bs, port)"
proof -
  obtain a b c d where bs: "bs = [a, b, c, d]" "a < 256" "b < 256" "c < 256" "d < 256"
    using assms by (auto simp: ipv4_def length_Suc_conv numeral_eq_Suc)
  let ?raw = "ad_raw (in_address port bs)"
  define m where "m = unat port"
  have n: "m < 65536" using unsigned_less [of port, where ?'a = nat] by (simp add: m_def)
  have "byte ?raw 0 = 2" "byte ?raw 1 = 0" "byte ?raw 2 = m div 256"
    "byte ?raw 3 = m mod 256" "map (byte ?raw) [4..<8] = bs"
    using bs n by (simp_all add: m_def byte_def in_address_def sockaddr_in_def upt_rec nth_append)
  moreover have "m div 256 * 256 + m mod 256 = m" by simp
  ultimately have "getnameinfo ?raw SOCKADDR_IN_SIZE = Some (dotted bs, dec m)"
    by (simp add: getnameinfo_def)
  moreover have "myatoi (dec m) 10 = Inr (of_nat m)"
    using n by (intro myatoi_dec) simp
  moreover have "unat (ucast (of_nat m :: i64) :: u16) = m"
    using n by (simp add: unsigned_ucast_eq unat_of_nat_u64 take_bit_nat_eq_self)
  then have "(ucast (of_nat m :: i64) :: u16) = port" by (simp add: m_def word_unat_eq_iff)
  ultimately show ?thesis by (simp add: ip_port_def in_address_def)
qed

lemma dec_inj: "dec m = dec n \<longleftrightarrow> m = n"
  by (metis dec_foldl)

lemma dot_not_dec: "CHR ''.'' \<notin> set (dec n)"
proof
  assume "CHR ''.'' \<in> set (dec n)"
  then have "is_digit (CHR ''.'')" by (rule dec_digits)
  then show False by (simp add: is_digit_def)
qed

lemma getlines_only: "d \<notin> set xs \<Longrightarrow> getlines d xs = (if xs = [] then [] else [xs])"
  by (induction xs) auto

lemma dotted_parts: "length bs = 4 \<Longrightarrow> getlines (CHR ''.'') (dotted bs) = map dec bs"
  by (auto simp: dotted_def length_Suc_conv numeral_eq_Suc getlines_line getlines_only dot_not_dec)

lemma dotted_inj:
  assumes "length bs = 4" "length cs = 4" "dotted bs = dotted cs"
  shows "bs = cs"
proof -
  have "map dec bs = map dec cs" using assms dotted_parts by metis
  then show ?thesis by (rule map_injective) (simp add: inj_def dec_inj)
qed

end
