(* ===== verification/Interfaces.thy ===== *)
theory Interfaces
  imports Main Prelude Kernel Ezio Addresses
begin

text \<open>
  \<open>src/util/interfaces.cc/.hh\<close>: the addresses in use, from \<open>getifaddrs\<close> and \<open>/proc/net/route\<close>, and the
  choice of two free addresses of \<open>100.64.0.0/24\<close> for the two ends of the TUN link.
\<close>

section \<open>State\<close>

text \<open>\<open>addresses_in_use_\<close> is the whole state.\<close>

type_synonym interfaces = "address list"

definition add_address :: "address \<Rightarrow> interfaces \<Rightarrow> interfaces" where
  "add_address addr ifs = ifs @ [addr]"

section \<open>The constructor\<close>

text \<open>
  \<open>getifaddrs\<close> answers with a value and, for each interface, the bytes of its address if it has
  one; only those of family \<open>AF_INET\<close> are taken.
\<close>

fun interface_addresses :: "string option list \<Rightarrow> interfaces \<Rightarrow> interfaces res" where
  "interface_addresses [] ifs = Inr ifs"
| "interface_addresses (ifa # rest) ifs =
     (case ifa of
        None \<Rightarrow> interface_addresses rest ifs
      | Some addr \<Rightarrow>
          if byte addr 0 = 2 \<and> byte addr 1 = 0 then
            andThen (Address_sockaddr addr SOCKADDR_IN_SIZE) (\<lambda>a.
              interface_addresses rest (ifs @ [a]))
          else interface_addresses rest ifs)"

definition find_char :: "char \<Rightarrow> nat \<Rightarrow> string \<Rightarrow> nat option" where
  \<comment> \<open>\<open>string::find\<close> from a position; \<open>None\<close> is \<open>npos\<close>\<close>
  "find_char c from_pos s = List.find (\<lambda>i. s ! i = c) [from_pos..<length s]"

definition s_addr_bytes :: "u32 \<Rightarrow> string" where
  \<comment> \<open>a 32-bit integer in memory, the least significant byte first\<close>
  "s_addr_bytes x = map (\<lambda>i. char_of (unat x div 256 ^ i mod 256)) [0..<4]"

definition route_line :: "string \<Rightarrow> address res" where
  "route_line line =
     (let dest_start = find_char tab 0 line;
          dest_end = find_char tab (case dest_start of None \<Rightarrow> 0 | Some i \<Rightarrow> i + 1) line
      in case (dest_start, dest_end) of
           (Some dest_start, Some dest_end) \<Rightarrow>
             let dest_start = dest_start + 1; len = dest_end - dest_start
             in if len \<noteq> 8 then
                  Inl (Runtime_Error ''/proc/net/route destination address: unknown format'')
                else
                  let dest_address = take len (drop dest_start line)
                  in andThen (myatoi dest_address 16) (\<lambda>v.
                       Address_in (sockaddr_in 0 (s_addr_bytes (ucast v))))
         | _ \<Rightarrow> Inl (Runtime_Error ''/proc/net/route line: unknown format''))"

fun route_lines :: "string list \<Rightarrow> interfaces \<Rightarrow> interfaces res" where
  "route_lines [] ifs = Inr ifs"
| "route_lines (line # rest) ifs = andThen (route_line line) (\<lambda>a. route_lines rest (ifs @ [a]))"

definition read_routes :: "string \<Rightarrow> interfaces \<Rightarrow> interfaces res" where
  \<comment> \<open>\<open>header_line.find ( "Iface" ) != 0\<close>: the header does not start with it\<close>
  "read_routes all_routes ifs =
     (case getlines newline all_routes of
        [] \<Rightarrow> Inr ifs
      | header_line # rest \<Rightarrow>
          if take 5 header_line \<noteq> ''Iface'' then
            Inl (Runtime_Error ''/proc/net/route: unknown format'')
          else route_lines rest ifs)"

text \<open>Reading the file: chunk by chunk until an empty one.\<close>

partial_function (option) read_all :: "file_descriptor \<Rightarrow> world \<Rightarrow> string \<Rightarrow> (string \<times> world) res option" where
  "read_all fd w text_so_far =
     (case fd_read BUFFER_SIZE fd w of
        Inl e \<Rightarrow> Some (Inl e)
      | Inr r \<Rightarrow>
          (case r of (new_chunk, fd', w') \<Rightarrow>
             if new_chunk = [] then Some (Inr (text_so_far, w'))
             else read_all fd' w' (text_so_far @ new_chunk)))"

definition Interfaces ::
    "int \<times> string option list \<Rightarrow> int \<times> int \<Rightarrow> world \<Rightarrow> (interfaces \<times> world) res option" where
  "Interfaces getifaddrs_answer open_answer w =
     andThenO (Some (SystemCall ''getifaddrs'' (fst getifaddrs_answer))) (\<lambda>_.
     andThenO (Some (interface_addresses (snd getifaddrs_answer) [])) (\<lambda>ifs.
     andThenO (Some (andThen (SystemCall ''open /proc/net/route'' (fst open_answer)) (\<lambda>fd.
                FileDescriptor fd (snd open_answer)))) (\<lambda>routes.
     andThenO (read_all routes w []) (\<lambda>(all_routes, w).
       Some (andThen (read_routes all_routes ifs) (\<lambda>ifs. Inr (ifs, w)))))))"

section \<open>Free addresses\<close>

fun address_in_use :: "interfaces \<Rightarrow> address \<Rightarrow> bool res" where
  "address_in_use [] addr = Inr False"
| "address_in_use (x # xs) addr =
     andThen (ad_ip addr) (\<lambda>a. andThen (ad_ip x) (\<lambda>b.
       if a = b then Inr True else address_in_use xs addr))"

function first_unassigned_address :: "resolver \<Rightarrow> interfaces \<Rightarrow> u16 \<Rightarrow> (address \<times> u16) res" where
  "first_unassigned_address gai ifs last_octet =
     (if 255 < last_octet then
        Inl (Runtime_Error ''Interfaces: could not find free interface address'')
      else
        andThen (cgnat gai (ucast last_octet)) (\<lambda>candidate.
        andThen (address_in_use ifs candidate) (\<lambda>in_use.
          if \<not> in_use then
            andThen (ad_port candidate) (\<lambda>port.
            andThen (assertE (port = 0) ''candidate.port() == 0'') (\<lambda>_.
              Inr (candidate, last_octet)))
          else first_unassigned_address gai ifs (last_octet + 1))))"
  by pat_completeness auto
termination
proof (relation "measure (\<lambda>(gai, ifs, n). 256 - unat n)", goal_cases)
  case 1
  then show ?case by simp
next
  case (2 gai ifs last_octet candidate in_use)
  then have "unat last_octet \<le> 255" by (simp add: word_le_nat_alt not_less)
  then have "unat (last_octet + 1) = unat last_octet + 1" by (subst unat_add_small) simp_all
  with \<open>unat last_octet \<le> 255\<close> show ?case by simp
qed

declare first_unassigned_address.simps [simp del]

definition two_unassigned_from :: "resolver \<Rightarrow> interfaces \<Rightarrow> address \<Rightarrow> (address \<times> address) res" where
  "two_unassigned_from gai ifs avoid =
     (let ifs = add_address avoid ifs
      in andThen (first_unassigned_address gai ifs 1) (\<lambda>one.
         andThen (first_unassigned_address gai ifs (snd one + 1)) (\<lambda>two.
           Inr (fst one, fst two))))"

definition two_unassigned_addresses :: "resolver \<Rightarrow> int \<times> string option list \<Rightarrow> int \<times> int \<Rightarrow> world \<Rightarrow>
    address \<Rightarrow> ((address \<times> address) \<times> world) res option" where
  "two_unassigned_addresses gai getifaddrs_answer open_answer w avoid =
     andThenO (Interfaces getifaddrs_answer open_answer w) (\<lambda>(ifs, w).
       Some (andThen (two_unassigned_from gai ifs avoid) (\<lambda>p. Inr (p, w))))"

section \<open>The choice\<close>

definition cgnat_bytes :: "nat \<Rightarrow> nat list" where
  "cgnat_bytes n = [100, 64, 0, n]"

definition has_ips :: "interfaces \<Rightarrow> string list \<Rightarrow> bool" where
  \<comment> \<open>the addresses have these numeric hosts\<close>
  "has_ips ifs ips \<longleftrightarrow> map ad_ip ifs = map Inr ips"

definition first_free :: "string list \<Rightarrow> nat \<Rightarrow> nat option" where
  "first_free ips n = List.find (\<lambda>m. dotted (cgnat_bytes m) \<notin> set ips) [n..<256]"

lemma cgnat_ipv4: "n < 256 \<Longrightarrow> ipv4 (cgnat_bytes n)"
  by (simp add: ipv4_def cgnat_bytes_def)

lemma dec_100: "dec 100 = ''100''"
  by code_simp

lemma dec_64: "dec 64 = ''64''"
  by code_simp

lemma dec_0: "dec 0 = ''0''"
  by code_simp

lemma cgnat_eq:
  assumes "gai_numeric gai" "n < 256"
  shows "cgnat gai (of_nat n) = Inr (in_address 0 (cgnat_bytes n))"
proof -
  have "unat (of_nat n :: u8) = n" using assms(2) by (simp add: unat_of_nat_small)
  moreover have "dotted (cgnat_bytes n) = ''100.64.0.'' @ dec n"
    by (simp add: dotted_def cgnat_bytes_def dec_100 dec_64 dec_0)
  ultimately show ?thesis
    using Address_numeric_eq [OF assms(1) cgnat_ipv4 [OF assms(2)], of 0] by (simp add: cgnat_def)
qed

lemma ad_ip_in_address: "ipv4 bs \<Longrightarrow> ad_ip (in_address port bs) = Inr (dotted bs)"
  by (simp add: ad_ip_def ip_port_in_address)

lemma ad_port_in_address: "ipv4 bs \<Longrightarrow> ad_port (in_address port bs) = Inr port"
  by (simp add: ad_port_def ip_port_in_address)

lemma address_in_use_eq:
  "has_ips ifs ips \<Longrightarrow> ad_ip a = Inr ip \<Longrightarrow> address_in_use ifs a = Inr (ip \<in> set ips)"
proof (induction ifs arbitrary: ips)
  case (Cons x ifs)
  then show ?case by (cases ips) (auto simp: has_ips_def)
qed (simp add: has_ips_def)

lemma first_free_step:
  "n < 256 \<Longrightarrow> first_free ips n =
     (if dotted (cgnat_bytes n) \<notin> set ips then Some n else first_free ips (n + 1))"
  by (simp add: first_free_def upt_conv_Cons)

lemma first_unassigned_eq:
  assumes "gai_numeric gai" "has_ips ifs ips"
  shows "n \<le> 256 \<Longrightarrow> first_unassigned_address gai ifs (of_nat n) =
    (case first_free ips n of
       None \<Rightarrow> Inl (Runtime_Error ''Interfaces: could not find free interface address'')
     | Some m \<Rightarrow> Inr (in_address 0 (cgnat_bytes m), of_nat m))"
proof (induction "256 - n" arbitrary: n)
  case 0
  then have "n = 256" by simp
  then show ?case by (subst first_unassigned_address.simps) (simp add: first_free_def)
next
  case (Suc k)
  then have n: "n < 256" by simp
  have u: "unat (of_nat n :: u16) = n" using n by (simp add: unat_of_nat_small)
  have le: "\<not> 255 < (of_nat n :: u16)" using n u by (simp add: word_less_nat_alt)
  have "unat (ucast (of_nat n :: u16) :: u8) = n"
    using n by (simp add: unsigned_ucast_eq unat_of_nat_small take_bit_nat_eq_self)
  then have "(ucast (of_nat n :: u16) :: u8) = of_nat n"
    using n by (simp add: word_unat_eq_iff unat_of_nat_small)
  then have c: "cgnat gai (ucast (of_nat n :: u16)) = Inr (in_address 0 (cgnat_bytes n))"
    using cgnat_eq [OF assms(1) n] by simp
  have use: "address_in_use ifs (in_address 0 (cgnat_bytes n)) =
      Inr (dotted (cgnat_bytes n) \<in> set ips)"
    by (rule address_in_use_eq [OF assms(2) ad_ip_in_address [OF cgnat_ipv4 [OF n]]])
  have "of_nat n + 1 = (of_nat (n + 1) :: u16)" by simp
  moreover have "first_unassigned_address gai ifs (of_nat (n + 1)) =
    (case first_free ips (n + 1) of
       None \<Rightarrow> Inl (Runtime_Error ''Interfaces: could not find free interface address'')
     | Some m \<Rightarrow> Inr (in_address 0 (cgnat_bytes m), of_nat m))"
    using Suc n by (intro Suc.hyps(1)) simp_all
  ultimately show ?case
    using le c use ad_port_in_address [OF cgnat_ipv4 [OF n], of 0] first_free_step [OF n, of ips]
    by (subst first_unassigned_address.simps) (simp add: add.commute)
qed

lemma first_freeD:
  assumes "first_free ips n = Some m"
  shows "n \<le> m" "m < 256" "dotted (cgnat_bytes m) \<notin> set ips"
    "\<forall>k. n \<le> k \<and> k < m \<longrightarrow> dotted (cgnat_bytes k) \<in> set ips"
proof -
  from assms obtain i where i: "i < 256 - n" "m = n + i" "dotted (cgnat_bytes m) \<notin> set ips"
    "\<forall>j < i. dotted (cgnat_bytes (n + j)) \<in> set ips"
    by (auto simp: first_free_def find_Some_iff)
  then show "n \<le> m" "m < 256" "dotted (cgnat_bytes m) \<notin> set ips" by simp_all
  show "\<forall>k. n \<le> k \<and> k < m \<longrightarrow> dotted (cgnat_bytes k) \<in> set ips"
  proof (intro allI impI)
    fix k assume k: "n \<le> k \<and> k < m"
    then have "k - n < i" "n + (k - n) = k" using i(2) by linarith+
    with i(4) show "dotted (cgnat_bytes k) \<in> set ips" by metis
  qed
qed

lemma first_freeN:
  "first_free ips n = None \<Longrightarrow> n \<le> k \<Longrightarrow> k < 256 \<Longrightarrow> dotted (cgnat_bytes k) \<in> set ips"
  by (auto simp: first_free_def find_None_iff)

text \<open>The two searches, with the address to avoid among those in use.\<close>

lemma two_unassigned_eq:
  assumes "gai_numeric gai" "has_ips ifs ips" "ad_ip avoid = Inr avoid_ip"
  shows "two_unassigned_from gai ifs avoid =
    (case first_free (ips @ [avoid_ip]) 1 of
       None \<Rightarrow> Inl (Runtime_Error ''Interfaces: could not find free interface address'')
     | Some m \<Rightarrow>
         (case first_free (ips @ [avoid_ip]) (m + 1) of
            None \<Rightarrow> Inl (Runtime_Error ''Interfaces: could not find free interface address'')
          | Some n \<Rightarrow> Inr (in_address 0 (cgnat_bytes m), in_address 0 (cgnat_bytes n))))"
proof -
  have "has_ips (add_address avoid ifs) (ips @ [avoid_ip])"
    using assms(2,3) by (simp add: has_ips_def add_address_def)
  note search = first_unassigned_eq [OF assms(1) this]
  have next_search: "first_unassigned_address gai (add_address avoid ifs) (of_nat m + 1) =
      (case first_free (ips @ [avoid_ip]) (m + 1) of
         None \<Rightarrow> Inl (Runtime_Error ''Interfaces: could not find free interface address'')
       | Some n \<Rightarrow> Inr (in_address 0 (cgnat_bytes n), of_nat n))" if "m < 256" for m
    using search [of "m + 1"] that by (simp add: add.commute)
  show ?thesis
    using search [of 1] next_search first_freeD(2)
    by (auto simp: two_unassigned_from_def split: option.split)
qed

text \<open>
  C38. The two addresses of the TUN link. With numeric name resolution as documented, and a numeric
  host for every address in use and for the one to avoid, the search ends, and either two different
  addresses of \<open>100.64.0.1\<close> to \<open>100.64.0.255\<close> with port 0 are chosen, neither of them in use or to
  be avoided, and the first free ones in ascending order; or fewer than two are free and the call
  throws. The assertion on the port never fails.
\<close>

theorem two_unassigned:
  assumes "gai_numeric gai" "has_ips ifs ips" "ad_ip avoid = Inr avoid_ip"
  defines "used \<equiv> set ips \<union> {avoid_ip}"
  shows "case two_unassigned_from gai ifs avoid of
      Inl e \<Rightarrow> e = Runtime_Error ''Interfaces: could not find free interface address'' \<and>
        (\<exists>m. \<forall>k. 1 \<le> k \<and> k < 256 \<and> k \<noteq> m \<longrightarrow> dotted (cgnat_bytes k) \<in> used)
    | Inr (a, b) \<Rightarrow> \<exists>m n. 1 \<le> m \<and> m < n \<and> n < 256 \<and> a = in_address 0 (cgnat_bytes m) \<and>
        b = in_address 0 (cgnat_bytes n) \<and> ad_ip a \<noteq> ad_ip b \<and>
        ad_ip a = Inr (dotted (cgnat_bytes m)) \<and> dotted (cgnat_bytes m) \<notin> used \<and>
        ad_ip b = Inr (dotted (cgnat_bytes n)) \<and> dotted (cgnat_bytes n) \<notin> used \<and>
        (\<forall>k. 1 \<le> k \<and> k < n \<and> k \<noteq> m \<longrightarrow> dotted (cgnat_bytes k) \<in> used)"
proof -
  let ?ips = "ips @ [avoid_ip]"
  have used: "used = set ?ips" by (simp add: used_def)
  note run = two_unassigned_eq [OF assms(1-3)]
  show ?thesis
  proof (cases "first_free ?ips 1")
    case None
    with first_freeN [OF None] show ?thesis by (auto simp: run used)
  next
    case (Some m)
    note m = first_freeD [OF Some]
    show ?thesis
    proof (cases "first_free ?ips (m + 1)")
      case None
      have "dotted (cgnat_bytes k) \<in> used" if "1 \<le> k" "k < 256" "k \<noteq> m" for k
        using that m(4) first_freeN [OF None, of k] by (cases "k < m") (auto simp: used)
      with Some None show ?thesis by (auto simp: run)
    next
      case n: (Some n)
      note nn = first_freeD [OF n]
      have "dotted (cgnat_bytes k) \<in> used" if "1 \<le> k" "k < n" "k \<noteq> m" for k
        using that m(4) nn(4) by (cases "k < m") (auto simp: used)
      moreover have "ad_ip (in_address 0 (cgnat_bytes m)) = Inr (dotted (cgnat_bytes m))"
        "ad_ip (in_address 0 (cgnat_bytes n)) = Inr (dotted (cgnat_bytes n))"
        using m(2) nn(2) by (simp_all add: ad_ip_in_address cgnat_ipv4)
      moreover have "dotted (cgnat_bytes m) \<noteq> dotted (cgnat_bytes n)"
        using nn(1) dotted_inj [of "cgnat_bytes m" "cgnat_bytes n"] by (auto simp: cgnat_bytes_def)
      ultimately show ?thesis
        using m nn unfolding run Some n option.case sum.case prod.case used
        by (intro exI [of _ m] exI [of _ n]) simp
    qed
  qed
qed

text \<open>A resolver that answers numeric text, with the address \<open>0.0.0.0\<close> to avoid.\<close>

definition numeric_resolver :: resolver where
  "numeric_resolver node service numeric =
     (0, Some (sockaddr_in
        (case myatoi service 10 of Inl e \<Rightarrow> 0 | Inr p \<Rightarrow> ucast p)
        (map (\<lambda>part. case myatoi part 10 of Inl e \<Rightarrow> CHR 0x00 | Inr v \<Rightarrow> char_of (unat v))
          (getlines (CHR ''.'') node))))"

lemma numeric_resolver_laws: "gai_numeric numeric_resolver"
proof (unfold gai_numeric_def, intro allI impI)
  fix bs :: "nat list" and port :: u16
  assume bs: "ipv4 bs"
  define m where "m = unat port"
  have "m < 65536" using unsigned_less [of port, where ?'a = nat] by (simp add: m_def)
  then have "unat (ucast (of_nat m :: i64) :: u16) = m" "myatoi (dec m) 10 = Inr (of_nat m)"
    by (simp_all add: unsigned_ucast_eq unat_of_nat_u64 take_bit_nat_eq_self myatoi_dec)
  then have p: "(case myatoi (dec m) 10 of Inl e \<Rightarrow> 0 | Inr p \<Rightarrow> ucast p) = port"
    by (simp add: m_def word_unat_eq_iff)
  have eq: "map (\<lambda>x. case myatoi (dec x) 10 of Inl e \<Rightarrow> CHR 0x00 | Inr v \<Rightarrow> char_of (unat v)) bs
      = map char_of bs"
    using bs by (auto simp: ipv4_def myatoi_dec unat_of_nat_u64)
  then show "numeric_resolver (dotted bs) (dec (unat port)) True =
      (0, Some (sockaddr_in port (map char_of bs)))"
    using bs p by (simp add: numeric_resolver_def dotted_parts ipv4_def comp_def eq flip: m_def)
qed

theorem two_unassigned_witness:
  "case two_unassigned_from numeric_resolver [in_address 0 (cgnat_bytes 1)]
      (in_address 0 (cgnat_bytes 3)) of
      Inl e \<Rightarrow> e = Runtime_Error ''Interfaces: could not find free interface address''
    | Inr (a, b) \<Rightarrow> ad_ip a \<noteq> ad_ip b"
proof -
  have "has_ips [in_address 0 (cgnat_bytes 1)] [dotted (cgnat_bytes 1)]"
    "ad_ip (in_address 0 (cgnat_bytes 3)) = Inr (dotted (cgnat_bytes 3))"
    by (simp_all add: has_ips_def ad_ip_in_address cgnat_ipv4)
  from two_unassigned [OF numeric_resolver_laws this] show ?thesis
    by (auto split: sum.splits prod.splits)
qed

end
