(* ===== verification/Cellular_Shell.thy ===== *)
theory Cellular_Shell
  imports Main Prelude Ezio Kernel Link_Packet_Queue Cellular_State Util
begin

text \<open>
  \<open>src/frontend/cellularshell.cc\<close>: the quoting of the command line, the options and arguments of
  \<open>main\<close>, and the two queues it builds from them. What \<open>getopt_long\<close> returns, option by option, with
  its final \<open>optind\<close>, is an argument.
\<close>

section \<open>shell_quote\<close>

definition quote :: char where "quote = CHR 0x27"

definition backslash :: char where "backslash = CHR 0x5C"

definition shell_quote :: "string \<Rightarrow> string" where
  "shell_quote arg =
     [quote] @ concat (map (\<lambda>ch. if ch \<noteq> quote then [ch] else [quote, backslash, quote, quote]) arg)
       @ [quote]"

section \<open>Options\<close>

definition strtoul :: "string \<Rightarrow> bool \<times> bool \<times> u64" where
  \<comment> \<open>base 10: was there a number, is it out of range, its value; a minus sign negates it\<close>
  "strtoul str =
     (let (neg, s) = skip_sign (dropWhile is_space str); (n, seen, rest) = scan_digits 10 0 False s
      in (seen, 2 ^ 64 \<le> n, if neg then - of_nat n else of_nat n))"

definition stoul :: "string \<Rightarrow> u64 res" where
  "stoul str =
     (case strtoul str of (seen, erange, v) \<Rightarrow>
        if \<not> seen then Inl (Invalid_Argument ''stoul'') else if erange then Inl Out_Of_Range else Inr v)"

definition stod :: "string \<Rightarrow> rat res" where
  "stod str =
     (case strtod str of (erange, v, rest) \<Rightarrow>
        if rest = str then Inl (Invalid_Argument ''stod'') else if erange then Inl Out_Of_Range else Inr v)"

definition atoi :: "string \<Rightarrow> i32" where
  "atoi str = (case strtol str 10 of (erange, v, rest) \<Rightarrow> ucast v)"

record shell_options =
  so_repeat :: bool
  so_uplink_queue_type :: string
  so_downlink_queue_type :: string
  so_uplink_queue_args :: string
  so_downlink_queue_args :: string
  so_start_timestamp :: u64
  so_loss_rate :: rat
  so_psize_offset_up :: string
  so_psize_offset_down :: string
  so_long_to_short_timer_up :: i32
  so_long_to_short_timer_down :: i32
  so_packet_log_prefix :: string

definition default_options :: shell_options where
  "default_options = \<lparr>so_repeat = True, so_uplink_queue_type = ''infinite'',
     so_downlink_queue_type = ''infinite'', so_uplink_queue_args = [], so_downlink_queue_args = [],
     so_start_timestamp = 0, so_loss_rate = 0, so_psize_offset_up = [], so_psize_offset_down = [],
     so_long_to_short_timer_up = 0, so_long_to_short_timer_down = 0, so_packet_log_prefix = []\<rparr>"

definition apply_option :: "char \<Rightarrow> string \<Rightarrow> shell_options \<Rightarrow> shell_options res" where
  "apply_option opt optarg so =
     (if opt = CHR ''c'' then
        andThen (stoul optarg) (\<lambda>v. Inr (so\<lparr>so_start_timestamp := v\<rparr>))
      else if opt = CHR ''i'' then Inr (so\<lparr>so_packet_log_prefix := optarg\<rparr>)
      else if opt = CHR ''o'' then Inr (so\<lparr>so_repeat := False\<rparr>)
      else if opt = CHR ''q'' then Inr (so\<lparr>so_uplink_queue_type := optarg\<rparr>)
      else if opt = CHR ''w'' then Inr (so\<lparr>so_downlink_queue_type := optarg\<rparr>)
      else if opt = CHR ''a'' then Inr (so\<lparr>so_uplink_queue_args := optarg\<rparr>)
      else if opt = CHR ''b'' then Inr (so\<lparr>so_downlink_queue_args := optarg\<rparr>)
      else if opt = CHR ''r'' then andThen (stod optarg) (\<lambda>v. Inr (so\<lparr>so_loss_rate := v\<rparr>))
      else if opt = CHR ''e'' then Inr (so\<lparr>so_psize_offset_up := optarg\<rparr>)
      else if opt = CHR ''f'' then Inr (so\<lparr>so_psize_offset_down := optarg\<rparr>)
      else if opt = CHR ''g'' then
        andThen (myatoi optarg 10) (\<lambda>v. Inr (so\<lparr>so_long_to_short_timer_up := ucast v\<rparr>))
      else if opt = CHR ''h'' then
        andThen (myatoi optarg 10) (\<lambda>v. Inr (so\<lparr>so_long_to_short_timer_down := ucast v\<rparr>))
      else Inr so)"

fun apply_options :: "(char \<times> string) list \<Rightarrow> shell_options \<Rightarrow> shell_options res" where
  "apply_options [] so = Inr so"
| "apply_options ((opt, optarg) # rest) so = andThen (apply_option opt optarg so) (apply_options rest)"

section \<open>Arguments\<close>

text \<open>
  \<open>argv\<close> ends in a null pointer. A string made from it, or from what lies beyond, is undefined.
\<close>

definition arg_at :: "string list \<Rightarrow> nat \<Rightarrow> string res" where
  "arg_at argv i =
     (if i < length argv then Inr (argv ! i) else Inl (Undefined ''string from a null pointer''))"

definition extra_command :: "string list \<Rightarrow> i32 \<Rightarrow> string list res" where
  \<comment> \<open>a negative \<open>num_args\<close> indexes \<open>argv\<close> before its start\<close>
  "extra_command argv num_args =
     (if sint num_args < int (length argv) then
        if sint num_args < 0 then Inl (Undefined ''argv[ negative ]'')
        else Inr (drop (nat (sint num_args)) argv)
      else Inr [])"

definition command_line_text :: "string list \<Rightarrow> string" where
  "command_line_text argv =
     (case argv of [] \<Rightarrow> [] | a # as \<Rightarrow> shell_quote a @ concat (map (\<lambda>x. '' '' @ shell_quote x) as))"

record shell_config =
  sc_options :: shell_options
  sc_up_packet_train_trace :: string
  sc_down_packet_train_trace :: string
  sc_uplink_pdo_trace :: string
  sc_downlink_pdo_trace :: string
  sc_command :: "string list"
  sc_command_line :: string

definition main_config :: "string list \<Rightarrow> (char \<times> string) list \<Rightarrow> nat \<Rightarrow> string option \<Rightarrow> shell_config res" where
  \<comment> \<open>\<open>pw_shell\<close> is what \<open>shell_path\<close> looks up\<close>
  "main_config argv opts optind pw_shell =
     (if length argv < 5 then usage_error (hd argv)
      else
        andThen (extra_command argv (atoi (argv ! 1))) (\<lambda>extra_cmd.
        andThen (apply_options opts default_options) (\<lambda>options.
        if length argv \<le> optind + 1 then usage_error (hd argv)
        else
          andThen (arg_at argv (optind + 1)) (\<lambda>up_train.
          andThen (arg_at argv (optind + 2)) (\<lambda>down_train.
          andThen (arg_at argv (optind + 3)) (\<lambda>up_pdo.
          andThen (arg_at argv (optind + 4)) (\<lambda>down_pdo.
          andThen (if extra_cmd = [] then andThen (shell_path pw_shell) (\<lambda>s. Inr [s])
                   else Inr extra_cmd) (\<lambda>command.
            Inr \<lparr>sc_options = options, sc_up_packet_train_trace = up_train,
                 sc_down_packet_train_trace = down_train, sc_uplink_pdo_trace = up_pdo,
                 sc_downlink_pdo_trace = down_pdo, sc_command = command,
                 sc_command_line = command_line_text argv\<rparr>))))))))"

text \<open>The two queues, as \<open>start_uplink\<close> and \<open>start_downlink\<close> are given them.\<close>

definition uplink_queue :: "string \<Rightarrow> shell_config \<Rightarrow> world \<Rightarrow> (cellular_queue \<times> world) res" where
  "uplink_queue program_name c w =
     (let so = sc_options c
      in andThen (get_packet_queue (so_uplink_queue_type so) (so_uplink_queue_args so) program_name) (\<lambda>q.
           CellularQueue (sc_up_packet_train_trace c) (sc_uplink_pdo_trace c) (so_packet_log_prefix so)
             (so_repeat so) q True (so_start_timestamp so) (so_loss_rate so) (so_psize_offset_up so)
             (so_long_to_short_timer_up so) w))"

definition downlink_queue :: "string \<Rightarrow> shell_config \<Rightarrow> world \<Rightarrow> (cellular_queue \<times> world) res" where
  "downlink_queue program_name c w =
     (let so = sc_options c
      in andThen (get_packet_queue (so_downlink_queue_type so) (so_downlink_queue_args so) program_name) (\<lambda>q.
           CellularQueue (sc_down_packet_train_trace c) (sc_downlink_pdo_trace c) (so_packet_log_prefix so)
             (so_repeat so) q False (so_start_timestamp so) (so_loss_rate so) (so_psize_offset_down so)
             (so_long_to_short_timer_down so) w))"

section \<open>What the shell makes of the command line\<close>

text \<open>
  The reference: how a POSIX shell splits a line into words, for lines of single-quoted parts,
  escaped characters and blanks. \<open>q\<close>: inside quotes; \<open>w\<close>: the word begun, if any. Any other unquoted
  character may have a meaning of its own, and the answer is \<open>None\<close>.
\<close>

fun sh_split :: "bool \<Rightarrow> string option \<Rightarrow> string \<Rightarrow> string list option" where
  "sh_split q w [] = (if q then None else Some (case w of None \<Rightarrow> [] | Some x \<Rightarrow> [x]))"
| "sh_split q w (c # cs) =
     (let x = (case w of None \<Rightarrow> [] | Some x \<Rightarrow> x)
      in if q then
           if c = quote then sh_split False (Some x) cs else sh_split True (Some (x @ [c])) cs
         else if c = quote then sh_split True (Some x) cs
         else if c = backslash then
           (case cs of [] \<Rightarrow> None | d # ds \<Rightarrow> sh_split False (Some (x @ [d])) ds)
         else if c = CHR '' '' then
           (case w of
              None \<Rightarrow> sh_split False None cs
            | Some x \<Rightarrow> map_option ((#) x) (sh_split False None cs))
         else None)"

lemma special_chars [simp]:
  "quote \<noteq> backslash" "backslash \<noteq> quote" "quote \<noteq> CHR '' ''" "CHR '' '' \<noteq> quote"
  "backslash \<noteq> CHR '' ''" "CHR '' '' \<noteq> backslash"
  by (simp_all add: quote_def backslash_def)

lemma sh_split_quoted:
  "sh_split True (Some x) (concat (map (\<lambda>ch. if ch \<noteq> quote then [ch] else [quote, backslash, quote, quote]) arg)
     @ quote # cs) = sh_split False (Some (x @ arg)) cs"
  by (induction arg arbitrary: x) simp_all

lemma sh_split_shell_quote: "sh_split False None (shell_quote arg @ cs) = sh_split False (Some arg) cs"
  using sh_split_quoted [of "[]" arg cs] by (simp add: shell_quote_def)

lemma sh_split_args:
  "sh_split False (Some a) (concat (map (\<lambda>x. '' '' @ shell_quote x) as)) = Some (a # as)"
proof (induction as arbitrary: a)
  case (Cons b as)
  have "sh_split False (Some a) (concat (map (\<lambda>x. '' '' @ shell_quote x) (b # as))) =
      map_option ((#) a) (sh_split False None (shell_quote b @ concat (map (\<lambda>x. '' '' @ shell_quote x) as)))"
    by simp
  also have "\<dots> = Some (a # b # as)" by (simp only: sh_split_shell_quote Cons.IH) simp
  finally show ?case .
qed simp

text \<open>
  C39. The quoted command line. Whatever bytes the arguments hold (quotes, blanks, newlines, empty
  arguments), a shell that splits the line \<open>main\<close> puts together for the log gets exactly the
  arguments back.
\<close>

theorem command_line_roundtrip:
  "sh_split False None (command_line_text argv) = Some argv"
  by (cases argv) (simp_all add: command_line_text_def sh_split_shell_quote sh_split_args [simplified])

text \<open>
  C40. Missing arguments. With at least five arguments and one behind the first non-option, \<open>main\<close>
  goes on to read four trace names; if there are fewer than four, it makes a string from the null
  pointer at the end of \<open>argv\<close>: its checks ask for one of the four only. (The options are ones that
  parse, and \<open>NUM_ARGS\<close> is not negative.)
\<close>

theorem missing_trace_undefined:
  assumes "5 \<le> length argv" "optind + 1 < length argv" "length argv \<le> optind + 4"
    and "apply_options opts default_options = Inr so" "0 \<le> sint (atoi (argv ! 1))"
  shows "main_config argv opts optind pw_shell = Inl (Undefined ''string from a null pointer'')"
proof -
  have "\<exists>cmd. extra_command argv (atoi (argv ! 1)) = Inr cmd"
    using assms(5) by (simp add: extra_command_def)
  moreover have "arg_at argv (optind + 4) = Inl (Undefined ''string from a null pointer'')"
    using assms(3) by (simp add: arg_at_def)
  ultimately show ?thesis
    using assms(1,2,4) by (auto simp: main_config_def arg_at_def)
qed

theorem missing_trace_undefined_witness:
  "main_config [''cellularshell'', ''9'', ''up.train'', ''down.train'', ''up.pdo''] [(CHR ''o'', [])] 1 None =
     Inl (Undefined ''string from a null pointer'')"
  by (rule missing_trace_undefined) (simp_all add: apply_option_def atoi_def strtol_def is_space_def
      digit_in_base_def)

end
