(* ===== verification/Syscalls.thy ===== *)
theory Syscalls
  imports Main Prelude Kernel Util Child_Process System_Runner Addresses
begin

text \<open>
  System calls as a trace, for the parts of the program whose correctness is the order of their
  calls: sockets, devices, address translation, the start of the shell. A \<open>sys_world\<close> holds the
  kernel's answer to the n-th call and the trace of the calls made, each with the answer and the
  identity under which it was made. A program is a function of the \<open>sys_world\<close> that also returns it
  when an exception is thrown, so that what a destructor does while the stack unwinds is in the
  trace (\<open>scoped\<close>, \<open>unwinding\<close>). \<open>None\<close>: the program never leaves the call.
\<close>

section \<open>Calls and answers\<close>

datatype ifr_data =
    Ifr_Flags u16
  | Ifr_Mtu i32
  | Ifr_Addr string
  | Ifr_Netmask string

record ifreq =
  ifr_name :: string
  ifr_data :: ifr_data

record rtentry =
  rt_gateway :: string
  rt_dst :: string
  rt_genmask :: string
  rt_flags :: u16

record cmsg = \<comment> \<open>a control message that carries an \<open>int\<close>\<close>
  cm_level :: int
  cm_type :: int
  cm_len :: nat
  cm_fd :: int

datatype sys_call =
    Call_Socket int int
  | Call_Socketpair
  | Call_Getsockopt int int int
  | Call_Setsockopt int int int i32
  | Call_Getsockname int
  | Call_Getpeername int
  | Call_Bind int address
  | Call_Connect int address
  | Call_Listen int i32
  | Call_Accept int
  | Call_Sendto int address string
  | Call_Send int string
  | Call_Recvfrom int nat
  | Call_Sendmsg int cmsg
  | Call_Recvmsg int nat
  | Call_Cloexec int
  | Call_Close int
  | Call_Open string
  | Call_Ioctl int int ifreq
  | Call_Route int rtentry
  | Call_Mkstemp string
  | Call_Unlink string
  | Call_Setenv string string bool
  | Call_Clone string bool
  | Call_Exec executed
  | Call_Run "string list"

text \<open>An answer: the value returned, and what the call wrote to its out-parameters.\<close>

record sys_answer =
  sa_ret :: int
  sa_data :: string
  sa_addr :: string
  sa_pair :: "int \<times> int"
  sa_control :: "cmsg option"
  sa_truncated :: bool

text \<open>What the kernel does with a new process, seen from either side.\<close>

record fork_answer =
  fa_stat :: int
  fa_nlink :: nat
  fa_clone :: int
  fa_sigprocmask :: int
  fa_procs :: proc_world

record 'k sys_world =
  sy_answer :: "nat \<Rightarrow> sys_call \<Rightarrow> sys_answer"
  sy_fork :: "nat \<Rightarrow> fork_answer"
  sy_trace :: "(sys_call \<times> int \<times> 'k) list"
  sy_ids :: 'k
  sy_pid :: nat
  sy_environ :: "environment option"
  sy_world :: world
  sy_procs :: proc_world

section \<open>Programs\<close>

text \<open>
  What a call can end with: a value, an exception (or an abort), the end of this process, or its
  replacement by another program.
\<close>

datatype 'a outcome = Returned 'a | Thrown exn | Exited i32 | Replaced executed

type_synonym ('k, 'a) sys = "'k sys_world \<Rightarrow> ('a outcome \<times> 'k sys_world) option"

definition returnS :: "'a \<Rightarrow> ('k, 'a) sys" where
  "returnS x w = Some (Returned x, w)"

definition throwS :: "exn \<Rightarrow> ('k, 'a) sys" where
  "throwS e w = Some (Thrown e, w)"

definition liftS :: "'a res \<Rightarrow> ('k, 'a) sys" where
  "liftS r = (case r of Inl e \<Rightarrow> throwS e | Inr x \<Rightarrow> returnS x)"

definition bindS :: "('k, 'a) sys \<Rightarrow> ('a \<Rightarrow> ('k, 'b) sys) \<Rightarrow> ('k, 'b) sys" where
  "bindS m f w =
     (case m w of
        None \<Rightarrow> None
      | Some (r, w) \<Rightarrow>
          (case r of
             Returned x \<Rightarrow> f x w
           | Thrown e \<Rightarrow> Some (Thrown e, w)
           | Exited n \<Rightarrow> Some (Exited n, w)
           | Replaced ex \<Rightarrow> Some (Replaced ex, w)))"

definition getS :: "('k sys_world \<Rightarrow> 'a) \<Rightarrow> ('k, 'a) sys" where
  "getS f w = Some (Returned (f w), w)"

text \<open>\<open>try { m } catch ( const exception & )\<close>; an abort is not caught.\<close>

definition catchS :: "('k, 'a) sys \<Rightarrow> (exn \<Rightarrow> ('k, 'a) sys) \<Rightarrow> ('k, 'a) sys" where
  "catchS m handler w =
     (case m w of
        Some (Thrown e, w') \<Rightarrow> if caught e then handler e w' else Some (Thrown e, w')
      | x \<Rightarrow> x)"

text \<open>
  An object of a scope: made, used, and destroyed when the scope is left by a value or an exception
  (\<open>scoped\<close>); a member of an object under construction, destroyed only by an exception
  (\<open>unwinding\<close>).
\<close>

definition destroyed :: "'a outcome \<Rightarrow> unit outcome \<Rightarrow> 'a outcome" where
  \<comment> \<open>an exception that leaves a destructor ends the program\<close>
  "destroyed r d =
     (case d of
        Returned _ \<Rightarrow> r
      | Thrown e \<Rightarrow> Thrown (if caught e then Assert_Failed ''terminate: exception from a destructor'' else e)
      | Exited n \<Rightarrow> Exited n
      | Replaced ex \<Rightarrow> Replaced ex)"

definition after :: "('a outcome \<Rightarrow> bool) \<Rightarrow> ('k, unit) sys \<Rightarrow> ('k, 'a) sys \<Rightarrow> ('k, 'a) sys" where
  "after leaves destroy m w =
     (case m w of
        None \<Rightarrow> None
      | Some (r, w) \<Rightarrow>
          if leaves r then map_option (\<lambda>(d, w). (destroyed r d, w)) (destroy w) else Some (r, w))"

definition by_exception :: "'a outcome \<Rightarrow> bool" where
  "by_exception r = (case r of Thrown e \<Rightarrow> caught e | _ \<Rightarrow> False)"

definition leaves_scope :: "'a outcome \<Rightarrow> bool" where
  "leaves_scope r = (case r of Returned _ \<Rightarrow> True | _ \<Rightarrow> by_exception r)"

definition scoped :: "('k, 'a) sys \<Rightarrow> ('a \<Rightarrow> ('k, unit) sys) \<Rightarrow> ('a \<Rightarrow> ('k, 'b) sys) \<Rightarrow> ('k, 'b) sys" where
  "scoped mk destroy body = bindS mk (\<lambda>x. after leaves_scope (destroy x) (body x))"

definition unwinding :: "('k, 'a) sys \<Rightarrow> ('a \<Rightarrow> ('k, unit) sys) \<Rightarrow> ('a \<Rightarrow> ('k, 'b) sys) \<Rightarrow> ('k, 'b) sys" where
  "unwinding mk destroy body = bindS mk (\<lambda>x. after by_exception (destroy x) (body x))"

section \<open>One call\<close>

definition logged :: "sys_call \<Rightarrow> int \<Rightarrow> 'k sys_world \<Rightarrow> 'k sys_world" where
  "logged call ret w = w\<lparr>sy_trace := sy_trace w @ [(call, ret, sy_ids w)]\<rparr>"

definition sys_ret :: "sys_call \<Rightarrow> ('k, sys_answer) sys" where
  "sys_ret call w =
     (let a = sy_answer w (length (sy_trace w)) call in Some (Returned a, logged call (sa_ret a) w))"

definition sys :: "string \<Rightarrow> sys_call \<Rightarrow> ('k, sys_answer) sys" where
  \<comment> \<open>under \<open>SystemCall\<close>\<close>
  "sys attempt call =
     bindS (sys_ret call) (\<lambda>a. bindS (liftS (SystemCall attempt (sa_ret a))) (\<lambda>_. returnS a))"

text \<open>A printed exception of a destructor: the call is made, its answer does not matter.\<close>

definition sys_noexcept :: "sys_call \<Rightarrow> ('k, unit) sys" where
  "sys_noexcept call = bindS (sys_ret call) (\<lambda>_. returnS ())"

section \<open>Descriptors\<close>

definition new_fd :: "int \<Rightarrow> ('k, file_descriptor) sys" where
  \<comment> \<open>a number up to 2 is refused before \<open>fcntl\<close> is called\<close>
  "new_fd n =
     (if n \<le> 2 then liftS (FileDescriptor n 0)
      else bindS (sys_ret (Call_Cloexec n)) (\<lambda>a. liftS (FileDescriptor n (sa_ret a))))"

definition fd_destroy :: "file_descriptor \<Rightarrow> ('k, unit) sys" where
  "fd_destroy fd = (if fd_num fd < 0 then returnS () else sys_noexcept (Call_Close (fd_num fd)))"

text \<open>
  \<open>FileDescriptor::write ( buffer, write_all )\<close>, with the world it leaves when it throws: a failed
  call of \<open>write\<close> has taken an answer.
\<close>

definition failed_write :: "string \<Rightarrow> world \<Rightarrow> world" where
  "failed_write s w = (if s = [] then w else w\<lparr>w_write_calls := Suc (w_write_calls w)\<rparr>)"

function sys_write :: "string \<Rightarrow> bool \<Rightarrow> file_descriptor \<Rightarrow> ('k, file_descriptor) sys" where
  "sys_write buffer write_all fd w =
     (case fd_write_some buffer fd (sy_world w) of
        Inl e \<Rightarrow> Some (Thrown e, w\<lparr>sy_world := failed_write buffer (sy_world w)\<rparr>)
      | Inr r \<Rightarrow>
          let w1 = w\<lparr>sy_world := snd (snd r)\<rparr>
          in if write_all \<and> fst r \<noteq> [] then sys_write (fst r) write_all (fst (snd r)) w1
             else Some (Returned (fst (snd r)), w1))"
  by pat_completeness auto
termination
  by (relation "measure (\<lambda>(s, _). length s)") (auto dest: fd_write_some_shorter)

declare sys_write.simps [simp del]

text \<open>
  Calls on the clock and on descriptors are those of \<open>Kernel\<close>, on the \<open>sy_world\<close>; what an exception
  leaves of it is not looked at.
\<close>

definition on_world :: "(world \<Rightarrow> ('a \<times> world) res option) \<Rightarrow> ('k, 'a) sys" where
  "on_world m w =
     map_option (\<lambda>r. case r of Inl e \<Rightarrow> (Thrown e, w) | Inr (x, v) \<Rightarrow> (Returned x, w\<lparr>sy_world := v\<rparr>))
       (m (sy_world w))"

section \<open>Processes\<close>

text \<open>
  \<open>ChildProcess ( name, procedure, new_namespace, signal )\<close>. In the parent (\<open>clone\<close> answers with a
  pid) it returns the object; in the child (it answers 0) the procedure runs and the process exits.
\<close>

definition child_end :: "i32 outcome \<Rightarrow> 'a outcome" where
  "child_end r =
     (case r of
        Returned status \<Rightarrow> Exited status
      | Thrown e \<Rightarrow> if caught e then Exited 1 else Thrown e
      | Exited n \<Rightarrow> Exited n
      | Replaced ex \<Rightarrow> Replaced ex)"

definition sys_fork :: "string \<Rightarrow> ('k, i32) sys \<Rightarrow> bool \<Rightarrow> int \<Rightarrow> ('k, child_process) sys" where
  "sys_fork name procedure new_namespace sig w =
     (let a = sy_fork w (length (sy_trace w));
          w1 = logged (Call_Clone name new_namespace) (fa_clone a) w
      in case do_clone (fa_stat a) (fa_nlink a) (fa_clone a) of
           Inl e \<Rightarrow> Some (Thrown e, w1)
         | Inr pid \<Rightarrow>
             if pid = 0 then
               map_option (\<lambda>(r, w). (child_end r, w))
                 (bindS (liftS (SystemCall ''sigprocmask'' (fa_sigprocmask a))) (\<lambda>_. procedure) w1)
             else
               Some (Returned \<lparr>cp_name = name, cp_pid = pid, cp_running = True, cp_terminated = False,
                 cp_exit_status = 0, cp_died_on_signal = False, cp_graceful_termination_signal = sig,
                 cp_moved_away = False\<rparr>, w1))"

text \<open>
  \<open>~ChildProcess\<close>; the reports it waits for are those of \<open>sy_procs\<close>. After an exception, which it
  prints, the child is left alone.
\<close>

definition child_destroy :: "child_process \<Rightarrow> ('k, unit) sys" where
  "child_destroy p w =
     (case cp_destroy p (sy_procs w) of
        None \<Rightarrow> None
      | Some (Inl e) \<Rightarrow> Some (if caught e then Returned () else Thrown e, w)
      | Some (Inr (_, pw)) \<Rightarrow> Some (Returned (), w\<lparr>sy_procs := pw\<rparr>))"

text \<open>\<open>what ()\<close> of an exception, without the kernel's text; the library's own texts are not looked at.\<close>

fun exn_what :: "exn \<Rightarrow> string" where
  "exn_what (Unix_Error s) = s @ '': ''"
| "exn_what (Runtime_Error s) = s"
| "exn_what e = []"

definition sys_ezexec :: "'k id_calls \<Rightarrow> string list \<Rightarrow> bool \<Rightarrow> ('k, i32) sys" where
  \<comment> \<open>\<open>execve\<close> answers with a negative value if it failed\<close>
  "sys_ezexec k command path_search w =
     (case ezexec k (sy_ids w) (sy_environ w) command path_search None of
        Inl e \<Rightarrow> Some (Thrown e, w)
      | Inr ex \<Rightarrow>
          let a = sy_answer w (length (sy_trace w)) (Call_Exec ex);
              w1 = logged (Call_Exec ex) (sa_ret a) w
          in if sa_ret a < 0 then
               (case ezexec k (sy_ids w) (sy_environ w) command path_search (Some (sa_ret a)) of
                  Inl e \<Rightarrow> Some (Thrown e, w1)
                | Inr ex \<Rightarrow> Some (Replaced ex, w1))
             else Some (Replaced ex, w1))"

text \<open>
  \<open>run\<close>, in the parent and in the child it forks. The kernel's reports on the child are a
  \<open>proc_world\<close> of their own, for they are asked for by its pid.
\<close>

definition sys_run :: "'k id_calls \<Rightarrow> string list \<Rightarrow> ('k, unit) sys" where
  "sys_run k command w =
     (let a = sy_fork w (length (sy_trace w));
          w1 = logged (Call_Run command) (fa_clone a) w
      in if do_clone (fa_stat a) (fa_nlink a) (fa_clone a) = Inr 0 then
           bindS (liftS (join command)) (\<lambda>name.
             bindS (sys_fork name (sys_ezexec k command False) False SIGHUP) (\<lambda>_. returnS ())) w
         else
           (case run command None (fa_stat a) (fa_nlink a) (fa_clone a) (fa_sigprocmask a) (fa_procs a) of
              None \<Rightarrow> None
            | Some (Inl e) \<Rightarrow> Some (Thrown e, w1)
            | Some (Inr (Ran _)) \<Rightarrow> Some (Returned (), w1)
            | Some (Inr (Ran_In_Child status)) \<Rightarrow> Some (Exited status, w1)))"

section \<open>Evaluation\<close>

named_theorems sys_eval \<open>evaluation of programs on a given world\<close>

lemma bindS_outcome:
  "bindS m f w = Some (r, w') \<longleftrightarrow>
    (\<exists>x w1. m w = Some (Returned x, w1) \<and> f x w1 = Some (r, w')) \<or>
    (\<exists>e. m w = Some (Thrown e, w') \<and> r = Thrown e) \<or>
    (\<exists>n. m w = Some (Exited n, w') \<and> r = Exited n) \<or>
    (\<exists>ex. m w = Some (Replaced ex, w') \<and> r = Replaced ex)"
  by (auto simp: bindS_def split: option.splits outcome.splits)

lemma bindS_Returned: "m w = Some (Returned x, w1) \<Longrightarrow> bindS m f w = f x w1"
  by (simp add: bindS_def)

lemma bindS_Thrown: "m w = Some (Thrown e, w1) \<Longrightarrow> bindS m f w = Some (Thrown e, w1)"
  by (simp add: bindS_def)

lemma returnS_eval [simp, sys_eval]: "returnS x w = Some (Returned x, w)"
  by (simp add: returnS_def)

lemma throwS_eval [simp, sys_eval]: "throwS e w = Some (Thrown e, w)"
  by (simp add: throwS_def)

lemma getS_eval [simp, sys_eval]: "getS f w = Some (Returned (f w), w)"
  by (simp add: getS_def)

lemma liftS_simps [simp, sys_eval]: "liftS (Inl e) = throwS e" "liftS (Inr x) = returnS x"
  by (simp_all add: liftS_def)

lemma bindS_simps [simp, sys_eval]:
  "bindS (returnS x) f = f x" "bindS (throwS e) f = throwS e" "bindS (getS g) h = (\<lambda>w. h (g w) w)"
  by (simp_all add: bindS_def fun_eq_iff)

lemma bindS_assoc: "bindS (bindS m f) g = bindS m (\<lambda>x. bindS (f x) g)"
  by (auto simp: bindS_def fun_eq_iff split: option.splits outcome.splits)

lemma liftS_outcome:
  "liftS r w = Some (x, w') \<longleftrightarrow> w' = w \<and> x = (case r of Inl e \<Rightarrow> Thrown e | Inr y \<Rightarrow> Returned y)"
  by (auto split: sum.splits simp: liftS_def)

lemma sys_eval_call [sys_eval]:
  "sys attempt call w =
     (let a = sy_answer w (length (sy_trace w)) call; w' = logged call (sa_ret a) w
      in if 0 \<le> sa_ret a then Some (Returned a, w') else Some (Thrown (Unix_Error attempt), w'))"
  by (simp add: sys_def bindS_def sys_ret_def Let_def SystemCall_def)

lemma logged_fields [simp]:
  "sy_trace (logged call ret w) = sy_trace w @ [(call, ret, sy_ids w)]"
  "sy_ids (logged call ret w) = sy_ids w" "sy_environ (logged call ret w) = sy_environ w"
  "sy_world (logged call ret w) = sy_world w" "sy_pid (logged call ret w) = sy_pid w"
  "sy_answer (logged call ret w) = sy_answer w" "sy_fork (logged call ret w) = sy_fork w"
  by (simp_all add: logged_def)

section \<open>What a program calls\<close>

text \<open>
  \<open>only_calls R P m\<close>: run under an identity and an environment that stand in \<open>R\<close>, \<open>m\<close> makes only
  calls that satisfy \<open>P\<close> with the identity they are made under, whatever the kernel answers, and
  where the process goes on in its scope (by a value or an exception) the two stand in \<open>R\<close> again.
  \<open>steps R P Q m\<close>: a value takes them from \<open>R\<close> to \<open>Q\<close>; nothing is said of an exception.
\<close>

definition made :: "(sys_call \<Rightarrow> 'k \<Rightarrow> bool) \<Rightarrow> 'k sys_world \<Rightarrow> 'k sys_world \<Rightarrow> bool" where
  "made P w w' \<longleftrightarrow> (\<exists>es. sy_trace w' = sy_trace w @ es \<and> (\<forall>(call, ret, c) \<in> set es. P call c))"

definition running_as :: "('k \<times> environment option) set \<Rightarrow> 'k sys_world \<Rightarrow> bool" where
  "running_as R w \<longleftrightarrow> (sy_ids w, sy_environ w) \<in> R"

definition only_calls :: "('k \<times> environment option) set \<Rightarrow> (sys_call \<Rightarrow> 'k \<Rightarrow> bool) \<Rightarrow> ('k, 'a) sys \<Rightarrow> bool" where
  "only_calls R P m \<longleftrightarrow>
     (\<forall>w r w'. running_as R w \<longrightarrow> m w = Some (r, w') \<longrightarrow> made P w w' \<and> (leaves_scope r \<longrightarrow> running_as R w'))"

definition steps :: "('k \<times> environment option) set \<Rightarrow> (sys_call \<Rightarrow> 'k \<Rightarrow> bool) \<Rightarrow>
    ('k \<times> environment option) set \<Rightarrow> ('k, 'a) sys \<Rightarrow> bool" where
  "steps R P Q m \<longleftrightarrow>
     (\<forall>w r w'. running_as R w \<longrightarrow> m w = Some (r, w') \<longrightarrow>
        made P w w' \<and> (\<forall>x. r = Returned x \<longrightarrow> running_as Q w'))"

named_theorems calls_intro \<open>what composed programs call\<close>

lemma leaves_scope_simps [simp]:
  "leaves_scope (Returned x)" "leaves_scope (Thrown e) = caught e" "\<not> leaves_scope (Exited n)"
  "\<not> leaves_scope (Replaced ex)" "\<not> by_exception (Returned x)" "by_exception (Thrown e) = caught e"
  "\<not> by_exception (Exited n)" "\<not> by_exception (Replaced ex)"
  by (simp_all add: leaves_scope_def by_exception_def)

lemma by_exception_leaves: "by_exception r \<Longrightarrow> leaves_scope r"
  by (cases r) simp_all

lemma running_as_UNIV [simp]: "running_as UNIV w"
  by (simp add: running_as_def)

lemma made_refl [simp]: "made P w w"
  by (simp add: made_def)

lemma made_trans: "made P w w1 \<Longrightarrow> made P w1 w2 \<Longrightarrow> made P w w2"
  by (fastforce simp: made_def)

lemma made_mono: "made P w w' \<Longrightarrow> (\<And>call c. P call c \<Longrightarrow> Q call c) \<Longrightarrow> made Q w w'"
  by (fastforce simp: made_def)

lemma callsI:
  "(\<And>w r w'. running_as R w \<Longrightarrow> m w = Some (r, w') \<Longrightarrow> made P w w' \<and> (leaves_scope r \<longrightarrow> running_as R w')) \<Longrightarrow>
   only_calls R P m"
  by (simp add: only_calls_def)

lemma callsD:
  "only_calls R P m \<Longrightarrow> running_as R w \<Longrightarrow> m w = Some (r, w') \<Longrightarrow>
   made P w w' \<and> (leaves_scope r \<longrightarrow> running_as R w')"
  by (simp add: only_calls_def)

lemma stepsI:
  "(\<And>w r w'. running_as R w \<Longrightarrow> m w = Some (r, w') \<Longrightarrow>
      made P w w' \<and> (\<forall>x. r = Returned x \<longrightarrow> running_as Q w')) \<Longrightarrow> steps R P Q m"
  by (simp add: steps_def)

lemma stepsD:
  "steps R P Q m \<Longrightarrow> running_as R w \<Longrightarrow> m w = Some (r, w') \<Longrightarrow>
   made P w w' \<and> (\<forall>x. r = Returned x \<longrightarrow> running_as Q w')"
  by (simp add: steps_def)

lemma calls_mono: "only_calls R P m \<Longrightarrow> (\<And>call c. P call c \<Longrightarrow> Q call c) \<Longrightarrow> only_calls R Q m"
  unfolding only_calls_def by (blast intro: made_mono)

lemma steps_of_calls: "only_calls R P m \<Longrightarrow> R \<subseteq> Q \<Longrightarrow> steps R P Q m"
  by (force simp: only_calls_def steps_def running_as_def)

lemma steps_calls [calls_intro]: "only_calls R P m \<Longrightarrow> steps R P UNIV m"
  by (rule steps_of_calls) simp_all

lemma steps_same: "only_calls R P m \<Longrightarrow> steps R P R m"
  by (rule steps_of_calls) simp_all

lemma steps_bind:
  assumes "steps R P M m" "\<And>x. steps M P Q (f x)"
  shows "steps R P Q (bindS m f)"
proof (rule stepsI)
  fix w r w' assume w: "running_as R w" "bindS m f w = Some (r, w')"
  show "made P w w' \<and> (\<forall>x. r = Returned x \<longrightarrow> running_as Q w')"
  proof (cases "\<exists>x w1. m w = Some (Returned x, w1) \<and> f x w1 = Some (r, w')")
    case True
    with stepsD [OF assms(1) w(1)] stepsD [OF assms(2)] show ?thesis by (blast intro: made_trans)
  next
    case False
    with w(2) obtain r' where "m w = Some (r', w')" "\<nexists>x. r = Returned x" by (auto simp: bindS_outcome)
    with stepsD [OF assms(1) w(1)] show ?thesis by blast
  qed
qed

lemma calls_return [calls_intro]: "only_calls R P (returnS x)"
  and calls_throw [calls_intro]: "only_calls R P (throwS e)"
  and calls_get [calls_intro]: "only_calls R P (getS f)"
  by (simp_all add: only_calls_def)

lemma calls_lift [calls_intro]: "only_calls R P (liftS r)"
  by (simp add: only_calls_def liftS_outcome)

lemma calls_bind [calls_intro]:
  assumes "only_calls R P m" "\<And>x. only_calls R P (f x)"
  shows "only_calls R P (bindS m f)"
proof (rule callsI)
  fix w r w' assume w: "running_as R w" "bindS m f w = Some (r, w')"
  show "made P w w' \<and> (leaves_scope r \<longrightarrow> running_as R w')"
  proof (cases "\<exists>x w1. m w = Some (Returned x, w1) \<and> f x w1 = Some (r, w')")
    case True
    then obtain x w1 where x: "m w = Some (Returned x, w1)" "f x w1 = Some (r, w')" by blast
    from callsD [OF assms(1) w(1) x(1)] callsD [OF assms(2) _ x(2)] show ?thesis
      by (auto intro: made_trans)
  next
    case False
    with w(2) obtain r' where "m w = Some (r', w')" "leaves_scope r \<longrightarrow> leaves_scope r'"
      by (auto simp: bindS_outcome)
    with callsD [OF assms(1) w(1)] show ?thesis by blast
  qed
qed

lemma calls_catch [calls_intro]:
  assumes "only_calls R P m" "\<And>e. only_calls R P (handler e)"
  shows "only_calls R P (catchS m handler)"
proof (rule callsI)
  fix w r w' assume w: "running_as R w" "catchS m handler w = Some (r, w')"
  from w(2) obtain r1 w1 where m: "m w = Some (r1, w1)"
    by (auto simp: catchS_def split: option.splits)
  note w1 = callsD [OF assms(1) w(1) m]
  show "made P w w' \<and> (leaves_scope r \<longrightarrow> running_as R w')"
  proof (cases "\<exists>e. r1 = Thrown e \<and> caught e")
    case True
    then obtain e where e: "r1 = Thrown e" "caught e" by blast
    with w(2) m have "handler e w1 = Some (r, w')" by (simp add: catchS_def)
    with callsD [OF assms(2)] w1 e show ?thesis by (auto intro: made_trans)
  next
    case False
    with w(2) m have "w' = w1" "r = r1" by (cases r1; auto simp: catchS_def)+
    with w1 show ?thesis by simp
  qed
qed

lemma after_outcome:
  "after leaves destroy m w = Some (r, w') \<longleftrightarrow>
    (\<exists>r1 w1. m w = Some (r1, w1) \<and>
      (if leaves r1 then \<exists>d. destroy w1 = Some (d, w') \<and> r = destroyed r1 d else r = r1 \<and> w' = w1))"
  by (auto simp: after_def split: option.splits if_splits)

lemma destroyed_leaves: "leaves_scope (destroyed r d) \<Longrightarrow> leaves_scope r \<and> d = Returned ()"
  by (auto simp: destroyed_def caught_def split: outcome.splits if_splits)

lemma calls_after:
  assumes "only_calls R P m" "only_calls R P destroy" "\<And>r. leaves r \<Longrightarrow> leaves_scope r"
  shows "only_calls R P (after leaves destroy m)"
proof (rule callsI)
  fix w r w' assume w: "running_as R w" "after leaves destroy m w = Some (r, w')"
  from w(2) obtain r1 w1 where m: "m w = Some (r1, w1)"
    and d: "if leaves r1 then \<exists>d. destroy w1 = Some (d, w') \<and> r = destroyed r1 d else r = r1 \<and> w' = w1"
    by (auto simp: after_outcome)
  note w1 = callsD [OF assms(1) w(1) m]
  show "made P w w' \<and> (leaves_scope r \<longrightarrow> running_as R w')"
  proof (cases "leaves r1")
    case True
    with d obtain d where d: "destroy w1 = Some (d, w')" "r = destroyed r1 d" by auto
    from callsD [OF assms(2) _ d(1)] w1 assms(3) [OF True] d(2) show ?thesis
      by (auto intro: made_trans dest: destroyed_leaves)
  next
    case False
    with d w1 show ?thesis by simp
  qed
qed

lemma steps_after:
  assumes "steps R P Q m" "\<And>S. only_calls S P destroy"
  shows "steps R P Q (after leaves destroy m)"
proof (rule stepsI)
  fix w r w' assume w: "running_as R w" "after leaves destroy m w = Some (r, w')"
  from w(2) obtain r1 w1 where m: "m w = Some (r1, w1)"
    and d: "if leaves r1 then \<exists>d. destroy w1 = Some (d, w') \<and> r = destroyed r1 d else r = r1 \<and> w' = w1"
    by (auto simp: after_outcome)
  note w1 = stepsD [OF assms(1) w(1) m]
  show "made P w w' \<and> (\<forall>x. r = Returned x \<longrightarrow> running_as Q w')"
  proof (cases "leaves r1")
    case True
    with d obtain d where d: "destroy w1 = Some (d, w')" "r = destroyed r1 d" by auto
    have "made P w1 w'" using callsD [OF assms(2) [of UNIV] _ d(1)] by simp
    moreover have "running_as Q w'" if "r = Returned x" for x
    proof -
      from that d(2) have "r1 = Returned x" "d = Returned ()"
        by (auto simp: destroyed_def split: outcome.splits if_splits)
      with w1 callsD [OF assms(2) [of Q] _ d(1)] show ?thesis by simp
    qed
    ultimately show ?thesis using w1 by (blast intro: made_trans)
  next
    case False
    with d w1 show ?thesis by simp
  qed
qed

lemma calls_scoped [calls_intro]:
  "only_calls R P mk \<Longrightarrow> (\<And>x. only_calls R P (destroy x)) \<Longrightarrow> (\<And>x. only_calls R P (body x)) \<Longrightarrow>
   only_calls R P (scoped mk destroy body)"
  by (simp add: scoped_def calls_bind calls_after)

lemma calls_unwinding [calls_intro]:
  "only_calls R P mk \<Longrightarrow> (\<And>x. only_calls R P (destroy x)) \<Longrightarrow> (\<And>x. only_calls R P (body x)) \<Longrightarrow>
   only_calls R P (unwinding mk destroy body)"
  by (simp add: unwinding_def calls_bind calls_after by_exception_leaves)

lemma steps_scoped:
  "steps R P M mk \<Longrightarrow> (\<And>S x. only_calls S P (destroy x)) \<Longrightarrow> (\<And>x. steps M P Q (body x)) \<Longrightarrow>
   steps R P Q (scoped mk destroy body)"
  unfolding scoped_def by (rule steps_bind, assumption, rule steps_after) simp_all

lemma steps_unwinding:
  "steps R P M mk \<Longrightarrow> (\<And>S x. only_calls S P (destroy x)) \<Longrightarrow> (\<And>x. steps M P Q (body x)) \<Longrightarrow>
   steps R P Q (unwinding mk destroy body)"
  unfolding unwinding_def by (rule steps_bind, assumption, rule steps_after) simp_all

lemma calls_logged:
  "(\<And>c env. (c, env) \<in> R \<Longrightarrow> P call c) \<Longrightarrow> running_as R w \<Longrightarrow>
   made P w (logged call ret w) \<and> running_as R (logged call ret w)"
  by (simp add: running_as_def made_def)

lemma calls_sys_ret [calls_intro]: "(\<And>c env. (c, env) \<in> R \<Longrightarrow> P call c) \<Longrightarrow> only_calls R P (sys_ret call)"
  by (auto simp: only_calls_def sys_ret_def Let_def running_as_def made_def)

lemma calls_sys [calls_intro]: "(\<And>c env. (c, env) \<in> R \<Longrightarrow> P call c) \<Longrightarrow> only_calls R P (sys attempt call)"
  by (simp add: sys_def calls_intro)

lemma calls_noexcept [calls_intro]: "(\<And>c env. (c, env) \<in> R \<Longrightarrow> P call c) \<Longrightarrow> only_calls R P (sys_noexcept call)"
  by (simp add: sys_noexcept_def calls_intro)

lemma calls_if [calls_intro]:
  "(b \<Longrightarrow> only_calls R P m) \<Longrightarrow> (\<not> b \<Longrightarrow> only_calls R P n) \<Longrightarrow> only_calls R P (if b then m else n)"
  by simp

lemma calls_new_fd [calls_intro]: "(\<And>c env. (c, env) \<in> R \<Longrightarrow> P (Call_Cloexec n) c) \<Longrightarrow> only_calls R P (new_fd n)"
  by (simp add: new_fd_def calls_intro)

lemma calls_fd_destroy [calls_intro]: "(\<And>c env. (c, env) \<in> R \<Longrightarrow> P (Call_Close (fd_num fd)) c) \<Longrightarrow> only_calls R P (fd_destroy fd)"
  by (simp add: fd_destroy_def calls_intro)

text \<open>A child may end in any state: what it called is in the trace, and its scope is not the parent's.\<close>

lemma child_end_stays: "\<not> leaves_scope (child_end r)"
  by (simp add: child_end_def split: outcome.split)

lemma calls_fork [calls_intro]:
  assumes "\<And>c env. (c, env) \<in> R \<Longrightarrow> P (Call_Clone name ns) c" "steps R P UNIV procedure"
  shows "only_calls R P (sys_fork name procedure ns sig)"
proof (rule callsI)
  fix w r w' assume w: "running_as R w" "sys_fork name procedure ns sig w = Some (r, w')"
  define a where "a = sy_fork w (length (sy_trace w))"
  define w1 where "w1 = logged (Call_Clone name ns) (fa_clone a) w"
  have w1: "made P w w1 \<and> running_as R w1"
    unfolding w1_def using assms(1) w(1) by (rule calls_logged)
  let ?child = "bindS (liftS (SystemCall ''sigprocmask'' (fa_sigprocmask a))) (\<lambda>_. procedure)"
  have "w' = w1 \<or> (\<exists>r1. ?child w1 = Some (r1, w') \<and> r = child_end r1)"
    using w(2) unfolding sys_fork_def Let_def a_def [symmetric] w1_def [symmetric]
    by (auto split: sum.splits if_splits)
  moreover have "steps R P UNIV ?child"
    by (rule steps_bind [OF steps_same]) (rule calls_intro assms(2))+
  ultimately show "made P w w' \<and> (leaves_scope r \<longrightarrow> running_as R w')"
    using w1 child_end_stays by (auto intro: made_trans dest: stepsD)
qed

lemma ezexec_program:
  "ezexec k c env command search None = Inr ex \<Longrightarrow>
   ex = \<lparr>ex_path_search = search, ex_argv = map c_string command, ex_environ = env\<rparr> \<and>
   (k_geteuid k c = 0 \<or> k_getegid k c = 0 \<longrightarrow> env = None \<and> \<not> search)"
  by (auto simp: ezexec_def Let_def split: if_splits)

lemma calls_ezexec [calls_intro]:
  assumes "\<And>c env ex. (c, env) \<in> R \<Longrightarrow> ezexec k c env command search None = Inr ex \<Longrightarrow> P (Call_Exec ex) c"
  shows "only_calls R P (sys_ezexec k command search)"
proof (rule callsI)
  fix w r w' assume w: "running_as R w" "sys_ezexec k command search w = Some (r, w')"
  then consider "w' = w" | ex ret where "w' = logged (Call_Exec ex) ret w"
      "ezexec k (sy_ids w) (sy_environ w) command search None = Inr ex"
    by (auto simp: sys_ezexec_def Let_def split: sum.splits if_splits)
  then show "made P w w' \<and> (leaves_scope r \<longrightarrow> running_as R w')"
  proof cases
    case 1
    with w(1) show ?thesis by simp
  next
    case 2
    with w(1) assms [of "sy_ids w" "sy_environ w" ex] show ?thesis
      by (simp add: running_as_def made_def)
  qed
qed

lemma calls_run [calls_intro]:
  assumes "\<And>c env. (c, env) \<in> R \<Longrightarrow> P (Call_Run command) c"
    "\<And>name c env. (c, env) \<in> R \<Longrightarrow> P (Call_Clone name False) c"
    "\<And>c env ex. (c, env) \<in> R \<Longrightarrow> ezexec k c env command False None = Inr ex \<Longrightarrow> P (Call_Exec ex) c"
  shows "only_calls R P (sys_run k command)"
proof (rule callsI)
  fix w r w' assume w: "running_as R w" "sys_run k command w = Some (r, w')"
  define a where "a = sy_fork w (length (sy_trace w))"
  let ?child = "bindS (liftS (join command)) (\<lambda>name.
    bindS (sys_fork name (sys_ezexec k command False) False SIGHUP) (\<lambda>_. returnS ()))"
  have "w' = logged (Call_Run command) (fa_clone a) w \<or> ?child w = Some (r, w')"
    using w(2) unfolding sys_run_def Let_def a_def [symmetric]
    by (auto split: option.splits sum.splits ran.splits if_splits)
  moreover have "only_calls R P ?child" by (intro calls_intro) (blast intro: assms)+
  moreover have "made P w (logged (Call_Run command) ret w) \<and> running_as R (logged (Call_Run command) ret w)" for ret
    using assms(1) w(1) by (rule calls_logged)
  ultimately show "made P w w' \<and> (leaves_scope r \<longrightarrow> running_as R w')"
    using w(1) by (blast dest: callsD)
qed

lemma on_world_outcome:
  "on_world m w = Some (r, w') \<longleftrightarrow>
    (\<exists>e. m (sy_world w) = Some (Inl e) \<and> r = Thrown e \<and> w' = w) \<or>
    (\<exists>x v. m (sy_world w) = Some (Inr (x, v)) \<and> r = Returned x \<and> w' = w\<lparr>sy_world := v\<rparr>)"
proof (cases "m (sy_world w)")
  case (Some q)
  then show ?thesis by (cases q) (auto simp: on_world_def)
qed (simp add: on_world_def)

lemma calls_on_world [calls_intro]: "only_calls R P (on_world m)"
  by (auto simp: only_calls_def on_world_outcome running_as_def made_def)

lemma calls_child_destroy [calls_intro]: "only_calls R P (child_destroy p)"
  by (auto simp: only_calls_def child_destroy_def running_as_def made_def split: option.splits sum.splits)

section \<open>Objects of a scope\<close>

lemma destroyed_Returned [simp]: "destroyed r (Returned u) = r"
  by (simp add: destroyed_def)

lemma sys_noexcept_eval [sys_eval]:
  "sys_noexcept call w =
     Some (Returned (), logged call (sa_ret (sy_answer w (length (sy_trace w)) call)) w)"
  by (simp add: sys_noexcept_def bindS_def sys_ret_def Let_def)

lemma fd_destroy_eval [sys_eval]:
  "fd_destroy fd w =
     (let call = Call_Close (fd_num fd)
      in Some (Returned (), if fd_num fd < 0 then w
           else logged call (sa_ret (sy_answer w (length (sy_trace w)) call)) w))"
  by (simp add: fd_destroy_def sys_noexcept_eval Let_def)

lemma sys_write_frame:
  "sys_write buffer write_all fd w = Some (r, w') \<Longrightarrow>
   sy_ids w' = sy_ids w \<and> sy_environ w' = sy_environ w \<and> sy_trace w' = sy_trace w"
proof (induction buffer write_all fd w arbitrary: r w' rule: sys_write.induct)
  case (1 buffer write_all fd w)
  note eq = "1.prems" [unfolded sys_write.simps [of buffer write_all fd w]]
  show ?case
  proof (cases "fd_write_some buffer fd (sy_world w)")
    case (Inl e)
    with eq show ?thesis by auto
  next
    case (Inr q)
    show ?thesis
    proof (cases "write_all \<and> fst q \<noteq> []")
      case True
      with eq Inr have "sys_write (fst q) write_all (fst (snd q)) (w\<lparr>sy_world := snd (snd q)\<rparr>) = Some (r, w')"
        by (simp add: Let_def)
      from "1.IH" [OF Inr refl True this] show ?thesis by simp
    next
      case False
      with eq Inr have "w' = w\<lparr>sy_world := snd (snd q)\<rparr>" by (simp add: Let_def split: if_splits)
      then show ?thesis by simp
    qed
  qed
qed

lemma calls_write [calls_intro]: "only_calls R P (sys_write buffer write_all fd)"
  by (rule callsI, drule sys_write_frame) (simp add: running_as_def made_def)

text \<open>A write that returns is that of \<open>Kernel\<close>.\<close>

lemma sys_write_Returned:
  "sys_write buffer write_all fd w = Some (Returned fd', w') \<longleftrightarrow>
    (\<exists>rest ww. fd_write buffer write_all fd (sy_world w) = Inr (rest, fd', ww) \<and> w' = w\<lparr>sy_world := ww\<rparr>)"
proof (induction buffer write_all fd w rule: sys_write.induct)
  case (1 buffer write_all fd w)
  show ?case
  proof (cases "fd_write_some buffer fd (sy_world w)")
    case (Inl e)
    then show ?thesis by (simp add: sys_write.simps [of buffer] fd_write.simps [of buffer])
  next
    case (Inr r)
    show ?thesis
    proof (cases "write_all \<and> fst r \<noteq> []")
      case True
      with "1.IH" [OF Inr refl True] Inr show ?thesis
        by (simp add: sys_write.simps [of buffer] fd_write.simps [of buffer] Let_def)
    next
      case False
      obtain rest fd1 w1 where "r = (rest, fd1, w1)" by (cases r)
      with False Inr show ?thesis
        by (auto simp: sys_write.simps [of buffer] fd_write.simps [of buffer] Let_def)
    qed
  qed
qed

text \<open>
  The commands run, in order. \<open>run\<close> comes back, with a value or an exception, in the parent only.
\<close>

fun command_of :: "sys_call \<Rightarrow> string list list" where
  "command_of (Call_Run command) = [command]"
| "command_of _ = []"

definition commands_run :: "'k sys_world \<Rightarrow> string list list" where
  "commands_run w = concat (map (command_of \<circ> fst) (sy_trace w))"

lemma commands_run_logged [simp]: "commands_run (logged call ret w) = commands_run w @ command_of call"
  by (simp add: commands_run_def)

lemma made_no_commands: "made (\<lambda>call c. command_of call = []) w w' \<Longrightarrow> commands_run w' = commands_run w"
  by (fastforce simp: made_def commands_run_def concat_eq_Nil_conv)

lemma fork_child_stays:
  assumes "do_clone (fa_stat a) (fa_nlink a) (fa_clone a) = Inr 0" "a = sy_fork w (length (sy_trace w))"
    and "bindS (sys_fork name procedure ns sig) f w = Some (r, w')"
  shows "\<not> leaves_scope r"
proof -
  from assms(3) obtain r1 w1 where r1: "sys_fork name procedure ns sig w = Some (r1, w1)"
    "bindS (\<lambda>w. Some (r1, w1)) f w = Some (r, w')"
    by (auto simp: bindS_def split: option.splits)
  have "\<not> leaves_scope r1" using r1(1) assms(1,2) child_end_stays
    by (auto simp: sys_fork_def Let_def)
  with r1(2) show ?thesis by (auto simp: bindS_outcome)
qed

lemma sys_run_leaves:
  assumes "sys_run k command w = Some (r, w')" "leaves_scope r" "command \<noteq> []"
  shows "commands_run w' = commands_run w @ [command]" "sy_pid w' = sy_pid w"
    "running_as R w \<Longrightarrow> running_as R w'" "r = Returned () \<or> (\<exists>e. r = Thrown e \<and> caught e)"
proof -
  define a where "a = sy_fork w (length (sy_trace w))"
  have "do_clone (fa_stat a) (fa_nlink a) (fa_clone a) \<noteq> Inr 0"
  proof
    assume child: "do_clone (fa_stat a) (fa_nlink a) (fa_clone a) = Inr 0"
    obtain name where name: "join command = Inr name" using assms(3) by (cases command) (auto simp: join_def)
    from assms(1) child have
      "bindS (sys_fork name (sys_ezexec k command False) False SIGHUP) (\<lambda>_. returnS ()) w = Some (r, w')"
      by (simp add: sys_run_def Let_def name flip: a_def)
    with child have "\<not> leaves_scope r" by (intro fork_child_stays) (simp_all flip: a_def)
    with assms(2) show False by simp
  qed
  then have "w' = logged (Call_Run command) (fa_clone a) w \<and> (r = Returned () \<or> (\<exists>e. r = Thrown e))"
    using assms(1,2) unfolding sys_run_def Let_def a_def [symmetric]
    by (auto split: option.splits sum.splits ran.splits)
  with assms(2) show "commands_run w' = commands_run w @ [command]" "sy_pid w' = sy_pid w"
    "running_as R w \<Longrightarrow> running_as R w'" "r = Returned () \<or> (\<exists>e. r = Thrown e \<and> caught e)"
    by (auto simp: running_as_def)
qed

text \<open>The parent's side of a fork is \<open>ChildProcess\<close>'s.\<close>

lemma sys_fork_parent:
  assumes "sys_fork name procedure ns sig w = Some (Returned p, w')"
  shows "\<exists>a. ChildProcess name None sig (fa_stat a) (fa_nlink a) (fa_clone a) (fa_sigprocmask a) =
      Some (Inr (In_Parent p)) \<and> a = sy_fork w (length (sy_trace w)) \<and> fa_clone a \<noteq> 0 \<and>
    w' = logged (Call_Clone name ns) (fa_clone a) w"
  using assms
  by (auto simp: sys_fork_def Let_def ChildProcess_def child_end_def do_clone_def SystemCall_def
      split: sum.splits if_splits outcome.splits)

section \<open>A kernel that answers\<close>

text \<open>For the concrete runs of the development: every call succeeds, every command exits with 0.\<close>

definition idle_world :: world where
  "idle_world = \<lparr>w_clock = (\<lambda>n. (0, 0, 0)), w_clock_calls = 0, w_initial = None,
     w_write = (\<lambda>n c. int c), w_write_calls = 0, w_sent = [],
     w_read = (\<lambda>fd n. (0, [])), w_read_calls = 0, w_received = [], w_euid = 7,
     w_egid = 7, w_files = (\<lambda>f. None), w_creatable = (\<lambda>f. True)\<rparr>"

definition obliging_fork :: fork_answer where
  "obliging_fork = \<lparr>fa_stat = 0, fa_nlink = 3, fa_clone = 100, fa_sigprocmask = 0,
     fa_procs = \<lparr>pw_waitid = (\<lambda>_ _ _. (0, \<lparr>si_pid = 100, si_signo = SIGCHLD, si_code = CLD_EXITED, si_status = 0\<rparr>)),
       pw_waitids = 0, pw_kill = (\<lambda>_. 0), pw_kills = 0, pw_killed = [], pw_raise = (\<lambda>_. 0), pw_raised = []\<rparr>\<rparr>"

fun obliging_ret :: "sys_call \<Rightarrow> int" where
  "obliging_ret (Call_Socket _ _) = 5"
| "obliging_ret (Call_Accept _) = 6"
| "obliging_ret (Call_Open _) = 7"
| "obliging_ret (Call_Mkstemp _) = 8"
| "obliging_ret (Call_Sendto _ _ s) = int (length s)"
| "obliging_ret (Call_Send _ s) = int (length s)"
| "obliging_ret _ = 0"

definition obliging :: "(sys_call \<Rightarrow> sys_answer \<Rightarrow> sys_answer) \<Rightarrow> 'k \<Rightarrow> world \<Rightarrow> 'k sys_world" where
  \<comment> \<open>the first argument adds what a call writes to its out-parameters\<close>
  "obliging out c w = \<lparr>
     sy_answer = (\<lambda>_ call. out call \<lparr>sa_ret = obliging_ret call, sa_data = [], sa_addr = [],
       sa_pair = (9, 10), sa_control = None, sa_truncated = False\<rparr>),
     sy_fork = (\<lambda>_. obliging_fork), sy_trace = [], sy_ids = c, sy_pid = 42, sy_environ = None,
     sy_world = w, sy_procs = fa_procs obliging_fork\<rparr>"

lemma obliging_fields [simp]:
  "sy_fork (obliging out c w) = (\<lambda>_. obliging_fork)" "sy_trace (obliging out c w) = []"
  "sy_ids (obliging out c w) = c" "sy_pid (obliging out c w) = 42"
  "sy_environ (obliging out c w) = None" "sy_world (obliging out c w) = w"
  by (simp_all add: obliging_def)

lemma sys_run_obliging:
  assumes "sy_fork w (length (sy_trace w)) = obliging_fork" "command \<noteq> []"
  shows "sys_run k command w = Some (Returned (), logged (Call_Run command) 100 w)"
proof -
  obtain name where name: "join command = Inr name" using assms(2) by (cases command) (auto simp: join_def)
  let ?p = "\<lparr>cp_name = name, cp_pid = 100, cp_running = True, cp_terminated = False, cp_exit_status = 0,
    cp_died_on_signal = False, cp_graceful_termination_signal = SIGHUP, cp_moved_away = False\<rparr>"
  have wait: "cp_wait False ?p (fa_procs obliging_fork) =
      Inr (?p\<lparr>cp_terminated := True\<rparr>, (fa_procs obliging_fork)\<lparr>pw_waitids := 1\<rparr>)"
    by (simp add: obliging_fork_def child_defs change_state_def cld_codes)
  have "run_wait (?p\<lparr>cp_terminated := True\<rparr>) pw = Some (Inr (?p\<lparr>cp_terminated := True\<rparr>, pw))" for pw
    by (subst run_wait.simps) simp
  with wait have "run_wait ?p (fa_procs obliging_fork) =
      Some (Inr (?p\<lparr>cp_terminated := True\<rparr>, (fa_procs obliging_fork)\<lparr>pw_waitids := 1\<rparr>))"
    by (subst run_wait.simps) simp
  then have "run command None 0 3 100 0 (fa_procs obliging_fork) =
      Some (Inr (Ran ((fa_procs obliging_fork)\<lparr>pw_waitids := 1\<rparr>)))"
    by (simp add: run_def name ChildProcess_def do_clone_def)
  then show ?thesis using assms(1) by (simp add: sys_run_def Let_def do_clone_def obliging_fork_def)
qed

end
