(* ===== verification/Sockets.thy ===== *)
theory Sockets
  imports Main Prelude Kernel Addresses Syscalls
begin

text \<open>
  \<open>src/util/socket.cc/.hh\<close> and \<open>src/util/socketpair.cc/.hh\<close>: network sockets, and the pair of Unix
  sockets over which one process hands a descriptor to another. A socket is its \<open>file_descriptor\<close>;
  an operation returns it with its counters moved on.
\<close>

section \<open>Numbers of the kernel's interface\<close>

definition AF_UNIX :: int where "AF_UNIX = 1"
definition AF_INET :: int where "AF_INET = 2"
definition SOCK_STREAM :: int where "SOCK_STREAM = 1"
definition SOCK_DGRAM :: int where "SOCK_DGRAM = 2"
definition SOL_IP :: int where "SOL_IP = 0"
definition SOL_SOCKET :: int where "SOL_SOCKET = 1"
definition SO_REUSEADDR :: int where "SO_REUSEADDR = 2"
definition SO_TYPE :: int where "SO_TYPE = 3"
definition SO_TIMESTAMPNS :: int where "SO_TIMESTAMPNS = 35"
definition SO_DOMAIN :: int where "SO_DOMAIN = 39"
definition SO_ORIGINAL_DST :: int where "SO_ORIGINAL_DST = 80"
definition SCM_RIGHTS :: int where "SCM_RIGHTS = 1"

definition CMSG_LEN_INT :: nat where
  \<comment> \<open>\<open>CMSG_LEN ( sizeof( int ) )\<close>: the header's 16 bytes and the number's 4\<close>
  "CMSG_LEN_INT = 20"

definition CMSG_SPACE_INT :: nat where
  \<comment> \<open>\<open>CMSG_SPACE ( sizeof( int ) )\<close>: the same, aligned to 8 bytes\<close>
  "CMSG_SPACE_INT = 24"

section \<open>Socket\<close>

definition Socket :: "int \<Rightarrow> int \<Rightarrow> ('k, file_descriptor) sys" where
  "Socket domain type = bindS (sys ''socket'' (Call_Socket domain type)) (\<lambda>a. new_fd (sa_ret a))"

definition int_value :: "string \<Rightarrow> int" where
  \<comment> \<open>the \<open>int\<close> whose four bytes these are, the least significant first\<close>
  "int_value s = sint (of_nat (\<Sum>i \<leftarrow> [0..<4]. of_char (s ! i) * 256 ^ i) :: i32)"

definition getsockopt :: "int \<Rightarrow> int \<Rightarrow> file_descriptor \<Rightarrow> ('k, string) sys" where
  \<comment> \<open>the bytes written to \<open>option_value\<close>; their number is the value returned\<close>
  "getsockopt level option fd =
     bindS (sys ''getsockopt'' (Call_Getsockopt (fd_num fd) level option)) (\<lambda>a. returnS (sa_data a))"

definition setsockopt :: "int \<Rightarrow> int \<Rightarrow> i32 \<Rightarrow> file_descriptor \<Rightarrow> ('k, unit) sys" where
  "setsockopt level option option_value fd =
     bindS (sys ''setsockopt'' (Call_Setsockopt (fd_num fd) level option option_value)) (\<lambda>_. returnS ())"

definition Socket_from_fd :: "file_descriptor \<Rightarrow> int \<Rightarrow> int \<Rightarrow> ('k, file_descriptor) sys" where
  \<comment> \<open>an exception destroys the base object, the descriptor\<close>
  "Socket_from_fd fd domain type =
     unwinding (returnS fd) fd_destroy (\<lambda>fd.
       bindS (getsockopt SOL_SOCKET SO_DOMAIN fd) (\<lambda>v.
       if length v \<noteq> 4 \<or> int_value v \<noteq> domain then
         throwS (Runtime_Error ''socket domain mismatch'')
       else
         bindS (getsockopt SOL_SOCKET SO_TYPE fd) (\<lambda>v.
         if length v \<noteq> 4 \<or> int_value v \<noteq> type then
           throwS (Runtime_Error ''socket type mismatch'')
         else returnS fd)))"

definition get_address :: "string \<Rightarrow> (int \<Rightarrow> sys_call) \<Rightarrow> file_descriptor \<Rightarrow> ('k, address) sys" where
  "get_address name_of_function function fd =
     bindS (sys name_of_function (function (fd_num fd))) (\<lambda>a.
       liftS (Address_sockaddr (sa_addr a) (length (sa_addr a))))"

definition local_address :: "file_descriptor \<Rightarrow> ('k, address) sys" where
  "local_address = get_address ''getsockname'' Call_Getsockname"

definition peer_address :: "file_descriptor \<Rightarrow> ('k, address) sys" where
  "peer_address = get_address ''getpeername'' Call_Getpeername"

definition socket_bind :: "address \<Rightarrow> file_descriptor \<Rightarrow> ('k, unit) sys" where
  "socket_bind a fd = bindS (sys ''bind'' (Call_Bind (fd_num fd) a)) (\<lambda>_. returnS ())"

definition socket_connect :: "address \<Rightarrow> file_descriptor \<Rightarrow> ('k, unit) sys" where
  "socket_connect a fd = bindS (sys ''connect'' (Call_Connect (fd_num fd) a)) (\<lambda>_. returnS ())"

definition set_reuseaddr :: "file_descriptor \<Rightarrow> ('k, unit) sys" where
  "set_reuseaddr = setsockopt SOL_SOCKET SO_REUSEADDR 1"

section \<open>UDPSocket\<close>

definition UDPSocket :: "('k, file_descriptor) sys" where
  "UDPSocket = Socket AF_INET SOCK_DGRAM"

definition udp_sendto :: "address \<Rightarrow> string \<Rightarrow> file_descriptor \<Rightarrow> ('k, file_descriptor) sys" where
  "udp_sendto destination payload fd =
     bindS (sys ''sendto'' (Call_Sendto (fd_num fd) destination payload)) (\<lambda>a.
       let fd = register_write fd
       in if sa_ret a \<noteq> int (length payload) then
            throwS (Runtime_Error ''datagram payload too big for sendto()'')
          else returnS fd)"

definition udp_send :: "string \<Rightarrow> file_descriptor \<Rightarrow> ('k, file_descriptor) sys" where
  "udp_send payload fd =
     bindS (sys ''send'' (Call_Send (fd_num fd) payload)) (\<lambda>a.
       let fd = register_write fd
       in if sa_ret a \<noteq> int (length payload) then
            throwS (Runtime_Error ''datagram payload too big for send()'')
          else returnS fd)"

definition set_timestamps :: "file_descriptor \<Rightarrow> ('k, unit) sys" where
  "set_timestamps = setsockopt SOL_SOCKET SO_TIMESTAMPNS 1"

definition RECEIVE_MTU :: nat where "RECEIVE_MTU = 65536"

definition udp_recvfrom :: "file_descriptor \<Rightarrow> ('k, (address \<times> string) \<times> file_descriptor) sys" where
  \<comment> \<open>with \<open>MSG_TRUNC\<close> the value returned is the datagram's length, whatever fits the buffer\<close>
  "udp_recvfrom fd =
     bindS (sys ''recvfrom'' (Call_Recvfrom (fd_num fd) RECEIVE_MTU)) (\<lambda>a.
       if int RECEIVE_MTU < sa_ret a then throwS (Runtime_Error ''recvfrom (oversized datagram)'')
       else
         let fd = register_read fd
         in bindS (liftS (Address_sockaddr (sa_addr a) (length (sa_addr a)))) (\<lambda>source.
              returnS ((source, take (nat (sa_ret a)) (sa_data a)), fd)))"

section \<open>TCPSocket\<close>

definition TCPSocket :: "('k, file_descriptor) sys" where
  "TCPSocket = Socket AF_INET SOCK_STREAM"

definition tcp_listen :: "i32 \<Rightarrow> file_descriptor \<Rightarrow> ('k, unit) sys" where
  "tcp_listen backlog fd = bindS (sys ''listen'' (Call_Listen (fd_num fd) backlog)) (\<lambda>_. returnS ())"

definition tcp_accept :: "file_descriptor \<Rightarrow> ('k, file_descriptor \<times> file_descriptor) sys" where
  \<comment> \<open>the connection and the listening socket\<close>
  "tcp_accept fd =
     (let fd = register_read fd
      in bindS (sys ''accept'' (Call_Accept (fd_num fd))) (\<lambda>a.
         bindS (new_fd (sa_ret a)) (\<lambda>connection.
         bindS (Socket_from_fd connection AF_INET SOCK_STREAM) (\<lambda>connection.
           returnS (connection, fd)))))"

definition original_dest :: "file_descriptor \<Rightarrow> ('k, address) sys" where
  "original_dest fd =
     bindS (getsockopt SOL_IP SO_ORIGINAL_DST fd) (\<lambda>v. liftS (Address_sockaddr v (length v)))"

definition get_destination :: "file_descriptor \<Rightarrow> ('k, address) sys" where
  "get_destination = get_address ''getpeername'' Call_Getpeername"

definition sys_replace_fd :: "int \<Rightarrow> file_descriptor \<Rightarrow> ('k, file_descriptor) sys" where
  \<comment> \<open>\<open>FileDescriptor::replace_fd\<close> with its calls\<close>
  "sys_replace_fd new fd =
     (if fd_num fd < 0 then liftS (replace_fd new 0 fd)
      else
        bindS (sys_noexcept (Call_Close (fd_num fd))) (\<lambda>_.
          if new \<le> 2 then liftS (replace_fd new 0 fd)
          else bindS (sys_ret (Call_Cloexec new)) (\<lambda>a. liftS (replace_fd new (sa_ret a) fd))))"

definition recreate_socket :: "file_descriptor \<Rightarrow> ('k, file_descriptor) sys" where
  "recreate_socket fd =
     bindS (sys ''socket'' (Call_Socket AF_INET SOCK_STREAM)) (\<lambda>a. sys_replace_fd (sa_ret a) fd)"

section \<open>UnixDomainSocket\<close>

definition unix_make_pair :: "('k, file_descriptor \<times> file_descriptor) sys" where
  \<comment> \<open>C++ leaves the order of the two constructions open; here the first end comes first\<close>
  "unix_make_pair =
     bindS (sys ''socketpair'' Call_Socketpair) (\<lambda>a.
       unwinding (new_fd (fst (sa_pair a))) fd_destroy (\<lambda>p0.
         bindS (new_fd (snd (sa_pair a))) (\<lambda>p1. returnS (p0, p1))))"

definition send_fd :: "file_descriptor \<Rightarrow> file_descriptor \<Rightarrow> ('k, file_descriptor) sys" where
  "send_fd fd sock =
     (let control_message = \<lparr>cm_level = SOL_SOCKET, cm_type = SCM_RIGHTS, cm_len = CMSG_LEN_INT,
            cm_fd = fd_num fd\<rparr>
      in bindS (sys ''sendmsg'' (Call_Sendmsg (fd_num sock) control_message)) (\<lambda>a.
           if sa_ret a \<noteq> 0 then throwS (Runtime_Error ''send_fd: sendmsg unexpectedly sent data'')
           else returnS (register_write sock)))"

definition recv_fd :: "file_descriptor \<Rightarrow> ('k, file_descriptor \<times> file_descriptor) sys" where
  \<comment> \<open>the descriptor received and the socket\<close>
  "recv_fd sock =
     bindS (sys ''recvmsg'' (Call_Recvmsg (fd_num sock) CMSG_SPACE_INT)) (\<lambda>a.
       if sa_ret a \<noteq> 0 then throwS (Runtime_Error ''recv_fd: recvmsg unexpectedly received data'')
       else if sa_truncated a then throwS (Runtime_Error ''recvmsg: control data was truncated'')
       else
         case sa_control a of
           None \<Rightarrow> throwS (Runtime_Error ''recvmsg: unexpected control message'')
         | Some m \<Rightarrow>
             if cm_level m \<noteq> SOL_SOCKET \<or> cm_type m \<noteq> SCM_RIGHTS then
               throwS (Runtime_Error ''recvmsg: unexpected control message'')
             else if cm_len m \<noteq> CMSG_LEN_INT then
               throwS (Runtime_Error ''recvmsg: unexpected control message length'')
             else bindS (new_fd (cm_fd m)) (\<lambda>fd. returnS (fd, register_read sock)))"

section \<open>What the operations do\<close>

lemma new_fd_outcome:
  "new_fd n w = Some (r, w') \<longleftrightarrow>
    (if n \<le> 2 then r = Thrown (Unix_Error ''FileDescriptor: fd <= 2'') \<and> w' = w
     else \<exists>a. a = sy_answer w (length (sy_trace w)) (Call_Cloexec n) \<and>
       w' = logged (Call_Cloexec n) (sa_ret a) w \<and>
       r = (if sa_ret a < 0 then Thrown (Unix_Error ''fcntl FD_CLOEXEC'')
            else Returned \<lparr>fd_num = n, fd_eof = False, fd_read_count = 0, fd_write_count = 0\<rparr>))"
  by (auto simp: new_fd_def FileDescriptor_def bindS_def sys_ret_def Let_def SystemCall_def)

text \<open>
  Handing over a descriptor: the message that \<open>send_fd\<close> sends, delivered with the number the kernel
  gives it in the receiving process, makes \<open>recv_fd\<close> return a descriptor of that number.
\<close>

definition delivers :: "cmsg \<Rightarrow> int \<Rightarrow> file_descriptor \<Rightarrow> 'k sys_world \<Rightarrow> bool" where
  "delivers m n sock w \<longleftrightarrow>
     (let call = Call_Recvmsg (fd_num sock) CMSG_SPACE_INT; a = sy_answer w (length (sy_trace w)) call
      in sa_ret a = 0 \<and> \<not> sa_truncated a \<and> sa_control a = Some (m\<lparr>cm_fd := n\<rparr>)) \<and>
     0 \<le> sa_ret (sy_answer w (Suc (length (sy_trace w))) (Call_Cloexec n))"

lemma fd_handed_over:
  assumes "send_fd fd sock w = Some (Returned sock', w')"
  shows "\<exists>m. sy_trace w' = sy_trace w @ [(Call_Sendmsg (fd_num sock) m, 0, sy_ids w)] \<and>
    cm_fd m = fd_num fd \<and>
    (\<forall>n peer v. 2 < n \<longrightarrow> delivers m n peer v \<longrightarrow>
      (\<exists>v'. recv_fd peer v = Some (Returned (\<lparr>fd_num = n, fd_eof = False, fd_read_count = 0,
         fd_write_count = 0\<rparr>, register_read peer), v')))"
proof -
  define m where "m = \<lparr>cm_level = SOL_SOCKET, cm_type = SCM_RIGHTS, cm_len = CMSG_LEN_INT, cm_fd = fd_num fd\<rparr>"
  from assms have "sy_trace w' = sy_trace w @ [(Call_Sendmsg (fd_num sock) m, 0, sy_ids w)]"
    by (auto simp: send_fd_def Let_def bindS_outcome sys_eval_call m_def split: if_splits)
  moreover have "\<exists>v'. recv_fd peer v = Some (Returned (\<lparr>fd_num = n, fd_eof = False, fd_read_count = 0,
         fd_write_count = 0\<rparr>, register_read peer), v')" if "2 < n" "delivers m n peer v" for n peer v
  proof -
    let ?call = "Call_Recvmsg (fd_num peer) CMSG_SPACE_INT"
    define a where "a = sy_answer v (length (sy_trace v)) ?call"
    from that(2) have a: "sa_ret a = 0" "\<not> sa_truncated a" "sa_control a = Some (m\<lparr>cm_fd := n\<rparr>)"
      "0 \<le> sa_ret (sy_answer v (Suc (length (sy_trace v))) (Call_Cloexec n))"
      by (simp_all add: delivers_def Let_def a_def)
    let ?v = "logged ?call 0 v"
    have "new_fd n ?v = Some (Returned \<lparr>fd_num = n, fd_eof = False, fd_read_count = 0, fd_write_count = 0\<rparr>,
        logged (Call_Cloexec n) (sa_ret (sy_answer v (Suc (length (sy_trace v))) (Call_Cloexec n))) ?v)"
      using that(1) a(4) by (simp add: new_fd_outcome)
    moreover have "sys ''recvmsg'' ?call v = Some (Returned a, ?v)"
      using a(1) by (simp add: sys_eval_call Let_def flip: a_def)
    ultimately show ?thesis using a by (simp add: recv_fd_def bindS_def m_def)
  qed
  ultimately show ?thesis by (auto simp: m_def)
qed

text \<open>
  An accepted connection is a TCP socket over IPv4: any other descriptor, and one that cannot be
  examined, is closed again and refused.
\<close>

lemma getsockopt_outcome:
  "getsockopt level opt fd w = Some (r, w') \<longleftrightarrow>
    (let call = Call_Getsockopt (fd_num fd) level opt; a = sy_answer w (length (sy_trace w)) call
     in w' = logged call (sa_ret a) w \<and>
       r = (if sa_ret a < 0 then Thrown (Unix_Error ''getsockopt'') else Returned (sa_data a)))"
  by (auto simp: getsockopt_def bindS_def sys_eval_call Let_def)

lemma fd_destroy_trace:
  "fd_destroy fd w = Some (u, w') \<Longrightarrow> 0 \<le> fd_num fd \<Longrightarrow>
   \<exists>ret. w' = logged (Call_Close (fd_num fd)) ret w"
  by (auto simp: fd_destroy_eval Let_def)

lemma socket_checked:
  assumes "Socket_from_fd fd domain type w = Some (r, w')" "0 \<le> fd_num fd"
  shows "r = Returned fd \<and> (\<exists>d t. length d = 4 \<and> int_value d = domain \<and> length t = 4 \<and> int_value t = type) \<or>
    r \<in> {Thrown (Unix_Error ''getsockopt''), Thrown (Runtime_Error ''socket domain mismatch''),
         Thrown (Runtime_Error ''socket type mismatch'')} \<and>
    (\<exists>ret. last (sy_trace w') = (Call_Close (fd_num fd), ret, sy_ids w))"
proof -
  let ?check = "\<lambda>fd. bindS (getsockopt SOL_SOCKET SO_DOMAIN fd) (\<lambda>v.
       if length v \<noteq> 4 \<or> int_value v \<noteq> domain then
         throwS (Runtime_Error ''socket domain mismatch'')
       else
         bindS (getsockopt SOL_SOCKET SO_TYPE fd) (\<lambda>v.
         if length v \<noteq> 4 \<or> int_value v \<noteq> type then
           throwS (Runtime_Error ''socket type mismatch'')
         else returnS fd))"
  from assms(1) obtain w1 where w1: "?check fd w = Some (r, w1)"
    "if by_exception r then \<exists>u. fd_destroy fd w1 = Some (u, w') else w' = w1"
    by (auto simp: Socket_from_fd_def unwinding_def after_outcome fd_destroy_eval Let_def split: if_splits)
  have ids: "sy_ids w1 = sy_ids w"
    using w1(1) by (auto simp: bindS_outcome getsockopt_outcome Let_def split: if_splits)
  from w1(1) consider
      (good) "r = Returned fd" "\<exists>d t. length d = 4 \<and> int_value d = domain \<and> length t = 4 \<and> int_value t = type"
    | (bad) e where "r = Thrown e" "caught e"
        "r \<in> {Thrown (Unix_Error ''getsockopt''), Thrown (Runtime_Error ''socket domain mismatch''),
         Thrown (Runtime_Error ''socket type mismatch'')}"
    by (auto simp: bindS_outcome getsockopt_outcome Let_def caught_def split: if_splits)
  then show ?thesis
  proof cases
    case good
    then show ?thesis by simp
  next
    case bad
    with w1(2) obtain u where "fd_destroy fd w1 = Some (u, w')" by auto
    from fd_destroy_trace [OF this assms(2)] ids bad show ?thesis by auto
  qed
qed

end
