(* ===== verification/Net_Setup.thy ===== *)
theory Net_Setup
  imports Main Prelude Kernel Child_Process System_Runner Addresses Syscalls Sockets
begin

text \<open>
  What the program sets up around the emulated link: network devices (\<open>src/util/netdevice.cc\<close>),
  address translation (\<open>src/util/nat.cc\<close>), temporary files (\<open>src/util/temp_file.cc\<close>), name servers
  (\<open>src/util/util.cc\<close>) and dnsmasq (\<open>src/util/dns_server.cc\<close>). The paths of the programs it runs come
  from the generated \<open>config.h\<close> and are arguments.
\<close>

section \<open>netdevice.cc\<close>

definition TUNSETIFF :: int where "TUNSETIFF = 0x400454ca"
definition SIOCADDRT :: int where "SIOCADDRT = 0x890b"
definition SIOCSIFFLAGS :: int where "SIOCSIFFLAGS = 0x8914"
definition SIOCSIFADDR :: int where "SIOCSIFADDR = 0x8916"
definition SIOCSIFDSTADDR :: int where "SIOCSIFDSTADDR = 0x8918"
definition SIOCSIFNETMASK :: int where "SIOCSIFNETMASK = 0x891c"
definition SIOCSIFMTU :: int where "SIOCSIFMTU = 0x8922"
definition IFF_TUN :: u16 where "IFF_TUN = 1"
definition IFF_UP :: u16 where "IFF_UP = 1"
definition IFNAMSIZ :: nat where "IFNAMSIZ = 16"

definition to_sockaddr :: "address \<Rightarrow> string" where
  \<comment> \<open>a \<open>sockaddr\<close> has 16 bytes\<close>
  "to_sockaddr a = take 16 (ad_raw a)"

definition strncpy :: "nat \<Rightarrow> string \<Rightarrow> string" where
  \<comment> \<open>exactly \<open>n\<close> bytes: padded with NUL, or cut without one\<close>
  "strncpy n s = take n (c_string s) @ replicate (n - length (c_string s)) (CHR 0x00)"

text \<open>The adjustment of the request, the last argument, may throw; it is made before the call.\<close>

definition interface_ioctl_fd :: "file_descriptor \<Rightarrow> int \<Rightarrow> string \<Rightarrow> ifr_data res \<Rightarrow> ('k, unit) sys" where
  "interface_ioctl_fd fd request name ifr_adjustment =
     bindS (liftS ifr_adjustment) (\<lambda>d.
     bindS (sys (''ioctl '' @ name)
              (Call_Ioctl (fd_num fd) request \<lparr>ifr_name = strncpy IFNAMSIZ name, ifr_data = d\<rparr>)) (\<lambda>_.
       returnS ()))"

definition interface_ioctl :: "int \<Rightarrow> string \<Rightarrow> ifr_data res \<Rightarrow> ('k, unit) sys" where
  "interface_ioctl request name ifr_adjustment =
     scoped UDPSocket fd_destroy (\<lambda>temp. interface_ioctl_fd temp request name ifr_adjustment)"

definition assign_address :: "resolver \<Rightarrow> string \<Rightarrow> address \<Rightarrow> address \<Rightarrow> ('k, unit) sys" where
  "assign_address gai device_name addr peer =
     bindS (interface_ioctl SIOCSIFADDR device_name (Inr (Ifr_Addr (to_sockaddr addr)))) (\<lambda>_.
     bindS (interface_ioctl SIOCSIFDSTADDR device_name (Inr (Ifr_Addr (to_sockaddr peer)))) (\<lambda>_.
     bindS (interface_ioctl SIOCSIFNETMASK device_name
              (andThen (Address_numeric gai ''255.255.255.255'' 0) (\<lambda>a. Inr (Ifr_Netmask (to_sockaddr a))))) (\<lambda>_.
       interface_ioctl SIOCSIFFLAGS device_name (Inr (Ifr_Flags IFF_UP)))))"

definition TunDevice :: "resolver \<Rightarrow> string \<Rightarrow> address \<Rightarrow> address \<Rightarrow> ('k, file_descriptor) sys" where
  "TunDevice gai name addr peer =
     bindS (sys ''open /dev/net/tun'' (Call_Open ''/dev/net/tun'')) (\<lambda>a.
       unwinding (new_fd (sa_ret a)) fd_destroy (\<lambda>fd.
         bindS (interface_ioctl_fd fd TUNSETIFF name (Inr (Ifr_Flags IFF_TUN))) (\<lambda>_.
         bindS (assign_address gai name addr peer) (\<lambda>_. returnS fd))))"

definition name_check :: "string \<Rightarrow> unit res" where
  "name_check str =
     (if take 5 str \<noteq> ''veth-'' then
        Inl (Runtime_Error (str @ '': name of veth device must start with ''
          @ [CHR 0x22] @ ''veth-'' @ [CHR 0x22]))
      else Inr ())"

record virtual_ethernet_pair =
  ve_name :: string
  ve_kernel_will_destroy :: bool

definition VirtualEthernetPair :: "'k id_calls \<Rightarrow> string \<Rightarrow> string \<Rightarrow> string \<Rightarrow> ('k, virtual_ethernet_pair) sys" where
  "VirtualEthernetPair k IP outside_name inside_name =
     bindS (liftS (name_check outside_name)) (\<lambda>_.
     bindS (liftS (name_check inside_name)) (\<lambda>_.
     bindS (sys_run k [IP, ''link'', ''add'', outside_name, ''type'', ''veth'', ''peer'', ''name'', inside_name]) (\<lambda>_.
       returnS \<lparr>ve_name = outside_name, ve_kernel_will_destroy = False\<rparr>)))"

definition set_kernel_will_destroy :: "virtual_ethernet_pair \<Rightarrow> virtual_ethernet_pair" where
  "set_kernel_will_destroy p = p\<lparr>ve_kernel_will_destroy := True\<rparr>"

definition veth_destroy :: "'k id_calls \<Rightarrow> string \<Rightarrow> virtual_ethernet_pair \<Rightarrow> ('k, unit) sys" where
  "veth_destroy k IP p =
     (if ve_kernel_will_destroy p then returnS ()
      else catchS (sys_run k [IP, ''link'', ''del'', ve_name p]) (\<lambda>e. returnS ()))"

section \<open>nat.cc\<close>

text \<open>A rule is its arguments.\<close>

definition NATRule :: "'k id_calls \<Rightarrow> string \<Rightarrow> string list \<Rightarrow> ('k, string list) sys" where
  "NATRule k IPTABLES s_args =
     bindS (sys_run k ([IPTABLES, ''-w'', ''-t'', ''nat'', ''-A''] @ s_args)) (\<lambda>_. returnS s_args)"

definition natrule_destroy :: "'k id_calls \<Rightarrow> string \<Rightarrow> string list \<Rightarrow> ('k, unit) sys" where
  "natrule_destroy k IPTABLES arguments =
     catchS (sys_run k ([IPTABLES, ''-w'', ''-t'', ''nat'', ''-D''] @ arguments)) (\<lambda>e. returnS ())"

definition NAT :: "'k id_calls \<Rightarrow> string \<Rightarrow> address \<Rightarrow> ('k, string list \<times> string list) sys" where
  "NAT k IPTABLES ingress_addr =
     bindS (liftS (ad_ip ingress_addr)) (\<lambda>ip.
     bindS (getS sy_pid) (\<lambda>pid.
       unwinding
         (NATRule k IPTABLES [''PREROUTING'', ''-s'', ip, ''-j'', ''CONNMARK'', ''--set-mark'', dec pid])
         (natrule_destroy k IPTABLES)
         (\<lambda>pre.
           bindS (NATRule k IPTABLES [''POSTROUTING'', ''-j'', ''MASQUERADE'', ''-m'', ''connmark'', ''--mark'', dec pid]) (\<lambda>post.
             returnS (pre, post)))))"

definition nat_destroy :: "'k id_calls \<Rightarrow> string \<Rightarrow> string list \<times> string list \<Rightarrow> ('k, unit) sys" where
  \<comment> \<open>members are destroyed last one first\<close>
  "nat_destroy k IPTABLES n =
     bindS (natrule_destroy k IPTABLES (snd n)) (\<lambda>_. natrule_destroy k IPTABLES (fst n))"

definition DNAT :: "'k id_calls \<Rightarrow> string \<Rightarrow> address \<Rightarrow> string \<Rightarrow> ('k, string list) sys" where
  "DNAT k IPTABLES listener interface =
     bindS (liftS (ad_str '':'' listener)) (\<lambda>dest.
       NATRule k IPTABLES [''PREROUTING'', ''-p'', ''TCP'', ''-i'', interface, ''-j'', ''DNAT'', ''--to-destination'', dest])"

section \<open>temp_file.cc\<close>

record unique_file =
  uf_mutable_temp_filename :: string \<comment> \<open>with the final NUL\<close>
  uf_fd :: file_descriptor
  uf_moved_away :: bool

definition to_mutable :: "string \<Rightarrow> string" where
  "to_mutable str = str @ [CHR 0x00]"

definition UniqueFile :: "string \<Rightarrow> ('k, unique_file) sys" where
  \<comment> \<open>\<open>mkstemp\<close> writes the name it has chosen back into the buffer\<close>
  "UniqueFile filename_template =
     (let buffer = to_mutable (filename_template @ ''.XXXXXX'')
      in bindS (sys ''mkstemp'' (Call_Mkstemp buffer)) (\<lambda>a.
         bindS (new_fd (sa_ret a)) (\<lambda>fd.
           returnS \<lparr>uf_mutable_temp_filename = sa_data a, uf_fd = fd, uf_moved_away = False\<rparr>)))"

definition uf_name :: "unique_file \<Rightarrow> string res" where
  "uf_name f =
     andThen (assertE (1 < length (uf_mutable_temp_filename f)) ''mutable_temp_filename_.size() > 1'') (\<lambda>_.
       Inr (butlast (uf_mutable_temp_filename f)))"

definition uf_write :: "string \<Rightarrow> unique_file \<Rightarrow> ('k, unique_file) sys" where
  "uf_write contents f =
     bindS (liftS (assertE (\<not> uf_moved_away f) ''not moved_away_'')) (\<lambda>_.
     bindS (sys_write contents True (uf_fd f)) (\<lambda>fd. returnS (f\<lparr>uf_fd := fd\<rparr>)))"

definition uf_move :: "unique_file \<Rightarrow> unique_file \<times> unique_file" where
  \<comment> \<open>the new object and what is left of the other\<close>
  "uf_move other =
     (\<lparr>uf_mutable_temp_filename = uf_mutable_temp_filename other, uf_fd = fst (fd_move (uf_fd other)),
       uf_moved_away = False\<rparr>,
      other\<lparr>uf_fd := snd (fd_move (uf_fd other)), uf_moved_away := True\<rparr>)"

definition tempfile_destroy :: "unique_file \<Rightarrow> ('k, unit) sys" where
  \<comment> \<open>\<open>~TempFile\<close>, then its member's destructor\<close>
  "tempfile_destroy f =
     bindS (if uf_moved_away f then returnS ()
            else catchS (bindS (liftS (uf_name f)) (\<lambda>name.
                   bindS (sys (''unlink '' @ name) (Call_Unlink (c_string name))) (\<lambda>_. returnS ())))
                   (\<lambda>e. returnS ())) (\<lambda>_.
       fd_destroy (uf_fd f))"

section \<open>Name servers\<close>

text \<open>The resolver's state after \<open>res_init\<close> is an argument: what it returned, and its list of
  \<open>sockaddr_in\<close>.\<close>

definition MAXNS :: nat where "MAXNS = 3"

definition first_nameserver :: "int \<Rightarrow> string list \<Rightarrow> address res" where
  "first_nameserver res_init nsaddr_list =
     andThen (SystemCall ''res_init'' res_init) (\<lambda>_. Address_in (hd nsaddr_list))"

definition all_nameservers :: "int \<Rightarrow> string list \<Rightarrow> address list res" where
  \<comment> \<open>those of the first \<open>MAXNS\<close> entries that have a port\<close>
  "all_nameservers res_init nsaddr_list =
     andThen (SystemCall ''res_init'' res_init) (\<lambda>_.
       foldr (\<lambda>sin r. andThen (Address_in sin) (\<lambda>a. andThen r (\<lambda>as. Inr (a # as))))
         (filter (\<lambda>sin. byte sin 2 \<noteq> 0 \<or> byte sin 3 \<noteq> 0) (take MAXNS nsaddr_list)) (Inr []))"

section \<open>dns_server.cc\<close>

text \<open>
  The loop that waits for dnsmasq to listen. The two writes of a round are one \<open>try\<close>; the socket's
  counters are never read. Sleeping is not a call of the model.
\<close>

function dnsmasq_wait :: "u32 \<Rightarrow> file_descriptor \<Rightarrow> ('k, unit) sys" where
  "dnsmasq_wait attempts server w =
     (let attempts = attempts + 1
      in if 20 \<le> attempts then
           Some (Thrown (Runtime_Error (''dnsmasq: did not start after '' @ dec (unat attempts)
                   @ '' attempts'')), w)
         else
           (case bindS (sys_write ''x'' True server) (\<lambda>server. sys_write ''x'' True server) w of
              None \<Rightarrow> None
            | Some (r, w) \<Rightarrow>
                (case r of
                   Returned _ \<Rightarrow> Some (Returned (), w)
                 | Thrown e \<Rightarrow>
                     if caught e \<and> take 6 (exn_what e) = ''write:'' then dnsmasq_wait attempts server w
                     else Some (Thrown e, w)
                 | Exited n \<Rightarrow> Some (Exited n, w)
                 | Replaced ex \<Rightarrow> Some (Replaced ex, w))))"
  by pat_completeness auto
termination
proof (relation "measure (\<lambda>(attempts, _). if 20 \<le> unat attempts then 21 else 20 - unat attempts)", goal_cases)
  case 1
  then show ?case by simp
next
  case (2 attempts)
  then have "unat (attempts + 1) < 20" by (simp add: word_less_nat_alt not_le)
  moreover have "unat (attempts + 1) = unat attempts + 1" if "unat attempts < 20"
    using that by (subst unat_add_small) simp_all
  ultimately show ?case using 2 by (cases "unat attempts < 20") auto
qed

declare dnsmasq_wait.simps [simp del]

definition start_dnsmasq_args :: "'k id_calls \<Rightarrow> resolver \<Rightarrow> string list \<Rightarrow> ('k, child_process) sys" where
  \<comment> \<open>what the two functions share\<close>
  "start_dnsmasq_args k gai args =
     unwinding (sys_fork ''dnsmasq'' (sys_ezexec k args False) False SIGTERM) child_destroy (\<lambda>dnsmasq.
       scoped UDPSocket fd_destroy (\<lambda>server.
         bindS (liftS (Address_name gai ''0'' ''domain'')) (\<lambda>a.
         bindS (socket_connect a server) (\<lambda>_.
         bindS (dnsmasq_wait 0 server) (\<lambda>_. returnS dnsmasq)))))"

definition start_dnsmasq :: "'k id_calls \<Rightarrow> resolver \<Rightarrow> string \<Rightarrow> string list \<Rightarrow> ('k, child_process) sys" where
  "start_dnsmasq k gai DNSMASQ extra_arguments =
     start_dnsmasq_args k gai
       ([DNSMASQ, ''--keep-in-foreground'', ''--no-resolv'', ''--no-hosts'', ''-C'', ''/dev/null'']
        @ extra_arguments)"

definition start_dnsmasq_on :: "'k id_calls \<Rightarrow> resolver \<Rightarrow> string \<Rightarrow> string list \<Rightarrow> string \<Rightarrow> ('k, child_process) sys" where
  "start_dnsmasq_on k gai DNSMASQ extra_arguments nameserver_ip =
     start_dnsmasq_args k gai
       ([DNSMASQ, ''--keep-in-foreground'', ''--no-resolv'', ''--no-hosts'', ''-C'', ''/dev/null'',
         ''--listen-address'', nameserver_ip] @ extra_arguments)"

section \<open>The rules of address translation\<close>

text \<open>
  A rule is added and deleted by the same arguments. Whatever ends the deletion (a value, or the
  child's own end) is no exception.
\<close>

definition add_rule :: "string \<Rightarrow> string list \<Rightarrow> string list" where
  "add_rule IPTABLES args = [IPTABLES, ''-w'', ''-t'', ''nat'', ''-A''] @ args"

definition delete_rule :: "string \<Rightarrow> string list \<Rightarrow> string list" where
  "delete_rule IPTABLES args = [IPTABLES, ''-w'', ''-t'', ''nat'', ''-D''] @ args"

lemma natrule_leaves:
  assumes "NATRule k ipt args w = Some (r, w')" "leaves_scope r"
  shows "commands_run w' = commands_run w @ [add_rule ipt args]" "sy_pid w' = sy_pid w"
    "running_as R w \<Longrightarrow> running_as R w'"
    "r = Returned args \<or> (\<exists>e. r = Thrown e \<and> caught e)"
proof -
  let ?command = "[ipt, ''-w'', ''-t'', ''nat'', ''-A''] @ args"
  from assms obtain u where u: "sys_run k ?command w = Some (u, w')" "leaves_scope u"
    "u = Returned () \<longrightarrow> r = Returned args" "\<forall>e. u = Thrown e \<longrightarrow> r = Thrown e"
    by (auto simp: NATRule_def bindS_outcome)
  note run = sys_run_leaves [OF u(1,2)]
  show "commands_run w' = commands_run w @ [add_rule ipt args]" "sy_pid w' = sy_pid w"
    "running_as R w \<Longrightarrow> running_as R w'"
    "r = Returned args \<or> (\<exists>e. r = Thrown e \<and> caught e)"
    using run u(3,4) by (auto simp: add_rule_def)
qed

lemma natrule_destroy_leaves:
  assumes "natrule_destroy k ipt args w = Some (d, w')" "leaves_scope (destroyed r d)"
  shows "d = Returned ()" "commands_run w' = commands_run w @ [delete_rule ipt args]"
proof -
  let ?command = "[ipt, ''-w'', ''-t'', ''nat'', ''-D''] @ args"
  from assms(1) obtain u where u: "sys_run k ?command w = Some (u, w')"
    "d = (if \<exists>e. u = Thrown e \<and> caught e then Returned () else u)"
    by (auto simp: natrule_destroy_def catchS_def split: option.splits outcome.splits if_splits)
  then have "leaves_scope u"
    using assms(2) by (cases u) (auto simp: destroyed_def split: if_splits)
  from sys_run_leaves [OF u(1) this] u(2)
  show "d = Returned ()" "commands_run w' = commands_run w @ [delete_rule ipt args]"
    by (auto simp: delete_rule_def)
qed

lemma nat_destroy_leaves:
  assumes "nat_destroy k ipt n w = Some (d, w')" "leaves_scope (destroyed r d)"
  shows "d = Returned ()"
    "commands_run w' = commands_run w @ [delete_rule ipt (snd n), delete_rule ipt (fst n)]"
proof -
  from assms(1) obtain d1 w1 where d1: "natrule_destroy k ipt (snd n) w = Some (d1, w1)"
    "d1 = Returned () \<longrightarrow> natrule_destroy k ipt (fst n) w1 = Some (d, w')"
    "d1 \<noteq> Returned () \<longrightarrow> d = d1 \<and> w' = w1"
    by (auto simp: nat_destroy_def bindS_outcome)
  have "d1 = Returned ()"
  proof (rule ccontr)
    assume "d1 \<noteq> Returned ()"
    with d1(3) assms(2) have "leaves_scope (destroyed r d1)" by simp
    from natrule_destroy_leaves(1) [OF d1(1) this] \<open>d1 \<noteq> Returned ()\<close> show False by simp
  qed
  with d1(2) have second: "natrule_destroy k ipt (fst n) w1 = Some (d, w')" by simp
  note two = natrule_destroy_leaves [OF second assms(2)]
  then have "leaves_scope r" using assms(2) by simp
  with natrule_destroy_leaves(2) [OF d1(1), of r] \<open>d1 = Returned ()\<close> two
  show "d = Returned ()"
    "commands_run w' = commands_run w @ [delete_rule ipt (snd n), delete_rule ipt (fst n)]"
    by simp_all
qed

text \<open>
  The constructor: both rules, in order; if the second cannot be added, the first is deleted again.
\<close>

definition pre_rule :: "string \<Rightarrow> nat \<Rightarrow> string list" where
  "pre_rule ip pid = [''PREROUTING'', ''-s'', ip, ''-j'', ''CONNMARK'', ''--set-mark'', dec pid]"

definition post_rule :: "nat \<Rightarrow> string list" where
  "post_rule pid = [''POSTROUTING'', ''-j'', ''MASQUERADE'', ''-m'', ''connmark'', ''--mark'', dec pid]"

lemma nat_leaves:
  assumes "NAT k ipt addr w = Some (r, w')" "leaves_scope r" "ad_ip addr = Inr ip"
  defines "pre \<equiv> pre_rule ip (sy_pid w)" and "post \<equiv> post_rule (sy_pid w)"
  shows "r = Returned (pre, post) \<and> commands_run w' = commands_run w @ [add_rule ipt pre, add_rule ipt post]
      \<and> (running_as R w \<longrightarrow> running_as R w') \<or>
    (\<exists>e. r = Thrown e \<and> caught e) \<and>
      (commands_run w' = commands_run w @ [add_rule ipt pre] \<or>
       commands_run w' = commands_run w @ [add_rule ipt pre, add_rule ipt post, delete_rule ipt pre])"
proof -
  let ?rest = "\<lambda>p. bindS (NATRule k ipt post) (\<lambda>q. returnS (p, q))"
  from assms(1,3) have run: "bindS (NATRule k ipt pre) (\<lambda>p. after by_exception (natrule_destroy k ipt p) (?rest p)) w = Some (r, w')"
    by (simp add: NAT_def unwinding_def pre_def post_def pre_rule_def post_rule_def)
  then obtain r1 w1 where r1: "NATRule k ipt pre w = Some (r1, w1)"
    by (auto simp: bindS_outcome)
  show ?thesis
  proof (cases "r1 = Returned pre")
    case False
    have "leaves_scope r1"
      using run r1 assms(2) natrule_leaves(4) [OF r1] False by (auto simp: bindS_def split: outcome.splits)
    with natrule_leaves [OF r1 this] False run r1 show ?thesis by (auto simp: bindS_def)
  next
    case True
    note one = natrule_leaves [OF r1, unfolded True, simplified]
    from run r1 True have "after by_exception (natrule_destroy k ipt pre) (?rest pre) w1 = Some (r, w')"
      by (simp add: bindS_def)
    then obtain r2 w2 where r2: "?rest pre w1 = Some (r2, w2)"
      "if by_exception r2 then \<exists>d. natrule_destroy k ipt pre w2 = Some (d, w') \<and> r = destroyed r2 d
       else r = r2 \<and> w' = w2" by (auto simp: after_outcome)
    have "leaves_scope r2" using r2(2) assms(2) by (auto simp: leaves_scope_def split: if_splits outcome.splits)
    from r2(1) obtain u where u: "NATRule k ipt post w1 = Some (u, w2)" "leaves_scope u"
      "u = Returned post \<longrightarrow> r2 = Returned (pre, post)" "\<forall>e. u = Thrown e \<longrightarrow> r2 = Thrown e"
      using \<open>leaves_scope r2\<close> natrule_leaves(4) [of k ipt post w1] by (fastforce simp: bindS_outcome)
    note two = natrule_leaves [OF u(1,2)]
    show ?thesis
    proof (cases "u = Returned post")
      case True
      with u(3) r2(2) one two show ?thesis by auto
    next
      case False
      with two(4) u(4) obtain e where e: "r2 = Thrown e" "caught e" by blast
      with r2(2) obtain d where d: "natrule_destroy k ipt pre w2 = Some (d, w')" "r = destroyed r2 d" by auto
      from natrule_destroy_leaves [OF d(1)] assms(2) d(2) have
        "d = Returned ()" "commands_run w' = commands_run w2 @ [delete_rule ipt pre]" by blast+
      with d(2) e one two show ?thesis by auto
    qed
  qed
qed

text \<open>
  C34. Address translation cleans up after itself. Around any use that runs no commands of its own and
  is left by a value or an exception, the commands run are: both rules added, then both deleted, the
  last one first, by the arguments they were added with; or, if the constructor failed, the first
  rule alone, which was not added, or the first rule deleted again because the second was not. The
  rules of a process carry its own pid as the mark.
\<close>

theorem nat_rules_removed:
  fixes k :: "'k id_calls" and body :: "string list \<times> string list \<Rightarrow> ('k, 'a) sys"
  assumes "scoped (NAT k ipt addr) (nat_destroy k ipt) body w = Some (r, w')" "leaves_scope r"
    and "ad_ip addr = Inr ip" "running_as R w"
    and "\<And>n. only_calls R (\<lambda>call c. command_of call = []) (body n)"
  defines "pre \<equiv> pre_rule ip (sy_pid w)" and "post \<equiv> post_rule (sy_pid w)"
  shows "\<exists>cs. commands_run w' = commands_run w @ cs \<and>
    (cs = [add_rule ipt pre, add_rule ipt post, delete_rule ipt post, delete_rule ipt pre] \<or>
     (\<exists>e. r = Thrown e) \<and>
       (cs = [add_rule ipt pre] \<or> cs = [add_rule ipt pre, add_rule ipt post, delete_rule ipt pre]))"
proof -
  from assms(1) obtain r1 w1 where r1: "NAT k ipt addr w = Some (r1, w1)"
    by (auto simp: scoped_def bindS_outcome)
  have "leaves_scope r1"
    using assms(1,2) r1 by (auto simp: scoped_def bindS_def split: outcome.splits)
  from nat_leaves [OF r1 this assms(3), folded pre_def post_def, of R] show ?thesis
  proof (elim disjE conjE)
    assume n: "r1 = Returned (pre, post)" and
      cs: "commands_run w1 = commands_run w @ [add_rule ipt pre, add_rule ipt post]"
      and id: "running_as R w \<longrightarrow> running_as R w1"
    from assms(1) r1 n have "after leaves_scope (nat_destroy k ipt (pre, post)) (body (pre, post)) w1 = Some (r, w')"
      by (simp add: scoped_def bindS_def)
    then obtain r2 w2 where r2: "body (pre, post) w1 = Some (r2, w2)"
      "if leaves_scope r2 then \<exists>d. nat_destroy k ipt (pre, post) w2 = Some (d, w') \<and> r = destroyed r2 d
       else r = r2 \<and> w' = w2" by (auto simp: after_outcome)
    have "commands_run w2 = commands_run w1"
      using callsD [OF assms(5) _ r2(1)] id assms(4) by (intro made_no_commands) blast
    moreover from r2(2) assms(2) obtain d where d: "nat_destroy k ipt (pre, post) w2 = Some (d, w')" "r = destroyed r2 d"
      by (auto split: if_splits)
    moreover note nat_destroy_leaves [OF d(1)]
    ultimately show ?thesis using cs assms(2) by auto
  next
    assume "\<exists>e. r1 = Thrown e \<and> caught e"
    with assms(1) r1 have "w' = w1 \<and> (\<exists>e. r = Thrown e)" by (auto simp: scoped_def bindS_def)
    moreover assume "commands_run w1 = commands_run w @ [add_rule ipt pre]"
    ultimately show ?thesis by auto
  next
    assume "\<exists>e. r1 = Thrown e \<and> caught e"
    with assms(1) r1 have "w' = w1 \<and> (\<exists>e. r = Thrown e)" by (auto simp: scoped_def bindS_def)
    moreover assume "commands_run w1 = commands_run w @ [add_rule ipt pre, add_rule ipt post, delete_rule ipt pre]"
    ultimately show ?thesis by auto
  qed
qed

theorem nat_rules_removed_witness:
  "\<exists>w'. scoped (NAT linux_ids ''iptables'' (in_address 0 [100, 64, 0, 2])) (nat_destroy linux_ids ''iptables'')
      (\<lambda>n. returnS (7 :: int)) (obliging (\<lambda>_ a. a) setuid_root idle_world) = Some (Returned 7, w') \<and>
    commands_run w' =
      [add_rule ''iptables'' (pre_rule ''100.64.0.2'' 42), add_rule ''iptables'' (post_rule 42),
       delete_rule ''iptables'' (post_rule 42), delete_rule ''iptables'' (pre_rule ''100.64.0.2'' 42)]"
proof -
  let ?w = "obliging (\<lambda>_ a. a) setuid_root idle_world"
  have ip: "ad_ip (in_address 0 [100, 64, 0, 2]) = Inr ''100.64.0.2''"
  proof -
    have "dotted [100, 64, 0, 2] = ''100.64.0.2''" by code_simp
    then show ?thesis by (simp add: ad_ip_def ip_port_in_address ipv4_def)
  qed
  have run: "\<exists>w'. scoped (NAT linux_ids ''iptables'' (in_address 0 [100, 64, 0, 2])) (nat_destroy linux_ids ''iptables'')
      (\<lambda>n. returnS (7 :: int)) ?w = Some (Returned 7, w')"
    by (simp add: scoped_def unwinding_def after_def NAT_def NATRule_def nat_destroy_def natrule_destroy_def
        catchS_def bindS_def ip sys_run_obliging)
  then obtain w' where w': "scoped (NAT linux_ids ''iptables'' (in_address 0 [100, 64, 0, 2]))
      (nat_destroy linux_ids ''iptables'') (\<lambda>n. returnS (7 :: int)) ?w = Some (Returned 7, w')" by blast
  have "running_as {(setuid_root, None)} ?w" by (simp add: running_as_def)
  from nat_rules_removed [OF w' _ ip this] have
    "\<exists>cs. commands_run w' = commands_run ?w @ cs \<and>
      cs = [add_rule ''iptables'' (pre_rule ''100.64.0.2'' 42), add_rule ''iptables'' (post_rule 42),
       delete_rule ''iptables'' (post_rule 42), delete_rule ''iptables'' (pre_rule ''100.64.0.2'' 42)]"
    by (auto intro: calls_intro)
  with w' show ?thesis by (simp add: commands_run_def)
qed

section \<open>Temporary files\<close>

text \<open>
  However often a \<open>TempFile\<close> has been moved, destroying all the objects removes the file once, and
  closes its descriptor once.
\<close>

fun unlinked :: "sys_call \<Rightarrow> string list" where
  "unlinked (Call_Unlink s) = [s]"
| "unlinked _ = []"

fun closed :: "sys_call \<Rightarrow> int list" where
  "closed (Call_Close n) = [n]"
| "closed _ = []"

fun destroy_files :: "unique_file list \<Rightarrow> ('k, unit) sys" where
  "destroy_files [] = returnS ()"
| "destroy_files (f # fs) = bindS (tempfile_destroy f) (\<lambda>_. destroy_files fs)"

fun moved_on :: "nat \<Rightarrow> unique_file \<Rightarrow> unique_file list" where
  \<comment> \<open>an object moved \<open>n\<close> times, the last one first\<close>
  "moved_on 0 f = [f]"
| "moved_on (Suc n) f = (case uf_move f of (new, old) \<Rightarrow> moved_on n new @ [old])"

definition calls_made :: "(sys_call \<Rightarrow> 'a list) \<Rightarrow> 'k sys_world \<Rightarrow> 'a list" where
  "calls_made f w = concat (map (f \<circ> fst) (sy_trace w))"

lemma calls_made_logged [simp]: "calls_made f (logged call ret w) = calls_made f w @ f call"
  by (simp add: calls_made_def)

lemma tempfile_destroy_moved:
  assumes "uf_moved_away f" "fd_num (uf_fd f) < 0"
  shows "tempfile_destroy f w = Some (Returned (), w)"
  using assms by (simp add: tempfile_destroy_def fd_destroy_def)

lemma tempfile_destroy_own:
  assumes "\<not> uf_moved_away f" "0 \<le> fd_num (uf_fd f)" "uf_name f = Inr name"
  shows "\<exists>w'. tempfile_destroy f w = Some (Returned (), w') \<and>
    calls_made unlinked w' = calls_made unlinked w @ [c_string name] \<and>
    calls_made closed w' = calls_made closed w @ [fd_num (uf_fd f)]"
  using assms
  by (auto simp: tempfile_destroy_def catchS_def bindS_def sys_eval_call Let_def caught_def fd_destroy_eval
      split: if_splits)

lemma destroy_files_append: "destroy_files (fs @ gs) = bindS (destroy_files fs) (\<lambda>_. destroy_files gs)"
  by (induction fs) (simp_all add: bindS_assoc, simp add: bindS_def fun_eq_iff)

lemma tempfile_removed_once:
  "\<not> uf_moved_away f \<Longrightarrow> 0 \<le> fd_num (uf_fd f) \<Longrightarrow> uf_name f = Inr name \<Longrightarrow>
   \<exists>w'. destroy_files (moved_on n f) w = Some (Returned (), w') \<and>
     calls_made unlinked w' = calls_made unlinked w @ [c_string name] \<and>
     calls_made closed w' = calls_made closed w @ [fd_num (uf_fd f)]"
proof (induction n arbitrary: f)
  case 0
  with tempfile_destroy_own [of f name w] show ?case by (auto simp: bindS_def)
next
  case (Suc n)
  obtain new old where m: "uf_move f = (new, old)" by fastforce
  then have new: "\<not> uf_moved_away new" "uf_name new = Inr name" "fd_num (uf_fd new) = fd_num (uf_fd f)"
    and old: "uf_moved_away old" "fd_num (uf_fd old) < 0"
    using Suc.prems by (auto simp: uf_move_def uf_name_def fd_move_def)
  from Suc.IH [OF new(1) _ new(2)] Suc.prems(2) new(3) obtain w' where
    w': "destroy_files (moved_on n new) w = Some (Returned (), w')"
      "calls_made unlinked w' = calls_made unlinked w @ [c_string name]"
      "calls_made closed w' = calls_made closed w @ [fd_num (uf_fd f)]" by auto
  have "destroy_files (moved_on (Suc n) f) w = Some (Returned (), w')"
    using w'(1) tempfile_destroy_moved [OF old, of w'] by (simp add: m destroy_files_append bindS_def)
  with w'(2,3) show ?case by blast
qed

section \<open>Waiting for dnsmasq\<close>

text \<open>
  The wait ends. It makes at most 19 attempts, of at most two writes each (the message speaks of 20),
  and returns exactly when both writes of an attempt went through.
\<close>

lemma one_byte:
  "sys_write [x] True server w = Some (r, w') \<Longrightarrow>
   w_write_calls (sy_world w') = Suc (w_write_calls (sy_world w)) \<and>
   (r = Returned (register_write server) \<or> r = Thrown (Unix_Error ''write'') \<or>
    r = Thrown (Runtime_Error ''write returned 0'') \<or> r = Thrown (Undefined ''write past the buffer''))"
  by (auto simp: sys_write.simps [of "[x]"] fd_write_some_def Let_def SystemCall_def andThen_def failed_write_def
      split: if_splits sum.splits)

lemma dnsmasq_wait_outcome:
  "unat attempts \<le> 19 \<Longrightarrow> dnsmasq_wait attempts server w = Some (r, w') \<Longrightarrow>
   w_write_calls (sy_world w') \<le> w_write_calls (sy_world w) + 2 * (19 - unat attempts) \<and>
   (r = Returned () \<or> r = Thrown (Runtime_Error ''dnsmasq: did not start after 20 attempts'') \<or>
    r = Thrown (Runtime_Error ''write returned 0'') \<or> r = Thrown (Undefined ''write past the buffer''))"
proof (induction attempts server w arbitrary: r w' rule: dnsmasq_wait.induct)
  case (1 attempts server w)
  have next_attempt: "unat (attempts + 1) = unat attempts + 1"
    using "1.prems"(1) by (subst unat_add_small) simp_all
  show ?case
  proof (cases "20 \<le> attempts + 1")
    case True
    then have "unat (attempts + 1) = 20"
      using "1.prems"(1) next_attempt by (simp add: word_le_nat_alt)
    moreover have "dec 20 = ''20''" by code_simp
    ultimately show ?thesis
      using "1.prems"(2) True by (simp add: dnsmasq_wait.simps [of attempts] Let_def)
  next
    case False
    then have n: "unat attempts < 19" using next_attempt by (simp add: word_le_nat_alt)
    obtain q w1 where q: "bindS (sys_write ''x'' True server) (\<lambda>server. sys_write ''x'' True server) w = Some (q, w1)"
      using "1.prems"(2) False by (auto simp: dnsmasq_wait.simps [of attempts] Let_def split: option.splits)
    then have calls: "w_write_calls (sy_world w1) \<le> w_write_calls (sy_world w) + 2"
      and what: "(\<exists>s. q = Returned s) \<or> q = Thrown (Unix_Error ''write'') \<or>
        q = Thrown (Runtime_Error ''write returned 0'') \<or> q = Thrown (Undefined ''write past the buffer'')"
      by (auto simp: bindS_outcome dest!: one_byte)
    show ?thesis
    proof (cases "q = Thrown (Unix_Error ''write'')")
      case True
      have retry: "dnsmasq_wait (attempts + 1) server w1 = Some (r, w')"
        using "1.prems"(2) False q True
        by (simp add: dnsmasq_wait.simps [of attempts] Let_def caught_def)
      from "1.IH" [OF refl False q _ True _ _ retry] True n next_attempt calls show ?thesis
        by (auto simp: caught_def)
    next
      case stop: False
      with "1.prems"(2) False q what n calls show ?thesis
        by (auto simp: dnsmasq_wait.simps [of attempts] Let_def caught_def)
    qed
  qed
qed

end
