(* ===== verification/Dns_Proxy.thy ===== *)
theory Dns_Proxy
  imports Main Prelude Kernel Addresses Poller Bytestream_Queue Event_Loop Syscalls Sockets
begin

unbundle bit_operations_syntax

text \<open>
  \<open>src/util/dns_proxy.cc/.hh\<close>: the proxy that passes DNS requests out of the emulated network. A
  request over UDP is one exchange of datagrams; a connection over TCP is relayed in both directions
  through two \<open>ByteStreamQueue\<close>s under a poller of its own, which makes it a \<open>poll_client\<close>. Each
  request is served by a thread; a thread is modelled by itself, the two listening sockets being
  all it shares.
\<close>

section \<open>The proxy\<close>

record dns_proxy =
  dx_udp_listener :: file_descriptor
  dx_tcp_listener :: file_descriptor
  dx_udp_target :: address
  dx_tcp_target :: address

definition make_bound_socket :: "('k, file_descriptor) sys \<Rightarrow> address \<Rightarrow> ('k, file_descriptor) sys" where
  "make_bound_socket SocketType listen_address =
     unwinding SocketType fd_destroy (\<lambda>sock.
       bindS (socket_bind listen_address sock) (\<lambda>_. returnS sock))"

definition dns_proxy_destroy :: "dns_proxy \<Rightarrow> ('k, unit) sys" where
  "dns_proxy_destroy p =
     bindS (fd_destroy (dx_tcp_listener p)) (\<lambda>_. fd_destroy (dx_udp_listener p))"

definition DNSProxy_sockets ::
    "resolver \<Rightarrow> file_descriptor \<Rightarrow> file_descriptor \<Rightarrow> address \<Rightarrow> address \<Rightarrow> ('k, dns_proxy) sys" where
  "DNSProxy_sockets gai udp tcp s_udp_target s_tcp_target =
     unwinding (returnS \<lparr>dx_udp_listener = udp, dx_tcp_listener = tcp, dx_udp_target = s_udp_target,
                  dx_tcp_target = s_tcp_target\<rparr>) dns_proxy_destroy (\<lambda>p.
       bindS (local_address (dx_udp_listener p)) (\<lambda>u.
       bindS (liftS (Address_default gai)) (\<lambda>unbound.
       if ad_eq u unbound then
         throwS (Runtime_Error ''DNSProxy internal error: udp_listener must be bound'')
       else
         bindS (local_address (dx_tcp_listener p)) (\<lambda>t.
         bindS (liftS (Address_default gai)) (\<lambda>unbound.
         if ad_eq t unbound then
           throwS (Runtime_Error ''DNSProxy internal error: tcp_listener must be bound'')
         else bindS (tcp_listen 16 (dx_tcp_listener p)) (\<lambda>_. returnS p))))))"

definition DNSProxy :: "resolver \<Rightarrow> address \<Rightarrow> address \<Rightarrow> address \<Rightarrow> ('k, dns_proxy) sys" where
  \<comment> \<open>C++ leaves the order of the two arguments open; here the UDP socket comes first\<close>
  "DNSProxy gai listen_address s_udp_target s_tcp_target =
     bindS (unwinding (make_bound_socket UDPSocket listen_address) fd_destroy (\<lambda>udp.
              bindS (make_bound_socket TCPSocket listen_address) (\<lambda>tcp. returnS (udp, tcp)))) (\<lambda>(udp, tcp).
       DNSProxy_sockets gai udp tcp s_udp_target s_tcp_target)"

definition maybe_proxy :: "resolver \<Rightarrow> address \<Rightarrow> address \<Rightarrow> address \<Rightarrow> ('k, dns_proxy option) sys" where
  \<comment> \<open>no proxy if an address cannot be bound; any other exception goes on\<close>
  "maybe_proxy gai listen_address s_udp_target s_tcp_target =
     catchS (bindS (DNSProxy gai listen_address s_udp_target s_tcp_target) (\<lambda>p. returnS (Some p))) (\<lambda>e.
       if take 5 (exn_what e) = ''bind:'' then returnS None else throwS e)"

section \<open>A request over UDP\<close>

text \<open>
  The handler hands the request to a new thread. The thread's poller has one action, the reply of the
  server, and polls once, for up to 60 seconds; its state is the two sockets and the world.
\<close>

definition dns_handle_udp :: "dns_proxy \<Rightarrow> ('k, (address \<times> string) \<times> dns_proxy) sys" where
  "dns_handle_udp p =
     bindS (udp_recvfrom (dx_udp_listener p)) (\<lambda>(request, fd).
       returnS (request, p\<lparr>dx_udp_listener := fd\<rparr>))"

record 'k udp_exchange =
  ux_server :: file_descriptor
  ux_listener :: file_descriptor
  ux_sys :: "'k sys_world"

definition to_res :: "('a outcome \<times> 'b) option \<Rightarrow> ('a \<times> 'b) res option" where
  "to_res r =
     (case r of
        Some (Returned x, w) \<Rightarrow> Some (Inr (x, w))
      | Some (Thrown e, w) \<Rightarrow> Some (Inl e)
      | _ \<Rightarrow> None)"

definition on_udp_reply :: "address \<Rightarrow> 'k udp_exchange \<Rightarrow> (action_result \<times> 'k udp_exchange) res option" where
  "on_udp_reply requester s =
     andThenO (Some (fd_read BUFFER_SIZE (ux_server s) (sy_world (ux_sys s)))) (\<lambda>(reply, server, v).
     andThenO (to_res (udp_sendto requester reply (ux_listener s) ((ux_sys s)\<lparr>sy_world := v\<rparr>))) (\<lambda>(listener, w).
       Some (Inr (handled Continue, s\<lparr>ux_server := server, ux_listener := listener, ux_sys := w\<rparr>))))"

definition udp_thread :: "address \<Rightarrow> (pollfd list \<Rightarrow> int \<times> (nat \<Rightarrow> u16)) \<Rightarrow> address \<times> string \<Rightarrow>
    file_descriptor \<Rightarrow> ('k, unit) sys" where
  \<comment> \<open>\<open>answer\<close> is the kernel's answer to \<open>poll\<close> with its timeout of 60000\<close>
  "udp_thread udp_target answer request listener =
     catchS (scoped UDPSocket fd_destroy (\<lambda>dns_server.
       bindS (socket_connect udp_target dns_server) (\<lambda>_.
       bindS (sys_write (snd request) True dns_server) (\<lambda>dns_server w.
         let s = \<lparr>ux_server = dns_server, ux_listener = listener, ux_sys = w\<rparr>;
             a = mk_action ux_server In (on_udp_reply (fst request)) always_interested
         in case poll answer (add_action s a empty_poller) s of
              None \<Rightarrow> None
            | Some (Inl e) \<Rightarrow> Some (Thrown e, w)
            | Some (Inr (_, _, s)) \<Rightarrow> Some (Returned (), ux_sys s)))))
     (\<lambda>e. returnS ())"

section \<open>A connection over TCP\<close>

definition DNS_BUFFER_SIZE :: u64 where "DNS_BUFFER_SIZE = 1024 * 1024"

record relay =
  rl_server :: file_descriptor
  rl_client :: file_descriptor
  rl_from_client :: bytestream_queue
  rl_from_server :: bytestream_queue
  rl_world :: world

definition on_server_readable :: "relay \<Rightarrow> (action_result \<times> relay) res option" where
  "on_server_readable s = Some (
     andThen (bs_push (rl_from_server s) (rl_server s) (rl_world s)) (\<lambda>(r, q, fd, w).
       Inr (handled (if bs_eof r then Cancel else Continue),
            s\<lparr>rl_from_server := q, rl_server := fd, rl_world := w\<rparr>)))"

definition on_client_readable :: "relay \<Rightarrow> (action_result \<times> relay) res option" where
  "on_client_readable s = Some (
     andThen (bs_push (rl_from_client s) (rl_client s) (rl_world s)) (\<lambda>(r, q, fd, w).
       Inr (handled (if bs_eof r then Cancel else Continue),
            s\<lparr>rl_from_client := q, rl_client := fd, rl_world := w\<rparr>)))"

definition on_server_writable :: "relay \<Rightarrow> (action_result \<times> relay) res option" where
  "on_server_writable s = Some (
     andThen (bs_pop (rl_from_client s) (rl_server s) (rl_world s)) (\<lambda>(q, fd, w).
       Inr (handled Continue, s\<lparr>rl_from_client := q, rl_server := fd, rl_world := w\<rparr>)))"

definition on_client_writable :: "relay \<Rightarrow> (action_result \<times> relay) res option" where
  "on_client_writable s = Some (
     andThen (bs_pop (rl_from_server s) (rl_client s) (rl_world s)) (\<lambda>(q, fd, w).
       Inr (handled Continue, s\<lparr>rl_from_server := q, rl_client := fd, rl_world := w\<rparr>)))"

definition interested_if :: "('s \<Rightarrow> bool) \<Rightarrow> 's \<Rightarrow> (bool \<times> 's) res option" where
  "interested_if b s = Some (Inr (b s, s))"

definition relay_actions :: "relay poll_action list" where
  "relay_actions =
     [mk_action rl_server In on_server_readable (interested_if (\<lambda>s. space_available (rl_from_server s))),
      mk_action rl_client In on_client_readable (interested_if (\<lambda>s. space_available (rl_from_client s))),
      mk_action rl_server Out on_server_writable (interested_if (\<lambda>s. non_empty (rl_from_client s))),
      mk_action rl_client Out on_client_writable (interested_if (\<lambda>s. non_empty (rl_from_server s)))]"

definition relay_poller :: "relay \<Rightarrow> relay poller" where
  "relay_poller s = foldl (\<lambda>p a. add_action s a p) empty_poller relay_actions"

definition relay_run :: "poll_answers \<Rightarrow> file_descriptor \<Rightarrow> file_descriptor \<Rightarrow> world \<Rightarrow>
    (u32 option \<times> relay) res option" where
  \<comment> \<open>from the queues on; status \<open>None\<close>: still running when the kernel's answers end\<close>
  "relay_run answers dns_server client w =
     andThenO (Some (bytestream_queue_init DNS_BUFFER_SIZE)) (\<lambda>from_client.
     andThenO (Some (bytestream_queue_init DNS_BUFFER_SIZE)) (\<lambda>from_server.
     let s = \<lparr>rl_server = dns_server, rl_client = client, rl_from_client = from_client,
              rl_from_server = from_server, rl_world = w\<rparr>
     in andThenO (poll_loop (\<lambda>s. Some (Inr (60000, s))) answers (relay_poller s) s) (\<lambda>(status, p, s).
          Some (Inr (status, s)))))"

definition tcp_thread :: "address \<Rightarrow> poll_answers \<Rightarrow> file_descriptor \<Rightarrow> ('k, unit) sys" where
  \<comment> \<open>the client's socket belongs to the thread\<close>
  "tcp_thread tcp_target answers client =
     scoped (returnS client) fd_destroy (\<lambda>client.
       catchS (scoped TCPSocket fd_destroy (\<lambda>dns_server.
         bindS (socket_connect tcp_target dns_server) (\<lambda>_ w.
           case relay_run answers dns_server client (sy_world w) of
             None \<Rightarrow> None
           | Some (Inl e) \<Rightarrow> Some (Thrown e, w)
           | Some (Inr (None, s)) \<Rightarrow> None
           | Some (Inr (Some status, s)) \<Rightarrow> Some (Returned (), w\<lparr>sy_world := rl_world s\<rparr>))))
       (\<lambda>e. returnS ()))"

definition dns_handle_tcp :: "dns_proxy \<Rightarrow> ('k, file_descriptor \<times> dns_proxy) sys" where
  "dns_handle_tcp p =
     bindS (tcp_accept (dx_tcp_listener p)) (\<lambda>(client, fd).
       returnS (client, p\<lparr>dx_tcp_listener := fd\<rparr>))"

text \<open>
  \<open>register_handlers\<close>: two more actions of an event loop, whose state holds the proxy and the world.
\<close>

record 'k dns_loop = event_loop +
  dl_proxy :: dns_proxy
  dl_sys :: "'k sys_world"
  dl_requests :: "(address \<times> string) list" \<comment> \<open>handed to new threads\<close>
  dl_connections :: "file_descriptor list" \<comment> \<open>handed to new threads\<close>

definition on_udp_request :: "'k dns_loop \<Rightarrow> (action_result \<times> 'k dns_loop) res option" where
  "on_udp_request s =
     andThenO (to_res (dns_handle_udp (dl_proxy s) (dl_sys s))) (\<lambda>((request, p), w).
       Some (Inr (handled Continue,
         s\<lparr>dl_proxy := p, dl_sys := w, dl_requests := dl_requests s @ [request]\<rparr>)))"

definition on_tcp_connection :: "'k dns_loop \<Rightarrow> (action_result \<times> 'k dns_loop) res option" where
  "on_tcp_connection s =
     andThenO (to_res (dns_handle_tcp (dl_proxy s) (dl_sys s))) (\<lambda>((client, p), w).
       Some (Inr (handled Continue,
         s\<lparr>dl_proxy := p, dl_sys := w, dl_connections := dl_connections s @ [client]\<rparr>)))"

definition register_handlers :: "'k dns_loop \<Rightarrow> 'k dns_loop poller \<Rightarrow> 'k dns_loop poller" where
  "register_handlers s p =
     (let p = add_action s (simple_input_handler (\<lambda>s. dx_udp_listener (dl_proxy s)) on_udp_request) p;
          p = add_action s (simple_input_handler (\<lambda>s. dx_tcp_listener (dl_proxy s)) on_tcp_connection) p
      in p)"

section \<open>Reads and writes of a queue\<close>

lemma fd_read_streams:
  assumes "fd_read limit fd w = Inr (c, fd', w')"
  shows "received_bytes n w' = received_bytes n w @ (if n = fd_num fd then c else [])"
    "sent_bytes n w' = sent_bytes n w" "fd_num fd' = fd_num fd" "honest_writes w' = honest_writes w"
    "w_read w' = w_read w"
  using assms
  by (auto simp: fd_read_def Let_def andThen_Inr_iff register_read_def received_bytes_def sent_bytes_def
      honest_writes_def split: prod.splits)

lemma fd_write_some_streams:
  assumes "fd_write_some s fd w = Inr (rest, fd', w')"
  shows "\<exists>m. 0 < m \<and> m \<le> length s \<and> rest = drop m s \<and>
      (\<forall>n. sent_bytes n w' = sent_bytes n w @ (if n = fd_num fd then take m s else []))"
    "received_bytes n w' = received_bytes n w" "fd_num fd' = fd_num fd"
    "honest_writes w' = honest_writes w" "w_read w' = w_read w" "fd_eof fd' = fd_eof fd"
proof -
  from assms obtain ret where ret: "ret = w_write w (w_write_calls w) (length s)" "0 \<le> ret"
    "ret \<noteq> 0" "ret \<le> int (length s)" "rest = drop (nat ret) s" "fd' = register_write fd"
    "w' = w\<lparr>w_write_calls := Suc (w_write_calls w),
            w_sent := w_sent w @ [(fd_num fd, take (nat ret) s)]\<rparr>"
    by (auto simp: fd_write_some_def Let_def andThen_Inr_iff SystemCall_def split: if_splits)
  show "\<exists>m. 0 < m \<and> m \<le> length s \<and> rest = drop m s \<and>
      (\<forall>n. sent_bytes n w' = sent_bytes n w @ (if n = fd_num fd then take m s else []))"
    using ret by (intro exI [of _ "nat ret"]) (auto simp: sent_bytes_def)
  show "received_bytes n w' = received_bytes n w" "fd_num fd' = fd_num fd"
    "honest_writes w' = honest_writes w" "w_read w' = w_read w" "fd_eof fd' = fd_eof fd"
    using ret by (auto simp: received_bytes_def register_write_def honest_writes_def)
qed

lemma bs_push_outcome:
  assumes "bs_ok q" "space_available q"
  shows "(\<exists>e. bs_push q fd w = Inl e \<and> kernel_error e) \<or>
    (\<exists>r q' fd' w' c. bs_push q fd w = Inr (r, q', fd', w') \<and> fd_read (push_room q) fd w = Inr (c, fd', w') \<and>
       (r = EndOfFile \<longleftrightarrow> c = []) \<and> bs_ok q' \<and> bs_content q' = bs_content q @ c)"
proof (cases "fd_read (push_room q) fd w")
  case (Inl e)
  with fd_read_Inl [OF Inl] show ?thesis by (simp add: bs_push_eq [OF assms])
next
  case (Inr r)
  obtain c fd' w' where r: "r = (c, fd', w')" by (cases r)
  have "length c \<le> push_room q" using fd_read_Inr [OF Inr [unfolded r]] by simp
  with bs_pushed [OF assms(1)] Inr r assms(1) show ?thesis
    by (cases "c = []") (simp_all add: bs_push_eq [OF assms])
qed

lemma bs_pop_outcome:
  assumes "bs_ok q" "non_empty q" "honest_writes w"
  shows "(\<exists>e. bs_pop q fd w = Inl e \<and> kernel_error e) \<or>
    (\<exists>s rest q' fd' w' c. bs_pop q fd w = Inr (q', fd', w') \<and> fd_write_some s fd w = Inr (rest, fd', w') \<and>
       bs_ok q' \<and> bs_content q = c @ bs_content q' \<and>
       (\<forall>n. sent_bytes n w' = sent_bytes n w @ (if n = fd_num fd then c else [])))"
proof -
  let ?s = "take (pop_room q) (drop (unat (bs_next_byte_to_pop q)) (bs_buffer q))"
  have len: "length ?s = pop_room q" using assms(1) by (simp add: pop_room_def)
  have ne: "?s \<noteq> []" using pop_room_pos [OF assms(1,2)] len by auto
  show ?thesis
  proof (cases "fd_write_some ?s fd w")
    case (Inl e)
    have "e \<in> {Unix_Error ''write'', Runtime_Error ''write returned 0''}"
      using fd_write_some_Inl [OF Inl assms(3) ne] .
    then have "kernel_error e" by auto
    with Inl show ?thesis by (simp add: bs_pop_eq [OF assms(1,2)])
  next
    case (Inr r)
    obtain rest fd' w' where r: "r = (rest, fd', w')" by (cases r)
    from fd_write_some_streams(1) [OF Inr [unfolded r]] len obtain m where
      m: "m \<le> pop_room q" "rest = drop m ?s"
        "\<forall>n. sent_bytes n w' = sent_bytes n w @ (if n = fd_num fd then take m ?s else [])" by auto
    have "pop_room q - length rest = m" using m(1,2) len by simp
    with bs_popped [OF assms(1) m(1)] m Inr r len show ?thesis
      by (intro disjI2 exI [of _ ?s] exI [of _ rest] exI [of _ "bs_popped m q"] exI [of _ fd'] exI [of _ w']
          exI [of _ "take m ?s"]) (auto simp: bs_pop_eq [OF assms(1,2)] min_def)
  qed
qed

section \<open>The relay under the poller\<close>

text \<open>
  A \<open>read\<close> that returns a positive number has put bytes in the buffer. \<open>flow\<close>: a queue between two
  streams has passed on what it got, in order.
\<close>

definition honest_reads :: "world \<Rightarrow> bool" where
  "honest_reads w \<longleftrightarrow> (\<forall>n k. 0 < fst (w_read w n k) \<longrightarrow> snd (w_read w n k) \<noteq> [])"

definition flow :: "string \<times> string \<times> string \<Rightarrow> string \<times> string \<times> string \<Rightarrow> bool" where
  "flow = (\<lambda>(r, s, c) (r', s', c'). \<exists>ins out. r' = r @ ins \<and> s' = s @ out \<and> out @ c' = c @ ins)"

lemma flow_refl [simp]: "flow x x"
  by (cases x) (simp add: flow_def)

lemma flow_trans: "flow x y \<Longrightarrow> flow y z \<Longrightarrow> flow x z"
proof -
  obtain r s c r1 s1 c1 r2 s2 c2 where xyz: "x = (r, s, c)" "y = (r1, s1, c1)" "z = (r2, s2, c2)"
    by (cases x; cases y; cases z)
  assume "flow x y" "flow y z"
  then obtain i1 o1 i2 o2 where "r1 = r @ i1" "s1 = s @ o1" "o1 @ c1 = c @ i1"
    "r2 = r1 @ i2" "s2 = s1 @ o2" "o2 @ c2 = c1 @ i2" by (auto simp: flow_def xyz)
  moreover from this have "(o1 @ o2) @ c2 = c @ (i1 @ i2)" by (metis append_assoc)
  ultimately show ?thesis by (auto simp: flow_def xyz)
qed

definition to_server :: "relay \<Rightarrow> string \<times> string \<times> string" where
  "to_server s = (received_bytes (fd_num (rl_client s)) (rl_world s),
     sent_bytes (fd_num (rl_server s)) (rl_world s), bs_content (rl_from_client s))"

definition to_client :: "relay \<Rightarrow> string \<times> string \<times> string" where
  "to_client s = (received_bytes (fd_num (rl_server s)) (rl_world s),
     sent_bytes (fd_num (rl_client s)) (rl_world s), bs_content (rl_from_server s))"

definition relay_inv :: "relay \<Rightarrow> bool" where
  "relay_inv s \<longleftrightarrow> bs_ok (rl_from_client s) \<and> bs_ok (rl_from_server s) \<and> honest_writes (rl_world s) \<and>
     honest_reads (rl_world s) \<and> fd_num (rl_server s) \<noteq> fd_num (rl_client s)"

definition relay_prog :: "relay \<Rightarrow> relay \<Rightarrow> bool" where
  "relay_prog s s' \<longleftrightarrow>
     fd_num (rl_server s') = fd_num (rl_server s) \<and> fd_num (rl_client s') = fd_num (rl_client s) \<and>
     (fd_eof (rl_server s) \<longrightarrow> fd_eof (rl_server s')) \<and> (fd_eof (rl_client s) \<longrightarrow> fd_eof (rl_client s')) \<and>
     flow (to_server s) (to_server s') \<and> flow (to_client s) (to_client s')"

lemma relay_prog_refl: "relay_prog s s"
  by (simp add: relay_prog_def)

lemma relay_prog_trans: "relay_prog s s1 \<Longrightarrow> relay_prog s1 s2 \<Longrightarrow> relay_prog s s2"
  by (auto simp: relay_prog_def intro: flow_trans)

lemma fd_read_eof:
  assumes "fd_read limit fd w = Inr (c, fd', w')" "honest_reads w" "0 < limit"
  shows "c = [] \<longrightarrow> fd_eof fd'" "fd_eof fd \<longrightarrow> fd_eof fd'" "honest_reads w'"
proof -
  obtain ret data where rd: "w_read w (fd_num fd) (w_read_calls w) = (ret, data)" by fastforce
  have "0 < ret \<longrightarrow> data \<noteq> []"
    using assms(2) [unfolded honest_reads_def, rule_format, of "fd_num fd" "w_read_calls w"] rd by simp
  with assms(1,3) rd show "c = [] \<longrightarrow> fd_eof fd'" "fd_eof fd \<longrightarrow> fd_eof fd'"
    by (auto simp: fd_read_def Let_def andThen_Inr_iff SystemCall_Inr_iff register_read_def BUFFER_SIZE_def
        split: if_splits)
  show "honest_reads w'" using assms(1,2) fd_read_streams(5) [OF assms(1)] by (simp add: honest_reads_def)
qed

text \<open>The four callbacks, where their interest allows them.\<close>

lemma push_room_pos: "bs_ok q \<Longrightarrow> space_available q \<Longrightarrow> 0 < push_room q"
  using space_available_content [of q] by (simp add: push_room_def bs_ok_def)

lemma non_empty_append: "bs_ok q \<Longrightarrow> bs_ok q' \<Longrightarrow> bs_content q' = bs_content q @ c \<Longrightarrow>
    non_empty q \<Longrightarrow> non_empty q'"
  by (simp add: non_empty_content)

lemma on_server_readable_ok:
  assumes "relay_inv s" "space_available (rl_from_server s)"
  shows "(\<exists>e. on_server_readable s = Some (Inl e) \<and> kernel_error e) \<or>
    (\<exists>r s'. on_server_readable s = Some (Inr (r, s')) \<and> relay_inv s' \<and> relay_prog s s' \<and>
       rl_from_client s' = rl_from_client s \<and>
       (non_empty (rl_from_server s) \<longrightarrow> non_empty (rl_from_server s')) \<and>
       ar_result r \<noteq> Exit \<and> (ar_result r = Cancel \<longrightarrow> fd_eof (rl_server s')))"
proof -
  from assms(1) have q: "bs_ok (rl_from_server s)" "honest_reads (rl_world s)" by (simp_all add: relay_inv_def)
  from bs_push_outcome [OF q(1) assms(2), of "rl_server s" "rl_world s"] show ?thesis
  proof (elim disjE exE conjE)
    fix e assume "bs_push (rl_from_server s) (rl_server s) (rl_world s) = Inl e" "kernel_error e"
    then show ?thesis by (simp add: on_server_readable_def)
  next
    fix r q' fd' w' c
    assume p: "bs_push (rl_from_server s) (rl_server s) (rl_world s) = Inr (r, q', fd', w')"
      and rd: "fd_read (push_room (rl_from_server s)) (rl_server s) (rl_world s) = Inr (c, fd', w')"
      and c: "(r = EndOfFile) = (c = [])" "bs_ok q'" "bs_content q' = bs_content (rl_from_server s) @ c"
    let ?s = "s\<lparr>rl_from_server := q', rl_server := fd', rl_world := w'\<rparr>"
    note st = fd_read_streams [OF rd] and eof = fd_read_eof [OF rd q(2) push_room_pos [OF q(1) assms(2)]]
    have "relay_inv ?s" using assms(1) c(2) st(3,4) eof(3) by (simp add: relay_inv_def)
    moreover have "relay_prog s ?s"
      using assms(1) c(3) st eof(2) by (auto simp: relay_prog_def relay_inv_def flow_def to_server_def to_client_def)
    moreover have "non_empty (rl_from_server s) \<longrightarrow> non_empty q'"
      using non_empty_append [OF q(1) c(2,3)] by simp
    ultimately show ?thesis using p c(1) eof(1)
      by (auto simp: on_server_readable_def bs_eof_def handled_def)
  qed
qed

text \<open>The code of the two directions is the same, with client and server exchanged.\<close>

definition swapped :: "relay \<Rightarrow> relay" where
  "swapped s = \<lparr>rl_server = rl_client s, rl_client = rl_server s, rl_from_client = rl_from_server s,
     rl_from_server = rl_from_client s, rl_world = rl_world s\<rparr>"

lemma swapped_fields [simp]:
  "rl_server (swapped s) = rl_client s" "rl_client (swapped s) = rl_server s"
  "rl_from_client (swapped s) = rl_from_server s" "rl_from_server (swapped s) = rl_from_client s"
  "rl_world (swapped s) = rl_world s" "swapped (swapped s) = s"
  by (simp_all add: swapped_def)

lemma swapped_inv [simp]: "relay_inv (swapped s) = relay_inv s"
  by (auto simp: relay_inv_def)

lemma swapped_prog [simp]: "relay_prog (swapped s) (swapped s') = relay_prog s s'"
  by (auto simp: relay_prog_def to_server_def to_client_def)

lemma on_client_swapped:
  "on_client_readable s = map_option (map_sum id (map_prod id swapped)) (on_server_readable (swapped s))"
  "on_client_writable s = map_option (map_sum id (map_prod id swapped)) (on_server_writable (swapped s))"
  by (auto simp: on_client_readable_def on_server_readable_def on_client_writable_def on_server_writable_def
      andThen_def swapped_def split: sum.splits)

lemma on_client_readable_ok:
  assumes "relay_inv s" "space_available (rl_from_client s)"
  shows "(\<exists>e. on_client_readable s = Some (Inl e) \<and> kernel_error e) \<or>
    (\<exists>r s'. on_client_readable s = Some (Inr (r, s')) \<and> relay_inv s' \<and> relay_prog s s' \<and>
       rl_from_server s' = rl_from_server s \<and>
       (non_empty (rl_from_client s) \<longrightarrow> non_empty (rl_from_client s')) \<and>
       ar_result r \<noteq> Exit \<and> (ar_result r = Cancel \<longrightarrow> fd_eof (rl_client s')))"
proof -
  have "relay_inv (swapped s)" "space_available (rl_from_server (swapped s))" using assms by simp_all
  from on_server_readable_ok [OF this] show ?thesis
    unfolding on_client_swapped swapped_prog [of s, symmetric]
  proof (elim disjE exE conjE, goal_cases)
    case (2 r s1)
    then show ?case by (intro disjI2 exI [of _ r] exI [of _ "swapped s1"]) simp
  qed simp
qed

lemma on_server_writable_ok:
  assumes "relay_inv s" "non_empty (rl_from_client s)"
  shows "(\<exists>e. on_server_writable s = Some (Inl e) \<and> kernel_error e) \<or>
    (\<exists>r s'. on_server_writable s = Some (Inr (r, s')) \<and> relay_inv s' \<and> relay_prog s s' \<and>
       rl_from_server s' = rl_from_server s \<and> ar_result r = Continue)"
proof -
  from assms(1) have q: "bs_ok (rl_from_client s)" "honest_writes (rl_world s)" by (simp_all add: relay_inv_def)
  from bs_pop_outcome [OF q(1) assms(2) q(2), of "rl_server s"] show ?thesis
  proof (elim disjE exE conjE)
    fix e assume "bs_pop (rl_from_client s) (rl_server s) (rl_world s) = Inl e" "kernel_error e"
    then show ?thesis by (simp add: on_server_writable_def)
  next
    fix str rest q' fd' w' c
    assume p: "bs_pop (rl_from_client s) (rl_server s) (rl_world s) = Inr (q', fd', w')"
      and wr: "fd_write_some str (rl_server s) (rl_world s) = Inr (rest, fd', w')"
      and c: "bs_ok q'" "bs_content (rl_from_client s) = c @ bs_content q'"
        "\<forall>n. sent_bytes n w' = sent_bytes n (rl_world s) @ (if n = fd_num (rl_server s) then c else [])"
    let ?s = "s\<lparr>rl_from_client := q', rl_server := fd', rl_world := w'\<rparr>"
    note st = fd_write_some_streams [OF wr]
    have "relay_inv ?s" using assms(1) c(1) st(3-5) by (simp add: relay_inv_def honest_reads_def)
    moreover have "relay_prog s ?s"
      using assms(1) c(2,3) st(2-6) by (auto simp: relay_prog_def relay_inv_def flow_def to_server_def to_client_def)
    ultimately show ?thesis using p by (simp add: on_server_writable_def handled_def)
  qed
qed

lemma on_client_writable_ok:
  assumes "relay_inv s" "non_empty (rl_from_server s)"
  shows "(\<exists>e. on_client_writable s = Some (Inl e) \<and> kernel_error e) \<or>
    (\<exists>r s'. on_client_writable s = Some (Inr (r, s')) \<and> relay_inv s' \<and> relay_prog s s' \<and>
       rl_from_client s' = rl_from_client s \<and> ar_result r = Continue)"
proof -
  have "relay_inv (swapped s)" "non_empty (rl_from_client (swapped s))" using assms by simp_all
  from on_server_writable_ok [OF this] show ?thesis
    unfolding on_client_swapped swapped_prog [of s, symmetric]
  proof (elim disjE exE conjE, goal_cases)
    case (2 r s1)
    then show ?case by (intro disjI2 exI [of _ r] exI [of _ "swapped s1"]) simp
  qed simp
qed

text \<open>
  An action is ready when its interest says so; the earlier callbacks of a round leave the later
  actions ready, for a queue has one reader and one writer.
\<close>

definition relay_action :: "relay poll_action \<Rightarrow> bool" where
  "relay_action a \<longleftrightarrow> a\<lparr>pa_active := True\<rparr> \<in> set relay_actions"

definition relay_ready :: "relay poll_action \<Rightarrow> relay \<Rightarrow> bool" where
  "relay_ready a s \<longleftrightarrow> pa_when_interested a s = Some (Inr (True, s))"

definition relay_independent :: "relay poll_action \<Rightarrow> relay poll_action \<Rightarrow> bool" where
  "relay_independent a b \<longleftrightarrow> (\<forall>s r s'. relay_inv s \<longrightarrow> relay_ready a s \<longrightarrow> relay_ready b s \<longrightarrow>
     pa_callback a s = Some (Inr (r, s')) \<longrightarrow> relay_ready b s')"

lemma relay_action_cases:
  assumes "relay_action a"
  obtains (server_in) "pa_fd a = rl_server" "pa_direction a = In" "pa_callback a = on_server_readable"
      "pa_when_interested a = interested_if (\<lambda>s. space_available (rl_from_server s))"
    | (client_in) "pa_fd a = rl_client" "pa_direction a = In" "pa_callback a = on_client_readable"
      "pa_when_interested a = interested_if (\<lambda>s. space_available (rl_from_client s))"
    | (server_out) "pa_fd a = rl_server" "pa_direction a = Out" "pa_callback a = on_server_writable"
      "pa_when_interested a = interested_if (\<lambda>s. non_empty (rl_from_client s))"
    | (client_out) "pa_fd a = rl_client" "pa_direction a = Out" "pa_callback a = on_client_writable"
      "pa_when_interested a = interested_if (\<lambda>s. non_empty (rl_from_server s))"
proof -
  obtain fd dir cb int act where a: "a = \<lparr>pa_fd = fd, pa_direction = dir, pa_callback = cb,
    pa_when_interested = int, pa_active = act\<rparr>" by (cases a)
  from assms that show ?thesis by (auto simp: a relay_action_def relay_actions_def mk_action_def)
qed

lemma relay_callback_ok:
  assumes "relay_action a" "relay_inv s" "relay_ready a s"
  shows "(\<exists>e. pa_callback a s = Some (Inl e) \<and> kernel_error e) \<or>
    (\<exists>r s'. pa_callback a s = Some (Inr (r, s')) \<and> relay_inv s' \<and> relay_prog s s' \<and>
       ar_result r \<noteq> Exit \<and> (ar_result r = Cancel \<longrightarrow> pa_direction a = In \<and> fd_eof (pa_fd a s')))"
  using assms(1)
proof (cases rule: relay_action_cases)
  case server_in
  with assms(3) have "space_available (rl_from_server s)" by (simp add: relay_ready_def interested_if_def)
  from on_server_readable_ok [OF assms(2) this] show ?thesis unfolding server_in by blast
next
  case client_in
  with assms(3) have "space_available (rl_from_client s)" by (simp add: relay_ready_def interested_if_def)
  from on_client_readable_ok [OF assms(2) this] show ?thesis unfolding client_in by blast
next
  case server_out
  with assms(3) have "non_empty (rl_from_client s)" by (simp add: relay_ready_def interested_if_def)
  from on_server_writable_ok [OF assms(2) this] show ?thesis unfolding server_out by fastforce
next
  case client_out
  with assms(3) have "non_empty (rl_from_server s)" by (simp add: relay_ready_def interested_if_def)
  from on_client_writable_ok [OF assms(2) this] show ?thesis unfolding client_out by fastforce
qed

lemma relay_actions_independent: "sorted_wrt relay_independent relay_actions"
  unfolding relay_actions_def relay_independent_def relay_ready_def interested_if_def mk_action_def
  by (auto dest: on_server_readable_ok on_client_readable_ok on_server_writable_ok)

interpretation relay: poll_client "\<lambda>k. relay_inv" relay_prog kernel_error relay_action "\<lambda>a. 0"
  "\<lambda>s. Some (Inr (60000, s))" relay_ready relay_independent
proof unfold_locales
  fix a s k assume "relay_action a" "relay_inv s" "relay_ready a s"
  from relay_callback_ok [OF this] \<open>relay_inv s\<close> \<open>relay_ready a s\<close>
  show "(\<exists>e. pa_callback a s = Some (Inl e) \<and> kernel_error e) \<or>
      (\<exists>r s'. pa_callback a s = Some (Inr (r, s')) \<and> relay_inv s' \<and> relay_prog s s' \<and>
         (\<forall>b. relay_action b \<longrightarrow> relay_independent a b \<longrightarrow> relay_ready b s \<longrightarrow> relay_ready b s'))"
    unfolding relay_independent_def by blast
next
  fix a s k assume "relay_action a" "relay_inv s"
  then show "(\<exists>e. pa_when_interested a s = Some (Inl e) \<and> kernel_error e) \<or>
      (\<exists>want s'. pa_when_interested a s = Some (Inr (want, s')) \<and> relay_inv s' \<and> relay_prog s s' \<and>
         (want \<longrightarrow> relay_ready a s') \<and> (\<forall>b. relay_action b \<longrightarrow> relay_ready b s \<longrightarrow> relay_ready b s'))"
    by (elim relay_action_cases) (simp_all add: interested_if_def relay_prog_refl relay_ready_def)
next
  fix a s s' assume "relay_action a" "relay_prog s s'"
  then show "fd_num (pa_fd a s') = fd_num (pa_fd a s)"
    by (elim relay_action_cases) (simp_all add: relay_prog_def)
qed (auto simp: relay_prog_refl relay_action_def relay_independent_def relay_ready_def
    intro: relay_prog_trans)

lemma relay_poller_actions [simp]: "po_actions (relay_poller s) = relay_actions"
  by (simp add: relay_poller_def relay_actions_def add_action_def empty_poller_def)

lemma relay_poller_ok: "relay.poller_ok s (relay_poller s)"
proof -
  have "list_all2 (\<lambda>a f. pfd_fd f = fd_num (pa_fd a s)) relay_actions (po_pollfds (relay_poller s))"
    by (simp add: relay_poller_def relay_actions_def add_action_def empty_poller_def)
  moreover have "\<forall>a \<in> set relay_actions. relay_action a"
    by (simp add: relay_action_def relay_actions_def mk_action_def)
  ultimately show ?thesis
    by (simp add: relay.poller_ok_def relay.fds_ok_def relay_actions_independent)
qed

section \<open>How the relay ends\<close>

text \<open>
  An action is given up (\<open>Cancel\<close>) only at the end of what its descriptor has to read. So, unless
  \<open>poll\<close> reports an error on a descriptor, the loop ends only when nobody is interested any more, and
  then everything has been passed on.
\<close>

definition closed_at_eof :: "relay \<Rightarrow> relay poll_action list \<Rightarrow> bool" where
  "closed_at_eof s as \<longleftrightarrow>
     (\<forall>a \<in> set as. pa_active a \<or> pa_direction a = In \<and> fd_eof (pa_fd a s))"

definition reactivated :: "relay poll_action list \<Rightarrow> relay poll_action list" where
  "reactivated as = map (\<lambda>a. a\<lparr>pa_active := True\<rparr>) as"

definition drained :: "relay \<Rightarrow> bool" where
  "drained s \<longleftrightarrow> bs_content (rl_from_client s) = [] \<and> bs_content (rl_from_server s) = [] \<and>
     fd_eof (rl_server s) \<and> fd_eof (rl_client s)"

definition without_error :: "poll_answers \<Rightarrow> bool" where
  "without_error answers \<longleftrightarrow> (\<forall>k \<in> set answers. \<forall>t fs i. snd (k t fs) i AND POLL_ERROR = 0)"

lemma reactivated_relay: "reactivated as = relay_actions \<Longrightarrow> \<forall>a \<in> set as. relay_action a"
  by (metis (no_types, lifting) image_eqI list.set_map reactivated_def relay_action_def)

lemma eof_prog:
  "relay_action a \<Longrightarrow> relay_prog s s' \<Longrightarrow> fd_eof (pa_fd a s) \<Longrightarrow> fd_eof (pa_fd a s')"
  by (elim relay_action_cases) (simp_all add: relay_prog_def)

lemma closed_prog:
  "closed_at_eof s as \<Longrightarrow> \<forall>a \<in> set as. relay_action a \<Longrightarrow> relay_prog s s' \<Longrightarrow> closed_at_eof s' as"
  unfolding closed_at_eof_def using eof_prog by blast

lemma prepare_quiet:
  "\<forall>a \<in> set as. relay_action a \<Longrightarrow> poll_prepare as fs s = Some (Inr (fs', s')) \<Longrightarrow>
   s' = s \<and> ((\<forall>f \<in> set fs'. pfd_events f = 0) \<longrightarrow>
     (\<forall>a \<in> set as. pa_active a \<and> relay_ready a s \<longrightarrow> pa_direction a = In \<and> fd_eof (pa_fd a s)))"
proof (induction as fs s arbitrary: fs' s' rule: poll_prepare.induct)
  case (1 a as f fs s)
  define ask where "ask = (if pa_active a then pa_when_interested a s else Some (Inr (False, s)))"
  from "1.prems"(1) have a: "relay_action a" "\<forall>a \<in> set as. relay_action a" by simp_all
  have "\<exists>want. ask = Some (Inr (want, s)) \<and> (want \<longleftrightarrow> pa_active a \<and> relay_ready a s)"
    using a(1) by (elim relay_action_cases) (simp_all add: ask_def interested_if_def relay_ready_def)
  then obtain want where want: "ask = Some (Inr (want, s))" "want \<longleftrightarrow> pa_active a \<and> relay_ready a s" by blast
  define events where "events = (if pa_direction a = In \<and> fd_eof (pa_fd a s) then 0
    else if want then direction_events (pa_direction a) else 0 :: u16)"
  from "1.prems"(2) obtain fs1 where rest: "pfd_fd f = fd_num (pa_fd a s)"
    "poll_prepare as fs s = Some (Inr (fs1, s'))" "fs' = f\<lparr>pfd_events := events\<rparr> # fs1"
    by (auto simp: want(1) events_def Let_def andThenO_Some_Inr_iff simp flip: ask_def split: if_splits)
  have "events = 0 \<longrightarrow> want \<longrightarrow> pa_direction a = In \<and> fd_eof (pa_fd a s)"
    by (cases "pa_direction a") (simp_all add: events_def POLLIN_def POLLOUT_def)
  with "1.IH" [OF _ refl refl a(2) rest(2)] rest(1,3) want(1,2) show ?case
    by (auto simp flip: ask_def)
qed auto

lemma dispatch_end:
  "relay.fds_ok s as fs \<Longrightarrow> relay.armed s as fs \<Longrightarrow> relay_inv s \<Longrightarrow> closed_at_eof s as \<Longrightarrow>
   \<forall>f \<in> set fs. pfd_revents f AND POLL_ERROR = 0 \<Longrightarrow>
   poll_dispatch as fs s = Some (Inr (x, as', s')) \<Longrightarrow>
   x = None \<and> closed_at_eof s' as' \<and> reactivated as' = reactivated as \<and> relay_prog s s'"
proof (induction as fs s arbitrary: x as' s' rule: poll_dispatch.induct)
  case (1 a as f fs s)
  from "1.prems"(1) have a: "relay_action a" "\<forall>b \<in> set as. relay_independent a b" "relay.fds_ok s as fs"
    and oks: "\<forall>b \<in> set as. relay_action b"
    by (simp_all add: relay.fds_ok_def)
  from "1.prems"(2) have armed: "pfd_events f \<noteq> 0 \<longrightarrow> relay_ready a s" "relay.armed s as fs" by simp_all
  from "1.prems"(4,5) have closed: "closed_at_eof s as" "pa_active a \<or> pa_direction a = In \<and> fd_eof (pa_fd a s)"
    and noerr: "pfd_revents f AND POLL_ERROR = 0" "\<forall>f \<in> set fs. pfd_revents f AND POLL_ERROR = 0"
    by (simp_all add: closed_at_eof_def)
  show ?case
  proof (cases "pfd_revents f AND pfd_events f = 0")
    case True
    with "1.prems"(6) noerr obtain as1 where r: "poll_dispatch as fs s = Some (Inr (x, as1, s'))" "as' = a # as1"
      by (auto simp: andThenO_Some_Inr_iff)
    from "1.IH"(2) [OF _ _ a(3) armed(2) "1.prems"(3) closed(1) noerr(2) r(1)] noerr True r(2) closed(2) eof_prog [OF a(1)]
    show ?thesis by (auto simp: closed_at_eof_def reactivated_def)
  next
    case False
    then have "relay_ready a s" using armed(1) by auto
    note cb = relay_callback_ok [OF a(1) "1.prems"(3) this]
    with "1.prems"(6) noerr False obtain r s1 where s1: "pa_callback a s = Some (Inr (r, s1))" "relay_inv s1"
      "relay_prog s s1" "ar_result r \<noteq> Exit" "ar_result r = Cancel \<longrightarrow> pa_direction a = In \<and> fd_eof (pa_fd a s1)"
      by auto
    define a' where "a' = (if ar_result r = Cancel then a\<lparr>pa_active := False\<rparr> else a)"
    from "1.prems"(6) noerr False s1(1,4) obtain as1 where
      rest: "poll_dispatch as fs s1 = Some (Inr (x, as1, s'))" "as' = a' # as1"
      by (auto simp: andThenO_Some_Inr_iff Let_def a'_def)
    have "\<forall>b \<in> set as. relay_ready b s \<longrightarrow> relay_ready b s1"
      using a(2) s1(1) \<open>relay_ready a s\<close> "1.prems"(3) unfolding relay_independent_def by blast
    with armed(2) have "relay.armed s1 as fs" by (rule relay.armed_independent)
    from "1.IH"(1) [OF _ _ s1(4) a'_def relay.fds_ok_prog [OF a(3) s1(3)] this s1(2)
        closed_prog [OF closed(1) oks s1(3)] noerr(2) rest(1)] noerr False s1(1)
    have IH: "x = None" "closed_at_eof s' as1" "reactivated as1 = reactivated as" "relay_prog s1 s'" by auto
    have "pa_active a' \<or> pa_direction a' = In \<and> fd_eof (pa_fd a' s1)"
      using s1(5) closed(2) eof_prog [OF a(1) s1(3)] by (auto simp: a'_def)
    moreover have "relay_action a'" using a(1) by (simp add: a'_def relay_action_def)
    ultimately have "pa_active a' \<or> pa_direction a' = In \<and> fd_eof (pa_fd a' s')"
      using eof_prog [OF _ IH(4)] by blast
    with IH rest(2) s1(3) show ?thesis
      by (auto simp: closed_at_eof_def reactivated_def a'_def intro: relay_prog_trans)
  qed
qed (auto simp: relay_prog_refl)

lemma nobody_interested:
  assumes "relay_inv s" "closed_at_eof s as" "reactivated as = relay_actions"
    and "\<forall>a \<in> set as. pa_active a \<and> relay_ready a s \<longrightarrow> pa_direction a = In \<and> fd_eof (pa_fd a s)"
  shows "drained s"
proof -
  have act: "\<exists>a \<in> set as. pa_fd a = pa_fd b \<and> pa_direction a = pa_direction b \<and>
      pa_when_interested a = pa_when_interested b" if "b \<in> set relay_actions" for b
    using that unfolding assms(3) [symmetric] reactivated_def by auto
  have out: "\<not> relay_ready b s" if "b \<in> set relay_actions" "pa_direction b = Out" for b
    using act [OF that(1)] assms(2,4) that(2) by (fastforce simp: closed_at_eof_def relay_ready_def)
  have eof: "fd_eof (pa_fd b s)" if "b \<in> set relay_actions" "pa_direction b = In" "relay_ready b s" for b
  proof -
    note b = that
    from act [OF b(1)] obtain a where a: "a \<in> set as" "pa_fd a = pa_fd b" "pa_direction a = In"
      "pa_when_interested a = pa_when_interested b" using b(2) by auto
    then have "relay_ready a s" using b(3) by (simp add: relay_ready_def)
    with a assms(2,4) show ?thesis by (metis closed_at_eof_def)
  qed
  have q: "bs_ok (rl_from_client s)" "bs_ok (rl_from_server s)" using assms(1) by (simp_all add: relay_inv_def)
  have "\<not> non_empty (rl_from_client s)" "\<not> non_empty (rl_from_server s)"
    using out [of "relay_actions ! 2"] out [of "relay_actions ! 3"]
    by (simp_all add: relay_actions_def mk_action_def relay_ready_def interested_if_def)
  then have content: "bs_content (rl_from_client s) = []" "bs_content (rl_from_server s) = []"
    by (simp_all add: non_empty_content q)
  then have "space_available (rl_from_client s)" "space_available (rl_from_server s)"
    using q by (simp_all add: space_available_content bs_ok_def)
  then have "fd_eof (rl_server s)" "fd_eof (rl_client s)"
    using eof [of "relay_actions ! 0"] eof [of "relay_actions ! 1"]
    by (simp_all add: relay_actions_def mk_action_def relay_ready_def interested_if_def)
  with content show ?thesis by (simp add: drained_def)
qed

lemma revents_error:
  assumes "\<forall>i. r i AND POLL_ERROR = 0"
  shows "\<forall>f \<in> set (set_revents r fs). pfd_revents f AND POLL_ERROR = 0"
  using assms by (auto simp: set_revents_def)

lemma poll_end:
  assumes "relay.poller_ok s p" "relay_inv s" "closed_at_eof s (po_actions p)"
    and "reactivated (po_actions p) = relay_actions" "\<forall>fs i. snd (answer fs) i AND POLL_ERROR = 0"
    and "poll answer p s = Some (Inr (r, p', s'))"
  shows "(\<exists>status. r = Poll_Exit status) \<and> drained s' \<or>
    (\<nexists>status. r = Poll_Exit status) \<and> closed_at_eof s' (po_actions p') \<and>
      reactivated (po_actions p') = relay_actions"
proof -
  let ?as = "po_actions p"
  have ra: "\<forall>a \<in> set ?as. relay_action a" by (rule reactivated_relay) (fact assms(4))
  have fds: "relay.fds_ok s ?as (po_pollfds p)" using assms(1) by (simp add: relay.poller_ok_def)
  from assms(6) obtain fs s1 where prep: "poll_prepare ?as (po_pollfds p) s = Some (Inr (fs, s1))"
    by (auto simp: poll_def andThenO_Some_Inr_iff split: if_splits)
  note quiet = prepare_quiet [OF ra prep]
  then have s1: "s1 = s" by simp
  from relay.prepare_ok [OF fds] assms(2) prep s1
  have fs: "relay.fds_ok s ?as fs" "relay.armed s ?as fs" by auto
  show ?thesis
  proof (cases "\<forall>f \<in> set fs. pfd_events f = 0")
    case True
    with quiet nobody_interested [OF assms(2-4)] have "drained s" by blast
    moreover from assms(6) prep True s1 have "r = Poll_Exit 0" "s' = s"
      by (auto simp: poll_def split: if_splits)
    ultimately show ?thesis by blast
  next
    case False
    obtain ret revents where ans: "answer fs = (ret, revents)" by (cases "answer fs")
    from assms(6) prep False s1 ans obtain n where n: "SystemCall ''poll'' ret = Inr n"
      by (auto simp: poll_def andThenO_Some_Inr_iff Let_def split: if_splits)
    show ?thesis
    proof (cases "n = 0")
      case True
      with assms(6) prep False s1 ans n have "r = Poll_Timeout" "s' = s" "po_actions p' = ?as"
        by (auto simp: poll_def Let_def split: if_splits)
      with assms(3,4) show ?thesis by simp
    next
      case dispatch: False
      let ?fs = "set_revents revents fs"
      from assms(6) prep False s1 ans n dispatch obtain x as' where
        d: "poll_dispatch ?as ?fs s = Some (Inr (x, as', s'))" "po_actions p' = as'"
          "r = (case x of None \<Rightarrow> Poll_Success | Some status \<Rightarrow> Poll_Exit status)"
        by (auto simp: poll_def Let_def andThenO_Some_Inr_iff split: if_splits)
      have ok: "relay.fds_ok s ?as ?fs" "relay.armed s ?as ?fs"
        using fs by (simp_all add: relay.fds_ok_revents relay.armed_revents)
      have "\<forall>i. revents i AND POLL_ERROR = 0"
        using assms(5) [rule_format, of fs] ans by simp
      from dispatch_end [OF ok assms(2,3) revents_error [OF this] d(1)] d(2,3) assms(4)
      show ?thesis by simp
    qed
  qed
qed

lemma relay_loop_end:
  "relay.poller_ok s p \<Longrightarrow> relay_inv s \<Longrightarrow> closed_at_eof s (po_actions p) \<Longrightarrow>
   reactivated (po_actions p) = relay_actions \<Longrightarrow> without_error answers \<Longrightarrow>
   poll_loop (\<lambda>s. Some (Inr (60000, s))) answers p s = Some (Inr (Some status, p', s')) \<Longrightarrow> drained s'"
proof (induction answers arbitrary: p s)
  case Nil
  then show ?case by simp
next
  case (Cons k answers)
  from Cons.prems(6) obtain r p1 s1 where one: "poll (k 60000) p s = Some (Inr (r, p1, s1))"
    by (auto simp: andThenO_Some_Inr_iff)
  from Cons.prems(5) have err: "\<forall>fs i. snd (k 60000 fs) i AND POLL_ERROR = 0" "without_error answers"
    by (simp_all add: without_error_def)
  from poll_end [OF Cons.prems(1-4) err(1) one] show ?case
  proof (elim disjE conjE exE)
    fix st assume "r = Poll_Exit st" "drained s1"
    with one Cons.prems(6) show ?thesis by simp
  next
    assume r: "\<nexists>st. r = Poll_Exit st" and c: "closed_at_eof s1 (po_actions p1)"
      "reactivated (po_actions p1) = relay_actions"
    from relay.poll_ok [OF Cons.prems(1), of "k 60000"] Cons.prems(2) one
    have "relay_inv s1" "relay.poller_ok s1 p1" by auto
    moreover have "poll_loop (\<lambda>s. Some (Inr (60000, s))) answers p1 s1 = Some (Inr (Some status, p', s'))"
      using one Cons.prems(6) r by (cases r) auto
    ultimately show ?thesis using Cons.IH [OF _ _ c err(2)] by blast
  qed
qed

text \<open>
  C33. Relaying a connection. Whatever \<open>poll\<close> answers and however few bytes the kernel takes or gives
  at a time, the thread that relays a DNS connection never fails an assertion, reads or writes out of
  a buffer, or uses a queue that is not ready for it: it ends with an error the kernel reported, or it
  is still running, or it has ended. In both directions what was written to one socket, followed by
  what the queue still holds, is what was read from the other, in order. And if \<open>poll\<close> never reported
  an error on a socket, the loop ends only when both peers have sent everything and every byte has
  been passed on.
\<close>

theorem tcp_relay:
  assumes "honest_writes w" "honest_reads w" "fd_num server \<noteq> fd_num client"
  shows "case relay_run answers server client w of
      None \<Rightarrow> False
    | Some (Inl e) \<Rightarrow> kernel_error e
    | Some (Inr (status, s)) \<Rightarrow>
        flow (received_bytes (fd_num client) w, sent_bytes (fd_num server) w, []) (to_server s) \<and>
        flow (received_bytes (fd_num server) w, sent_bytes (fd_num client) w, []) (to_client s) \<and>
        (status \<noteq> None \<and> without_error answers \<longrightarrow> drained s)"
proof -
  obtain q where q: "bytestream_queue_init DNS_BUFFER_SIZE = Inr q"
    by (simp add: bytestream_queue_init_def DNS_BUFFER_SIZE_def)
  have "unat DNS_BUFFER_SIZE < 2 ^ 63" by (simp add: DNS_BUFFER_SIZE_def)
  note q_ok = bytestream_queue_init_ok [OF q this]
  define s0 where "s0 = \<lparr>rl_server = server, rl_client = client, rl_from_client = q,
              rl_from_server = q, rl_world = w\<rparr>"
  let ?loop = "poll_loop (\<lambda>s. Some (Inr (60000, s))) answers (relay_poller s0) s0"
  have run: "relay_run answers server client w =
      andThenO ?loop (\<lambda>(status, p, s). Some (Inr (status, s)))"
    by (simp add: relay_run_def q Let_def s0_def)
  have inv: "relay_inv s0" using assms q_ok by (simp add: relay_inv_def s0_def)
  from relay.poll_loop_ok [OF relay_poller_ok, of s0 answers] inv
  have "(\<exists>e. ?loop = Some (Inl e) \<and> kernel_error e) \<or>
    (\<exists>r p' s'. ?loop = Some (Inr (r, p', s')) \<and> relay_inv s' \<and> relay_prog s0 s')" by simp
  then show ?thesis
  proof (elim disjE exE conjE)
    fix e assume "?loop = Some (Inl e)" "kernel_error e"
    then show ?thesis by (simp add: run)
  next
    fix r p' s' assume l: "?loop = Some (Inr (r, p', s'))" "relay_prog s0 s'"
    have "closed_at_eof s0 relay_actions" "reactivated relay_actions = relay_actions"
      by (simp_all add: closed_at_eof_def reactivated_def relay_actions_def mk_action_def)
    with relay_loop_end [OF relay_poller_ok inv] l(1) have
      "r \<noteq> None \<and> without_error answers \<longrightarrow> drained s'" by auto
    moreover have "flow (to_server s0) (to_server s')" "flow (to_client s0) (to_client s')"
      using l(2) by (simp_all add: relay_prog_def)
    ultimately show ?thesis using l(1) q_ok(2) by (simp add: run to_server_def to_client_def s0_def)
  qed
qed

theorem tcp_relay_witness:
  "case relay_run [\<lambda>t fs. (1, \<lambda>i. 5), \<lambda>t fs. (0, \<lambda>i. 0)] (plain_fd 5) (plain_fd 6) stingy_world of
      None \<Rightarrow> False
    | Some (Inl e) \<Rightarrow> kernel_error e
    | Some (Inr (status, s)) \<Rightarrow> flow ([], [], []) (to_server s) \<and> flow ([], [], []) (to_client s)"
proof -
  have "honest_reads stingy_world" by (simp add: honest_reads_def stingy_world_def)
  from tcp_relay [OF stingy_world_start(1) this, of "plain_fd 5" "plain_fd 6"
      "[\<lambda>t fs. (1, \<lambda>i. 5), \<lambda>t fs. (0, \<lambda>i. 0)]"]
  show ?thesis by (auto split: option.splits sum.splits)
qed

section \<open>A reply goes to its requester\<close>

text \<open>
  The thread of a UDP request sends nothing through the listening socket but the reply, to the address
  the request came from.
\<close>

definition replies_to :: "int \<Rightarrow> address \<Rightarrow> sys_call \<Rightarrow> 'k \<Rightarrow> bool" where
  "replies_to listener requester call c =
     (case call of Call_Sendto fd a s \<Rightarrow> fd = listener \<and> a = requester | _ \<Rightarrow> True)"

lemma poll_single:
  assumes "poll answer (add_action s (mk_action fd In callback always_interested) empty_poller) s = Some (Inr (r, p, s'))"
  shows "s' = s \<or> (\<exists>x. callback s = Some (Inr (x, s')))"
  using assms
  by (auto simp: poll_def add_action_def empty_poller_def mk_action_def always_interested_def Let_def
      andThenO_Some_Inr_iff set_revents_def enumerate_eq_zip split: if_splits prod.splits)

lemma to_res_Inr: "to_res q = Some (Inr (x, w)) \<longleftrightarrow> q = Some (Returned x, w)"
proof (cases q)
  case (Some a)
  then show ?thesis by (cases a; cases "fst a") (auto simp: to_res_def)
qed (simp add: to_res_def)

lemma udp_reply_calls:
  assumes "on_udp_reply requester s = Some (Inr (x, s'))" "running_as R (ux_sys s)"
  shows "running_as R (ux_sys s') \<and> made (replies_to (fd_num (ux_listener s)) requester) (ux_sys s) (ux_sys s')"
proof -
  from assms(1) obtain reply server v l w where
    send: "udp_sendto requester reply (ux_listener s) ((ux_sys s)\<lparr>sy_world := v\<rparr>) = Some (Returned l, w)"
      "ux_sys s' = w"
    by (auto simp: on_udp_reply_def andThenO_Some_Inr_iff to_res_Inr)
  have "only_calls R (replies_to (fd_num (ux_listener s)) requester) (udp_sendto requester reply (ux_listener s))"
    unfolding udp_sendto_def Let_def by (intro calls_intro) (simp add: replies_to_def)
  from callsD [OF this _ send(1)] assms(2) send(2) show ?thesis
    by (simp add: running_as_def made_def)
qed

lemma udp_reply_to_requester:
  "only_calls R (replies_to (fd_num listener) (fst request)) (udp_thread udp_target answer request listener)"
  unfolding udp_thread_def UDPSocket_def Socket_def socket_connect_def
proof (intro calls_intro)
  fix dns_server :: file_descriptor
  let ?s = "\<lambda>w. \<lparr>ux_server = dns_server, ux_listener = listener, ux_sys = w\<rparr>"
  let ?poll = "\<lambda>w. poll answer (add_action (?s w) (mk_action ux_server In (on_udp_reply (fst request)) always_interested)
    empty_poller) (?s w)"
  show "only_calls R (replies_to (fd_num listener) (fst request)) (\<lambda>w.
      let s = ?s w; a = mk_action ux_server In (on_udp_reply (fst request)) always_interested
      in case poll answer (add_action s a empty_poller) s of
           None \<Rightarrow> None
         | Some (Inl e) \<Rightarrow> Some (Thrown e, w)
         | Some (Inr (_, _, s)) \<Rightarrow> Some (Returned (), ux_sys s))"
  proof (rule callsI, unfold Let_def)
    fix w r w' assume w: "running_as R w"
      and run: "(case ?poll w of None \<Rightarrow> None | Some (Inl e) \<Rightarrow> Some (Thrown e, w)
        | Some (Inr (_, _, s)) \<Rightarrow> Some (Returned (), ux_sys s)) = Some (r, w')"
    then consider "w' = w" | q p s' where "?poll w = Some (Inr (q, p, s'))" "w' = ux_sys s'"
      by (auto split: option.splits sum.splits)
    then show "made (replies_to (fd_num listener) (fst request)) w w' \<and> (leaves_scope r \<longrightarrow> running_as R w')"
    proof cases
      case 1
      with w show ?thesis by simp
    next
      case 2
      from poll_single [OF 2(1)] show ?thesis
      proof
        assume "s' = ?s w"
        with 2(2) w show ?thesis by simp
      next
        assume "\<exists>x. on_udp_reply (fst request) (?s w) = Some (Inr (x, s'))"
        then obtain x where "on_udp_reply (fst request) (?s w) = Some (Inr (x, s'))" by blast
        from udp_reply_calls [OF this, of R] w 2(2) show ?thesis by simp
      qed
    qed
  qed
qed (simp_all add: replies_to_def)

end
