(* ===== verification/Privileges.thy ===== *)
theory Privileges
  imports Main Prelude Kernel Util System_Runner Addresses Syscalls
begin

text \<open>
  Identity and environment of the process as the calls of a program change them: the operations of
  \<open>Util\<close> on the \<open>sys_world\<close>, which also say what an exception leaves behind; \<open>TemporaryEnvironment\<close> and
  \<open>get_mahimahi_base\<close> (\<open>src/packet/packetshell.cc\<close>), the one place where the user's environment is
  read before the privileges are dropped; and the start of the user's program.
\<close>

section \<open>Identities\<close>

definition id_step :: "string \<Rightarrow> ('k \<Rightarrow> int \<times> 'k) \<Rightarrow> ('k, unit) sys" where
  \<comment> \<open>under \<open>SystemCall\<close>\<close>
  "id_step attempt f w =
     (let (ret, c) = f (sy_ids w)
      in Some (if ret < 0 then Thrown (Unix_Error attempt) else Returned (), w\<lparr>sy_ids := c\<rparr>))"

definition exit_if_regained :: "('k \<Rightarrow> int \<times> 'k) \<Rightarrow> ('k \<Rightarrow> bool) \<Rightarrow> ('k, unit) sys" where
  \<comment> \<open>the privileged identity must be refused, and must not be in effect\<close>
  "exit_if_regained f kept w =
     (let (ret, c) = f (sy_ids w)
      in Some (if ret \<noteq> -1 \<or> \<not> kept c then Exited 1 else Returned (), w\<lparr>sy_ids := c\<rparr>))"

definition sys_drop_privileges :: "'k id_calls \<Rightarrow> ('k, unit) sys" where
  "sys_drop_privileges k =
     bindS (getS sy_ids) (\<lambda>c.
       let real_gid = k_getgid k c; eff_gid = k_getegid k c;
           real_uid = k_getuid k c; eff_uid = k_geteuid k c
       in bindS (if real_gid \<noteq> eff_gid then id_step ''setregid'' (k_setregid k real_gid real_gid)
                 else returnS ()) (\<lambda>_.
          bindS (if real_uid \<noteq> eff_uid then id_step ''setreuid'' (k_setreuid k real_uid real_uid)
                 else returnS ()) (\<lambda>_.
          bindS (if real_gid \<noteq> eff_gid then exit_if_regained (k_setegid k eff_gid) (\<lambda>c. k_getegid k c = real_gid)
                 else returnS ()) (\<lambda>_.
            if real_uid \<noteq> eff_uid then exit_if_regained (k_seteuid k eff_uid) (\<lambda>c. k_geteuid k c = real_uid)
            else returnS ()))))"

definition sys_TemporarilyUnprivileged :: "'k id_calls \<Rightarrow> ('k, temporarily_unprivileged) sys" where
  "sys_TemporarilyUnprivileged k =
     bindS (getS sy_ids) (\<lambda>c.
     bindS (id_step ''setegid'' (\<lambda>c. k_setegid k (k_getgid k c) c)) (\<lambda>_.
     bindS (id_step ''seteuid'' (\<lambda>c. k_seteuid k (k_getuid k c) c)) (\<lambda>_.
     bindS (getS sy_ids) (\<lambda>c'. bindS (liftS (ids_assert_not_root k c')) (\<lambda>_.
       returnS \<lparr>orig_euid = k_geteuid k c, orig_egid = k_getegid k c\<rparr>)))))"

definition sys_tu_destroy :: "'k id_calls \<Rightarrow> temporarily_unprivileged \<Rightarrow> ('k, unit) sys" where
  "sys_tu_destroy k tu =
     bindS (id_step ''seteuid'' (k_seteuid k (orig_euid tu))) (\<lambda>_.
       id_step ''setegid'' (k_setegid k (orig_egid tu)))"

section \<open>The environment\<close>

definition set_environ :: "environment option \<Rightarrow> ('k, unit) sys" where
  "set_environ env w = Some (Returned (), w\<lparr>sy_environ := env\<rparr>)"

definition sys_getenv :: "string \<Rightarrow> ('k, string option) sys" where
  "sys_getenv name = getS (\<lambda>w. case sy_environ w of None \<Rightarrow> None | Some env \<Rightarrow> env name)"

definition env_put :: "string \<Rightarrow> string \<Rightarrow> bool \<Rightarrow> environment option \<Rightarrow> environment option" where
  \<comment> \<open>\<open>setenv\<close>; without an environment it makes one\<close>
  "env_put name value override environ =
     (let env = (case environ of None \<Rightarrow> Map.empty | Some env \<Rightarrow> env)
      in Some (if \<not> override \<and> env name \<noteq> None then env else env(name \<mapsto> value)))"

definition sys_setenv :: "string \<Rightarrow> string \<Rightarrow> bool \<Rightarrow> ('k, unit) sys" where
  "sys_setenv name value override =
     bindS (sys ''setenv'' (Call_Setenv name value override)) (\<lambda>_.
     bindS (getS sy_environ) (\<lambda>env. set_environ (env_put name value override env)))"

definition prompt_command :: string where
  "prompt_command =
     ''PS1='' @ [CHR 0x22] @ ''$MAHIMAHI_SHELL_PREFIX$PS1'' @ [CHR 0x22] @ '' PROMPT_COMMAND=''"

definition sys_prepend_shell_prefix :: "string \<Rightarrow> ('k, unit) sys" where
  "sys_prepend_shell_prefix str =
     bindS (sys_getenv ''MAHIMAHI_SHELL_PREFIX'') (\<lambda>prefix_text.
       let mahimahi_prefix = (case prefix_text of None \<Rightarrow> [] | Some s \<Rightarrow> s) @ str
       in bindS (sys_setenv ''MAHIMAHI_SHELL_PREFIX'' mahimahi_prefix True) (\<lambda>_.
            sys_setenv ''PROMPT_COMMAND'' prompt_command True))"

section \<open>packetshell.cc: the outer container's address\<close>

definition TemporaryEnvironment :: "environment option \<Rightarrow> ('k, unit) sys" where
  "TemporaryEnvironment env =
     bindS (getS sy_environ) (\<lambda>environ.
       if environ \<noteq> None then
         throwS (Runtime_Error ''TemporaryEnvironment: cannot be entered recursively'')
       else set_environ env)"

definition te_destroy :: "('k, unit) sys" where
  "te_destroy = set_environ None"

definition get_mahimahi_base :: "'k id_calls \<Rightarrow> resolver \<Rightarrow> environment option \<Rightarrow> ('k, address) sys" where
  "get_mahimahi_base k gai user_environment =
     scoped (sys_TemporarilyUnprivileged k) (sys_tu_destroy k) (\<lambda>tu.
     scoped (TemporaryEnvironment user_environment) (\<lambda>_. te_destroy) (\<lambda>te.
     bindS (sys_getenv ''MAHIMAHI_BASE'') (\<lambda>mahimahi_base.
       case mahimahi_base of
         None \<Rightarrow> liftS (Address_default gai)
       | Some s \<Rightarrow> liftS (Address_numeric gai s 0))))"

section \<open>The user's program\<close>

definition user_command :: "'k id_calls \<Rightarrow> string \<Rightarrow> string list \<Rightarrow> ('k, i32) sys" where
  \<comment> \<open>the procedure of the child that runs it\<close>
  "user_command k shell_prefix command =
     bindS (sys_prepend_shell_prefix shell_prefix) (\<lambda>_. sys_ezexec k command True)"

section \<open>What they change\<close>

text \<open>None of them makes a call of the trace but \<open>setenv\<close>; the first three keep the environment.\<close>

definition same_trace :: "'k sys_world \<Rightarrow> 'k sys_world \<Rightarrow> bool" where
  "same_trace w w' \<longleftrightarrow> (\<exists>c. w' = w\<lparr>sy_ids := c\<rparr>)"

lemma same_trace_refl [simp]: "same_trace w w"
  unfolding same_trace_def by (rule exI [of _ "sy_ids w"]) simp

lemma same_trace_trans: "same_trace w w1 \<Longrightarrow> same_trace w1 w2 \<Longrightarrow> same_trace w w2"
  by (auto simp: same_trace_def)

lemma bindS_Returned_iff:
  "bindS m f w = Some (Returned y, w') \<longleftrightarrow>
    (\<exists>x w1. m w = Some (Returned x, w1) \<and> f x w1 = Some (Returned y, w'))"
  by (auto simp: bindS_outcome)

lemma id_step_eval:
  "id_step attempt f w = Some (r, w') \<longleftrightarrow>
    w' = w\<lparr>sy_ids := snd (f (sy_ids w))\<rparr> \<and>
    r = (if fst (f (sy_ids w)) < 0 then Thrown (Unix_Error attempt) else Returned ())"
  by (auto simp: id_step_def split: prod.splits)

lemma exit_if_regained_eval:
  "exit_if_regained f kept w = Some (r, w') \<longleftrightarrow>
    w' = w\<lparr>sy_ids := snd (f (sy_ids w))\<rparr> \<and>
    r = (if fst (f (sy_ids w)) \<noteq> -1 \<or> \<not> kept (snd (f (sy_ids w))) then Exited 1 else Returned ())"
  by (auto simp: exit_if_regained_def split: prod.splits)

definition changes_ids :: "('k, 'a) sys \<Rightarrow> bool" where
  "changes_ids m \<longleftrightarrow> (\<forall>w r w'. m w = Some (r, w') \<longrightarrow> same_trace w w')"

lemma changes_ids_basic:
  "changes_ids (id_step attempt f)" "changes_ids (exit_if_regained f kept)" "changes_ids (returnS x)"
  "changes_ids (getS g)" "changes_ids (liftS v)"
  by (auto simp: changes_ids_def id_step_eval exit_if_regained_eval liftS_outcome same_trace_def)

lemma changes_ids_bind: "changes_ids m \<Longrightarrow> (\<And>x. changes_ids (f x)) \<Longrightarrow> changes_ids (bindS m f)"
  unfolding changes_ids_def bindS_outcome by (blast intro: same_trace_trans)

lemma changes_ids_if: "changes_ids m \<Longrightarrow> changes_ids n \<Longrightarrow> changes_ids (if b then m else n)"
  by simp

lemmas changes_ids_intro = changes_ids_basic changes_ids_bind changes_ids_if

lemma changes_ids_drop: "changes_ids (sys_drop_privileges k)"
  and changes_ids_tu: "changes_ids (sys_TemporarilyUnprivileged k)"
  and changes_ids_tu_destroy: "changes_ids (sys_tu_destroy k tu)"
  unfolding sys_drop_privileges_def sys_TemporarilyUnprivileged_def sys_tu_destroy_def Let_def
  by (intro changes_ids_intro)+

text \<open>
  On a kernel that keeps its word, \<open>drop_privileges\<close> returns only with the real identities.
\<close>

definition real_ids :: "'k id_calls \<Rightarrow> 'k \<Rightarrow> bool" where
  "real_ids k c \<longleftrightarrow> k_geteuid k c = k_getuid k c \<and> k_getegid k c = k_getgid k c"

lemma id_step_ids:
  "obeys k (sy_ids w) (f (sy_ids w)) new \<Longrightarrow> id_step attempt f w = Some (Returned u, w') \<Longrightarrow>
   ids k (sy_ids w') = new"
  by (auto simp: id_step_eval obeys_def split: if_splits)

lemma exit_if_regained_ids:
  "obeys k (sy_ids w) (f (sy_ids w)) new \<Longrightarrow> exit_if_regained f kept w = Some (Returned u, w') \<Longrightarrow>
   ids k (sy_ids w') = ids k (sy_ids w)"
  by (auto simp: exit_if_regained_eval obeys_def split: if_splits)

lemma ex_unit: "(\<exists>x :: unit. P x) \<longleftrightarrow> P ()"
  by auto

lemma sys_drop_steps:
  assumes "sys_drop_privileges k w = Some (Returned (), w')"
    and "ids k (sy_ids w) = (ru, eu, rg, eg)"
  shows "\<exists>w1 w2 w3.
    (if rg \<noteq> eg then id_step ''setregid'' (k_setregid k rg rg) else returnS ()) w = Some (Returned (), w1) \<and>
    (if ru \<noteq> eu then id_step ''setreuid'' (k_setreuid k ru ru) else returnS ()) w1 = Some (Returned (), w2) \<and>
    (if rg \<noteq> eg then exit_if_regained (k_setegid k eg) (\<lambda>c. k_getegid k c = rg) else returnS ()) w2 = Some (Returned (), w3) \<and>
    (if ru \<noteq> eu then exit_if_regained (k_seteuid k eu) (\<lambda>c. k_geteuid k c = ru) else returnS ()) w3 = Some (Returned (), w')"
proof -
  from assms(2) have ids: "k_getuid k (sy_ids w) = ru" "k_geteuid k (sy_ids w) = eu"
    "k_getgid k (sy_ids w) = rg" "k_getegid k (sy_ids w) = eg" by (simp_all add: ids_eq_iff)
  from assms(1) show ?thesis
    unfolding sys_drop_privileges_def Let_def bindS_simps ids by (simp only: bindS_Returned_iff ex_unit) blast
qed

lemma sys_drop_real:
  assumes laws: "id_laws k" and drop: "sys_drop_privileges k w = Some (Returned (), w')"
    and "ids k (sy_ids w) = (ru, eu, rg, eg)"
  shows "ids k (sy_ids w') = (ru, ru, rg, rg)"
proof -
  note law = id_lawsD [OF laws]
  from sys_drop_steps [OF drop assms(3)] obtain w1 w2 w3 where
    g: "(if rg \<noteq> eg then id_step ''setregid'' (k_setregid k rg rg) else returnS ()) w = Some (Returned (), w1)" and
    u: "(if ru \<noteq> eu then id_step ''setreuid'' (k_setreuid k ru ru) else returnS ()) w1 = Some (Returned (), w2)" and
    xg: "(if rg \<noteq> eg then exit_if_regained (k_setegid k eg) (\<lambda>c. k_getegid k c = rg) else returnS ()) w2 = Some (Returned (), w3)" and
    xu: "(if ru \<noteq> eu then exit_if_regained (k_seteuid k eu) (\<lambda>c. k_geteuid k c = ru) else returnS ()) w3 = Some (Returned (), w')"
    by blast
  have "ids k (sy_ids w1) = (ru, eu, rg, rg)"
    using g assms(3) id_step_ids [where f = "k_setregid k rg rg", OF law(2)] by (auto simp: ids_eq_iff split: if_splits)
  then have "ids k (sy_ids w2) = (ru, ru, rg, rg)"
    using u id_step_ids [where f = "k_setreuid k ru ru", OF law(1)] by (auto simp: ids_eq_iff split: if_splits)
  moreover have "ids k (sy_ids w3) = ids k (sy_ids w2)"
    using xg exit_if_regained_ids [where f = "k_setegid k eg", OF law(4)] by (auto split: if_splits)
  moreover have "ids k (sy_ids w') = ids k (sy_ids w3)"
    using xu exit_if_regained_ids [where f = "k_seteuid k eu", OF law(3)] by (auto split: if_splits)
  ultimately show ?thesis by simp
qed

text \<open>
  The outer container's address is read under the real identities, which are not root's; afterwards
  the identities are as before and the environment is gone.
\<close>

lemma sys_tu_outcome:
  assumes "id_laws k" "sys_TemporarilyUnprivileged k w = Some (Returned tu, w1)"
  shows "TemporarilyUnprivileged k (sy_ids w) = Inr (tu, sy_ids w1)"
  using assms(2)
  by (auto simp: sys_TemporarilyUnprivileged_def TemporarilyUnprivileged_def bindS_outcome id_step_eval
      liftS_outcome id_call_Inr_iff andThen_Inr_iff Let_def split: if_splits sum.splits)

lemma sys_tu_destroy_outcome:
  assumes "sys_tu_destroy k tu w = Some (Returned u, w1)"
  shows "tu_destroy k tu (sy_ids w) = Inr (sy_ids w1)"
  using assms by (auto simp: sys_tu_destroy_def tu_destroy_def bindS_outcome id_step_eval
      id_call_Inr_iff andThen_Inr_iff split: if_splits)

definition base_address :: "resolver \<Rightarrow> environment option \<Rightarrow> address res" where
  \<comment> \<open>what an environment says of the outermost container\<close>
  "base_address gai env =
     (case Option.bind env (\<lambda>m. m ''MAHIMAHI_BASE'') of
        None \<Rightarrow> Address_default gai
      | Some s \<Rightarrow> Address_numeric gai s 0)"

definition base_lookup :: "resolver \<Rightarrow> environment option \<Rightarrow> ('k, address) sys" where
  "base_lookup gai env =
     scoped (TemporaryEnvironment env) (\<lambda>_. te_destroy)
      (\<lambda>_. bindS (sys_getenv ''MAHIMAHI_BASE'') (\<lambda>mahimahi_base.
         case mahimahi_base of
           None \<Rightarrow> liftS (Address_default gai)
         | Some s \<Rightarrow> liftS (Address_numeric gai s 0)))"

lemma get_mahimahi_base_eq:
  "get_mahimahi_base k gai env = bindS (sys_TemporarilyUnprivileged k) (\<lambda>tu.
     after leaves_scope (sys_tu_destroy k tu) (base_lookup gai env))"
  unfolding get_mahimahi_base_def base_lookup_def
  by (subst scoped_def [of "sys_TemporarilyUnprivileged k"]) (rule refl)

lemma base_lookup_outcome:
  assumes "base_lookup gai env w = Some (r, w1)" "sy_environ w = None"
  shows "\<exists>v. w1 = w\<lparr>sy_environ := v\<rparr> \<and> (leaves_scope r \<longrightarrow> v = None) \<and>
    (\<forall>a. r = Returned a \<longrightarrow>
      base_address gai env = Inr a)"
  using assms
  by (auto simp: base_lookup_def base_address_def scoped_def bindS_outcome TemporaryEnvironment_def set_environ_def te_destroy_def
      after_outcome sys_getenv_def liftS_outcome split: option.splits sum.splits if_splits)

lemma get_mahimahi_base_outcome:
  assumes laws: "id_laws k" and run: "get_mahimahi_base k gai env w = Some (r, w')"
    and "sy_environ w = None"
  shows "sy_trace w' = sy_trace w" "leaves_scope r \<Longrightarrow> sy_environ w' = None"
    "sy_pid w' = sy_pid w"
    "r = Returned a \<Longrightarrow> ids k (sy_ids w') = ids k (sy_ids w) \<and> k_getuid k (sy_ids w) \<noteq> 0 \<and>
      k_getgid k (sy_ids w) \<noteq> 0 \<and>
      base_address gai env = Inr a"
proof -
  from run obtain r1 w1 where tu: "sys_TemporarilyUnprivileged k w = Some (r1, w1)"
    and rest: "(\<forall>tu. r1 \<noteq> Returned tu) \<and> w' = w1 \<and> (\<forall>a. r \<noteq> Returned a) \<or>
      (\<exists>tu. r1 = Returned tu \<and> after leaves_scope (sys_tu_destroy k tu) (base_lookup gai env) w1 = Some (r, w'))"
    by (auto simp: get_mahimahi_base_eq bindS_outcome)
  from changes_ids_tu [of k] tu have w1: "same_trace w w1" by (auto simp: changes_ids_def)
  have "sy_trace w' = sy_trace w \<and> (leaves_scope r \<longrightarrow> sy_environ w' = None) \<and> sy_pid w' = sy_pid w \<and>
    (r = Returned a \<longrightarrow> ids k (sy_ids w') = ids k (sy_ids w) \<and> k_getuid k (sy_ids w) \<noteq> 0 \<and>
      k_getgid k (sy_ids w) \<noteq> 0 \<and>
      base_address gai env = Inr a)"
    using rest
  proof (elim disjE exE conjE)
    assume "w' = w1" "\<forall>a. r \<noteq> Returned a"
    with w1 assms(3) show ?thesis by (auto simp: same_trace_def)
  next
    fix tu assume r1: "r1 = Returned tu" and "after leaves_scope (sys_tu_destroy k tu) (base_lookup gai env) w1 = Some (r, w')"
    then obtain r2 w2 where r2: "(base_lookup gai env) w1 = Some (r2, w2)"
      "if leaves_scope r2 then \<exists>d. sys_tu_destroy k tu w2 = Some (d, w') \<and> r = destroyed r2 d
       else r = r2 \<and> w' = w2" by (auto simp: after_outcome)
    have "sy_environ w1 = None" using w1 assms(3) by (auto simp: same_trace_def)
    from base_lookup_outcome [OF r2(1) this] obtain v where v: "w2 = w1\<lparr>sy_environ := v\<rparr>"
      "leaves_scope r2 \<longrightarrow> v = None" "\<forall>a. r2 = Returned a \<longrightarrow>
      base_address gai env = Inr a" by blast
    show ?thesis
    proof (cases "leaves_scope r2")
      case False
      with r2(2) v(1) w1 show ?thesis by (cases r2) (auto simp: same_trace_def)
    next
      case True
      with r2(2) obtain d where d: "sys_tu_destroy k tu w2 = Some (d, w')" "r = destroyed r2 d" by auto
      from changes_ids_tu_destroy [of k tu] d(1) have "same_trace w2 w'" by (auto simp: changes_ids_def)
      then have frame: "sy_trace w' = sy_trace w" "sy_environ w' = None" "sy_pid w' = sy_pid w"
        using w1 v True by (auto simp: same_trace_def)
      show ?thesis
      proof (cases "r = Returned a")
        case returned: True
        with d(2) have a: "r2 = Returned a" "d = Returned ()"
          by (auto simp: destroyed_def split: outcome.splits)
        note tu' = temporarily_unprivileged [OF laws sys_tu_outcome [OF laws tu [unfolded r1]]]
        have "ids k (sy_ids w') = ids k (sy_ids w)"
          by (rule tu'(4) [of "sy_ids w2"]) (use v(1) sys_tu_destroy_outcome [OF d(1) [unfolded a(2)]] in auto)
        with tu'(2,3) v(3) a(1) frame show ?thesis by blast
      next
        case False
        with frame show ?thesis by simp
      qed
    qed
  qed
  then show "sy_trace w' = sy_trace w" "leaves_scope r \<Longrightarrow> sy_environ w' = None"
    "sy_pid w' = sy_pid w"
    "r = Returned a \<Longrightarrow> ids k (sy_ids w') = ids k (sy_ids w) \<and> k_getuid k (sy_ids w) \<noteq> 0 \<and>
      k_getgid k (sy_ids w) \<noteq> 0 \<and>
      base_address gai env = Inr a"
    by blast+
qed

section \<open>Judgements\<close>

text \<open>
  \<open>unset\<close>: no environment; \<open>dropped_to k env\<close>: the real identities and the environment \<open>env\<close>. From the
  first, \<open>drop_privileges\<close> leads to the second, where the environment may be set and changed.
\<close>

definition unset :: "('k \<times> environment option) set" where
  "unset = {x. snd x = None}"

definition dropped_to :: "'k id_calls \<Rightarrow> environment option \<Rightarrow> ('k \<times> environment option) set" where
  "dropped_to k env = {x. real_ids k (fst x) \<and> snd x = env}"

lemma steps_get_base:
  assumes "id_laws k"
  shows "steps unset P unset (get_mahimahi_base k gai env)"
proof (rule stepsI)
  fix w r w' assume "running_as unset w" "get_mahimahi_base k gai env w = Some (r, w')"
  moreover from this have "sy_environ w = None" by (simp add: running_as_def unset_def)
  ultimately show "made P w w' \<and> (\<forall>x. r = Returned x \<longrightarrow> running_as unset w')"
    using get_mahimahi_base_outcome [OF assms] by (auto simp: made_def running_as_def unset_def)
qed

lemma same_trace_frame:
  "same_trace w w' \<Longrightarrow> made P w w' \<and> sy_environ w' = sy_environ w \<and> sy_pid w' = sy_pid w"
  by (auto simp: same_trace_def made_def)

lemma steps_drop:
  assumes "id_laws k"
  shows "steps unset P (dropped_to k None) (sys_drop_privileges k)"
proof (rule stepsI)
  fix w r w' assume w: "running_as unset w" "sys_drop_privileges k w = Some (r, w')"
  from changes_ids_drop [of k] w(2) have "same_trace w w'" by (auto simp: changes_ids_def)
  note frame = same_trace_frame [OF this]
  have "running_as (dropped_to k None) w'" if "r = Returned x" for x
  proof -
    obtain ru eu rg eg where ids: "ids k (sy_ids w) = (ru, eu, rg, eg)" by (cases "ids k (sy_ids w)")
    from w(2) that have "sys_drop_privileges k w = Some (Returned (), w')" by simp
    from sys_drop_real [OF assms this ids] frame w(1) show ?thesis
      by (simp add: running_as_def unset_def dropped_to_def real_ids_def ids_eq_iff)
  qed
  with frame show "made P w w' \<and> (\<forall>x. r = Returned x \<longrightarrow> running_as (dropped_to k None) w')" by blast
qed

lemma steps_set_environ: "steps (dropped_to k env) P (dropped_to k env') (set_environ env')"
  by (auto simp: steps_def set_environ_def running_as_def dropped_to_def made_def)

lemma steps_setenv:
  assumes "\<And>c. real_ids k c \<Longrightarrow> P (Call_Setenv name value override) c"
  shows "steps (dropped_to k env) P (dropped_to k (env_put name value override env)) (sys_setenv name value override)"
proof -
  have "steps (dropped_to k env) P (dropped_to k env) (sys ''setenv'' (Call_Setenv name value override))"
    using assms by (intro steps_same calls_intro) (simp add: dropped_to_def)
  moreover have "steps (dropped_to k env) P (dropped_to k (env_put name value override env))
      (bindS (getS sy_environ) (\<lambda>env. set_environ (env_put name value override env)))"
    by (auto simp: steps_def set_environ_def running_as_def dropped_to_def made_def)
  ultimately show ?thesis unfolding sys_setenv_def by (rule steps_bind)
qed

definition prefixed :: "string \<Rightarrow> environment option \<Rightarrow> environment option" where
  "prefixed str env =
     env_put ''PROMPT_COMMAND'' prompt_command True
       (env_put ''MAHIMAHI_SHELL_PREFIX''
         ((case Option.bind env (\<lambda>m. m ''MAHIMAHI_SHELL_PREFIX'') of None \<Rightarrow> [] | Some s \<Rightarrow> s) @ str) True env)"

lemma steps_getenv:
  assumes "\<And>v. v = Option.bind env (\<lambda>m. m name) \<Longrightarrow> steps (dropped_to k env) P Q (f v)"
  shows "steps (dropped_to k env) P Q (bindS (sys_getenv name) f)"
proof (rule stepsI)
  fix w r w' assume w: "running_as (dropped_to k env) w" "bindS (sys_getenv name) f w = Some (r, w')"
  then have "f (Option.bind env (\<lambda>m. m name)) w = Some (r, w')"
    by (auto simp: sys_getenv_def running_as_def dropped_to_def split: option.splits)
  with assms w(1) show "made P w w' \<and> (\<forall>x. r = Returned x \<longrightarrow> running_as Q w')" by (blast dest: stepsD)
qed

lemma steps_user_command:
  assumes "\<And>c name value. real_ids k c \<Longrightarrow> P (Call_Setenv name value True) c"
    and "\<And>c ex. real_ids k c \<Longrightarrow> ezexec k c (prefixed shell_prefix env) command True None = Inr ex \<Longrightarrow>
      P (Call_Exec ex) c"
  shows "steps (dropped_to k env) P UNIV (user_command k shell_prefix command)"
  unfolding user_command_def
proof (rule steps_bind)
  show "steps (dropped_to k env) P (dropped_to k (prefixed shell_prefix env)) (sys_prepend_shell_prefix shell_prefix)"
    unfolding sys_prepend_shell_prefix_def prefixed_def Let_def
    by (rule steps_getenv, rule steps_bind, rule steps_setenv, erule assms(1), simp, rule steps_setenv,
        erule assms(1))
qed (intro calls_intro, simp add: assms(2) dropped_to_def)

text \<open>Without a condition on identity and environment, all of them are plain calls.\<close>

lemma calls_changes_ids: "changes_ids m \<Longrightarrow> only_calls UNIV P m"
  by (auto simp: only_calls_def changes_ids_def dest: same_trace_frame)

lemma calls_set_environ: "only_calls UNIV P (set_environ env)"
  by (simp add: only_calls_def set_environ_def made_def)

lemma calls_setenv: "(\<And>c. P (Call_Setenv name value override) c) \<Longrightarrow> only_calls UNIV P (sys_setenv name value override)"
  unfolding sys_setenv_def by (intro calls_intro calls_set_environ)

end
