(* ===== verification/Packet_Shell.thy ===== *)
theory Packet_Shell
  imports Main Prelude Kernel Poller Util Child_Process Event_Loop Cellular_State Ferry_Loop Addresses
    Interfaces Syscalls Sockets Net_Setup Dns_Proxy Privileges
begin

text \<open>
  \<open>PacketShell\<close> (\<open>src/packet/packetshell.cc\<close>) and \<open>TunPacketShell\<close> (\<open>src/packet/tun_packetshell.cc\<close>)
  on a \<open>CellularQueue\<close>: the device, the DNS proxy and the address translation outside; the process
  that builds the inner network, drops its privileges, starts the user's program and runs the
  uplink; the process that runs the downlink; and the wait for both. Where both classes have the
  same text they share a definition.
\<close>

section \<open>What the machine answers\<close>

text \<open>
  The answers of libraries and of the calls that are no entries of the trace. A process runs one event
  loop at most, so one list of answers to \<open>poll\<close> will do.
\<close>

record platform =
  pf_gai :: resolver
  pf_getifaddrs :: "int \<times> string option list"
  pf_route_file :: "int \<times> int" \<comment> \<open>\<open>open\<close> of /proc/net/route and its \<open>fcntl\<close>\<close>
  pf_res_init :: int
  pf_nsaddr_list :: "string list"
  pf_sigprocmask :: "nat \<Rightarrow> int" \<comment> \<open>at this length of the trace\<close>
  pf_mask :: "int \<times> int list"
  pf_signalfd :: "int \<times> int"
  pf_poll :: poll_answers
  pf_IPTABLES :: string
  pf_DNSMASQ :: string
  pf_dev_null :: "int \<times> int" \<comment> \<open>\<open>open\<close> and \<open>fcntl\<close> in \<open>check_requirements\<close>, as the next\<close>
  pf_ip_forward :: "int \<times> int"
  pf_getopt :: "(char \<times> string) list \<times> nat" \<comment> \<open>the options and the final \<open>optind\<close>\<close>
  pf_pw_shell :: "string option"

section \<open>State\<close>

text \<open>The members both classes have; the event loop is its signals and its children.\<close>

record shell_base =
  ps_user_environment :: "environment option"
  ps_egress_ingress :: "address \<times> address"
  ps_nameserver :: address
  ps_egress_tun :: file_descriptor
  ps_dns_outside :: dns_proxy
  ps_pipe :: "file_descriptor \<times> file_descriptor"
  ps_signals :: "int list"
  ps_children :: children

record packet_shell = shell_base +
  ps_nat_rule :: "string list \<times> string list"

definition egress_addr :: "'a shell_base_scheme \<Rightarrow> address" where
  "egress_addr s = fst (ps_egress_ingress s)"

definition ingress_addr :: "'a shell_base_scheme \<Rightarrow> address" where
  "ingress_addr s = snd (ps_egress_ingress s)"

section \<open>Construction and destruction\<close>

definition sys_EventLoop :: "platform \<Rightarrow> ('k, int list) sys" where
  \<comment> \<open>the signals of the new loop\<close>
  "sys_EventLoop pf =
     bindS (getS (\<lambda>w. pf_sigprocmask pf (length (sy_trace w)))) (\<lambda>ret.
     bindS (liftS (EventLoop ret)) (\<lambda>(signals, blocked). returnS signals))"

fun children_destroy :: "children \<Rightarrow> ('k, unit) sys" where
  "children_destroy [] = returnS ()"
| "children_destroy ((status, p) # rest) = bindS (child_destroy p) (\<lambda>_. children_destroy rest)"

definition pipe_destroy :: "file_descriptor \<times> file_descriptor \<Rightarrow> ('k, unit) sys" where
  "pipe_destroy p = bindS (fd_destroy (snd p)) (\<lambda>_. fd_destroy (fst p))"

definition egress_ingress :: "'k id_calls \<Rightarrow> platform \<Rightarrow> environment option \<Rightarrow> ('k, address \<times> address) sys" where
  \<comment> \<open>\<open>two_unassigned_addresses ( get_mahimahi_base () )\<close>\<close>
  "egress_ingress k pf user_environment =
     bindS (get_mahimahi_base k (pf_gai pf) user_environment) (\<lambda>avoid.
       on_world (\<lambda>w. two_unassigned_addresses (pf_gai pf) (pf_getifaddrs pf) (pf_route_file pf) w avoid))"

definition device_name :: "string \<Rightarrow> nat \<Rightarrow> string" where
  "device_name device_prefix pid = device_prefix @ ''-'' @ dec pid"

definition PacketShell :: "'k id_calls \<Rightarrow> platform \<Rightarrow> string \<Rightarrow> environment option \<Rightarrow> ('k, packet_shell) sys" where
  "PacketShell k pf device_prefix user_environment =
     bindS (egress_ingress k pf user_environment) (\<lambda>(egress, ingress).
     bindS (liftS (first_nameserver (pf_res_init pf) (pf_nsaddr_list pf))) (\<lambda>nameserver.
     bindS (getS sy_pid) (\<lambda>pid.
     unwinding (TunDevice (pf_gai pf) (device_name device_prefix pid) egress ingress) fd_destroy (\<lambda>egress_tun.
     unwinding (DNSProxy (pf_gai pf) egress nameserver nameserver) dns_proxy_destroy (\<lambda>dns_outside.
     unwinding (NAT k (pf_IPTABLES pf) ingress) (nat_destroy k (pf_IPTABLES pf)) (\<lambda>nat_rule.
     unwinding unix_make_pair pipe_destroy (\<lambda>pipe.
     bindS (sys_EventLoop pf) (\<lambda>signals.
       if 12 < length device_prefix then
         throwS (Runtime_Error ''PacketShell: device prefix is too long!'')
       else
         bindS (getS sy_environ) (\<lambda>environ.
         if environ \<noteq> None then
           throwS (Runtime_Error ''PacketShell: environment was not cleared'')
         else
           bindS (on_world (\<lambda>w. Some (initial_timestamp w))) (\<lambda>_.
             returnS \<lparr>ps_user_environment = user_environment, ps_egress_ingress = (egress, ingress),
               ps_nameserver = nameserver, ps_egress_tun = egress_tun, ps_dns_outside = dns_outside,
               ps_pipe = pipe, ps_signals = signals, ps_children = [], ps_nat_rule = nat_rule\<rparr>))))))))))"

definition TunPacketShell :: "'k id_calls \<Rightarrow> platform \<Rightarrow> string \<Rightarrow> environment option \<Rightarrow> ('k, shell_base) sys" where
  \<comment> \<open>neither address translation nor a check of the prefix\<close>
  "TunPacketShell k pf device_prefix user_environment =
     bindS (egress_ingress k pf user_environment) (\<lambda>(egress, ingress).
     bindS (liftS (first_nameserver (pf_res_init pf) (pf_nsaddr_list pf))) (\<lambda>nameserver.
     bindS (getS sy_pid) (\<lambda>pid.
     unwinding (TunDevice (pf_gai pf) (device_name device_prefix pid) egress ingress) fd_destroy (\<lambda>egress_tun.
     unwinding (DNSProxy (pf_gai pf) egress nameserver nameserver) dns_proxy_destroy (\<lambda>dns_outside.
     unwinding unix_make_pair pipe_destroy (\<lambda>pipe.
     bindS (sys_EventLoop pf) (\<lambda>signals.
     bindS (getS sy_environ) (\<lambda>environ.
       if environ \<noteq> None then
         throwS (Runtime_Error ''TunPacketShell: environment was not cleared'')
       else
         bindS (on_world (\<lambda>w. Some (initial_timestamp w))) (\<lambda>_.
           returnS \<lparr>ps_user_environment = user_environment, ps_egress_ingress = (egress, ingress),
             ps_nameserver = nameserver, ps_egress_tun = egress_tun, ps_dns_outside = dns_outside,
             ps_pipe = pipe, ps_signals = signals, ps_children = []\<rparr>)))))))))"

text \<open>
  The members' destructors, the last one first; what is left of the children, and the pipe as it is
  by then, come as the final state.
\<close>

definition tun_packet_shell_destroy :: "'a shell_base_scheme \<Rightarrow> ('k, unit) sys" where
  "tun_packet_shell_destroy s =
     bindS (children_destroy (ps_children s)) (\<lambda>_.
     bindS (pipe_destroy (ps_pipe s)) (\<lambda>_.
     bindS (dns_proxy_destroy (ps_dns_outside s)) (\<lambda>_. fd_destroy (ps_egress_tun s))))"

definition packet_shell_destroy :: "'k id_calls \<Rightarrow> platform \<Rightarrow> packet_shell \<Rightarrow> ('k, unit) sys" where
  "packet_shell_destroy k pf s =
     bindS (children_destroy (ps_children s)) (\<lambda>_.
     bindS (pipe_destroy (ps_pipe s)) (\<lambda>_.
     bindS (nat_destroy k (pf_IPTABLES pf) (ps_nat_rule s)) (\<lambda>_.
     bindS (dns_proxy_destroy (ps_dns_outside s)) (\<lambda>_. fd_destroy (ps_egress_tun s)))))"

text \<open>
  A device's name has room for 16 bytes, which the check of the prefix (made after the device) does not
  see to: two processes of \<open>cellularshell\<close> with pids of seven digits can ask for the same device.
\<close>

lemma dec_append: "0 < n \<Longrightarrow> d < 10 \<Longrightarrow> dec (10 * n + d) = dec n @ [digit_char d]"
  by (subst dec.simps) simp

lemma dec_length: "10 ^ m \<le> n \<Longrightarrow> m < length (dec n)"
proof (induction m arbitrary: n)
  case (Suc m)
  then have "10 ^ m \<le> n div 10" by (simp add: less_eq_div_iff_mult_less_eq mult.commute)
  moreover have "1 \<le> (10::nat) ^ m" by simp
  with Suc.prems have "\<not> n < 10" unfolding power_Suc by linarith
  ultimately show ?case using Suc.IH by (simp add: dec.simps [of n])
qed simp

lemma strncpy_common:
  assumes "CHR 0x00 \<notin> set s" "n \<le> length s"
  shows "strncpy n (s @ t) = take n s"
proof -
  have "takeWhile (\<lambda>c. c \<noteq> CHR 0x00) (s @ t @ [CHR 0x00]) = s @ takeWhile (\<lambda>c. c \<noteq> CHR 0x00) (t @ [CHR 0x00])"
    using assms(1) by (intro takeWhile_append2) auto
  with assms(2) show ?thesis by (simp add: strncpy_def c_string_def)
qed

lemma device_names_collide:
  assumes "100000 \<le> n" "a < 10" "b < 10"
  shows "strncpy IFNAMSIZ (device_name ''cell-link'' (10 * n + a)) =
    strncpy IFNAMSIZ (device_name ''cell-link'' (10 * n + b))"
proof -
  have nul: "CHR 0x00 \<notin> set (dec n)" using dec_digits [of "CHR 0x00" n] by (auto simp: is_digit_def)
  have "16 \<le> length (''cell-link-'' @ dec n)" using dec_length [of 5 n] assms(1) by simp
  with nul have "strncpy IFNAMSIZ ((''cell-link-'' @ dec n) @ [digit_char d]) = take IFNAMSIZ (''cell-link-'' @ dec n)" for d
    by (intro strncpy_common) (simp_all add: IFNAMSIZ_def)
  with assms show ?thesis by (simp add: device_name_def dec_append)
qed

section \<open>The loops of the processes\<close>

text \<open>
  The event loop's state is put together from the process's world and taken apart again. A loop that
  still runs when the kernel's answers end has not left the call; an exception leaves the children
  as they were when it began.
\<close>

definition no_fd :: file_descriptor where
  "no_fd = \<lparr>fd_num = -1, fd_eof = False, fd_read_count = 0, fd_write_count = 0\<rparr>"

definition ferry_state_of :: "int list \<Rightarrow> children \<Rightarrow> cellular_queue \<Rightarrow> file_descriptor \<Rightarrow> file_descriptor \<Rightarrow>
    'k sys_world \<Rightarrow> ferry_state" where
  "ferry_state_of signals cs queue tun sibling w =
     \<lparr>el_signals = signals, el_children = cs, el_procs = sy_procs w, el_signal_fd = no_fd,
      el_world = sy_world w, fs_tun = tun, fs_sibling = sibling, fs_queue = queue\<rparr>"

definition loop_ended :: "(u32 option \<times> 'a event_loop_scheme \<times> 'k) res option \<Rightarrow>
    ('a event_loop_scheme \<Rightarrow> 'k sys_world) \<Rightarrow> 'k sys_world \<Rightarrow> ((i32 \<times> children) outcome \<times> 'k sys_world) option" where
  \<comment> \<open>\<open>back\<close> is the process's world with the calls made in the loop\<close>
  "loop_ended r back w =
     (case r of
        None \<Rightarrow> None
      | Some (Inl e) \<Rightarrow> Some (Thrown e, w)
      | Some (Inr (None, s, c)) \<Rightarrow> None
      | Some (Inr (Some status, s, c)) \<Rightarrow>
          Some (Returned (ucast status, el_children s),
                (back s)\<lparr>sy_world := el_world s, sy_procs := el_procs s, sy_ids := c\<rparr>))"

definition ferry_loop :: "'k id_calls \<Rightarrow> platform \<Rightarrow> int list \<Rightarrow> children \<Rightarrow> cellular_queue \<Rightarrow> file_descriptor \<Rightarrow>
    file_descriptor \<Rightarrow> ('k, i32 \<times> children) sys" where
  "ferry_loop k pf signals cs queue tun sibling w =
     loop_ended (Ferry_loop k (sy_ids w) (pf_mask pf) (pf_signalfd pf) (pf_poll pf) empty_poller
       (ferry_state_of signals cs queue tun sibling w)) (\<lambda>_. w) w"

text \<open>
  The downlink's loop also has the DNS proxy's handlers, which come first. Its state holds that of the
  ferry and of the proxy; an action of either works on its part.
\<close>

record 'k downlink_state = ferry_state +
  dn_proxy :: dns_proxy
  dn_sys :: "'k sys_world"
  dn_requests :: "(address \<times> string) list"
  dn_connections :: "file_descriptor list"

definition dns_part :: "'k downlink_state \<Rightarrow> 'k dns_loop" where
  "dns_part t = \<lparr>el_signals = el_signals t, el_children = el_children t, el_procs = el_procs t,
     el_signal_fd = el_signal_fd t, el_world = el_world t, dl_proxy = dn_proxy t, dl_sys = dn_sys t,
     dl_requests = dn_requests t, dl_connections = dn_connections t\<rparr>"

definition put_dns_part :: "'k dns_loop \<Rightarrow> 'k downlink_state \<Rightarrow> 'k downlink_state" where
  "put_dns_part d t = t\<lparr>el_signals := el_signals d, el_children := el_children d, el_procs := el_procs d,
     el_signal_fd := el_signal_fd d, el_world := el_world d, dn_proxy := dl_proxy d,
     dn_sys := dl_sys d, dn_requests := dl_requests d, dn_connections := dl_connections d\<rparr>"

definition ferry_part :: "'k downlink_state \<Rightarrow> ferry_state" where
  "ferry_part t = ferry_state.truncate t"

definition put_ferry_part :: "ferry_state \<Rightarrow> 'k downlink_state \<Rightarrow> 'k downlink_state" where
  "put_ferry_part f t = ferry_state.extend f (ferry_state.more t)"

definition embedded :: "('t \<Rightarrow> 's) \<Rightarrow> ('s \<Rightarrow> 't \<Rightarrow> 't) \<Rightarrow> ('s \<Rightarrow> ('a \<times> 's) res option) \<Rightarrow> 't \<Rightarrow> ('a \<times> 't) res option" where
  "embedded part put f t = andThenO (f (part t)) (\<lambda>(x, s). Some (Inr (x, put s t)))"

definition embedded_action :: "('t \<Rightarrow> 's) \<Rightarrow> ('s \<Rightarrow> 't \<Rightarrow> 't) \<Rightarrow> 's poll_action \<Rightarrow> 't poll_action" where
  "embedded_action part put a =
     \<lparr>pa_fd = (\<lambda>t. pa_fd a (part t)), pa_direction = pa_direction a,
      pa_callback = embedded part put (pa_callback a),
      pa_when_interested = embedded part put (pa_when_interested a), pa_active = pa_active a\<rparr>"

definition downlink_actions :: "'k downlink_state \<Rightarrow> 'k downlink_state poll_action list" where
  "downlink_actions t =
     map (embedded_action dns_part put_dns_part) (po_actions (register_handlers (dns_part t) empty_poller)) @
     map (embedded_action ferry_part put_ferry_part) (po_actions (ferry_actions (ferry_part t) empty_poller))"

definition downlink_start :: "int list \<Rightarrow> dns_proxy \<Rightarrow> cellular_queue \<Rightarrow> file_descriptor \<Rightarrow> file_descriptor \<Rightarrow>
    'k sys_world \<Rightarrow> 'k downlink_state" where
  "downlink_start signals proxy queue tun sibling w =
     ferry_state.extend (ferry_state_of signals [] queue tun sibling w) (downlink_state.fields proxy w [] [])"

definition downlink_run :: "'k id_calls \<Rightarrow> 'k \<Rightarrow> int \<times> int list \<Rightarrow> int \<times> int \<Rightarrow> poll_answers \<Rightarrow> 'k downlink_state \<Rightarrow>
    (u32 option \<times> 'k downlink_state \<times> 'k) res option" where
  "downlink_run k c mask_answer signalfd_answer answers t =
     internal_loop k c mask_answer signalfd_answer (embedded ferry_part put_ferry_part ferry_wait) answers
       (foldl (\<lambda>p a. add_action t a p) empty_poller (downlink_actions t)) t"

definition downlink_loop :: "'k id_calls \<Rightarrow> platform \<Rightarrow> int list \<Rightarrow> dns_proxy \<Rightarrow> cellular_queue \<Rightarrow> file_descriptor \<Rightarrow>
    file_descriptor \<Rightarrow> ('k, i32 \<times> children) sys" where
  "downlink_loop k pf signals proxy queue tun sibling w =
     loop_ended (downlink_run k (sy_ids w) (pf_mask pf) (pf_signalfd pf) (pf_poll pf)
       (downlink_start signals proxy queue tun sibling w)) dn_sys w"

section \<open>The uplink\<close>

type_synonym ferry_maker = "world \<Rightarrow> (cellular_queue \<times> world) res"

definition PACKET_MTU :: i32 where "PACKET_MTU = 1392"

definition RTF_UP_GATEWAY :: u16 where
  \<comment> \<open>\<open>RTF_UP | RTF_GATEWAY\<close>\<close>
  "RTF_UP_GATEWAY = 3"

definition set_mtu :: "('k, unit) sys" where
  "set_mtu = interface_ioctl SIOCSIFMTU ''ingress'' (Inr (Ifr_Mtu PACKET_MTU))"

definition default_route :: "platform \<Rightarrow> 'a shell_base_scheme \<Rightarrow> ('k, unit) sys" where
  \<comment> \<open>first the two addresses are printed\<close>
  "default_route pf sh =
     bindS (liftS (ad_str '':'' (ingress_addr sh))) (\<lambda>_.
     bindS (liftS (ad_str '':'' (egress_addr sh))) (\<lambda>_.
     bindS (liftS (Address_default (pf_gai pf))) (\<lambda>dst.
     bindS (liftS (Address_default (pf_gai pf))) (\<lambda>genmask.
       let route = \<lparr>rt_gateway = to_sockaddr (egress_addr sh), rt_dst = to_sockaddr dst,
             rt_genmask = to_sockaddr genmask, rt_flags = RTF_UP_GATEWAY\<rparr>
       in scoped UDPSocket fd_destroy (\<lambda>temp.
            bindS (sys ''ioctl SIOCADDRT'' (Call_Route (fd_num temp) route)) (\<lambda>_. returnS ()))))))"

definition uplink_nameserver :: "'k id_calls \<Rightarrow> platform \<Rightarrow> 'a shell_base_scheme \<Rightarrow> ('k, children) sys" where
  \<comment> \<open>the children of the inner ferry once dnsmasq runs\<close>
  "uplink_nameserver k pf sh =
     bindS (local_address (dx_udp_listener (ps_dns_outside sh))) (\<lambda>a.
     bindS (liftS (ad_str ''#'' a)) (\<lambda>server.
     bindS (start_dnsmasq k (pf_gai pf) (pf_DNSMASQ pf) [''-S'', server]) (\<lambda>p. returnS [(-1, p)])))"

definition user_process :: "'k id_calls \<Rightarrow> string \<Rightarrow> string list \<Rightarrow> 'a shell_base_scheme \<Rightarrow> children \<Rightarrow> ('k, children) sys" where
  \<comment> \<open>from dropping the privileges to the fork of the user's program\<close>
  "user_process k shell_prefix command sh cs =
     bindS (sys_drop_privileges k) (\<lambda>_.
     bindS (set_environ (ps_user_environment sh)) (\<lambda>_.
     bindS (liftS (ad_ip (egress_addr sh))) (\<lambda>ip.
     bindS (sys_setenv ''MAHIMAHI_BASE'' ip False) (\<lambda>_.
     bindS (liftS (join command)) (\<lambda>name.
     bindS (sys_fork name (user_command k shell_prefix command) False SIGHUP) (\<lambda>child.
       returnS (cs @ [(-1, child)])))))))"

definition uplink_process :: "'k id_calls \<Rightarrow> platform \<Rightarrow> ('k, unit) sys \<Rightarrow> ('k, children) sys \<Rightarrow> string \<Rightarrow> string list \<Rightarrow>
    ferry_maker \<Rightarrow> 'a shell_base_scheme \<Rightarrow> ('k, i32) sys" where
  "uplink_process k pf mtu nameserver shell_prefix command ferry_maker sh =
     scoped (TunDevice (pf_gai pf) ''ingress'' (ingress_addr sh) (egress_addr sh)) fd_destroy (\<lambda>ingress_tun.
     bindS (interface_ioctl SIOCSIFFLAGS ''lo'' (Inr (Ifr_Flags IFF_UP))) (\<lambda>_.
     bindS mtu (\<lambda>_.
     bindS (default_route pf sh) (\<lambda>_.
     bindS (sys_EventLoop pf) (\<lambda>signals.
     bindS (unwinding nameserver children_destroy (user_process k shell_prefix command sh)) (\<lambda>cs.
     bindS (unwinding (returnS cs) children_destroy (\<lambda>cs.
              bindS (send_fd ingress_tun (fst (ps_pipe sh))) (\<lambda>_.
              bindS (on_world (\<lambda>w. Some (ferry_maker w))) (\<lambda>uplink_queue.
                ferry_loop k pf signals cs uplink_queue ingress_tun (ps_egress_tun sh))))) (\<lambda>(status, cs).
       bindS (children_destroy cs) (\<lambda>_. returnS status))))))))"

definition start_child :: "string \<Rightarrow> ('k, i32) sys \<Rightarrow> bool \<Rightarrow> 'a shell_base_scheme \<Rightarrow> ('k, 'a shell_base_scheme) sys" where
  \<comment> \<open>\<open>event_loop_.add_child_process\<close>\<close>
  "start_child name procedure new_namespace sh =
     bindS (sys_fork name procedure new_namespace SIGHUP) (\<lambda>p.
       returnS (sh\<lparr>ps_children := ps_children sh @ [(-1, p)]\<rparr>))"

definition start_uplink :: "'k id_calls \<Rightarrow> platform \<Rightarrow> string \<Rightarrow> string list \<Rightarrow> ferry_maker \<Rightarrow> packet_shell \<Rightarrow>
    ('k, packet_shell) sys" where
  "start_uplink k pf shell_prefix command ferry_maker sh =
     start_child ''packetshell''
       (uplink_process k pf set_mtu (uplink_nameserver k pf sh) shell_prefix command ferry_maker sh) True sh"

definition start_uplink_without_nameserver :: "'k id_calls \<Rightarrow> platform \<Rightarrow> string \<Rightarrow> string list \<Rightarrow> ferry_maker \<Rightarrow>
    packet_shell \<Rightarrow> ('k, packet_shell) sys" where
  "start_uplink_without_nameserver k pf shell_prefix command ferry_maker sh =
     start_child ''packetshell''
       (uplink_process k pf set_mtu (returnS []) shell_prefix command ferry_maker sh) False sh"

definition tun_start_uplink :: "'k id_calls \<Rightarrow> platform \<Rightarrow> string \<Rightarrow> string list \<Rightarrow> ferry_maker \<Rightarrow> shell_base \<Rightarrow>
    ('k, shell_base) sys" where
  \<comment> \<open>the device keeps its MTU\<close>
  "tun_start_uplink k pf shell_prefix command ferry_maker sh =
     start_child ''packetshell''
       (uplink_process k pf (returnS ()) (uplink_nameserver k pf sh) shell_prefix command ferry_maker sh) True sh"

section \<open>The downlink\<close>

definition downlink_process :: "'k id_calls \<Rightarrow> platform \<Rightarrow> (int list \<Rightarrow> cellular_queue \<Rightarrow> file_descriptor \<Rightarrow>
    ('k, i32 \<times> children) sys) \<Rightarrow> ferry_maker \<Rightarrow> 'a shell_base_scheme \<Rightarrow> ('k, i32) sys" where
  \<comment> \<open>the loop, with or without the proxy's handlers, is an argument\<close>
  "downlink_process k pf loop ferry_maker sh =
     bindS (sys_drop_privileges k) (\<lambda>_.
     bindS (set_environ (ps_user_environment sh)) (\<lambda>_.
     scoped (bindS (recv_fd (snd (ps_pipe sh))) (\<lambda>(fd, sock). returnS fd)) fd_destroy (\<lambda>ingress_tun.
     bindS (sys_EventLoop pf) (\<lambda>signals.
     bindS (on_world (\<lambda>w. Some (ferry_maker w))) (\<lambda>downlink_queue.
     bindS (loop signals downlink_queue ingress_tun) (\<lambda>(status, cs).
       bindS (children_destroy cs) (\<lambda>_. returnS status)))))))"

definition start_downlink :: "'k id_calls \<Rightarrow> platform \<Rightarrow> ferry_maker \<Rightarrow> 'a shell_base_scheme \<Rightarrow>
    ('k, 'a shell_base_scheme) sys" where
  "start_downlink k pf ferry_maker sh =
     start_child ''downlink''
       (downlink_process k pf (\<lambda>signals queue ingress_tun.
          downlink_loop k pf signals (ps_dns_outside sh) queue (ps_egress_tun sh) ingress_tun) ferry_maker sh)
       False sh"

definition start_downlink_without_nameserver :: "'k id_calls \<Rightarrow> platform \<Rightarrow> ferry_maker \<Rightarrow> 'a shell_base_scheme \<Rightarrow>
    ('k, 'a shell_base_scheme) sys" where
  "start_downlink_without_nameserver k pf ferry_maker sh =
     start_child ''downlink''
       (downlink_process k pf (\<lambda>signals queue ingress_tun.
          ferry_loop k pf signals [] queue (ps_egress_tun sh) ingress_tun) ferry_maker sh)
       False sh"

section \<open>The wait\<close>

definition wait_for_exit :: "'k id_calls \<Rightarrow> platform \<Rightarrow> 'a shell_base_scheme \<Rightarrow> ('k, i32 \<times> 'a shell_base_scheme) sys" where
  "wait_for_exit k pf sh =
     bindS (\<lambda>w. loop_ended (el_loop k (sy_ids w) (pf_mask pf) (pf_signalfd pf) (pf_poll pf) empty_poller
              \<lparr>el_signals = ps_signals sh, el_children = ps_children sh, el_procs = sy_procs w,
               el_signal_fd = no_fd, el_world = sy_world w\<rparr>) (\<lambda>_. w) w) (\<lambda>(status, cs).
       returnS (status, sh\<lparr>ps_children := cs\<rparr>))"

text \<open>
  \<open>TunPacketShell\<close> has its own copy of the downlink, the wait and the loop; the flag of the loop chooses
  the text of a local string that is never read.
\<close>

definition tun_start_downlink :: "'k id_calls \<Rightarrow> platform \<Rightarrow> ferry_maker \<Rightarrow> shell_base \<Rightarrow> ('k, shell_base) sys" where
  "tun_start_downlink k pf ferry_maker sh =
     start_child ''downlink''
       (downlink_process k pf (\<lambda>signals queue ingress_tun.
          downlink_loop k pf signals (ps_dns_outside sh) queue (ps_egress_tun sh) ingress_tun) ferry_maker sh)
       False sh"

definition tun_wait_for_exit :: "'k id_calls \<Rightarrow> platform \<Rightarrow> shell_base \<Rightarrow> ('k, i32 \<times> shell_base) sys" where
  "tun_wait_for_exit = wait_for_exit"

definition tun_ferry_loop :: "'k id_calls \<Rightarrow> platform \<Rightarrow> int list \<Rightarrow> children \<Rightarrow> cellular_queue \<Rightarrow> file_descriptor \<Rightarrow>
    file_descriptor \<Rightarrow> bool \<Rightarrow> ('k, i32 \<times> children) sys" where
  "tun_ferry_loop k pf signals cs queue tun sibling uplink = ferry_loop k pf signals cs queue tun sibling"

section \<open>What the processes call\<close>

text \<open>
  Everything here but starting programs makes calls of one kind only: neither a command that is run
  nor a program that replaces the process.
\<close>

fun quiet_call :: "sys_call \<Rightarrow> bool" where
  "quiet_call (Call_Run command) = False"
| "quiet_call (Call_Exec ex) = False"
| "quiet_call call = True"

definition allows_quiet :: "(sys_call \<Rightarrow> 'k \<Rightarrow> bool) \<Rightarrow> bool" where
  "allows_quiet P \<longleftrightarrow> (\<forall>call c. quiet_call call \<longrightarrow> P call c)"

lemma allows_quietD: "allows_quiet P \<Longrightarrow> quiet_call call \<Longrightarrow> P call c"
  by (simp add: allows_quiet_def)

lemma calls_prod [calls_intro]:
  "(\<And>a b. only_calls R P (f a b)) \<Longrightarrow> only_calls R P (case p of (a, b) \<Rightarrow> f a b)"
  by (cases p) simp

lemma calls_option [calls_intro]:
  "only_calls R P m \<Longrightarrow> (\<And>x. only_calls R P (f x)) \<Longrightarrow> only_calls R P (case x of None \<Rightarrow> m | Some y \<Rightarrow> f y)"
  by (cases x) simp_all

lemmas socket_calls = UDPSocket_def TCPSocket_def Socket_def socket_bind_def socket_connect_def
  local_address_def get_address_def tcp_listen_def unix_make_pair_def send_fd_def recv_fd_def Let_def

lemma calls_interface_ioctl [calls_intro]:
  "allows_quiet P \<Longrightarrow> only_calls R P (interface_ioctl_fd fd request name adj)"
  "allows_quiet P \<Longrightarrow> only_calls R P (interface_ioctl request name adj)"
  unfolding interface_ioctl_def interface_ioctl_fd_def socket_calls
  by (intro calls_intro; simp add: allows_quietD)+

lemma calls_TunDevice [calls_intro]: "allows_quiet P \<Longrightarrow> only_calls R P (TunDevice gai name addr peer)"
  unfolding TunDevice_def assign_address_def by (intro calls_intro; simp add: allows_quietD)

lemma calls_dns_proxy [calls_intro]:
  "allows_quiet P \<Longrightarrow> only_calls R P (dns_proxy_destroy p)"
  "allows_quiet P \<Longrightarrow> only_calls R P (DNSProxy gai addr udp tcp)"
  unfolding DNSProxy_def DNSProxy_sockets_def make_bound_socket_def dns_proxy_destroy_def socket_calls
  by (intro calls_intro; simp add: allows_quietD)+

lemma calls_pipe [calls_intro]:
  "allows_quiet P \<Longrightarrow> only_calls R P unix_make_pair"
  "allows_quiet P \<Longrightarrow> only_calls R P (pipe_destroy p)"
  "allows_quiet P \<Longrightarrow> only_calls R P (send_fd fd sock)"
  "allows_quiet P \<Longrightarrow> only_calls R P (recv_fd sock)"
  unfolding pipe_destroy_def socket_calls by (intro calls_intro; simp add: allows_quietD)+

lemma calls_children_destroy [calls_intro]: "only_calls R P (children_destroy cs)"
proof (induction cs rule: children_destroy.induct)
  case 1
  show ?case unfolding children_destroy.simps by (rule calls_intro)
next
  case (2 status p rest)
  show ?case unfolding children_destroy.simps by (rule calls_bind, rule calls_child_destroy, rule 2)
qed

lemma calls_EventLoop [calls_intro]: "only_calls R P (sys_EventLoop pf)"
  unfolding sys_EventLoop_def by (intro calls_intro)

lemma calls_set_mtu [calls_intro]: "allows_quiet P \<Longrightarrow> only_calls R P set_mtu"
  unfolding set_mtu_def by (intro calls_intro)

lemma calls_default_route [calls_intro]: "allows_quiet P \<Longrightarrow> only_calls R P (default_route pf sh)"
  unfolding default_route_def socket_calls by (intro calls_intro; simp add: allows_quietD)

text \<open>An invariant that every callback, every interest and the wait keep is kept by the loop.\<close>

definition keeps :: "('s \<Rightarrow> bool) \<Rightarrow> ('s \<Rightarrow> ('a \<times> 's) res option) \<Rightarrow> bool" where
  "keeps I f \<longleftrightarrow> (\<forall>s x s'. I s \<longrightarrow> f s = Some (Inr (x, s')) \<longrightarrow> I s')"

definition action_keeps :: "('s \<Rightarrow> bool) \<Rightarrow> 's poll_action \<Rightarrow> bool" where
  "action_keeps I a \<longleftrightarrow> keeps I (pa_callback a) \<and> keeps I (pa_when_interested a)"

lemma keepsD: "keeps I f \<Longrightarrow> f s = Some (Inr (x, s')) \<Longrightarrow> I s \<Longrightarrow> I s'"
  by (simp add: keeps_def)

lemma poll_prepare_keeps:
  "poll_prepare as fs s = Some (Inr (fs', s')) \<Longrightarrow> \<forall>a \<in> set as. action_keeps I a \<Longrightarrow> I s \<Longrightarrow> I s'"
proof (induction as fs s arbitrary: fs' s' rule: poll_prepare.induct)
  case (1 a as f fs s)
  from "1.prems"(1) obtain want s1 gs where want:
    "(if pa_active a then pa_when_interested a s else Some (Inr (False, s))) = Some (Inr (want, s1))"
    "poll_prepare as fs s1 = Some (Inr (gs, s'))" "pfd_fd f = fd_num (pa_fd a s)"
    by (auto simp: andThenO_Some_Inr_iff Let_def split: if_splits)
  have "I s1" using want(1) "1.prems"(2,3) by (auto simp: action_keeps_def dest: keepsD split: if_splits)
  with "1.IH" [OF _ refl refl want(2)] want(3) "1.prems"(2) show ?case by simp
qed auto

lemma poll_dispatch_keeps:
  "poll_dispatch as fs s = Some (Inr (x, as', s')) \<Longrightarrow> \<forall>a \<in> set as. action_keeps I a \<Longrightarrow> I s \<Longrightarrow>
   I s' \<and> (\<forall>a \<in> set as'. action_keeps I a)"
proof (induction as fs s arbitrary: x as' s' rule: poll_dispatch.induct)
  case (1 a as f fs s)
  show ?case
  proof (cases "pfd_revents f AND POLL_ERROR \<noteq> 0")
    case True
    with "1.prems" show ?thesis by auto
  next
    case noerr: False
    show ?thesis
    proof (cases "pfd_revents f AND pfd_events f \<noteq> 0")
      case False
      with noerr "1.prems"(1) obtain bs where "poll_dispatch as fs s = Some (Inr (x, bs, s'))" "as' = a # bs"
        by (auto simp: andThenO_Some_Inr_iff)
      with "1.IH"(2) [OF noerr False] "1.prems"(2,3) show ?thesis by auto
    next
      case True
      with noerr "1.prems"(1) obtain res s1 where cb: "pa_callback a s = Some (Inr (res, s1))"
        and rest: "if ar_result res = Exit then as' = a # as \<and> s' = s1
          else \<exists>bs. poll_dispatch as fs s1 = Some (Inr (x, bs, s')) \<and>
            as' = (if ar_result res = Cancel then a\<lparr>pa_active := False\<rparr> else a) # bs"
        by (auto simp: andThenO_Some_Inr_iff Let_def split: if_splits)
      have s1: "I s1" using cb "1.prems"(2,3) by (auto simp: action_keeps_def dest: keepsD)
      have "action_keeps I a" "action_keeps I (a\<lparr>pa_active := False\<rparr>)"
        using "1.prems"(2) by (simp_all add: action_keeps_def)
      moreover from s1 have "I s' \<and> (\<forall>a \<in> set bs. action_keeps I a)"
        if "ar_result res \<noteq> Exit" "poll_dispatch as fs s1 = Some (Inr (x, bs, s'))" for bs
        using "1.IH"(1) [OF noerr True that(1) refl that(2)] "1.prems"(2) by simp
      ultimately show ?thesis using rest s1 "1.prems"(2) by (auto split: if_splits)
    qed
  qed
qed auto

lemma poll_keeps:
  assumes "poll answer p s = Some (Inr (r, p', s'))" "\<forall>a \<in> set (po_actions p). action_keeps I a" "I s"
  shows "I s' \<and> (\<forall>a \<in> set (po_actions p'). action_keeps I a)"
proof -
  from assms(1) obtain fs s1 where prep: "poll_prepare (po_actions p) (po_pollfds p) s = Some (Inr (fs, s1))"
    and rest: "s' = s1 \<and> po_actions p' = po_actions p \<or>
      (\<exists>gs x. poll_dispatch (po_actions p) gs s1 = Some (Inr (x, po_actions p', s')))"
    by (auto simp: poll_def andThenO_Some_Inr_iff Let_def split: if_splits prod.splits) blast+
  from poll_prepare_keeps [OF prep assms(2,3)] have "I s1" .
  with rest assms(2) show ?thesis
    by (elim disjE exE) (simp_all add: poll_dispatch_keeps [where I = I])
qed

lemma poll_loop_keeps:
  "poll_loop wait answers p s = Some (Inr (r, p', s')) \<Longrightarrow> keeps I wait \<Longrightarrow>
   \<forall>a \<in> set (po_actions p). action_keeps I a \<Longrightarrow> I s \<Longrightarrow> I s'"
proof (induction answers arbitrary: p s)
  case (Cons k ks)
  from Cons.prems(1) obtain t s1 q p2 s2 where one: "wait s = Some (Inr (t, s1))"
    "poll (k t) p s1 = Some (Inr (q, p2, s2))"
    by (auto simp: andThenO_Some_Inr_iff)
  with Cons.prems(1) have rest: "s' = s2 \<or> poll_loop wait ks p2 s2 = Some (Inr (r, p', s'))"
    by (cases q) auto
  from keepsD [OF Cons.prems(2) one(1)] Cons.prems(4) have "I s1" .
  from poll_keeps [OF one(2) Cons.prems(3) this] rest Cons.IH [OF _ Cons.prems(2)] show ?case by blast
qed simp

lemma internal_loop_keeps:
  assumes "internal_loop k kw mask_answer signalfd_answer wait answers p s = Some (Inr (r, s', c))"
    and "keeps I wait" "\<forall>a \<in> set (po_actions p). action_keeps I a" "keeps I on_signal"
    and "\<And>s fd. I s \<Longrightarrow> I (s\<lparr>el_signal_fd := fd\<rparr>)" "I s"
  shows "I s'"
proof -
  from assms(1) obtain fd q p' where loop: "poll_loop wait answers
      (add_action (s\<lparr>el_signal_fd := fd\<rparr>) (simple_input_handler el_signal_fd on_signal) p)
      (s\<lparr>el_signal_fd := fd\<rparr>) = Some (Inr (q, p', s'))"
    by (auto simp: internal_loop_def andThenO_Some_Inr_iff Let_def split: if_splits option.splits)
  have "action_keeps I (simple_input_handler el_signal_fd on_signal)"
    using assms(4) by (auto simp: action_keeps_def simple_input_handler_def mk_action_def keeps_def
        always_interested_def)
  with assms(3) have "\<forall>a \<in> set (po_actions (add_action (s\<lparr>el_signal_fd := fd\<rparr>)
      (simple_input_handler el_signal_fd on_signal) p)). action_keeps I a"
    by (simp add: add_action_def)
  from poll_loop_keeps [OF loop assms(2) this] assms(5,6) show ?thesis by blast
qed

section \<open>The loops make quiet calls\<close>

lemma loop_ended_calls:
  assumes "loop_ended r back w = Some (q, w')"
    and "\<And>n s c. r = Some (Inr (Some n, s, c)) \<Longrightarrow> made P w (back s)"
  shows "made P w w'"
  using assms by (auto simp: loop_ended_def made_def split: option.splits sum.splits)

lemma calls_ferry_loop: "only_calls UNIV P (ferry_loop k pf signals cs queue tun sibling)"
  by (rule callsI) (auto simp: ferry_loop_def dest: loop_ended_calls)

lemma calls_wait_for_exit: "only_calls UNIV P (wait_for_exit k pf sh)"
  unfolding wait_for_exit_def
  by (intro calls_intro callsI) (auto dest: loop_ended_calls)

lemma calls_dns_handlers:
  "allows_quiet P \<Longrightarrow> only_calls R P (dns_handle_udp p)"
  "allows_quiet P \<Longrightarrow> only_calls R P (dns_handle_tcp p)"
  unfolding dns_handle_udp_def dns_handle_tcp_def udp_recvfrom_def tcp_accept_def Socket_from_fd_def
    getsockopt_def Let_def
  by (intro calls_intro; simp add: allows_quietD)+

lemma dn_sys_put [simp]: "dn_sys (put_ferry_part f t) = dn_sys t" "dn_sys (put_dns_part d t) = dl_sys d"
  "dl_sys (dns_part t) = dn_sys t"
  by (cases t; simp add: put_ferry_part_def put_dns_part_def dns_part_def ferry_state.defs)+

lemma ferry_actions_keep:
  "action_keeps (\<lambda>t. made P w (dn_sys t)) (embedded_action ferry_part put_ferry_part a)"
  by (auto simp: action_keeps_def keeps_def embedded_action_def embedded_def andThenO_Some_Inr_iff)

lemma dns_actions_keep:
  assumes "allows_quiet P" "a \<in> set (po_actions (register_handlers d empty_poller))"
  shows "action_keeps (\<lambda>t. made P w (dn_sys t)) (embedded_action dns_part put_dns_part a)"
proof -
  have udp: "made P w (dl_sys d')" if "on_udp_request d = Some (Inr (x, d'))" "made P w (dl_sys d)" for d d' x
    using that callsD [OF calls_dns_handlers(1) [OF assms(1), of UNIV] running_as_UNIV]
    by (auto simp: on_udp_request_def andThenO_Some_Inr_iff to_res_Inr intro: made_trans)
  have tcp: "made P w (dl_sys d')" if "on_tcp_connection d = Some (Inr (x, d'))" "made P w (dl_sys d)" for d d' x
    using that callsD [OF calls_dns_handlers(2) [OF assms(1), of UNIV] running_as_UNIV]
    by (auto simp: on_tcp_connection_def andThenO_Some_Inr_iff to_res_Inr intro: made_trans)
  from assms(2) have "pa_callback a = on_udp_request \<or> pa_callback a = on_tcp_connection"
    "pa_when_interested a = always_interested"
    by (auto simp: register_handlers_def add_action_def empty_poller_def simple_input_handler_def mk_action_def)
  with udp tcp show ?thesis
    by (auto simp: action_keeps_def keeps_def embedded_action_def embedded_def andThenO_Some_Inr_iff
        always_interested_def)
qed

lemma foldl_add_action: "po_actions (foldl (\<lambda>p a. add_action t a p) p as) = po_actions p @ as"
  by (induction as arbitrary: p) (simp_all add: add_action_def)

lemma calls_downlink_loop:
  assumes "allows_quiet P"
  shows "only_calls UNIV P (downlink_loop k pf signals proxy queue tun sibling)"
proof (rule callsI)
  fix w r w' assume run: "downlink_loop k pf signals proxy queue tun sibling w = Some (r, w')"
  let ?I = "\<lambda>t. made P w (dn_sys t)"
  have signal: "keeps ?I on_signal"
    by (auto simp: keeps_def on_signal_def andThen_Inr_iff Let_def)
  have wait: "keeps ?I (embedded ferry_part put_ferry_part ferry_wait)"
    by (auto simp: keeps_def embedded_def andThenO_Some_Inr_iff)
  have actions: "\<forall>a \<in> set (downlink_actions t). action_keeps ?I a" for t
    using ferry_actions_keep dns_actions_keep [OF assms] by (auto simp: downlink_actions_def)
  have "made P w w'"
    using run unfolding downlink_loop_def downlink_run_def
    by (rule loop_ended_calls)
      (erule internal_loop_keeps [where I = ?I], rule wait, simp add: foldl_add_action actions empty_poller_def,
       rule signal, simp, simp add: downlink_start_def ferry_state.defs downlink_state.defs)
  then show "made P w w' \<and> (leaves_scope r \<longrightarrow> running_as UNIV w')" by simp
qed

lemma calls_start_child [calls_intro]:
  "allows_quiet P \<Longrightarrow> steps R P UNIV procedure \<Longrightarrow> only_calls R P (start_child name procedure ns sh)"
  unfolding start_child_def
  by (rule calls_bind, rule calls_fork) (simp_all add: allows_quietD calls_return)

section \<open>Programs and identities\<close>

text \<open>
  \<open>safe_exec k env ip prefix command\<close>: a program is started either without an environment, or it is the
  user's \<open>command\<close>; then user and group are the real ones, not root's, and its environment is the
  user's, with MAHIMAHI_BASE set to \<open>ip\<close> if it was not set, and the shell prefix appended.
\<close>

definition user_program_environment :: "environment option \<Rightarrow> string \<Rightarrow> string \<Rightarrow> environment option" where
  "user_program_environment env ip shell_prefix = prefixed shell_prefix (env_put ''MAHIMAHI_BASE'' ip False env)"

definition safe_exec :: "'k id_calls \<Rightarrow> environment option \<Rightarrow> (string \<Rightarrow> bool) \<Rightarrow> string \<Rightarrow> string list \<Rightarrow> sys_call \<Rightarrow> 'k \<Rightarrow> bool" where
  "safe_exec k env base shell_prefix command call c =
     (case call of
        Call_Exec ex \<Rightarrow>
          if ex_path_search ex then
            real_ids k c \<and> k_geteuid k c \<noteq> 0 \<and> k_getegid k c \<noteq> 0 \<and> ex_argv ex = map c_string command \<and>
            (\<exists>ip. base ip \<and> ex_environ ex = user_program_environment env ip shell_prefix)
          else ex_environ ex = None
      | _ \<Rightarrow> True)"

lemma safe_exec_quiet: "\<forall>ex. call \<noteq> Call_Exec ex \<Longrightarrow> safe_exec k env base shell_prefix command call c"
  by (cases call) (auto simp: safe_exec_def)

lemma allows_quiet_safe: "allows_quiet (safe_exec k env base shell_prefix command)"
  unfolding allows_quiet_def
proof (intro allI impI)
  fix call c assume "quiet_call call"
  then show "safe_exec k env base shell_prefix command call c"
    by (intro safe_exec_quiet) auto
qed

lemma safe_exec_plain:
  "ezexec k' c None cmd False None = Inr ex \<Longrightarrow> safe_exec k env base shell_prefix command (Call_Exec ex) c'"
  by (drule ezexec_program) (simp add: safe_exec_def)

lemma safe_exec_run: "safe_exec k env base shell_prefix command (Call_Run cmd) c"
  by (simp add: safe_exec_def)

lemma calls_dnsmasq_wait: "only_calls R P (dnsmasq_wait attempts server)"
proof -
  have "running_as R w \<Longrightarrow> dnsmasq_wait attempts server w = Some (r, w') \<Longrightarrow> made P w w' \<and> running_as R w'" for w r w'
  proof (induction attempts server w arbitrary: r w' rule: dnsmasq_wait.induct)
    case (1 attempts server w)
    show ?case
    proof (cases "20 \<le> attempts + 1")
      case True
      with "1.prems" show ?thesis by (simp add: dnsmasq_wait.simps [of attempts] Let_def)
    next
      case False
      obtain q w1 where q: "bindS (sys_write ''x'' True server) (\<lambda>server. sys_write ''x'' True server) w = Some (q, w1)"
        using "1.prems"(2) False by (auto simp: dnsmasq_wait.simps [of attempts] Let_def split: option.splits)
      then have "sy_ids w1 = sy_ids w \<and> sy_environ w1 = sy_environ w \<and> sy_trace w1 = sy_trace w"
        by (auto simp: bindS_outcome dest!: sys_write_frame)
      with "1.prems"(1) have w1: "made P w w1" "running_as R w1" by (simp_all add: made_def running_as_def)
      show ?thesis
      proof (cases "\<exists>e. q = Thrown e \<and> caught e \<and> take 6 (exn_what e) = ''write:''")
        case True
        then obtain e where e: "q = Thrown e" "caught e" "take 6 (exn_what e) = ''write:''" by blast
        have "dnsmasq_wait (attempts + 1) server w1 = Some (r, w')"
          using "1.prems"(2) False q e by (simp add: dnsmasq_wait.simps [of attempts] Let_def)
        from "1.IH" [OF refl False q refl e(1) _ w1(2) this] e w1(1) show ?thesis by (blast intro: made_trans)
      next
        case stop: False
        with "1.prems"(2) False q have "w' = w1"
          by (auto simp: dnsmasq_wait.simps [of attempts] Let_def split: outcome.splits if_splits)
        with w1 show ?thesis by simp
      qed
    qed
  qed
  then show ?thesis by (blast intro: callsI)
qed

lemma calls_start_dnsmasq:
  assumes "R \<subseteq> unset"
  shows "only_calls R (safe_exec k env base shell_prefix command) (uplink_nameserver k' pf sh)"
proof -
  note q = allows_quietD [OF allows_quiet_safe]
  have plain: "safe_exec k env base shell_prefix command (Call_Exec ex) c"
    if "(c, e) \<in> R" "ezexec k' c e cmd False None = Inr ex" for c e ex cmd
  proof -
    from that(1) assms have "e = None" by (auto simp: unset_def)
    with that(2) show ?thesis by (auto intro: safe_exec_plain)
  qed
  show ?thesis
    unfolding uplink_nameserver_def start_dnsmasq_def start_dnsmasq_args_def socket_calls
    by (intro calls_intro calls_dnsmasq_wait; (simp add: q; fail)?; (erule (1) plain)?)
qed

lemma steps_any: "only_calls UNIV P m \<Longrightarrow> steps R P UNIV m"
  by (simp add: only_calls_def steps_def)

lemma steps_lift:
  assumes "\<And>x. v = Inr x \<Longrightarrow> steps R P Q (f x)"
  shows "steps R P Q (bindS (liftS v) f)"
  using assms by (cases v) (simp_all add: steps_def made_def)

lemma steps_user_process:
  assumes "id_laws k" "\<And>ip. ad_ip (egress_addr sh) = Inr ip \<Longrightarrow> base ip"
  shows "steps unset (safe_exec k (ps_user_environment sh) base shell_prefix command) UNIV
    (user_process k shell_prefix command sh cs)"
  unfolding user_process_def
proof (rule steps_bind [OF steps_drop [OF assms(1)]], rule steps_bind [OF steps_set_environ], rule steps_lift)
  let ?S = "safe_exec k (ps_user_environment sh) base shell_prefix command"
  fix ip assume "ad_ip (egress_addr sh) = Inr ip"
  then have ip: "base ip" by (rule assms(2))
  let ?D = "dropped_to k (env_put ''MAHIMAHI_BASE'' ip False (ps_user_environment sh))"
  have quiet: "?S (Call_Setenv n v b) c" "?S (Call_Clone name ns) c" for n v b c name ns
    by (simp_all add: safe_exec_def)
  have "?S (Call_Exec ex) c" if "real_ids k c"
    "ezexec k c (prefixed shell_prefix (env_put ''MAHIMAHI_BASE'' ip False (ps_user_environment sh))) command True None = Inr ex"
    for c ex
    using ip that(1) ezexec_program [OF that(2)] by (auto simp: safe_exec_def user_program_environment_def)
  then have "steps ?D ?S UNIV (user_command k shell_prefix command)"
    by (intro steps_user_command quiet)
  then have "only_calls ?D ?S (sys_fork name (user_command k shell_prefix command) False SIGHUP)" for name
    by (intro calls_fork quiet)
  then have "only_calls ?D ?S (bindS (liftS (join command)) (\<lambda>name.
      bindS (sys_fork name (user_command k shell_prefix command) False SIGHUP) (\<lambda>child.
        returnS (cs @ [(-1, child)]))))"
    by (intro calls_bind calls_lift calls_return)
  then show "steps (dropped_to k (ps_user_environment sh)) ?S UNIV
    (bindS (sys_setenv ''MAHIMAHI_BASE'' ip False) (\<lambda>_. bindS (liftS (join command)) (\<lambda>name.
      bindS (sys_fork name (user_command k shell_prefix command) False SIGHUP) (\<lambda>child.
        returnS (cs @ [(-1, child)])))))"
    by (intro steps_bind [OF steps_setenv] steps_calls quiet)
qed

lemma steps_uplink:
  fixes shell_prefix :: string and command :: "string list"
  assumes "id_laws k" "\<And>ip. ad_ip (egress_addr sh) = Inr ip \<Longrightarrow> base ip"
  defines "S \<equiv> safe_exec k (ps_user_environment sh) base shell_prefix command"
  assumes "only_calls unset S mtu" "only_calls unset S nameserver"
  shows "steps unset S UNIV (uplink_process k pf mtu nameserver shell_prefix command ferry_maker sh)"
proof -
  have q: "allows_quiet S" unfolding S_def by (rule allows_quiet_safe)
  have close: "only_calls R S (fd_destroy fd)" for R fd by (intro calls_intro) (simp add: allows_quietD q)
  have user: "steps unset S UNIV (user_process k shell_prefix command sh cs)" for cs
    unfolding S_def by (rule steps_user_process [OF assms(1,2)])
  show ?thesis
    unfolding uplink_process_def
  proof (rule steps_scoped [OF steps_same [OF calls_TunDevice [OF q]] close],
      rule steps_bind [OF steps_same [OF calls_interface_ioctl(2) [OF q]]],
      rule steps_bind [OF steps_same [OF assms(4)]],
      rule steps_bind [OF steps_same [OF calls_default_route [OF q]]],
      rule steps_bind [OF steps_same [OF calls_EventLoop]],
      rule steps_bind [OF steps_unwinding [OF steps_same [OF assms(5)] calls_children_destroy user]],
      rule steps_calls)
    show "only_calls UNIV S (bindS (unwinding (returnS cs) children_destroy (\<lambda>cs.
        bindS (send_fd tun (fst (ps_pipe sh))) (\<lambda>_.
        bindS (on_world (\<lambda>w. Some (ferry_maker w))) (\<lambda>uplink_queue.
          ferry_loop k pf signals cs uplink_queue tun (ps_egress_tun sh))))) (\<lambda>(status, cs).
        bindS (children_destroy cs) (\<lambda>_. returnS status)))" for tun signals cs
      by (intro calls_intro calls_ferry_loop q)
  qed
qed

lemma steps_downlink:
  assumes "id_laws k" "allows_quiet P" "\<And>signals queue tun. only_calls UNIV P (loop signals queue tun)"
  shows "steps unset P UNIV (downlink_process k pf loop ferry_maker sh)"
proof -
  have "only_calls UNIV P (scoped (bindS (recv_fd (snd (ps_pipe sh))) (\<lambda>(fd, sock). returnS fd)) fd_destroy (\<lambda>ingress_tun.
     bindS (sys_EventLoop pf) (\<lambda>signals.
     bindS (on_world (\<lambda>w. Some (ferry_maker w))) (\<lambda>downlink_queue.
     bindS (loop signals downlink_queue ingress_tun) (\<lambda>(status, cs).
       bindS (children_destroy cs) (\<lambda>_. returnS status))))))"
    by (intro calls_intro assms) (simp add: allows_quietD assms(2))
  then show ?thesis
    unfolding downlink_process_def
    by (intro steps_bind [OF steps_drop [OF assms(1)]] steps_bind [OF steps_any [OF calls_set_environ]] steps_any)
qed

end
