(* ===== verification/Downlink_Loop.thy ===== *)
theory Downlink_Loop
  imports Main Prelude Kernel Addresses Cellular_Queue Cellular_Channel Cellular_Start Child_Process Poller
    Event_Loop Ferry_Loop Syscalls Sockets Dns_Proxy Packet_Shell
begin

text \<open>
  The downlink process's event loop (\<open>PacketShell::start_downlink\<close>): the ferry's actions with those of
  the DNS proxy before them and the signal's behind. The poller's locale is interpreted on the seven
  of them; what the proxy does in between
  leaves the emulator a FIFO.
\<close>

section \<open>Programs that end\<close>

text \<open>
  \<open>ends Q m\<close>: whatever the kernel answers, \<open>m\<close> returns a value in \<open>Q\<close> or throws an exception of a
  system call or of the program, never one of a failed assertion.
\<close>

definition ends :: "('a \<Rightarrow> bool) \<Rightarrow> ('k, 'a) sys \<Rightarrow> bool" where
  "ends Q m \<longleftrightarrow>
     (\<forall>w. (\<exists>e w'. m w = Some (Thrown e, w') \<and> process_error e) \<or>
          (\<exists>x w'. m w = Some (Returned x, w') \<and> Q x))"

named_theorems ends_intro \<open>composed programs that end\<close>

lemma ends_returnS [ends_intro]: "Q x \<Longrightarrow> ends Q (returnS x)"
  by (simp add: ends_def)

lemma ends_throwS [ends_intro]: "process_error e \<Longrightarrow> ends Q (throwS e)"
  by (simp add: ends_def)

lemma ends_bindS:
  assumes "ends P m" "\<And>x. P x \<Longrightarrow> ends Q (f x)"
  shows "ends Q (bindS m f)"
  unfolding ends_def
proof
  fix w
  from assms(1) have "(\<exists>e w'. m w = Some (Thrown e, w') \<and> process_error e) \<or>
      (\<exists>x w'. m w = Some (Returned x, w') \<and> P x)" by (simp add: ends_def)
  then show "(\<exists>e w'. bindS m f w = Some (Thrown e, w') \<and> process_error e) \<or>
      (\<exists>x w'. bindS m f w = Some (Returned x, w') \<and> Q x)"
  proof (elim disjE exE conjE)
    fix x w' assume "m w = Some (Returned x, w')" "P x"
    with assms(2) [OF this(2)] show ?thesis by (simp add: bindS_Returned ends_def)
  qed (simp add: bindS_Thrown)
qed

lemma ends_then [ends_intro]: "ends (\<lambda>_. True) m \<Longrightarrow> (\<And>x. ends Q (f x)) \<Longrightarrow> ends Q (bindS m f)"
  by (rule ends_bindS)

lemma ends_if [ends_intro]: "(b \<Longrightarrow> ends Q m) \<Longrightarrow> (\<not> b \<Longrightarrow> ends Q n) \<Longrightarrow> ends Q (if b then m else n)"
  by simp

lemma ends_mono: "ends P m \<Longrightarrow> (\<And>x. P x \<Longrightarrow> Q x) \<Longrightarrow> ends Q m"
  unfolding ends_def by blast

lemma ends_liftS: "(case r of Inl e \<Rightarrow> process_error e | Inr x \<Rightarrow> Q x) \<Longrightarrow> ends Q (liftS r)"
  by (cases r) (auto intro: ends_intro)

lemma ends_sys [ends_intro]: "ends (\<lambda>_. True) (sys attempt call)"
  by (simp add: ends_def sys_eval_call Let_def)

lemma ends_sys_ret [ends_intro]: "ends (\<lambda>_. True) (sys_ret call)"
  by (simp add: ends_def sys_ret_def Let_def)

lemma ends_new_fd [ends_intro]: "ends (\<lambda>_. True) (new_fd n)"
  unfolding new_fd_def
  by (intro ends_intro ends_liftS) (simp_all add: FileDescriptor_def SystemCall_def)

lemma ends_Address [ends_intro]: "ends (\<lambda>_. True) (liftS (Address_sockaddr addr n))"
  by (rule ends_liftS) (simp add: Address_sockaddr_def)

lemma ends_getsockopt [ends_intro]: "ends (\<lambda>_. True) (getsockopt level option fd)"
  unfolding getsockopt_def by (intro ends_intro) simp_all

lemma fd_destroy_returns: "\<exists>w'. fd_destroy fd w = Some (Returned (), w')"
  by (simp add: fd_destroy_def sys_noexcept_def bindS_def sys_ret_def Let_def)

lemma ends_unwinding_fd [ends_intro]:
  assumes "ends Q (f fd)"
  shows "ends Q (unwinding (returnS fd) fd_destroy f)"
  unfolding ends_def
proof
  fix w
  from assms have "(\<exists>e w'. f fd w = Some (Thrown e, w') \<and> process_error e) \<or>
      (\<exists>x w'. f fd w = Some (Returned x, w') \<and> Q x)" by (simp add: ends_def)
  then show "(\<exists>e w'. unwinding (returnS fd) fd_destroy f w = Some (Thrown e, w') \<and> process_error e) \<or>
      (\<exists>x w'. unwinding (returnS fd) fd_destroy f w = Some (Returned x, w') \<and> Q x)"
  proof (elim disjE exE conjE)
    fix e w1 assume "f fd w = Some (Thrown e, w1)" "process_error e"
    moreover from fd_destroy_returns obtain w2 where "fd_destroy fd w1 = Some (Returned (), w2)" by blast
    ultimately show ?thesis by (simp add: unwinding_def after_def destroyed_def)
  qed (simp add: unwinding_def after_def)
qed

lemma ends_Socket_from_fd [ends_intro]: "ends (\<lambda>_. True) (Socket_from_fd fd domain type)"
  unfolding Socket_from_fd_def by (intro ends_intro) simp_all

lemma dns_handle_udp_ends:
  "ends (\<lambda>(request, p'). fd_num (dx_udp_listener p') = fd_num (dx_udp_listener p) \<and>
     dx_tcp_listener p' = dx_tcp_listener p) (dns_handle_udp p)"
proof -
  have "ends (\<lambda>(request, fd'). fd_num fd' = fd_num fd) (udp_recvfrom fd)" for fd
    unfolding udp_recvfrom_def Let_def by (intro ends_intro) (simp_all add: register_read_def)
  then show ?thesis
    unfolding dns_handle_udp_def by (rule ends_bindS) (auto intro: ends_intro)
qed

lemma dns_handle_tcp_ends:
  "ends (\<lambda>(client, p'). fd_num (dx_tcp_listener p') = fd_num (dx_tcp_listener p) \<and>
     dx_udp_listener p' = dx_udp_listener p) (dns_handle_tcp p)"
proof -
  have "ends (\<lambda>(client, fd'). fd_num fd' = fd_num fd) (tcp_accept fd)" for fd
    unfolding tcp_accept_def Let_def by (intro ends_intro) (simp_all add: register_read_def)
  then show ?thesis
    unfolding dns_handle_tcp_def by (rule ends_bindS) (auto intro: ends_intro)
qed

section \<open>The seven actions\<close>

lemma ferry_part_put [simp]:
  "ferry_part (put_ferry_part f t) = f" "dn_proxy (put_ferry_part f t) = dn_proxy t"
  by (cases f; cases t; simp add: ferry_part_def put_ferry_part_def ferry_state.defs)+

lemma ferry_part_fields [simp]:
  "fs_tun (ferry_part t) = fs_tun t" "fs_sibling (ferry_part t) = fs_sibling t"
  "fs_queue (ferry_part t) = fs_queue t" "el_world (ferry_part t) = el_world t"
  "el_signal_fd (ferry_part t) = el_signal_fd t" "el_children (ferry_part t) = el_children t"
  "el_procs (ferry_part t) = el_procs t"
  "ferry_part (t\<lparr>el_signal_fd := fd\<rparr>) = (ferry_part t)\<lparr>el_signal_fd := fd\<rparr>"
  by (cases t; simp add: ferry_part_def ferry_state.defs)+

lemma on_signal_embedded: "on_signal t = embedded ferry_part put_ferry_part on_signal t"
  by (cases t)
    (auto simp: on_signal_def embedded_def ferry_part_def put_ferry_part_def ferry_state.defs
      andThen_def andThenO_def split: sum.split prod.split)

definition listeners :: "'k downlink_state \<Rightarrow> int \<times> int" where
  "listeners t = (fd_num (dx_udp_listener (dn_proxy t)), fd_num (dx_tcp_listener (dn_proxy t)))"

definition down_inv :: "nat \<Rightarrow> 'k downlink_state \<Rightarrow> bool" where
  "down_inv n t = loop_inv n (ferry_part t)"

definition down_prog :: "'k downlink_state \<Rightarrow> 'k downlink_state \<Rightarrow> bool" where
  "down_prog t t' \<longleftrightarrow> loop_prog (ferry_part t) (ferry_part t') \<and> listeners t' = listeners t"

definition proxy_actions :: "'k dns_loop poll_action list" where
  "proxy_actions = [simple_input_handler (\<lambda>s. dx_udp_listener (dl_proxy s)) on_udp_request,
     simple_input_handler (\<lambda>s. dx_tcp_listener (dl_proxy s)) on_tcp_connection]"

definition down_action :: "'k downlink_state poll_action \<Rightarrow> bool" where
  "down_action a \<longleftrightarrow> a\<lparr>pa_active := True\<rparr> \<in>
     embedded_action ferry_part put_ferry_part ` set the_actions \<union>
     embedded_action dns_part put_dns_part ` set proxy_actions \<union>
     {simple_input_handler el_signal_fd on_signal}"

definition down_cost :: "'k downlink_state poll_action \<Rightarrow> nat" where
  "down_cost a = (case pa_direction a of In \<Rightarrow> 1 | Out \<Rightarrow> 0)"

text \<open>An action is one of the ferry's, on its part of the state, or a handler of the proxy.\<close>

lemma down_action_cases:
  fixes a :: "'k downlink_state poll_action"
  assumes "down_action a"
  obtains (ferry) b where "ferry_action b" "down_cost a = action_cost b"
      "\<And>t. pa_fd a t = pa_fd b (ferry_part t)"
      "\<And>t. pa_callback a t = embedded ferry_part put_ferry_part (pa_callback b) t"
      "\<And>t. pa_when_interested a t = embedded ferry_part put_ferry_part (pa_when_interested b) t"
    | (udp) "\<And>t. pa_fd a t = dx_udp_listener (dn_proxy t)" "pa_when_interested a = always_interested"
      "pa_callback a = embedded dns_part put_dns_part on_udp_request"
    | (tcp) "\<And>t. pa_fd a t = dx_tcp_listener (dn_proxy t)" "pa_when_interested a = always_interested"
      "pa_callback a = embedded dns_part put_dns_part on_tcp_connection"
proof -
  have put: "put_dns_part (dns_part t) t = t" "put_ferry_part (ferry_part t) t = t"
    for t :: "'k downlink_state"
    by (cases t; simp add: put_dns_part_def dns_part_def put_ferry_part_def ferry_part_def ferry_state.defs)+
  have always: "embedded dns_part put_dns_part always_interested = (always_interested :: 'k downlink_state \<Rightarrow> _)"
    and held: "dl_proxy (dns_part t) = dn_proxy t" for t :: "'k downlink_state"
    by (simp_all add: embedded_def always_interested_def fun_eq_iff put, simp add: dns_part_def)
  obtain fd dir cb wi act where a: "a = \<lparr>pa_fd = fd, pa_direction = dir, pa_callback = cb,
    pa_when_interested = wi, pa_active = act\<rparr>" by (cases a)
  from assms consider
      (ferry) b where "b \<in> set the_actions" "a\<lparr>pa_active := True\<rparr> = embedded_action ferry_part put_ferry_part b"
    | (proxy) b where "b \<in> set proxy_actions" "a\<lparr>pa_active := True\<rparr> = embedded_action dns_part put_dns_part b"
    | (signal) "a\<lparr>pa_active := True\<rparr> = simple_input_handler el_signal_fd on_signal"
    by (auto simp: down_action_def)
  then show thesis
  proof cases
    case (ferry b)
    have "b\<lparr>pa_active := True\<rparr> \<in> set the_actions" using ferry(1)
      by (auto simp: the_actions_def simple_input_handler_def mk_action_def)
    with ferry show ?thesis
      by (intro that(1) [of b]) (simp_all add: a embedded_action_def ferry_action_def down_cost_def action_cost_def)
  next
    case (proxy b)
    with that(2,3) always held show ?thesis
      by (auto simp: a embedded_action_def proxy_actions_def simple_input_handler_def mk_action_def)
  next
    case signal
    then show ?thesis
      by (intro that(1) [of "simple_input_handler el_signal_fd on_signal"])
        (simp_all add: a ferry_action_def the_actions_def down_cost_def action_cost_def
          simple_input_handler_def mk_action_def on_signal_embedded embedded_def always_interested_def put)
  qed
qed

section \<open>They keep the poller's laws\<close>

lemma embedded_ferry_ok:
  assumes "(\<exists>e. f (ferry_part t) = Some (Inl e) \<and> process_error e) \<or>
    (\<exists>x s'. f (ferry_part t) = Some (Inr (x, s')) \<and> loop_inv n s' \<and> loop_prog (ferry_part t) s')"
  shows "(\<exists>e. embedded ferry_part put_ferry_part f t = Some (Inl e) \<and> process_error e) \<or>
    (\<exists>x t'. embedded ferry_part put_ferry_part f t = Some (Inr (x, t')) \<and> down_inv n t' \<and> down_prog t t')"
  using assms by (auto simp: embedded_def down_inv_def down_prog_def listeners_def)

lemma dns_part_put [simp]:
  "ferry_part (put_dns_part ((dns_part t)\<lparr>dl_proxy := p, dl_sys := w, dl_requests := rs\<rparr>) t) = ferry_part t"
  "ferry_part (put_dns_part ((dns_part t)\<lparr>dl_proxy := p, dl_sys := w, dl_connections := cs\<rparr>) t) = ferry_part t"
  "dn_proxy (put_dns_part d t) = dl_proxy d" "dl_proxy (dns_part t) = dn_proxy t"
  by (cases t; simp add: ferry_part_def put_dns_part_def dns_part_def ferry_state.defs)+

text \<open>A handler of the proxy changes the proxy's part only, and keeps the listeners' numbers.\<close>

lemma proxy_handler_ok:
  fixes t :: "'k downlink_state"
  assumes "ends (\<lambda>(x, p'). fd_num (dx_udp_listener p') = fd_num (dx_udp_listener (dn_proxy t)) \<and>
      fd_num (dx_tcp_listener p') = fd_num (dx_tcp_listener (dn_proxy t))) (handle (dn_proxy t))"
    and "\<And>x p w. ferry_part (put_dns_part (upd x p w (dns_part t)) t) = ferry_part t"
    and "\<And>x p w. dl_proxy (upd x p w (dns_part t)) = p"
    and "\<And>s. handler s = andThenO (to_res (handle (dl_proxy s) (dl_sys s))) (\<lambda>((x, p), w).
      Some (Inr (handled Continue, upd x p w s)))"
    and "down_inv n t"
  shows "(\<exists>e. embedded dns_part put_dns_part handler t = Some (Inl e) \<and> process_error e) \<or>
    (\<exists>r t'. embedded dns_part put_dns_part handler t = Some (Inr (r, t')) \<and> down_inv n t' \<and> down_prog t t')"
proof -
  from assms(1) [unfolded ends_def, rule_format, of "dl_sys (dns_part t)"] show ?thesis
  proof (elim disjE exE conjE)
    fix e w' assume "handle (dn_proxy t) (dl_sys (dns_part t)) = Some (Thrown e, w')" "process_error e"
    then show ?thesis by (simp add: embedded_def assms(4) to_res_def)
  next
    fix xp w' assume h: "handle (dn_proxy t) (dl_sys (dns_part t)) = Some (Returned xp, w')"
      and p: "case xp of (x, p') \<Rightarrow> fd_num (dx_udp_listener p') = fd_num (dx_udp_listener (dn_proxy t)) \<and>
        fd_num (dx_tcp_listener p') = fd_num (dx_tcp_listener (dn_proxy t))"
    obtain x p' where xp: "xp = (x, p')" by (cases xp)
    have "embedded dns_part put_dns_part handler t =
        Some (Inr (handled Continue, put_dns_part (upd x p' w' (dns_part t)) t))"
      using h by (simp add: embedded_def assms(4) to_res_def xp)
    with assms(2,3,5) p show ?thesis
      by (simp add: xp down_inv_def down_prog_def listeners_def loop_prog_refl)
  qed
qed

lemma on_udp_request_ok:
  "down_inv n t \<Longrightarrow>
   (\<exists>e. embedded dns_part put_dns_part on_udp_request t = Some (Inl e) \<and> process_error e) \<or>
   (\<exists>r t'. embedded dns_part put_dns_part on_udp_request t = Some (Inr (r, t')) \<and> down_inv n t' \<and> down_prog t t')"
  by (rule proxy_handler_ok [where handle = dns_handle_udp and upd = "\<lambda>x p w s.
      s\<lparr>dl_proxy := p, dl_sys := w, dl_requests := dl_requests s @ [x]\<rparr>"])
    (auto simp: on_udp_request_def intro: ends_mono [OF dns_handle_udp_ends])

lemma on_tcp_connection_ok:
  "down_inv n t \<Longrightarrow>
   (\<exists>e. embedded dns_part put_dns_part on_tcp_connection t = Some (Inl e) \<and> process_error e) \<or>
   (\<exists>r t'. embedded dns_part put_dns_part on_tcp_connection t = Some (Inr (r, t')) \<and> down_inv n t' \<and> down_prog t t')"
  by (rule proxy_handler_ok [where handle = dns_handle_tcp and upd = "\<lambda>x p w s.
      s\<lparr>dl_proxy := p, dl_sys := w, dl_connections := dl_connections s @ [x]\<rparr>"])
    (auto simp: on_tcp_connection_def intro: ends_mono [OF dns_handle_tcp_ends])

lemma down_prog_refl: "down_prog t t"
  by (simp add: down_prog_def loop_prog_refl)

lemma down_inv_mono: "down_inv (n + m) t \<Longrightarrow> down_inv n t"
  by (auto simp: down_inv_def loop_inv_def intro: accepts_more_mono)

interpretation down: simple_poll_client
  "down_inv :: nat \<Rightarrow> 'k downlink_state \<Rightarrow> bool" down_prog process_error down_action down_cost "embedded ferry_part put_ferry_part ferry_wait"
proof unfold_locales
  fix a :: "'k downlink_state poll_action" and t :: "'k downlink_state" and n
  assume a: "down_action a" and inv: "down_inv (n + down_cost a) t"
  from a show "(\<exists>e. pa_callback a t = Some (Inl e) \<and> process_error e) \<or>
      (\<exists>r t'. pa_callback a t = Some (Inr (r, t')) \<and> down_inv n t' \<and> down_prog t t')"
  proof (cases rule: down_action_cases)
    case (ferry b)
    show ?thesis unfolding ferry(4)
      using ferry.callback_law [OF ferry(1)] inv ferry(2)
      by (intro embedded_ferry_ok) (simp add: down_inv_def)
  next
    case udp
    with on_udp_request_ok [OF down_inv_mono [OF inv]] show ?thesis by simp
  next
    case tcp
    with on_tcp_connection_ok [OF down_inv_mono [OF inv]] show ?thesis by simp
  qed
next
  fix a :: "'k downlink_state poll_action" and t :: "'k downlink_state" and n
  assume a: "down_action a" and inv: "down_inv n t"
  from a show "(\<exists>e. pa_when_interested a t = Some (Inl e) \<and> process_error e) \<or>
      (\<exists>b t'. pa_when_interested a t = Some (Inr (b, t')) \<and> down_inv n t' \<and> down_prog t t')"
  proof (cases rule: down_action_cases)
    case (ferry b)
    show ?thesis unfolding ferry(5)
      using ferry.interest_law [OF ferry(1)] inv by (intro embedded_ferry_ok) (simp add: down_inv_def)
  qed (use inv in \<open>simp_all add: always_interested_def down_prog_refl ex_bool_eq\<close>)
next
  fix t :: "'k downlink_state" and n
  assume "down_inv n t"
  then show "(\<exists>e. embedded ferry_part put_ferry_part ferry_wait t = Some (Inl e) \<and> process_error e) \<or>
      (\<exists>x t'. embedded ferry_part put_ferry_part ferry_wait t = Some (Inr (x, t')) \<and> down_inv n t' \<and> down_prog t t')"
    using ferry.wait_law by (intro embedded_ferry_ok) (simp add: down_inv_def)
next
  fix a :: "'k downlink_state poll_action" and t t' :: "'k downlink_state"
  assume a: "down_action a" and p: "down_prog t t'"
  from a show "fd_num (pa_fd a t') = fd_num (pa_fd a t)"
  proof (cases rule: down_action_cases)
    case (ferry b)
    with ferry.action_fd [OF ferry(1)] p show ?thesis by (simp add: down_prog_def)
  qed (use p in \<open>simp_all add: down_prog_def listeners_def\<close>)
qed (auto simp: down_prog_refl down_prog_def down_action_def down_cost_def
    intro: loop_prog_trans down_inv_mono)

section \<open>The emulator in the downlink's loop\<close>

lemma downlink_actions_eq:
  "downlink_actions t = map (embedded_action dns_part put_dns_part) proxy_actions @
     map (embedded_action ferry_part put_ferry_part) (take 3 the_actions)"
  by (simp add: downlink_actions_def register_handlers_def ferry_actions_def proxy_actions_def
      the_actions_def add_action_def empty_poller_def Let_def numeral_3_eq_3)

definition downlink_poller :: "'k downlink_state \<Rightarrow> 'k downlink_state poller" where
  "downlink_poller t = foldl (\<lambda>p a. add_action t a p) empty_poller (downlink_actions t)"

lemma downlink_poller_signal_fd: "downlink_poller (t\<lparr>el_signal_fd := fd\<rparr>) = downlink_poller t"
  by (simp add: downlink_poller_def downlink_actions_eq proxy_actions_def the_actions_def add_action_def
      embedded_action_def simple_input_handler_def mk_action_def dns_part_def numeral_3_eq_3)

lemma down_poller_ok:
  "down.general.poller_ok t
     (add_action t (simple_input_handler el_signal_fd on_signal) (downlink_poller t))"
proof -
  have "down.general.poller_ok t (foldl (\<lambda>p a. add_action t a p) p as)"
    if "down.general.poller_ok t p" "\<forall>a \<in> set as. down_action a" for p and as
    using that by (induction as arbitrary: p) (simp_all add: down.general.poller_ok_add)
  moreover have "\<forall>a \<in> set (downlink_actions t). down_action a"
    by (auto simp: downlink_actions_eq down_action_def proxy_actions_def the_actions_def embedded_action_def
        simple_input_handler_def mk_action_def numeral_3_eq_3)
  ultimately show ?thesis unfolding downlink_poller_def
    by (intro down.general.poller_ok_add)
      (simp_all add: down.general.poller_ok_empty down_action_def simple_input_handler_def mk_action_def)
qed

lemma down_poller_cost:
  "down.general.total_cost (po_actions
     (add_action t (simple_input_handler el_signal_fd on_signal) (downlink_poller t))) = 4"
  by (simp add: downlink_poller_def downlink_actions_eq proxy_actions_def the_actions_def add_action_def
      empty_poller_def embedded_action_def simple_input_handler_def mk_action_def down_cost_def numeral_3_eq_3)

lemma downlink_run_ok:
  assumes "alive (el_children t)" "tun_delivers (fd_num (fs_tun t)) (el_world t)"
    and "fst signalfd_answer \<noteq> fd_num (fs_tun t)" "accepts_more (4 * length answers) (writing_of (ferry_part t))"
  shows "(\<exists>e. downlink_run k kw mask_answer signalfd_answer answers t = Some (Inl e) \<and> process_error e) \<or>
    (\<exists>status f t' kw'. downlink_run k kw mask_answer signalfd_answer answers t =
        Some (Inr (status, t', kw')) \<and> down_prog (t\<lparr>el_signal_fd := f\<rparr>) t')"
proof (cases rule: internal_loop_outcome [of k kw mask_answer signalfd_answer
      "embedded ferry_part put_ferry_part ferry_wait" answers "downlink_poller t" t])
  case error
  then show ?thesis by (simp add: downlink_run_def downlink_poller_def)
next
  case (loop fd)
  let ?t = "t\<lparr>el_signal_fd := fd\<rparr>"
  have "down_inv (0 + length answers * down.general.total_cost (po_actions
      (add_action ?t (simple_input_handler el_signal_fd on_signal) (downlink_poller ?t)))) ?t"
    using assms loop(1) by (simp add: down_poller_cost down_inv_def loop_inv_def writing_of_def mult.commute)
  from down.general.poll_loop_ok [OF down_poller_ok this] loop(2) show ?thesis
    by (auto simp: downlink_run_def loop_on_def downlink_poller_signal_fd simp flip: downlink_poller_def)
qed

text \<open>
  C32. The emulator in the downlink's event loop, on a machine that treats it well. The loop the
  downlink's process starts, with the handlers of the DNS proxy, the ferry's and the signal's, on a
  freshly constructed \<open>CellularQueue\<close> with a usable trace and an unbounded packet queue
  (\<open>config_ok\<close>). Assumed of the machine, as for the ferry's loop alone: the clock is not set back,
  every write to the sibling device succeeds and takes the whole packet, every read from the TUN
  device that succeeds brings a datagram the header parser can read, and the signal descriptor has a
  number of its own. Not restricted are the answers of \<open>poll\<close> in each of fewer than \<open>2^17\<close> rounds,
  failed reads, the signals, and every answer to the calls of the DNS proxy on its sockets and
  threads. Then the loop either ends with an exception of a system call, a signal or a check of what
  the kernel returned, never with a failed assertion, undefined behaviour or a callback that does not
  return, or it has returned or is still running; in the last two cases what was written to the
  sibling device, followed by what the emulator holds, is what was read from the TUN device, unchanged
  and in order, however many DNS requests were handed to threads in between, and the proxy still
  listens on the same two descriptors.
\<close>

theorem downlink_event_loop:
  assumes "CellularQueue train heavy log_prefix rep queue up start loss offs timer v = Inr (c, v')"
    and "clock_steady v" "whole_writes v" "config_ok queue c"
    and "sy_world w = v'" "tun_delivers (fd_num tun) v'" "fst signalfd_answer \<noteq> fd_num tun"
    and "length answers < 2 ^ 17"
  shows "case downlink_run k kw mask_answer signalfd_answer answers (downlink_start signals proxy c tun sibling w) of
      None \<Rightarrow> False
    | Some (Inl e) \<Rightarrow> process_error e
    | Some (Inr (status, t', kw')) \<Rightarrow>
        (\<exists>out ins. map snd (w_sent (el_world t')) = map snd (w_sent v) @ out \<and>
           datagrams_read (ferry_part t') =
             datagrams_read (ferry_part (downlink_start signals proxy c tun sibling w)) @ ins \<and>
           out @ map snd (channel (fs_queue t')) = ins) \<and>
        fd_num (dx_udp_listener (dn_proxy t')) = fd_num (dx_udp_listener proxy) \<and>
        fd_num (dx_tcp_listener (dn_proxy t')) = fd_num (dx_tcp_listener proxy)"
proof -
  let ?t = "downlink_start signals proxy c tun sibling w"
  have t: "ferry_part ?t = ferry_state_of signals [] c tun sibling w" "dn_proxy ?t = proxy"
    by (simp_all add: downlink_start_def ferry_part_def ferry_state_of_def ferry_state.defs downlink_state.defs)
  have fields: "fs_tun ?t = tun" "el_world ?t = sy_world w" "fs_queue ?t = c" "el_children ?t = []"
    by (simp_all add: downlink_start_def ferry_state_of_def ferry_state.defs)
  have "accepts_more (4 * length answers) (writing_of (ferry_part ?t))"
  proof (rule accepts_moreI)
    fix xs assume xs: "length xs \<le> 4 * length answers" "\<forall>x \<in> set xs. datagram_ok x"
    have "(\<Sum>x \<leftarrow> xs. length x + 1) < 2 ^ 30"
      using datagram_lengths [OF xs(2)] xs(1) assms(8) by (simp add: PACKET_SIZE_def)
    with CellularQueue_accepts [OF assms(1-4) xs(2)] assms(5) show "cq_accepts (writing_of (ferry_part ?t)) xs"
      by (simp add: writing_of_def t ferry_state_of_def)
  qed
  moreover have "channel c = []" "w_sent v' = w_sent v" using CellularQueue_ok(3,5) [OF assms(1-4)] .
  ultimately show ?thesis
    using downlink_run_ok [of ?t signalfd_answer answers k kw mask_answer] assms(5-7) fields t
    by (auto simp: down_prog_def listeners_def loop_prog_def writing_of_def datagrams_read_def cq_sent_def
        cq_held_def ferry_state_of_def)
qed

text \<open>
  A run of three rounds: a datagram from the device, a DNS request over UDP, a timeout.
\<close>

definition sample_rounds :: poll_answers where
  "sample_rounds = [\<lambda>t fs. (1, \<lambda>i. if i = 2 then POLLIN else 0),
     \<lambda>t fs. (1, \<lambda>i. if i = 0 then POLLIN else 0), \<lambda>t fs. (0, \<lambda>i. 0)]"

definition sample_proxy :: dns_proxy where
  "sample_proxy = \<lparr>dx_udp_listener = sample_fd\<lparr>fd_num := 5\<rparr>, dx_tcp_listener = sample_fd\<lparr>fd_num := 6\<rparr>,
     dx_udp_target = \<lparr>ad_size = 0, ad_raw = []\<rparr>, dx_tcp_target = \<lparr>ad_size = 0, ad_raw = []\<rparr>\<rparr>"

definition sample_downlink_world :: "credentials sys_world" where
  "sample_downlink_world = \<lparr>sy_answer = \<lambda>n call. \<lparr>sa_ret = 7, sa_data = ''request'', sa_addr = [],
       sa_pair = (0, 0), sa_control = None, sa_truncated = False\<rparr>,
     sy_fork = \<lambda>n. \<lparr>fa_stat = 0, fa_nlink = 3, fa_clone = 0, fa_sigprocmask = 0, fa_procs = stop_then_die\<rparr>,
     sy_trace = [], sy_ids = setuid_root, sy_pid = 42, sy_environ = None, sy_world = snd sample_queue,
     sy_procs = stop_then_die\<rparr>"

theorem downlink_event_loop_witness:
  "case downlink_run linux_ids setuid_root (0, EventLoop_signals) (8, 0) sample_rounds
       (downlink_start EventLoop_signals sample_proxy (fst sample_queue) (sample_fd\<lparr>fd_num := 9\<rparr>) sample_fd
         sample_downlink_world) of
      None \<Rightarrow> False
    | Some (Inl e) \<Rightarrow> process_error e
    | Some (Inr (status, t', kw')) \<Rightarrow>
        map snd (w_sent (el_world t')) @ map snd (channel (fs_queue t')) = datagrams_read (ferry_part t') \<and>
        fd_num (dx_udp_listener (dn_proxy t')) = 5"
proof -
  let ?start = "downlink_start EventLoop_signals sample_proxy (fst sample_queue) (sample_fd\<lparr>fd_num := 9\<rparr>)
    sample_fd sample_downlink_world"
  have "w_received (snd sample_queue) = []" "w_sent sample_world = []"
    using CellularQueue_initial(15) [OF sample_queue_new(1) sample_world_steady(1)]
    by (simp_all add: clock_tick_def sample_world_def)
  moreover from this have "datagrams_read (ferry_part ?start) = []"
    by (simp add: datagrams_read_def downlink_start_def ferry_state_of_def ferry_state.defs
        sample_downlink_world_def)
  ultimately show ?thesis
    using downlink_event_loop [OF sample_queue_new(1) sample_world_steady sample_queue_new(2),
        of sample_downlink_world "sample_fd\<lparr>fd_num := 9\<rparr>" "(8, 0)" sample_rounds EventLoop_signals
          sample_proxy sample_fd linux_ids setuid_root "(0, EventLoop_signals)"] sample_ferry_tun
    by (auto simp: sample_downlink_world_def sample_rounds_def sample_proxy_def
        split: option.splits sum.splits prod.splits)
qed

end
