(* ===== verification/Shell_Main.thy ===== *)
theory Shell_Main
  imports Main Prelude Kernel Util System_Runner Child_Process Link_Packet_Queue Addresses Interfaces
    Syscalls Sockets Net_Setup Dns_Proxy Privileges Packet_Shell Cellular_Shell
begin

text \<open>
  \<open>main\<close> of \<open>src/frontend/cellularshell.cc\<close> from its first line to its last, over the trace of system
  calls: the checks, the two processes, the wait, and the destruction of \<open>PacketShell\<close> on every way
  out. The root of what holds of the whole program: which programs it starts under which identity,
  and that it leaves no rule of address translation behind.
\<close>

section \<open>main\<close>

definition holding :: "'k id_calls \<Rightarrow> platform \<Rightarrow> (packet_shell \<Rightarrow> ('k, 'a) sys) \<Rightarrow> packet_shell \<Rightarrow> ('k, 'a) sys" where
  \<comment> \<open>an exception destroys the \<open>PacketShell\<close>\<close>
  "holding k pf m sh = unwinding (returnS sh) (packet_shell_destroy k pf) m"

definition run_shell :: "'k id_calls \<Rightarrow> platform \<Rightarrow> string \<Rightarrow> shell_config \<Rightarrow> environment option \<Rightarrow> ('k, i32) sys" where
  \<comment> \<open>the parent makes each packet queue, the child moves it into its \<open>CellularQueue\<close>\<close>
  "run_shell k pf program_name c user_environment =
     (let so = sc_options c
      in bindS (PacketShell k pf ''cell-link'' user_environment) (\<lambda>sh.
         bindS (holding k pf (\<lambda>sh.
           bindS (liftS (get_packet_queue (so_uplink_queue_type so) (so_uplink_queue_args so) program_name)) (\<lambda>_.
             start_uplink k pf ''[cell-link] '' (sc_command c) (uplink_queue program_name c) sh)) sh) (\<lambda>sh.
         bindS (holding k pf (\<lambda>sh.
           bindS (liftS (get_packet_queue (so_downlink_queue_type so) (so_downlink_queue_args so) program_name)) (\<lambda>_.
             start_downlink k pf (downlink_queue program_name c) sh)) sh) (\<lambda>sh.
         bindS (holding k pf (wait_for_exit k pf) sh) (\<lambda>(status, sh).
         bindS (packet_shell_destroy k pf sh) (\<lambda>_. returnS status))))))"

definition shell_main :: "'k id_calls \<Rightarrow> platform \<Rightarrow> string list \<Rightarrow> ('k, i32) sys" where
  "shell_main k pf argv =
     catchS (
       bindS (getS sy_environ) (\<lambda>user_environment.
       bindS (set_environ None) (\<lambda>_.
       bindS (\<lambda>w. liftS (check_requirements (int (length argv)) (hd argv) k (sy_ids w) (sy_environ w \<noteq> None)
                (pf_dev_null pf) (pf_ip_forward pf) (sy_world w)) w) (\<lambda>_.
       bindS (liftS (main_config argv (fst (pf_getopt pf)) (snd (pf_getopt pf)) (pf_pw_shell pf))) (\<lambda>c.
         run_shell k pf (hd argv) c user_environment)))))
       (\<lambda>e. returnS 1)"

section \<open>The parent has no environment\<close>

lemma destroyed_Returned_iff: "destroyed r d = Returned x \<longleftrightarrow> r = Returned x \<and> d = Returned ()"
  by (cases d) (auto simp: destroyed_def)

lemma after_exception_Returned_iff:
  "after by_exception d m w = Some (Returned x, w') \<longleftrightarrow> m w = Some (Returned x, w')"
  unfolding after_outcome by (auto simp: destroyed_Returned_iff dest: sym) (metis leaves_scope_simps(5))+

lemma unwinding_Returned_iff:
  "unwinding mk d f w = Some (Returned x, w') \<longleftrightarrow>
    (\<exists>y w1. mk w = Some (Returned y, w1) \<and> f y w1 = Some (Returned x, w'))"
  by (simp add: unwinding_def bindS_Returned_iff after_exception_Returned_iff)

lemma PacketShell_Returned:
  assumes "PacketShell k pf device_prefix env w = Some (Returned sh, w')"
  shows "ps_user_environment sh = env \<and> ps_children sh = [] \<and>
    (\<exists>ifs avoid. two_unassigned_from (pf_gai pf) ifs avoid = Inr (ps_egress_ingress sh))"
  using assms
  by (auto simp: PacketShell_def bindS_Returned_iff unwinding_Returned_iff egress_ingress_def
      on_world_outcome two_unassigned_addresses_def andThenO_Some_Inr_iff andThen_Inr_iff
      split: prod.splits if_splits) blast

section \<open>What the whole program calls\<close>

lemma calls_bind_value:
  assumes "only_calls R P m" "\<And>x w w'. m w = Some (Returned x, w') \<Longrightarrow> only_calls R P (f x)"
  shows "only_calls R P (bindS m f)"
proof (rule callsI)
  fix w r w' assume w: "running_as R w" "bindS m f w = Some (r, w')"
  from w(2) obtain r1 w1 where m: "m w = Some (r1, w1)" by (auto simp: bindS_outcome)
  note w1 = callsD [OF assms(1) w(1) m]
  show "made P w w' \<and> (leaves_scope r \<longrightarrow> running_as R w')"
  proof (cases "\<exists>x. r1 = Returned x")
    case True
    then obtain x where x: "r1 = Returned x" by blast
    with w(2) m have "f x w1 = Some (r, w')" by (simp add: bindS_def)
    from callsD [OF assms(2) [OF m [unfolded x]] _ this] w1 x show ?thesis by (auto intro: made_trans)
  next
    case False
    with w(2) m have "w' = w1" "leaves_scope r \<longrightarrow> leaves_scope r1" by (auto simp: bindS_outcome)
    with w1 show ?thesis by blast
  qed
qed

lemma calls_bind_lift: "(\<And>x. v = Inr x \<Longrightarrow> only_calls R P (f x)) \<Longrightarrow> only_calls R P (bindS (liftS v) f)"
  by (cases v) (simp_all add: calls_throw)

lemma calls_get_base:
  assumes "id_laws k"
  shows "only_calls unset P (get_mahimahi_base k gai env)"
proof (rule callsI)
  fix w r w' assume "running_as unset w" "get_mahimahi_base k gai env w = Some (r, w')"
  moreover from this have "sy_environ w = None" by (simp add: running_as_def unset_def)
  ultimately show "made P w w' \<and> (leaves_scope r \<longrightarrow> running_as unset w')"
    using get_mahimahi_base_outcome [OF assms] by (auto simp: made_def running_as_def unset_def)
qed

lemma calls_nat:
  assumes "allows_quiet S" "\<And>cmd c. S (Call_Run cmd) c"
    "\<And>c ex cmd. ezexec k c None cmd False None = Inr ex \<Longrightarrow> S (Call_Exec ex) c"
  shows "only_calls unset S (NAT k ipt addr)" "only_calls unset S (nat_destroy k ipt n)"
proof -
  have run: "only_calls unset S (sys_run k cmd)" for cmd
    by (intro calls_run assms) (auto simp: unset_def allows_quietD assms)
  show "only_calls unset S (NAT k ipt addr)" "only_calls unset S (nat_destroy k ipt n)"
    unfolding NAT_def NATRule_def natrule_destroy_def nat_destroy_def by (intro calls_intro run)+
qed

lemma calls_PacketShell:
  assumes "id_laws k" "allows_quiet S" "\<And>cmd c. S (Call_Run cmd) c"
    "\<And>c ex cmd. ezexec k c None cmd False None = Inr ex \<Longrightarrow> S (Call_Exec ex) c"
  shows "only_calls unset S (PacketShell k pf device_prefix env)"
    "only_calls unset S (packet_shell_destroy k pf sh)"
  unfolding PacketShell_def egress_ingress_def packet_shell_destroy_def
  by (intro calls_intro calls_get_base [OF assms(1)] calls_nat [OF assms(2-4)] assms;
    simp add: allows_quietD assms(2))+

lemma calls_wait: "only_calls unset P (wait_for_exit k pf sh)"
proof (rule callsI)
  fix w r w' assume "running_as unset w" and run: "wait_for_exit k pf sh w = Some (r, w')"
  moreover from run have "sy_environ w' = sy_environ w"
    by (auto simp: wait_for_exit_def bindS_outcome loop_ended_def split: option.splits sum.splits)
  moreover have "made P w w'" using callsD [OF calls_wait_for_exit running_as_UNIV run] by simp
  ultimately show "made P w w' \<and> (leaves_scope r \<longrightarrow> running_as unset w')"
    by (simp add: running_as_def unset_def)
qed

text \<open>The address the user's program is told: the first of the two the search has chosen.\<close>

definition chosen_egress :: "platform \<Rightarrow> string \<Rightarrow> bool" where
  "chosen_egress pf ip \<longleftrightarrow>
     (\<exists>ifs avoid p. two_unassigned_from (pf_gai pf) ifs avoid = Inr p \<and> ad_ip (fst p) = Inr ip)"

lemma calls_run_shell:
  assumes "id_laws k"
  shows "only_calls unset (safe_exec k env (chosen_egress pf) ''[cell-link] '' (sc_command c))
    (run_shell k pf name c env)"
proof -
  let ?S = "safe_exec k env (chosen_egress pf) ''[cell-link] '' (sc_command c)"
  have quiet: "allows_quiet ?S" by (rule allows_quiet_safe)
  have plain: "?S (Call_Exec ex) c'" if "ezexec k c' None cmd False None = Inr ex" for c' ex cmd
    using that by (rule safe_exec_plain)
  note shell = calls_PacketShell [OF assms quiet safe_exec_run plain]
  have up: "only_calls unset ?S (start_uplink k pf ''[cell-link] '' (sc_command c) maker sh)"
    if "ps_user_environment sh = env" "\<And>ip. ad_ip (egress_addr sh) = Inr ip \<Longrightarrow> chosen_egress pf ip" for sh maker
  proof -
    have "steps unset ?S UNIV (uplink_process k pf set_mtu (uplink_nameserver k pf sh) ''[cell-link] ''
        (sc_command c) maker sh)"
      unfolding that(1) [symmetric]
      by (rule steps_uplink [OF assms that(2) calls_set_mtu [OF allows_quiet_safe] calls_start_dnsmasq]) simp_all
    then show ?thesis unfolding start_uplink_def by (rule calls_start_child [OF quiet])
  qed
  have down: "only_calls unset ?S (start_downlink k pf maker sh)" for maker and sh :: packet_shell
    unfolding start_downlink_def
    by (rule calls_start_child [OF quiet steps_downlink [OF assms quiet calls_downlink_loop [OF quiet]]])
  have held: "only_calls unset ?S (holding k pf m sh)" if "only_calls unset ?S (m sh)" for m sh
    using that unfolding holding_def by (simp add: unwinding_def calls_after by_exception_leaves shell)
  let ?so = "sc_options c"
  let ?rest = "\<lambda>sh. bindS (holding k pf (\<lambda>sh.
      bindS (liftS (get_packet_queue (so_uplink_queue_type ?so) (so_uplink_queue_args ?so) name)) (\<lambda>_.
        start_uplink k pf ''[cell-link] '' (sc_command c) (uplink_queue name c) sh)) sh) (\<lambda>sh.
    bindS (holding k pf (\<lambda>sh.
      bindS (liftS (get_packet_queue (so_downlink_queue_type ?so) (so_downlink_queue_args ?so) name)) (\<lambda>_.
        start_downlink k pf (downlink_queue name c) sh)) sh) (\<lambda>sh.
    bindS (holding k pf (wait_for_exit k pf) sh) (\<lambda>(status, sh).
    bindS (packet_shell_destroy k pf sh) (\<lambda>_. returnS status))))"
  have chosen: "ps_user_environment sh = env \<and> (\<forall>ip. ad_ip (egress_addr sh) = Inr ip \<longrightarrow> chosen_egress pf ip)"
    if "PacketShell k pf ''cell-link'' env w = Some (Returned sh, w')" for sh w w'
    using PacketShell_Returned [OF that] unfolding chosen_egress_def egress_addr_def by blast
  show ?thesis
    unfolding run_shell_def Let_def
  proof (rule calls_bind_value [OF shell(1)])
    fix sh w w' assume "PacketShell k pf ''cell-link'' env w = Some (Returned sh, w')"
    from chosen [OF this] have env: "ps_user_environment sh = env" and
      ip: "\<And>ip. ad_ip (egress_addr sh) = Inr ip \<Longrightarrow> chosen_egress pf ip" by blast+
    show "only_calls unset ?S (?rest sh)"
      by (intro calls_bind held up [OF env ip] down calls_wait shell(2) calls_lift calls_return calls_prod)
  qed
qed

lemma shell_main_made:
  assumes "id_laws k" "shell_main k pf argv w = Some (r, w')"
  shows "made (\<lambda>call c. \<forall>ex. call = Call_Exec ex \<longrightarrow>
    (if ex_path_search ex
     then \<exists>cfg. main_config argv (fst (pf_getopt pf)) (snd (pf_getopt pf)) (pf_pw_shell pf) = Inr cfg \<and>
       safe_exec k (sy_environ w) (chosen_egress pf) ''[cell-link] '' (sc_command cfg) call c
     else ex_environ ex = None)) w w'" (is "made ?Q w w'")
proof -
  let ?w = "w\<lparr>sy_environ := None\<rparr>"
  let ?checks = "\<lambda>w. liftS (check_requirements (int (length argv)) (hd argv) k (sy_ids w) (sy_environ w \<noteq> None)
                (pf_dev_null pf) (pf_ip_forward pf) (sy_world w)) w"
  let ?rest = "bindS ?checks (\<lambda>_.
       bindS (liftS (main_config argv (fst (pf_getopt pf)) (snd (pf_getopt pf)) (pf_pw_shell pf))) (\<lambda>c.
         run_shell k pf (hd argv) c (sy_environ w)))"
  have "only_calls unset P ?checks" for P :: "sys_call \<Rightarrow> 'a \<Rightarrow> bool"
    by (rule callsI) (simp add: liftS_outcome)
  moreover have "only_calls unset ?Q (run_shell k pf (hd argv) cfg (sy_environ w))"
    if "main_config argv (fst (pf_getopt pf)) (snd (pf_getopt pf)) (pf_pw_shell pf) = Inr cfg" for cfg
    by (rule calls_mono [OF calls_run_shell [OF assms(1)]]) (auto simp: that safe_exec_def split: if_splits)
  ultimately have "only_calls unset ?Q ?rest"
    by (intro calls_bind [where m = ?checks] calls_bind_lift)
  moreover have "running_as unset ?w" by (simp add: running_as_def unset_def)
  moreover have "\<exists>r1. ?rest ?w = Some (r1, w')"
    using assms(2) by (auto simp: shell_main_def catchS_def set_environ_def bindS_def [of "set_environ None"]
        split: option.splits outcome.splits if_splits)
  ultimately have "made ?Q ?w w'" by (blast dest: callsD)
  then show ?thesis by (simp add: made_def)
qed

section \<open>Which programs are started\<close>

text \<open>
  C4. Programs and identities. Over a whole run of \<open>cellularshell\<close>, in whichever process the run ends
  and whatever the kernel answers (if its calls on identities do what they return): a program is
  started without an environment and without a search of PATH, or it is the user's command. The
  user's command is started only under the real user and group, both as real and as effective
  identity, neither of them root's; with the arguments of the command line; and with the
  environment \<open>main\<close> was given, in which MAHIMAHI_BASE is the egress address if it was not set, and
  the shell prefix stands behind the one there was.
\<close>

theorem programs_started:
  assumes "id_laws k" "shell_main k pf argv w = Some (r, w')"
  shows "\<exists>es. sy_trace w' = sy_trace w @ es \<and> (\<forall>(call, ret, c) \<in> set es. \<forall>ex. call = Call_Exec ex \<longrightarrow>
    (if ex_path_search ex
     then k_geteuid k c = k_getuid k c \<and> k_getegid k c = k_getgid k c \<and>
       k_geteuid k c \<noteq> 0 \<and> k_getegid k c \<noteq> 0 \<and>
       (\<exists>cfg ip. main_config argv (fst (pf_getopt pf)) (snd (pf_getopt pf)) (pf_pw_shell pf) = Inr cfg \<and>
         chosen_egress pf ip \<and> ex_argv ex = map c_string (sc_command cfg) \<and>
         ex_environ ex = user_program_environment (sy_environ w) ip ''[cell-link] '')
     else ex_environ ex = None))"
proof -
  from shell_main_made [OF assms] obtain es where "sy_trace w' = sy_trace w @ es"
    "\<forall>(call, ret, c) \<in> set es. \<forall>ex. call = Call_Exec ex \<longrightarrow>
      (if ex_path_search ex
       then \<exists>cfg. main_config argv (fst (pf_getopt pf)) (snd (pf_getopt pf)) (pf_pw_shell pf) = Inr cfg \<and>
         safe_exec k (sy_environ w) (chosen_egress pf) ''[cell-link] '' (sc_command cfg) call c
       else ex_environ ex = None)" by (auto simp: made_def)
  then show ?thesis by (fastforce simp: safe_exec_def real_ids_def)
qed

end
