(* ===== verification/Shell_Rules.thy ===== *)
theory Shell_Rules
  imports Main Prelude Kernel Util System_Runner Child_Process Addresses Interfaces Syscalls Sockets Net_Setup
    Dns_Proxy Privileges Packet_Shell Cellular_Shell Shell_Main
begin

text \<open>
  The commands a whole run of \<open>cellularshell\<close> makes. All but the rules of address translation is
  without them; a small calculus of the commands run, by the way a part of the program is left,
  carries \<open>nat_leaves\<close> and \<open>nat_destroy_leaves\<close> through the construction of \<open>PacketShell\<close>, the two
  processes, the wait and the destruction on every way out.
\<close>

section \<open>Commands by the way out\<close>

text \<open>
  \<open>leaves_with S T m\<close>: left by the value \<open>x\<close>, \<open>m\<close> has run one of the sequences \<open>S x\<close>; left by an exception,
  one of \<open>T\<close>.
\<close>

definition leaves_with :: "('a \<Rightarrow> string list list set) \<Rightarrow> string list list set \<Rightarrow> ('k, 'a) sys \<Rightarrow> bool" where
  "leaves_with S T m \<longleftrightarrow>
     (\<forall>w r w'. m w = Some (r, w') \<longrightarrow>
       (\<forall>x. r = Returned x \<longrightarrow> (\<exists>cs \<in> S x. commands_run w' = commands_run w @ cs)) \<and>
       (\<forall>e. r = Thrown e \<longrightarrow> caught e \<longrightarrow> (\<exists>cs \<in> T. commands_run w' = commands_run w @ cs)))"

abbreviation no_command :: "sys_call \<Rightarrow> 'k \<Rightarrow> bool" where
  "no_command \<equiv> \<lambda>call c. command_of call = []"

abbreviation quiet :: "('k, 'a) sys \<Rightarrow> bool" where
  "quiet m \<equiv> only_calls UNIV no_command m"

lemma leaves_withD:
  "leaves_with S T m \<Longrightarrow> m w = Some (Returned x, w') \<Longrightarrow> \<exists>cs \<in> S x. commands_run w' = commands_run w @ cs"
  "leaves_with S T m \<Longrightarrow> m w = Some (Thrown e, w') \<Longrightarrow> caught e \<Longrightarrow> \<exists>cs \<in> T. commands_run w' = commands_run w @ cs"
  unfolding leaves_with_def by blast+

lemma quiet_commands: "quiet m \<Longrightarrow> m w = Some (r, w') \<Longrightarrow> commands_run w' = commands_run w"
  using callsD [of UNIV no_command m w r w'] by (simp add: made_no_commands)

lemma leaves_bind:
  assumes "leaves_with S T m" "T \<subseteq> T'"
    and "\<And>x a. a \<in> S x \<Longrightarrow> leaves_with (\<lambda>y. {b. a @ b \<in> S' y}) {b. a @ b \<in> T'} (f x)"
  shows "leaves_with S' T' (bindS m f)"
  unfolding leaves_with_def
proof (intro allI impI conjI)
  fix w r w' y assume run: "bindS m f w = Some (r, w')" "r = Returned y"
  then obtain x w1 where m: "m w = Some (Returned x, w1)" "f x w1 = Some (Returned y, w')"
    by (auto simp: bindS_Returned_iff)
  from leaves_withD(1) [OF assms(1) m(1)] obtain a where a: "a \<in> S x" "commands_run w1 = commands_run w @ a" by blast
  from leaves_withD(1) [OF assms(3) [OF a(1)] m(2)] a(2)
  show "\<exists>cs \<in> S' y. commands_run w' = commands_run w @ cs" by auto
next
  fix w r w' e assume run: "bindS m f w = Some (r, w')" "r = Thrown e" "caught e"
  then consider "m w = Some (Thrown e, w')" | x w1 where "m w = Some (Returned x, w1)" "f x w1 = Some (Thrown e, w')"
    by (auto simp: bindS_outcome)
  then show "\<exists>cs \<in> T'. commands_run w' = commands_run w @ cs"
  proof cases
    case 1
    from leaves_withD(2) [OF assms(1) this run(3)] assms(2) show ?thesis by blast
  next
    case 2
    from leaves_withD(1) [OF assms(1) 2(1)] obtain a where a: "a \<in> S x" "commands_run w1 = commands_run w @ a" by blast
    from leaves_withD(2) [OF assms(3) [OF a(1)] 2(2) run(3)] a(2) show ?thesis by auto
  qed
qed

lemma leaves_quiet: "quiet m \<Longrightarrow> (\<And>x w w'. m w = Some (Returned x, w') \<Longrightarrow> [] \<in> S x) \<Longrightarrow> [] \<in> T \<Longrightarrow> leaves_with S T m"
  unfolding leaves_with_def using quiet_commands by (intro allI impI conjI) force+

lemma leaves_after_quiet:
  assumes "quiet m" "[] \<in> T" "\<And>x. leaves_with S T (f x)"
  shows "leaves_with S T (bindS m f)"
  by (rule leaves_bind [where S = "\<lambda>_. {[]}" and T = "{[]}"])
    (use assms in \<open>auto intro: leaves_quiet\<close>)

text \<open>What an exception runs when it leaves the scope of an object.\<close>

lemma leaves_unwound:
  assumes "leaves_with S {a. \<forall>b \<in> D. a @ b \<in> T} m" "leaves_with (\<lambda>_. D) UNIV d"
  shows "leaves_with S T (after by_exception d m)"
  unfolding leaves_with_def
proof (intro allI impI conjI)
  fix w r w' x assume "after by_exception d m w = Some (r, w')" "r = Returned x"
  then have "m w = Some (Returned x, w')" by (simp add: after_exception_Returned_iff)
  from leaves_withD(1) [OF assms(1) this] show "\<exists>cs \<in> S x. commands_run w' = commands_run w @ cs" .
next
  fix w r w' e assume run: "after by_exception d m w = Some (r, w')" "r = Thrown e" "caught e"
  then obtain r1 w1 where m: "m w = Some (r1, w1)" and
    d: "if by_exception r1 then \<exists>q. d w1 = Some (q, w') \<and> r = destroyed r1 q else r = r1 \<and> w' = w1"
    by (auto simp: after_outcome)
  have "by_exception r1" using d run(2,3) by (auto split: if_splits)
  with d obtain q where q: "d w1 = Some (q, w')" "r = destroyed r1 q" by auto
  with run(2,3) have "leaves_scope (destroyed r1 q)" by simp
  with destroyed_leaves have "q = Returned ()" by blast
  with q run(2) have "r1 = Thrown e" by simp
  from leaves_withD(2) [OF assms(1) m [unfolded this] run(3)] obtain a where
    a: "\<forall>b \<in> D. a @ b \<in> T" "commands_run w1 = commands_run w @ a" by blast
  from leaves_withD(1) [OF assms(2) q(1) [unfolded \<open>q = Returned ()\<close>]] a
  show "\<exists>cs \<in> T. commands_run w' = commands_run w @ cs" by auto
qed

lemma leaves_unwinding_quiet:
  assumes "quiet mk" "\<And>x. quiet (d x)" "[] \<in> T" "\<And>x. leaves_with S T (f x)"
  shows "leaves_with S T (unwinding mk d f)"
  unfolding unwinding_def
proof (rule leaves_after_quiet [OF assms(1,3)])
  fix x
  have "leaves_with (\<lambda>_. {[]}) UNIV (d x)" by (rule leaves_quiet [OF assms(2)]) simp_all
  then show "leaves_with S T (after by_exception (d x) (f x))"
    by (rule leaves_unwound [rotated]) (simp add: assms(4))
qed

lemma leaves_prod: "(\<And>a b. leaves_with S T (f a b)) \<Longrightarrow> leaves_with S T (case p of (a, b) \<Rightarrow> f a b)"
  by (cases p) simp

section \<open>Without a command\<close>

lemma quiet_allowed: "allows_quiet no_command"
  by (auto simp: allows_quiet_def elim: quiet_call.elims)

lemma quiet_identities:
  "quiet (sys_drop_privileges k)" "quiet (sys_TemporarilyUnprivileged k)" "quiet (sys_tu_destroy k tu)"
  "quiet (set_environ env)"
  by (simp_all add: calls_changes_ids changes_ids_drop changes_ids_tu changes_ids_tu_destroy calls_set_environ)

lemma quiet_get_base: "quiet (get_mahimahi_base k gai env)"
  unfolding get_mahimahi_base_def TemporaryEnvironment_def te_destroy_def sys_getenv_def
  by (intro calls_intro quiet_identities)

lemma quiet_user_process: "quiet (user_process k shell_prefix command sh cs)"
  unfolding user_process_def user_command_def sys_setenv_def sys_prepend_shell_prefix_def sys_getenv_def Let_def
  by (intro calls_intro quiet_identities) simp_all

lemma quiet_egress_ingress: "quiet (egress_ingress k pf env)"
  unfolding egress_ingress_def by (intro calls_intro quiet_get_base)

lemma quiet_uplink: "quiet (start_uplink k pf shell_prefix command ferry_maker sh)"
proof -
  have "quiet (uplink_nameserver k pf sh)"
    unfolding uplink_nameserver_def start_dnsmasq_def start_dnsmasq_args_def socket_calls
    by (intro calls_intro calls_dnsmasq_wait) simp_all
  then have "quiet (uplink_process k pf set_mtu (uplink_nameserver k pf sh) shell_prefix command ferry_maker sh)"
    unfolding uplink_process_def
    by (intro calls_intro quiet_allowed quiet_user_process calls_ferry_loop) (simp_all add: quiet_allowed)
  then show ?thesis
    unfolding start_uplink_def by (intro calls_start_child [OF quiet_allowed] steps_calls)
qed

lemma quiet_downlink: "quiet (start_downlink k pf ferry_maker sh)"
proof -
  have "quiet (downlink_process k pf (\<lambda>signals queue tun.
      downlink_loop k pf signals (ps_dns_outside sh) queue (ps_egress_tun sh) tun) ferry_maker sh)"
    unfolding downlink_process_def
    by (intro calls_intro quiet_identities calls_downlink_loop quiet_allowed) simp_all
  then show ?thesis
    unfolding start_downlink_def by (intro calls_start_child [OF quiet_allowed] steps_calls)
qed

lemma quiet_members: "quiet (children_destroy cs)" "quiet (pipe_destroy p)" "quiet (dns_proxy_destroy d)"
  "quiet (fd_destroy fd)" "quiet (wait_for_exit k pf sh)"
  by (intro calls_intro quiet_allowed calls_wait_for_exit; simp)+

text \<open>The rules of the shell stay those it was made with.\<close>

lemma start_keeps_rules:
  "start_uplink k pf shell_prefix command ferry_maker sh w = Some (Returned sh', w') \<Longrightarrow> ps_nat_rule sh' = ps_nat_rule sh"
  "start_downlink k pf ferry_maker sh w = Some (Returned sh', w') \<Longrightarrow> ps_nat_rule sh' = ps_nat_rule sh"
  by (auto simp: start_uplink_def start_downlink_def start_child_def bindS_Returned_iff)

lemma wait_for_exit_Returned:
  "wait_for_exit k pf sh w = Some (Returned (status, sh'), w') \<Longrightarrow> \<exists>cs. sh' = sh\<lparr>ps_children := cs\<rparr>"
  by (auto simp: wait_for_exit_def bindS_Returned_iff)

section \<open>The rules of address translation\<close>

definition added :: "string \<Rightarrow> string list \<times> string list \<Rightarrow> string list list" where
  "added ipt n = [add_rule ipt (fst n), add_rule ipt (snd n)]"

definition deleted :: "string \<Rightarrow> string list \<times> string list \<Rightarrow> string list list" where
  "deleted ipt n = [delete_rule ipt (snd n), delete_rule ipt (fst n)]"

definition rules_of :: "string list \<times> string list \<Rightarrow> bool" where
  \<comment> \<open>the pair a \<open>NAT\<close> holds\<close>
  "rules_of n \<longleftrightarrow> (\<exists>ip pid. n = (pre_rule ip pid, post_rule pid))"

definition failed_rules :: "string \<Rightarrow> string list list set" where
  \<comment> \<open>the first rule could not be added, or the second, and the first is deleted again\<close>
  "failed_rules ipt = {cs. \<exists>n. rules_of n \<and>
     (cs = [add_rule ipt (fst n)] \<or> cs = added ipt n @ [delete_rule ipt (fst n)])}"

definition undone_rules :: "string \<Rightarrow> string list list set" where
  "undone_rules ipt = {cs. \<exists>n. rules_of n \<and> cs = added ipt n @ deleted ipt n}"

lemma leaves_NAT:
  "leaves_with (\<lambda>n. {cs. rules_of n \<and> cs = added ipt n}) (insert [] (failed_rules ipt)) (NAT k ipt addr)"
proof (cases "ad_ip addr")
  case (Inl e)
  then show ?thesis by (simp add: NAT_def leaves_with_def)
next
  case (Inr ip)
  show ?thesis
    unfolding leaves_with_def
  proof (intro allI impI conjI)
    fix w r w' n assume "NAT k ipt addr w = Some (r, w')" "r = Returned n"
    then show "\<exists>cs \<in> {cs. rules_of n \<and> cs = added ipt n}. commands_run w' = commands_run w @ cs"
      using nat_leaves [of k ipt addr w r w' ip] Inr by (auto simp: rules_of_def added_def)
  next
    fix w r w' e assume "NAT k ipt addr w = Some (r, w')" "r = Thrown e" "caught e"
    then show "\<exists>cs \<in> insert [] (failed_rules ipt). commands_run w' = commands_run w @ cs"
      using nat_leaves [of k ipt addr w r w' ip] Inr by (fastforce simp: rules_of_def added_def failed_rules_def)
  qed
qed

lemma undone_rulesI: "rules_of n \<Longrightarrow> added ipt n @ deleted ipt n \<in> undone_rules ipt"
  unfolding undone_rules_def by blast

text \<open>No destructor is left by an exception that could be caught.\<close>

definition settles :: "('k, unit) sys \<Rightarrow> bool" where
  "settles m \<longleftrightarrow> (\<forall>w e w'. m w = Some (Thrown e, w') \<longrightarrow> \<not> caught e)"

lemma settles_bind: "settles m \<Longrightarrow> settles n \<Longrightarrow> settles (bindS m (\<lambda>_. n))"
  unfolding settles_def bindS_outcome by blast

lemma settles_child: "settles (child_destroy p)"
  by (auto simp: settles_def child_destroy_def split: option.splits sum.splits if_splits)

lemma settles_children: "settles (children_destroy cs)"
proof (induction cs rule: children_destroy.induct)
  case (2 status p rest)
  then show ?case by (simp add: settles_bind settles_child)
qed (simp add: settles_def)

lemma settles_fd: "settles (fd_destroy fd)"
  by (simp add: settles_def fd_destroy_eval Let_def)

lemma settles_natrule: "settles (natrule_destroy k ipt args)"
  by (auto simp: settles_def natrule_destroy_def catchS_def split: option.splits outcome.splits if_splits)

lemma leaves_settled: "quiet m \<Longrightarrow> settles m \<Longrightarrow> leaves_with (\<lambda>_. {[]}) {} m"
  unfolding leaves_with_def settles_def using quiet_commands by (intro allI impI conjI) force+

lemma leaves_nat_destroy: "leaves_with (\<lambda>_. {deleted ipt n}) {} (nat_destroy k ipt n)"
  unfolding leaves_with_def
proof (intro allI impI conjI)
  fix w r w' u assume "nat_destroy k ipt n w = Some (r, w')" "r = Returned u"
  then show "\<exists>cs \<in> {deleted ipt n}. commands_run w' = commands_run w @ cs"
    using nat_destroy_leaves(2) [of k ipt n w r w' "Returned ()"] by (simp add: deleted_def)
next
  fix w r w' e assume run: "nat_destroy k ipt n w = Some (r, w')" "r = Thrown e" "caught e"
  have "settles (nat_destroy k ipt n)"
    unfolding nat_destroy_def by (intro settles_bind settles_natrule)
  with run show "\<exists>cs \<in> {}. commands_run w' = commands_run w @ cs" by (auto simp: settles_def)
qed

lemma leaves_mono: "leaves_with S T m \<Longrightarrow> (\<And>x. S x \<subseteq> S' x) \<Longrightarrow> T \<subseteq> T' \<Longrightarrow> leaves_with S' T' m"
  unfolding leaves_with_def by blast

lemma leaves_after_settled:
  "quiet m \<Longrightarrow> settles m \<Longrightarrow> leaves_with S T n \<Longrightarrow> leaves_with S T (bindS m (\<lambda>_. n))"
  by (rule leaves_bind [OF leaves_settled]) simp_all

lemma settles_members: "settles (pipe_destroy p)" "settles (dns_proxy_destroy d)"
  unfolding pipe_destroy_def dns_proxy_destroy_def by (intro settles_bind settles_fd)+

lemma leaves_destroy:
  "leaves_with (\<lambda>_. {deleted (pf_IPTABLES pf) (ps_nat_rule sh)}) {} (packet_shell_destroy k pf sh)"
proof -
  have "leaves_with (\<lambda>_. {[]}) {} (bindS (dns_proxy_destroy d) (\<lambda>_. fd_destroy fd))" for d fd
    by (intro leaves_settled quiet_members calls_bind settles_bind settles_fd settles_members)
  then show ?thesis
    unfolding packet_shell_destroy_def
    by (intro leaves_after_settled [OF quiet_members(1) settles_children]
        leaves_after_settled [OF quiet_members(2) settles_members(1)] leaves_bind [OF leaves_nat_destroy])
      (auto intro: leaves_mono)
qed

section \<open>The whole run\<close>

lemma leaves_PacketShell:
  "leaves_with (\<lambda>sh. {cs. rules_of (ps_nat_rule sh) \<and> cs = added (pf_IPTABLES pf) (ps_nat_rule sh)})
     (insert [] (failed_rules (pf_IPTABLES pf) \<union> undone_rules (pf_IPTABLES pf)))
     (PacketShell k pf device_prefix env)" (is "leaves_with ?S ?T _")
proof -
  let ?ipt = "pf_IPTABLES pf"
  have inner: "leaves_with (\<lambda>sh. {b. a @ b \<in> ?S sh}) {b. a @ b \<in> ?T}
      (after by_exception (nat_destroy k ?ipt n) (m n))"
    if "quiet (m n)" "\<And>sh w w'. m n w = Some (Returned sh, w') \<Longrightarrow> ps_nat_rule sh = n"
      "a \<in> {cs. rules_of n \<and> cs = added ?ipt n}" for m :: "_ \<Rightarrow> ('a, packet_shell) sys" and n a
  proof (rule leaves_unwound [OF _ leaves_mono [OF leaves_nat_destroy]])
    show "leaves_with (\<lambda>sh. {b. a @ b \<in> ?S sh}) {aa. \<forall>b \<in> {deleted ?ipt n}. aa @ b \<in> {b. a @ b \<in> ?T}} (m n)"
      using that by (intro leaves_quiet) (auto simp: undone_rulesI)
  qed simp_all
  have nat: "leaves_with ?S ?T (unwinding (NAT k ?ipt addr) (nat_destroy k ?ipt) m)"
    if "\<And>n. quiet (m n)" "\<And>n sh w w'. m n w = Some (Returned sh, w') \<Longrightarrow> ps_nat_rule sh = n"
    for m :: "_ \<Rightarrow> ('a, packet_shell) sys" and addr
    unfolding unwinding_def by (rule leaves_bind [OF leaves_NAT _ inner]) (use that in auto)
  show ?thesis
    unfolding PacketShell_def
    by (intro leaves_after_quiet [OF quiet_egress_ingress] leaves_prod leaves_after_quiet [OF calls_lift]
        leaves_after_quiet [OF calls_get] insertI1
        leaves_unwinding_quiet [OF calls_TunDevice [OF quiet_allowed] quiet_members(4)]
        leaves_unwinding_quiet [OF calls_dns_proxy(2) [OF quiet_allowed] quiet_members(3)] nat)
      (auto simp: unwinding_Returned_iff bindS_Returned_iff split: if_splits
        intro!: calls_intro quiet_allowed quiet_members(1-4))
qed

lemma leaves_holding:
  assumes "quiet (m sh)" "\<And>x w w'. m sh w = Some (Returned x, w') \<Longrightarrow> P x"
  shows "leaves_with (\<lambda>x. {cs. cs = [] \<and> P x}) {deleted (pf_IPTABLES pf) (ps_nat_rule sh)} (holding k pf m sh)"
proof -
  have "leaves_with (\<lambda>x. {cs. cs = [] \<and> P x})
      {a. \<forall>b \<in> {deleted (pf_IPTABLES pf) (ps_nat_rule sh)}. a @ b \<in> {deleted (pf_IPTABLES pf) (ps_nat_rule sh)}} (m sh)"
    using assms by (intro leaves_quiet) auto
  then show ?thesis
    unfolding holding_def unwinding_def bindS_simps
    by (rule leaves_unwound [OF _ leaves_mono [OF leaves_destroy]]) simp_all
qed

lemma leaves_held:
  assumes "quiet (m sh)" "\<And>x w w'. m sh w = Some (Returned x, w') \<Longrightarrow> P x"
    and "\<And>x. P x \<Longrightarrow> leaves_with (\<lambda>_. {deleted (pf_IPTABLES pf) (ps_nat_rule sh)})
      {deleted (pf_IPTABLES pf) (ps_nat_rule sh)} (f x)"
  shows "leaves_with (\<lambda>_. {deleted (pf_IPTABLES pf) (ps_nat_rule sh)}) {deleted (pf_IPTABLES pf) (ps_nat_rule sh)}
    (bindS (holding k pf m sh) f)"
  by (rule leaves_bind [OF leaves_holding [where P = P and m = m and sh = sh, OF assms(1,2)]]) (use assms(3) in auto)

lemma leaves_run_shell:
  "leaves_with (\<lambda>_. undone_rules (pf_IPTABLES pf)) (insert [] (failed_rules (pf_IPTABLES pf) \<union> undone_rules (pf_IPTABLES pf)))
    (run_shell k pf name c env)"
proof -
  let ?ipt = "pf_IPTABLES pf" and ?so = "sc_options c"
  have last: "leaves_with (\<lambda>_. {deleted ?ipt (ps_nat_rule sh)}) {deleted ?ipt (ps_nat_rule sh)}
      (bindS (packet_shell_destroy k pf sh) (\<lambda>_. returnS status))" for sh and status :: i32
    by (rule leaves_bind [OF leaves_destroy]) (auto intro: leaves_quiet calls_return)
  let ?down = "\<lambda>sh. bindS (holding k pf (\<lambda>sh.
      bindS (liftS (get_packet_queue (so_downlink_queue_type ?so) (so_downlink_queue_args ?so) name)) (\<lambda>_.
        start_downlink k pf (downlink_queue name c) sh)) sh) (\<lambda>sh.
    bindS (holding k pf (wait_for_exit k pf) sh) (\<lambda>(status, sh).
    bindS (packet_shell_destroy k pf sh) (\<lambda>_. returnS status)))"
  have wait: "leaves_with (\<lambda>_. {deleted ?ipt (ps_nat_rule sh)}) {deleted ?ipt (ps_nat_rule sh)}
      (bindS (holding k pf (wait_for_exit k pf) sh) (\<lambda>(status, sh).
        bindS (packet_shell_destroy k pf sh) (\<lambda>_. returnS status)))" for sh
  proof (rule leaves_held [where P = "\<lambda>(status, x). ps_nat_rule x = ps_nat_rule sh", OF quiet_members(5)])
    fix x w w' assume "wait_for_exit k pf sh w = Some (Returned x, w')"
    then show "case x of (status, x) \<Rightarrow> ps_nat_rule x = ps_nat_rule sh"
      by (cases x) (auto dest: wait_for_exit_Returned)
  next
    fix x :: "i32 \<times> packet_shell" assume "case x of (status, x) \<Rightarrow> ps_nat_rule x = ps_nat_rule sh"
    then show "leaves_with (\<lambda>_. {deleted ?ipt (ps_nat_rule sh)}) {deleted ?ipt (ps_nat_rule sh)}
        (case x of (status, sh) \<Rightarrow> bindS (packet_shell_destroy k pf sh) (\<lambda>_. returnS status))"
      using last [of "snd x" "fst x"] by (simp split: prod.splits)
  qed
  have down: "leaves_with (\<lambda>_. {deleted ?ipt (ps_nat_rule sh)}) {deleted ?ipt (ps_nat_rule sh)} (?down sh)" for sh
  proof (rule leaves_held [where P = "\<lambda>x. ps_nat_rule x = ps_nat_rule sh"])
    fix x :: packet_shell assume "ps_nat_rule x = ps_nat_rule sh"
    with wait [of x] show "leaves_with (\<lambda>_. {deleted ?ipt (ps_nat_rule sh)}) {deleted ?ipt (ps_nat_rule sh)}
        (bindS (holding k pf (wait_for_exit k pf) x) (\<lambda>(status, sh).
          bindS (packet_shell_destroy k pf sh) (\<lambda>_. returnS status)))" by simp
  qed (auto simp: bindS_Returned_iff dest: start_keeps_rules intro!: calls_intro quiet_downlink)
  have up: "leaves_with (\<lambda>_. {deleted ?ipt (ps_nat_rule sh)}) {deleted ?ipt (ps_nat_rule sh)}
      (bindS (holding k pf (\<lambda>sh.
        bindS (liftS (get_packet_queue (so_uplink_queue_type ?so) (so_uplink_queue_args ?so) name)) (\<lambda>_.
          start_uplink k pf ''[cell-link] '' (sc_command c) (uplink_queue name c) sh)) sh) ?down)" for sh
  proof (rule leaves_held [where P = "\<lambda>x. ps_nat_rule x = ps_nat_rule sh"])
    fix x :: packet_shell assume "ps_nat_rule x = ps_nat_rule sh"
    with down [of x] show "leaves_with (\<lambda>_. {deleted ?ipt (ps_nat_rule sh)}) {deleted ?ipt (ps_nat_rule sh)}
        (?down x)" by simp
  qed (auto simp: bindS_Returned_iff dest: start_keeps_rules intro!: calls_intro quiet_uplink)
  show ?thesis
    unfolding run_shell_def Let_def
    by (rule leaves_bind [OF leaves_PacketShell]) (auto intro!: leaves_mono [OF up] undone_rulesI)
qed

text \<open>
  C5. A run leaves no rules behind. Whenever \<open>main\<close> of \<open>cellularshell\<close> returns, after whatever exception it has
  caught, the commands run are: none; or both rules of address translation added and both deleted
  again, the last one first, by the arguments they were added with; or, with status 1, the first rule
  alone, which \<open>iptables\<close> refused, or the first deleted again because the second was refused.
\<close>

theorem shell_rules_removed:
  assumes "shell_main k pf argv w = Some (Returned status, w')"
  shows "\<exists>cs. commands_run w' = commands_run w @ cs \<and>
    (cs \<in> undone_rules (pf_IPTABLES pf) \<or> status = 1 \<and> (cs = [] \<or> cs \<in> failed_rules (pf_IPTABLES pf)))"
proof -
  let ?ipt = "pf_IPTABLES pf" and ?w = "w\<lparr>sy_environ := None\<rparr>"
  let ?S = "undone_rules ?ipt" and ?T = "insert [] (failed_rules ?ipt \<union> undone_rules ?ipt)"
  let ?checks = "\<lambda>w. liftS (check_requirements (int (length argv)) (hd argv) k (sy_ids w) (sy_environ w \<noteq> None)
                (pf_dev_null pf) (pf_ip_forward pf) (sy_world w)) w"
  let ?rest = "bindS ?checks (\<lambda>_.
       bindS (liftS (main_config argv (fst (pf_getopt pf)) (snd (pf_getopt pf)) (pf_pw_shell pf))) (\<lambda>c.
         run_shell k pf (hd argv) c (sy_environ w)))"
  have "quiet ?checks" by (rule callsI) (simp add: liftS_outcome)
  then have "leaves_with (\<lambda>_. ?S) ?T ?rest"
    by (intro leaves_after_quiet [where m = ?checks] leaves_after_quiet [OF calls_lift] leaves_run_shell) simp_all
  moreover from assms have "?rest ?w = Some (Returned status, w') \<or>
      status = 1 \<and> (\<exists>e. caught e \<and> ?rest ?w = Some (Thrown e, w'))"
    by (auto simp: shell_main_def catchS_def set_environ_def bindS_def [of "set_environ None"]
        split: option.splits outcome.splits if_splits)
  ultimately have "\<exists>cs. commands_run w' = commands_run ?w @ cs \<and> (cs \<in> ?S \<or> status = 1 \<and> cs \<in> ?T)"
    by (blast dest: leaves_withD)
  then show ?thesis by (auto simp: commands_run_def)
qed

end
