(* ===== verification/Shell_Run.thy ===== *)
theory Shell_Run
  imports Main Prelude Kernel Util System_Runner Child_Process Event_Loop Cellular_State Addresses Interfaces
    Syscalls Sockets Net_Setup Dns_Proxy Privileges Packet_Shell Cellular_Shell Shell_Main Shell_Rules
begin

text \<open>
  One run of the whole program, evaluated: setuid root and started by user 7 with an empty environment,
  it builds the outer network, forks the process of the uplink (which is the one followed), starts
  dnsmasq, drops its privileges, forks the user's program (followed again) and ends where \<open>execve\<close>
  replaces it.
\<close>

section \<open>The machine\<close>

definition sample_name :: string where "sample_name = take 16 (ad_raw (in_address 53 [100, 64, 0, 1]))"

definition sample_out :: "sys_call \<Rightarrow> sys_answer \<Rightarrow> sys_answer" where
  \<comment> \<open>a bound socket's name\<close>
  "sample_out call a =
     (case call of
        Call_Getsockname n \<Rightarrow> a\<lparr>sa_addr := sample_name\<rparr>
      | _ \<Rightarrow> a)"

definition sample_answer :: "nat \<Rightarrow> sys_call \<Rightarrow> sys_answer" where
  "sample_answer n call = sample_out call
     \<lparr>sa_ret = obliging_ret call, sa_data = [], sa_addr = [], sa_pair = (9, 10), sa_control = None,
      sa_truncated = False\<rparr>"

definition sample_resolver :: resolver where
  "sample_resolver node service num =
     numeric_resolver (if node = ''0'' then ''0.0.0.0'' else node)
       (if service = ''domain'' then ''53'' else service) True"

definition sample_platform :: platform where
  "sample_platform = \<lparr>pf_gai = sample_resolver, pf_getifaddrs = (0, []), pf_route_file = (8, 0),
     pf_res_init = 0, pf_nsaddr_list = [ad_raw (in_address 53 [10, 0, 0, 1])],
     pf_sigprocmask = (\<lambda>_. 0), pf_mask = (0, EventLoop_signals), pf_signalfd = (11, 0),
     pf_poll = [], pf_IPTABLES = ''iptables'', pf_DNSMASQ = ''dnsmasq'',
     pf_dev_null = (5, 0), pf_ip_forward = (6, 0), pf_getopt = ([], 1), pf_pw_shell = None\<rparr>"

definition sample_machine :: world where
  "sample_machine = idle_world\<lparr>w_read := (\<lambda>fd n. if fd = 6 then (2, [CHR ''1'', CHR 0x0A]) else (0, []))\<rparr>"

text \<open>The two processes followed are the children of the forks after 33 and after 72 calls.\<close>

definition sample_fork :: "nat \<Rightarrow> fork_answer" where
  "sample_fork n = (if n = 33 \<or> n = 72 then obliging_fork\<lparr>fa_clone := 0\<rparr> else obliging_fork)"

definition sample_start :: "(nat \<Rightarrow> fork_answer) \<Rightarrow> credentials sys_world" where
  "sample_start F = (obliging sample_out setuid_root sample_machine)\<lparr>sy_environ := Some Map.empty, sy_fork := F\<rparr>"

text \<open>A machine that refuses the process of the uplink.\<close>

definition refused_fork :: "nat \<Rightarrow> fork_answer" where
  "refused_fork n = (if n = 33 then obliging_fork\<lparr>fa_clone := -1\<rparr> else obliging_fork)"

definition sample_argv :: "string list" where
  "sample_argv = [''cellularshell'', ''6'', ''up.train'', ''down.train'', ''up.pdo'', ''down.pdo'', ''ls'']"

definition fd_at :: "int \<Rightarrow> file_descriptor" where
  "fd_at n = \<lparr>fd_num = n, fd_eof = False, fd_read_count = 0, fd_write_count = 0\<rparr>"

text \<open>A world in which \<open>n\<close> calls have been made.\<close>

definition stage :: "(nat \<Rightarrow> fork_answer) \<Rightarrow> nat \<Rightarrow> credentials \<Rightarrow> environment option \<Rightarrow> credentials sys_world \<Rightarrow> bool" where
  "stage F n c env w \<longleftrightarrow>
     length (sy_trace w) = n \<and> sy_ids w = c \<and> sy_environ w = env \<and> sy_pid w = 42 \<and>
     sy_answer w = sample_answer \<and> sy_fork w = F \<and> sy_procs w = fa_procs obliging_fork \<and>
     w_clock (sy_world w) = (\<lambda>n. (0, 0, 0)) \<and> w_write (sy_world w) = (\<lambda>n c. int c) \<and>
     w_read (sy_world w) = w_read sample_machine"

section \<open>Evaluation\<close>

text \<open>Only what runs next is evaluated, never the body of a continuation.\<close>

definition bind_case :: "('a outcome \<times> 'k sys_world) option \<Rightarrow> ('a \<Rightarrow> ('k, 'b) sys) \<Rightarrow>
    ('b outcome \<times> 'k sys_world) option" where
  "bind_case y f = bindS (\<lambda>w. y) f undefined"

lemma bindS_case: "bindS m f w = bind_case (m w) f"
  by (simp add: bindS_def bind_case_def split: option.splits outcome.splits)

lemma bind_case_eval:
  "bind_case (Some (Returned x, w)) f = f x w" "bind_case (Some (Thrown e, w)) f = Some (Thrown e, w)"
  "bind_case (Some (Exited n, w)) f = Some (Exited n, w)"
  "bind_case (Some (Replaced ex, w)) f = Some (Replaced ex, w)"
  by (simp_all add: bind_case_def bindS_def)

lemma lazy_cong:
  "y = y' \<Longrightarrow> bind_case y f = bind_case y' f" "bindS m f = bindS m f" "scoped m d f = scoped m d f"
  "unwinding m d f = unwinding m d f" "catchS m h = catchS m h"
  by simp_all

lemma call_answered:
  "sy_answer w = sample_answer \<Longrightarrow> sys_ret call w =
    (let a = sample_answer 0 call in Some (Returned a, logged call (sa_ret a) w))"
  "sy_answer w = sample_answer \<Longrightarrow> sys attempt call w =
    (let a = sample_answer 0 call
     in Some (if sa_ret a < 0 then Thrown (Unix_Error attempt) else Returned a, logged call (sa_ret a) w))"
  by (simp_all add: sys_ret_def sys_eval_call Let_def sample_answer_def)

lemma catch_case: "catchS m h w = (case m w of
    Some (Thrown e, w') \<Rightarrow> if caught e then h e w' else Some (Thrown e, w') | x \<Rightarrow> x)"
  by (simp add: catchS_def)

lemma after_case: "after leaves d m w = (case m w of None \<Rightarrow> None
    | Some (r, w) \<Rightarrow> if leaves r then map_option (\<lambda>(x, w). (destroyed r x, w)) (d w) else Some (r, w))"
  by (simp add: after_def)

lemma sy_procs_logged: "sy_procs (logged call ret w) = sy_procs w"
  by (simp add: logged_def)

lemmas run = bindS_case bind_case_eval unwinding_def scoped_def call_answered sample_answer_def sample_out_def
  Let_def after_case catch_case new_fd_def FileDescriptor_def SystemCall_def sys_noexcept_def fd_destroy_def
  stage_def fd_at_def sy_procs_logged


section \<open>Values\<close>

definition sample_egress :: address where "sample_egress = in_address 0 [100, 64, 0, 1]"
definition sample_ingress :: address where "sample_ingress = in_address 0 [100, 64, 0, 2]"
definition sample_nameserver :: address where "sample_nameserver = in_address 53 [10, 0, 0, 1]"
definition sample_any :: address where "sample_any = in_address 0 [0, 0, 0, 0]"

definition sample_listener :: address where "sample_listener = in_address 53 [100, 64, 0, 1]"

lemma sample_resolved:
  "Address_default sample_resolver = Inr sample_any"
  "Address_numeric sample_resolver ''255.255.255.255'' 0 = Inr (in_address 0 [255, 255, 255, 255])"
  "first_nameserver (pf_res_init sample_platform) (pf_nsaddr_list sample_platform) = Inr sample_nameserver"
  "Address_sockaddr sample_name (length sample_name) = Inr sample_listener"
  "ad_eq sample_listener sample_any = False"
  "ad_ip sample_ingress = Inr ''100.64.0.2''"
  "ad_ip sample_egress = Inr ''100.64.0.1''"
  "two_unassigned_from sample_resolver [] sample_any = Inr (sample_egress, sample_ingress)"
  by code_simp+

definition sample_server :: address where "sample_server = in_address 53 [0, 0, 0, 0]"

lemma sample_printed:
  "ad_str ''#'' sample_listener = Inr ''100.64.0.1#53''"
  "ad_str '':'' sample_egress = Inr ''100.64.0.1:0''"
  "ad_str '':'' sample_ingress = Inr ''100.64.0.2:0''"
  "Address_name sample_resolver ''0'' ''domain'' = Inr sample_server"
  by code_simp+

lemma sample_platform_fields [simp]:
  "pf_gai sample_platform = sample_resolver" "pf_getifaddrs sample_platform = (0, [])"
  "pf_route_file sample_platform = (8, 0)" "pf_sigprocmask sample_platform = (\<lambda>_. 0)"
  "pf_IPTABLES sample_platform = ''iptables''" "pf_DNSMASQ sample_platform = ''dnsmasq''"
  "pf_dev_null sample_platform = (5, 0)" "pf_ip_forward sample_platform = (6, 0)"
  "pf_getopt sample_platform = ([], 1)" "pf_pw_shell sample_platform = None"
  by (simp_all add: sample_platform_def)

lemma sample_configured: "\<exists>cfg. main_config sample_argv [] (Suc 0) None = Inr cfg \<and>
    sc_command cfg = [''ls''] \<and> sc_options cfg = default_options"
proof -
  have "case main_config sample_argv [] (Suc 0) None of Inl e \<Rightarrow> False
    | Inr cfg \<Rightarrow> sc_command cfg = [''ls''] \<and> sc_options cfg = default_options"
    by code_simp
  then show ?thesis by (auto split: sum.splits)
qed

section \<open>The outer network\<close>

lemmas lazily [cong] = lazy_cong

lemma device_opens:
  "stage F n c env w \<Longrightarrow> \<exists>w'. TunDevice sample_resolver name a b w = Some (Returned (fd_at 7), w') \<and>
    stage F (n + 19) c env w'"
  by (simp add: TunDevice_def run interface_ioctl_fd_def interface_ioctl_def assign_address_def
      UDPSocket_def Socket_def sample_resolved)

lemma base_found:
  "stage F n setuid_root None w \<Longrightarrow>
    \<exists>w'. get_mahimahi_base linux_ids sample_resolver (Some Map.empty) w = Some (Returned sample_any, w') \<and>
      stage F n setuid_root None w'"
  by (simp add: get_mahimahi_base_def run sys_TemporarilyUnprivileged_def id_step_def setuid_root_def
      ids_assert_not_root_def sys_tu_destroy_def TemporaryEnvironment_def set_environ_def te_destroy_def
      sys_getenv_def sample_resolved)

lemma addresses_chosen:
  assumes "stage F n setuid_root None w"
  shows "\<exists>w'. egress_ingress linux_ids sample_platform (Some Map.empty) w =
      Some (Returned (sample_egress, sample_ingress), w') \<and> stage F n setuid_root None w'"
proof -
  from base_found [OF assms] obtain w1 where w1: "get_mahimahi_base linux_ids sample_resolver (Some Map.empty) w =
      Some (Returned sample_any, w1)" "stage F n setuid_root None w1" by blast
  have "fd_read BUFFER_SIZE fd (sy_world w1) =
      Inr ([], register_read (fd\<lparr>fd_eof := True\<rparr>), (sy_world w1)\<lparr>w_read_calls := Suc (w_read_calls (sy_world w1)),
        w_received := w_received (sy_world w1) @ [(8, [])]\<rparr>)" if "fd_num fd = 8" for fd
    using w1(2) that by (simp add: fd_read_def stage_def sample_machine_def SystemCall_def Let_def)
  then have "Interfaces (0, []) (8, 0) (sy_world w1) = Some (Inr ([], (sy_world w1)\<lparr>w_read_calls := Suc (w_read_calls (sy_world w1)),
        w_received := w_received (sy_world w1) @ [(8, [])]\<rparr>))"
    by (simp add: Interfaces_def SystemCall_def FileDescriptor_def read_all.simps read_routes_def)
  with w1 show ?thesis
    by (simp add: egress_ingress_def run on_world_def two_unassigned_addresses_def sample_resolved)
qed

lemma proxy_built:
  "stage F n c env w \<Longrightarrow> \<exists>w' p. DNSProxy sample_resolver a u t w = Some (Returned p, w') \<and>
    dx_udp_listener p = fd_at 5 \<and> dx_tcp_listener p = fd_at 5 \<and> stage F (n + 9) c env w'"
  by (simp add: DNSProxy_def DNSProxy_sockets_def make_bound_socket_def run local_address_def get_address_def
      UDPSocket_def TCPSocket_def Socket_def sample_resolved socket_bind_def tcp_listen_def)

lemma command_runs:
  assumes "stage F n c env w" "cmd \<noteq> []" "F n = obliging_fork"
  shows "\<exists>w'. sys_run linux_ids cmd w = Some (Returned (), w') \<and> stage F (Suc n) c env w'"
  using assms by (simp add: sys_run_obliging stage_def sy_procs_logged)

lemma rule_added:
  assumes "stage F n c env w" "F n = obliging_fork"
  shows "\<exists>w'. NATRule linux_ids ipt args w = Some (Returned args, w') \<and> stage F (Suc n) c env w'"
proof -
  from command_runs [OF assms(1) _ assms(2)] obtain w' where
    "sys_run linux_ids ([ipt, ''-w'', ''-t'', ''nat'', ''-A''] @ args) w = Some (Returned (), w')"
    "stage F (Suc n) c env w'" by blast
  then show ?thesis by (simp add: NATRule_def bindS_def)
qed

lemma translation_set_up:
  assumes "stage F 28 c env w" "\<And>n. n < 30 \<Longrightarrow> F n = obliging_fork"
  shows "\<exists>w' r. NAT linux_ids ''iptables'' sample_ingress w = Some (Returned r, w') \<and> stage F 30 c env w'"
proof -
  let ?pre = "[''PREROUTING'', ''-s'', ''100.64.0.2'', ''-j'', ''CONNMARK'', ''--set-mark'', dec 42]"
  let ?post = "[''POSTROUTING'', ''-j'', ''MASQUERADE'', ''-m'', ''connmark'', ''--mark'', dec 42]"
  from assms(2) have fork: "F 28 = obliging_fork" "F (Suc 28) = obliging_fork" by simp_all
  from rule_added [OF assms(1) fork(1)] obtain w1 where w1: "NATRule linux_ids ''iptables'' ?pre w = Some (Returned ?pre, w1)"
    "stage F (Suc 28) c env w1" by blast
  from rule_added [OF w1(2) fork(2)] obtain w2 where w2: "NATRule linux_ids ''iptables'' ?post w1 = Some (Returned ?post, w2)"
    "stage F 30 c env w2" by (auto simp: eval_nat_numeral)
  from assms(1) have "sy_pid w = 42" by (simp add: stage_def)
  with w1(1) w2 show ?thesis
    by (simp add: NAT_def bindS_case bind_case_eval unwinding_def after_case sample_resolved del: append_Cons)
qed

lemma pair_made:
  "stage F n c env w \<Longrightarrow> \<exists>w'. unix_make_pair w = Some (Returned (fd_at 9, fd_at 10), w') \<and>
    stage F (n + 3) c env w'"
  by (simp add: unix_make_pair_def run)

lemma loop_made:
  assumes "stage F n c env w"
  shows "\<exists>signals. sys_EventLoop sample_platform w = Some (Returned signals, w)"
proof -
  have "\<not> isl (EventLoop 0)" by code_simp
  then obtain r where "EventLoop 0 = Inr r" by (cases "EventLoop 0") auto
  then show ?thesis by (simp add: sys_EventLoop_def run split: prod.split)
qed

lemma clock_read:
  assumes "stage F n c env w"
  shows "\<exists>w' x. on_world (\<lambda>w. Some (initial_timestamp w)) w = Some (Returned x, w') \<and> stage F n c env w'"
  using assms by (auto simp: on_world_def initial_timestamp_def raw_timestamp_def stage_def SystemCall_def Let_def
      split: option.splits)

lemma shell_built:
  assumes "stage F 0 setuid_root None w" "\<And>n. n < 30 \<Longrightarrow> F n = obliging_fork"
  shows "\<exists>w' sh. PacketShell linux_ids sample_platform ''cell-link'' (Some Map.empty) w = Some (Returned sh, w') \<and>
    ps_user_environment sh = Some Map.empty \<and> ps_egress_ingress sh = (sample_egress, sample_ingress) \<and>
    dx_udp_listener (ps_dns_outside sh) = fd_at 5 \<and> stage F 33 setuid_root None w'"
proof -
  from addresses_chosen [OF assms(1)] obtain w1 where w1: "egress_ingress linux_ids sample_platform (Some Map.empty) w =
      Some (Returned (sample_egress, sample_ingress), w1)" "stage F 0 setuid_root None w1" by blast
  from device_opens [OF w1(2), of "device_name ''cell-link'' 42" sample_egress sample_ingress] obtain w2 where w2: "TunDevice sample_resolver (device_name ''cell-link'' 42)
      sample_egress sample_ingress w1 = Some (Returned (fd_at 7), w2)" "stage F 19 setuid_root None w2" by auto
  from proxy_built [OF w2(2), of sample_egress sample_nameserver sample_nameserver] obtain w3 p where w3: "DNSProxy sample_resolver sample_egress sample_nameserver
      sample_nameserver w2 = Some (Returned p, w3)" "dx_udp_listener p = fd_at 5" "stage F 28 setuid_root None w3"
    by auto
  from translation_set_up [OF w3(3) assms(2)] obtain w4 r where w4: "NAT linux_ids ''iptables'' sample_ingress w3 =
      Some (Returned r, w4)" "stage F 30 setuid_root None w4" by blast
  from pair_made [OF w4(2)] obtain w5 where w5: "unix_make_pair w4 = Some (Returned (fd_at 9, fd_at 10), w5)"
    "stage F 33 setuid_root None w5" by auto
  from loop_made [OF w5(2)] obtain signals where el: "sys_EventLoop sample_platform w5 = Some (Returned signals, w5)"
    by blast
  from clock_read [OF w5(2)] obtain w6 x where w6: "on_world (\<lambda>w. Some (initial_timestamp w)) w5 = Some (Returned x, w6)"
    "stage F 33 setuid_root None w6" by blast
  from w1(2) w5(2) have fields: "sy_pid w1 = 42" "sy_environ w5 = None" by (simp_all add: stage_def)
  show ?thesis
    using w6(2) w3(2)
    by (simp add: PacketShell_def bindS_case bind_case_eval unwinding_def after_case w1(1) w2(1) w3(1) w4(1) w5(1)
        el w6(1) fields sample_resolved)
qed

section \<open>The inner network\<close>

lemma interface_set:
  "stage F n c env w \<Longrightarrow> \<exists>w'. interface_ioctl request name (Inr d) w = Some (Returned (), w') \<and> stage F (n + 4) c env w'"
  by (simp add: interface_ioctl_def interface_ioctl_fd_def UDPSocket_def Socket_def run)

lemma route_set:
  "stage F n c env w \<Longrightarrow> ps_egress_ingress sh = (sample_egress, sample_ingress) \<Longrightarrow>
    \<exists>w'. default_route sample_platform sh w = Some (Returned (), w') \<and> stage F (n + 4) c env w'"
  by (simp add: default_route_def UDPSocket_def Socket_def run sample_resolved sample_printed ingress_addr_def egress_addr_def)

lemma dnsmasq_waited:
  assumes "stage F n c env w"
  shows "\<exists>w'. dnsmasq_wait 0 fd w = Some (Returned (), w') \<and> stage F n c env w'"
  using assms
  by (simp add: dnsmasq_wait.simps [of 0] run sys_write.simps fd_write_some_def word_le_nat_alt)

lemma forked_parent:
  assumes "stage F n c env w" "F n = obliging_fork"
  shows "\<exists>p w'. sys_fork name procedure ns sig w = Some (Returned p, w') \<and> stage F (Suc n) c env w'"
  using assms by (simp add: sys_fork_def stage_def Let_def do_clone_def obliging_fork_def sy_procs_logged)

definition started :: "executed \<Rightarrow> credentials sys_world \<Rightarrow> bool" where
  "started ex w \<longleftrightarrow> Call_Exec ex \<in> fst ` set (sy_trace w)"

lemma forked_child:
  assumes "stage F n c env w" "F n = obliging_fork\<lparr>fa_clone := 0\<rparr>"
    and "\<And>w. stage F (Suc n) c env w \<Longrightarrow> \<exists>w'. procedure w = Some (Replaced ex, w') \<and> started ex w'"
  shows "\<exists>w'. sys_fork name procedure ns sig w = Some (Replaced ex, w') \<and> started ex w'"
proof -
  let ?w = "logged (Call_Clone name ns) 0 w"
  have "stage F (Suc n) c env ?w" using assms(1) by (simp add: stage_def sy_procs_logged)
  from assms(3) [OF this] obtain w' where "procedure ?w = Some (Replaced ex, w')" "started ex w'" by blast
  with assms(1,2) show ?thesis
    by (simp add: sys_fork_def stage_def Let_def do_clone_def obliging_fork_def SystemCall_def child_end_def
        bindS_case bind_case_eval)
qed

lemma nameserver_started:
  assumes "stage F 65 c env w" "dx_udp_listener (ps_dns_outside sh) = fd_at 5" "F 66 = obliging_fork"
  shows "\<exists>w' cs. uplink_nameserver linux_ids sample_platform sh w = Some (Returned cs, w') \<and> stage F 71 c env w'"
proof -
  from assms(1) obtain w1 where w1: "local_address (fd_at 5) w = Some (Returned sample_listener, w1)" "stage F 66 c env w1"
    by (simp add: local_address_def get_address_def run sample_resolved)
  let ?args = "[''dnsmasq'', ''--keep-in-foreground'', ''--no-resolv'', ''--no-hosts'', ''-C'', ''/dev/null'',
      ''-S'', ''100.64.0.1#53'']"
  from forked_parent [OF w1(2) assms(3)] obtain p w2 where w2: "sys_fork ''dnsmasq'' (sys_ezexec linux_ids ?args False) False SIGTERM w1 =
      Some (Returned p, w2)" "stage F 67 c env w2" by (simp add: eval_nat_numeral) blast
  from w2(2) obtain w3 where w3: "UDPSocket w2 = Some (Returned (fd_at 5), w3)" "stage F 69 c env w3"
    by (simp add: UDPSocket_def Socket_def run)
  from w3(2) obtain w4 where w4: "socket_connect sample_server (fd_at 5) w3 = Some (Returned (), w4)" "stage F 70 c env w4"
    by (simp add: socket_connect_def run)
  from dnsmasq_waited [OF w4(2)] obtain w5 where w5: "dnsmasq_wait 0 (fd_at 5) w4 = Some (Returned (), w5)" "stage F 70 c env w5"
    by blast
  from w5(2) obtain w6 where w6: "fd_destroy (fd_at 5) w5 = Some (Returned (), w6)" "stage F 71 c env w6"
    by (simp add: run)
  show ?thesis
    using w6(2)
    by (simp add: uplink_nameserver_def start_dnsmasq_def start_dnsmasq_args_def bindS_case bind_case_eval
        unwinding_def scoped_def after_case assms(2) w1(1) w2(1) w3(1) w4(1) w5(1) w6(1) sample_printed)
qed

section \<open>The user's program\<close>

definition dropped_ids :: credentials where
  "dropped_ids = setuid_root\<lparr>cr_euid := 7, cr_suid := 7\<rparr>"

definition sample_environ :: "environment option" where
  "sample_environ = user_program_environment (Some Map.empty) ''100.64.0.1'' ''[cell-link] ''"

definition sample_program :: executed where
  "sample_program = \<lparr>ex_path_search = True, ex_argv = [''ls''], ex_environ = sample_environ\<rparr>"

lemma set_variable:
  "stage F n c env w \<Longrightarrow> \<exists>w'. sys_setenv name value override w = Some (Returned (), w') \<and>
    stage F (Suc n) c (env_put name value override env) w'"
  by (simp add: sys_setenv_def run set_environ_def)

lemma command_replaces:
  assumes "stage F 73 dropped_ids (env_put ''MAHIMAHI_BASE'' ''100.64.0.1'' False (Some Map.empty)) w"
  shows "\<exists>w'. user_command linux_ids ''[cell-link] '' [''ls''] w = Some (Replaced sample_program, w') \<and> started sample_program w'"
proof -
  let ?base = "env_put ''MAHIMAHI_BASE'' ''100.64.0.1'' False (Some Map.empty)"
  from assms have none: "sys_getenv ''MAHIMAHI_SHELL_PREFIX'' w = Some (Returned None, w)"
    by (simp add: sys_getenv_def stage_def env_put_def)
  from set_variable [OF assms] obtain w1 where w1:
    "sys_setenv ''MAHIMAHI_SHELL_PREFIX'' ''[cell-link] '' True w = Some (Returned (), w1)"
    "stage F (Suc 73) dropped_ids (env_put ''MAHIMAHI_SHELL_PREFIX'' ''[cell-link] '' True ?base) w1" by blast
  from set_variable [OF w1(2)] obtain w2 where w2:
    "sys_setenv ''PROMPT_COMMAND'' prompt_command True w1 = Some (Returned (), w2)"
    "stage F (Suc (Suc 73)) dropped_ids (env_put ''PROMPT_COMMAND'' prompt_command True
      (env_put ''MAHIMAHI_SHELL_PREFIX'' ''[cell-link] '' True ?base)) w2" by blast
  have env: "env_put ''PROMPT_COMMAND'' prompt_command True
      (env_put ''MAHIMAHI_SHELL_PREFIX'' ''[cell-link] '' True ?base) = sample_environ"
    by (simp add: sample_environ_def user_program_environment_def prefixed_def) (simp add: env_put_def)
  have "sy_ids w2 = dropped_ids" "sy_environ w2 = sample_environ" "sy_answer w2 = sample_answer"
    using w2(2) env by (simp_all add: stage_def)
  then have "\<exists>w'. sys_ezexec linux_ids [''ls''] True w2 = Some (Replaced sample_program, w') \<and> started sample_program w'"
    by (simp add: sys_ezexec_def ezexec_def dropped_ids_def setuid_root_def sample_answer_def sample_out_def
        Let_def sample_program_def c_string_def started_def)
  then show ?thesis
    by (simp add: user_command_def sys_prepend_shell_prefix_def bindS_case bind_case_eval none w1(1) w2(1) Let_def)
qed

lemma dropping:
  "stage F n setuid_root None w \<Longrightarrow> \<exists>w'. sys_drop_privileges linux_ids w = Some (Returned (), w') \<and> stage F n dropped_ids None w'"
  by (simp add: sys_drop_privileges_def run id_step_def exit_if_regained_def setuid_root_def dropped_ids_def)

lemma user_starts:
  assumes "stage sample_fork 71 setuid_root None w" "ps_user_environment sh = Some Map.empty"
    "ps_egress_ingress sh = (sample_egress, sample_ingress)"
  shows "\<exists>w'. user_process linux_ids ''[cell-link] '' [''ls''] sh cs w = Some (Replaced sample_program, w') \<and> started sample_program w'"
proof -
  let ?base = "env_put ''MAHIMAHI_BASE'' ''100.64.0.1'' False (Some Map.empty)"
  from dropping [OF assms(1)] obtain w1 where w1: "sys_drop_privileges linux_ids w = Some (Returned (), w1)"
    "stage sample_fork 71 dropped_ids None w1" by blast
  from w1(2) obtain w2 where w2: "set_environ (Some Map.empty) w1 = Some (Returned (), w2)"
    "stage sample_fork 71 dropped_ids (Some Map.empty) w2" by (simp add: set_environ_def stage_def)
  from set_variable [OF w2(2)] obtain w3 where w3: "sys_setenv ''MAHIMAHI_BASE'' ''100.64.0.1'' False w2 = Some (Returned (), w3)"
    "stage sample_fork (Suc 71) dropped_ids ?base w3" by blast
  have name: "join [''ls''] = Inr ''ls''" by code_simp
  have "\<exists>w'. sys_fork ''ls'' (user_command linux_ids ''[cell-link] '' [''ls'']) False SIGHUP w3 = Some (Replaced sample_program, w') \<and> started sample_program w'"
    by (rule forked_child [OF w3(2)]) (simp_all add: sample_fork_def command_replaces)
  then show ?thesis
    by (auto simp: user_process_def bindS_case bind_case_eval assms egress_addr_def w1(1) w2(1) w3(1) name sample_resolved)
qed

lemma uplink_starts:
  assumes "stage sample_fork 34 setuid_root None w" "ps_user_environment sh = Some Map.empty"
    "ps_egress_ingress sh = (sample_egress, sample_ingress)" "dx_udp_listener (ps_dns_outside sh) = fd_at 5"
  shows "\<exists>w'. uplink_process linux_ids sample_platform set_mtu (uplink_nameserver linux_ids sample_platform sh)
    ''[cell-link] '' [''ls''] ferry_maker sh w = Some (Replaced sample_program, w') \<and> started sample_program w'"
proof -
  from device_opens [OF assms(1), of "''ingress''" sample_ingress sample_egress] obtain w1 where
    w1: "TunDevice sample_resolver ''ingress'' sample_ingress sample_egress w = Some (Returned (fd_at 7), w1)"
    "stage sample_fork 53 setuid_root None w1" by auto
  from interface_set [OF w1(2), of SIOCSIFFLAGS "''lo''" "Ifr_Flags IFF_UP"] obtain w2 where
    w2: "interface_ioctl SIOCSIFFLAGS ''lo'' (Inr (Ifr_Flags IFF_UP)) w1 = Some (Returned (), w2)"
    "stage sample_fork 57 setuid_root None w2" by auto
  from interface_set [OF w2(2), of SIOCSIFMTU "''ingress''" "Ifr_Mtu PACKET_MTU"] obtain w3 where w3: "set_mtu w2 = Some (Returned (), w3)" "stage sample_fork 61 setuid_root None w3"
    unfolding set_mtu_def by auto
  from route_set [OF w3(2) assms(3)] obtain w4 where w4: "default_route sample_platform sh w3 = Some (Returned (), w4)"
    "stage sample_fork 65 setuid_root None w4" by auto
  from loop_made [OF w4(2)] obtain signals where el: "sys_EventLoop sample_platform w4 = Some (Returned signals, w4)" by blast
  from nameserver_started [OF w4(2) assms(4)] obtain w5 cs where
    w5: "uplink_nameserver linux_ids sample_platform sh w4 = Some (Returned cs, w5)" "stage sample_fork 71 setuid_root None w5"
    by (auto simp: sample_fork_def)
  from user_starts [OF w5(2) assms(2,3)] obtain w6 where
    w6: "user_process linux_ids ''[cell-link] '' [''ls''] sh cs w5 = Some (Replaced sample_program, w6)" "started sample_program w6" by blast
  show ?thesis
    by (simp add: uplink_process_def bindS_case bind_case_eval unwinding_def scoped_def after_case
        ingress_addr_def egress_addr_def assms(3) w1(1) w2(1) w3(1) w4(1) el w5(1) w6)
qed

section \<open>The program\<close>

lemma requirements_met:
  "check_requirements 7 ''cellularshell'' linux_ids setuid_root False (5, 0) (6, 0) sample_machine = Inr ()"
  by (simp add: check_requirements_def setuid_root_def SystemCall_def FileDescriptor_def fd_read_def
      sample_machine_def Let_def BUFFER_SIZE_def)

lemma sample_argv_shape: "length sample_argv = 7" "hd sample_argv = ''cellularshell''"
  by (simp_all add: sample_argv_def)

lemma sample_start:
  "sy_environ (sample_start F) = Some Map.empty" "sy_ids (sample_start F) = setuid_root"
  "sy_world (sample_start F) = sample_machine" "sy_trace (sample_start F) = []"
  by (simp_all add: sample_start_def)

lemma sample_stage: "stage F 0 setuid_root None (sample_start F\<lparr>sy_environ := None\<rparr>)"
  by (simp add: stage_def sample_start_def obliging_def sample_answer_def sample_machine_def idle_world_def fun_eq_iff)

lemma sample_queue: "\<exists>q. get_packet_queue (so_uplink_queue_type default_options)
    (so_uplink_queue_args default_options) ''cellularshell'' = Inr q"
proof -
  have "\<not> isl (get_packet_queue (so_uplink_queue_type default_options) (so_uplink_queue_args default_options) ''cellularshell'')"
    by code_simp
  then show ?thesis
    by (cases "get_packet_queue (so_uplink_queue_type default_options) (so_uplink_queue_args default_options) ''cellularshell''")
      auto
qed

lemma sample_run:
  "\<exists>w'. shell_main linux_ids sample_platform sample_argv (sample_start sample_fork) = Some (Replaced sample_program, w') \<and>
    started sample_program w'"
proof -
  let ?w = "sample_start sample_fork\<lparr>sy_environ := None\<rparr>"
  from sample_configured obtain cfg where cfg: "main_config sample_argv [] (Suc 0) None = Inr cfg"
    "sc_command cfg = [''ls'']" "sc_options cfg = default_options" by blast
  from shell_built [OF sample_stage, of sample_fork] obtain w1 sh where
    w1: "PacketShell linux_ids sample_platform ''cell-link'' (Some Map.empty) ?w = Some (Returned sh, w1)"
    "ps_user_environment sh = Some Map.empty" "ps_egress_ingress sh = (sample_egress, sample_ingress)"
    "dx_udp_listener (ps_dns_outside sh) = fd_at 5" "stage sample_fork 33 setuid_root None w1"
    by (auto simp: sample_fork_def)
  have "\<exists>w'. sys_fork ''packetshell'' (uplink_process linux_ids sample_platform set_mtu
      (uplink_nameserver linux_ids sample_platform sh) ''[cell-link] '' [''ls''] (uplink_queue ''cellularshell'' cfg) sh)
      True SIGHUP w1 = Some (Replaced sample_program, w') \<and> started sample_program w'"
    by (rule forked_child [OF w1(5)]) (simp_all add: sample_fork_def uplink_starts w1(2-4))
  then obtain w2 where w2: "sys_fork ''packetshell'' (uplink_process linux_ids sample_platform set_mtu
      (uplink_nameserver linux_ids sample_platform sh) ''[cell-link] '' [''ls''] (uplink_queue ''cellularshell'' cfg) sh)
      True SIGHUP w1 = Some (Replaced sample_program, w2)" "started sample_program w2" by blast
  from sample_queue obtain q where queue: "get_packet_queue (so_uplink_queue_type default_options)
      (so_uplink_queue_args default_options) ''cellularshell'' = Inr q" by blast
  have "shell_main linux_ids sample_platform sample_argv (sample_start sample_fork) = Some (Replaced sample_program, w2)"
    using w2(1)
    by (simp add: shell_main_def run_shell_def holding_def start_uplink_def start_child_def bindS_case bind_case_eval
        catch_case unwinding_def after_case Let_def set_environ_def sample_start requirements_met cfg w1(1) queue sample_argv_shape)
  with w2(2) show ?thesis by blast
qed

theorem programs_started_witness:
  "\<exists>w' ret c. shell_main linux_ids sample_platform sample_argv (sample_start sample_fork) = Some (Replaced sample_program, w') \<and>
    (Call_Exec sample_program, ret, c) \<in> set (sy_trace w') \<and>
    cr_euid c = cr_ruid c \<and> cr_euid c \<noteq> 0 \<and> cr_egid c = cr_rgid c \<and> cr_egid c \<noteq> 0"
proof -
  from sample_run obtain w' where w': "shell_main linux_ids sample_platform sample_argv (sample_start sample_fork) =
      Some (Replaced sample_program, w')" "started sample_program w'" by blast
  from w'(2) obtain ret c where exec: "(Call_Exec sample_program, ret, c) \<in> set (sy_trace w')"
    by (auto simp: started_def)
  have "ex_path_search sample_program" by (simp add: sample_program_def)
  with sample_start programs_started [OF linux_id_laws w'(1)] exec
  have "cr_euid c = cr_ruid c \<and> cr_egid c = cr_rgid c \<and> cr_euid c \<noteq> 0 \<and> cr_egid c \<noteq> 0"
    by fastforce
  with w'(1) exec show ?thesis by blast
qed

section \<open>A process refused\<close>

definition obliges_after :: "nat \<Rightarrow> credentials sys_world \<Rightarrow> bool" where
  "obliges_after n w \<longleftrightarrow> n \<le> length (sy_trace w) \<and> sy_fork w = refused_fork \<and> 33 < n"

lemma fd_closed:
  "obliges_after n w \<Longrightarrow> \<exists>w'. fd_destroy fd w = Some (Returned (), w') \<and> obliges_after n w'"
  by (simp add: fd_destroy_eval Let_def obliges_after_def)

lemma rule_deleted:
  assumes "obliges_after n w"
  shows "\<exists>w'. natrule_destroy linux_ids ipt args w = Some (Returned (), w') \<and> obliges_after n w'"
proof -
  from assms have "sy_fork w (length (sy_trace w)) = obliging_fork" by (simp add: obliges_after_def refused_fork_def)
  from sys_run_obliging [OF this] assms show ?thesis
    by (simp add: natrule_destroy_def catch_case obliges_after_def)
qed

lemma shell_destroyed:
  assumes "obliges_after n w" "ps_children sh = []"
  shows "\<exists>w'. packet_shell_destroy linux_ids pf sh w = Some (Returned (), w')"
proof -
  from fd_closed [OF assms(1)] obtain w1 where w1: "fd_destroy (snd (ps_pipe sh)) w = Some (Returned (), w1)" "obliges_after n w1"
    by blast
  from fd_closed [OF w1(2)] obtain w2 where w2: "fd_destroy (fst (ps_pipe sh)) w1 = Some (Returned (), w2)" "obliges_after n w2"
    by blast
  from rule_deleted [OF w2(2)] obtain w3 where
    w3: "natrule_destroy linux_ids (pf_IPTABLES pf) (snd (ps_nat_rule sh)) w2 = Some (Returned (), w3)" "obliges_after n w3" by blast
  from rule_deleted [OF w3(2)] obtain w4 where
    w4: "natrule_destroy linux_ids (pf_IPTABLES pf) (fst (ps_nat_rule sh)) w3 = Some (Returned (), w4)" "obliges_after n w4" by blast
  from fd_closed [OF w4(2)] obtain w5 where
    w5: "fd_destroy (dx_tcp_listener (ps_dns_outside sh)) w4 = Some (Returned (), w5)" "obliges_after n w5" by blast
  from fd_closed [OF w5(2)] obtain w6 where
    w6: "fd_destroy (dx_udp_listener (ps_dns_outside sh)) w5 = Some (Returned (), w6)" "obliges_after n w6" by blast
  from fd_closed [OF w6(2)] obtain w7 where w7: "fd_destroy (ps_egress_tun sh) w6 = Some (Returned (), w7)" by blast
  show ?thesis
    by (simp add: packet_shell_destroy_def assms(2) pipe_destroy_def nat_destroy_def dns_proxy_destroy_def
        bindS_case bind_case_eval w1 w2 w3 w4 w5 w6 w7)
qed

theorem shell_rules_removed_witness:
  "\<exists>w'. shell_main linux_ids sample_platform sample_argv (sample_start refused_fork) = Some (Returned 1, w') \<and>
    commands_run w' \<noteq> [] \<and>
    (commands_run w' \<in> undone_rules ''iptables'' \<or> commands_run w' \<in> failed_rules ''iptables'')"
proof -
  let ?w = "sample_start refused_fork\<lparr>sy_environ := None\<rparr>"
  from sample_configured obtain cfg where cfg: "main_config sample_argv [] (Suc 0) None = Inr cfg"
    "sc_command cfg = [''ls'']" "sc_options cfg = default_options" by blast
  from shell_built [OF sample_stage, of refused_fork] obtain w1 sh where
    w1: "PacketShell linux_ids sample_platform ''cell-link'' (Some Map.empty) ?w = Some (Returned sh, w1)"
    "stage refused_fork 33 setuid_root None w1" by (auto simp: refused_fork_def)
  from PacketShell_Returned [OF w1(1)] have children: "ps_children sh = []" by blast
  let ?w2 = "logged (Call_Clone ''packetshell'' True) (-1) w1"
  have "obliges_after 34 ?w2" using w1(2) by (simp add: obliges_after_def stage_def)
  from shell_destroyed [OF this children] obtain w3 where
    w3: "packet_shell_destroy linux_ids sample_platform sh ?w2 = Some (Returned (), w3)" by blast
  have fork: "sys_fork ''packetshell'' m True SIGHUP w1 = Some (Thrown (Unix_Error ''clone''), ?w2)" for m
    using w1(2) by (simp add: sys_fork_def stage_def refused_fork_def obliging_fork_def do_clone_def Let_def SystemCall_def)
  from sample_queue obtain q where queue: "get_packet_queue (so_uplink_queue_type default_options)
      (so_uplink_queue_args default_options) ''cellularshell'' = Inr q" by blast
  have run: "shell_main linux_ids sample_platform sample_argv (sample_start refused_fork) = Some (Returned 1, w3)"
    by (simp add: shell_main_def run_shell_def holding_def start_uplink_def start_child_def bindS_case bind_case_eval
        catch_case unwinding_def after_case Let_def set_environ_def sample_start requirements_met cfg w1(1) queue
        sample_argv_shape fork w3 by_exception_def caught_def)
  from shell_rules_removed [OF run] have cs: "commands_run w3 \<in> undone_rules ''iptables'' \<or> commands_run w3 = [] \<or>
      commands_run w3 \<in> failed_rules ''iptables''"
    by (auto simp: commands_run_def sample_start)
  from leaves_withD(1) [OF leaves_PacketShell w1(1)] have "commands_run w1 \<noteq> []" by (auto simp: added_def)
  then have "commands_run ?w2 \<noteq> []" by simp
  with leaves_withD(1) [OF leaves_destroy w3] have "commands_run w3 \<noteq> []" by auto
  with run cs show ?thesis by blast
qed

end
