(* ===== verification/Packet_Info.thy ===== *)
theory Packet_Info
  imports Main Prelude Kernel Addresses Cellular_Queue
begin

text \<open>
  \<open>src/util/pktinfo.cc\<close>: the ends of a packet as text for the error stream. The functions are given a
  pointer to an IPv4 header; the model has the bytes that may be read there, and returns the text.
  The emulator's own parser of headers (\<open>get_pkt_header_info\<close>) finds the same ends.
\<close>

section \<open>The header\<close>

definition header_byte :: "string \<Rightarrow> nat \<Rightarrow> nat res" where
  "header_byte v i = (if i < length v then Inr (byte v i) else Inl (Undefined ''read past the packet''))"

definition header_address :: "string \<Rightarrow> nat \<Rightarrow> string res" where
  \<comment> \<open>\<open>inet_ntop\<close>, which cannot fail for \<open>AF_INET\<close> and a buffer of this size\<close>
  "header_address v off =
     andThen (header_byte v off) (\<lambda>a. andThen (header_byte v (off + 1)) (\<lambda>b.
     andThen (header_byte v (off + 2)) (\<lambda>c. andThen (header_byte v (off + 3)) (\<lambda>d.
       Inr (dotted [a, b, c, d])))))"

definition header_port :: "string \<Rightarrow> nat \<Rightarrow> string res" where
  \<comment> \<open>\<open>ntohs\<close>, printed\<close>
  "header_port v off =
     andThen (header_byte v off) (\<lambda>hi. andThen (header_byte v (off + 1)) (\<lambda>lo. Inr (dec (hi * 256 + lo))))"

section \<open>The three functions\<close>

definition print_src_dst_ips :: "string \<Rightarrow> string res" where
  "print_src_dst_ips v =
     andThen (header_byte v 0) (\<lambda>version_ihl.
     if version_ihl div 16 \<noteq> 4 then Inr []
     else
       andThen (header_address v 12) (\<lambda>src. andThen (header_address v 16) (\<lambda>dst.
         Inr (''#- '' @ src @ '' => '' @ dst @ [CHR 0x0A]))))"

definition print_tcp_endpoints :: "string \<Rightarrow> u64 \<Rightarrow> string res" where
  "print_tcp_endpoints v delay =
     andThen (header_byte v 0) (\<lambda>version_ihl.
     if version_ihl div 16 \<noteq> 4 then Inr []
     else
       let tcph = (version_ihl mod 16) * 4
       in andThen (header_address v 12) (\<lambda>src. andThen (header_port v tcph) (\<lambda>th_sport.
          andThen (header_address v 16) (\<lambda>dst. andThen (header_port v (tcph + 2)) (\<lambda>th_dport.
            Inr (''#- '' @ src @ '':'' @ th_sport @ '' => '' @ dst @ '':'' @ th_dport
                 @ ''  '' @ dec (unat delay) @ '' ms'' @ [CHR 0x0A]))))))"

definition print_udp_endpoints :: "string \<Rightarrow> u64 \<Rightarrow> string res" where
  \<comment> \<open>the ports of UDP stand where those of TCP do\<close>
  "print_udp_endpoints v delay =
     andThen (header_byte v 0) (\<lambda>version_ihl.
     if version_ihl div 16 \<noteq> 4 then Inr []
     else
       let udph = (version_ihl mod 16) * 4
       in andThen (header_address v 12) (\<lambda>src. andThen (header_port v udph) (\<lambda>uh_sport.
          andThen (header_address v 16) (\<lambda>dst. andThen (header_port v (udph + 2)) (\<lambda>uh_dport.
            Inr (''#- '' @ src @ '':'' @ uh_sport @ '' => '' @ dst @ '':'' @ uh_dport
                 @ ''  '' @ dec (unat delay) @ '' ms'' @ [CHR 0x0A]))))))"

section \<open>What they print\<close>

lemma byteE_header: "header_byte v i = Inr n \<Longrightarrow> byteE v i = Inr n"
  by (auto simp: header_byte_def byteE_def byte_def split: if_splits)

lemma inet_ntop_header: "header_address v off = Inr s \<Longrightarrow> inet_ntop v off = Inr s"
  by (auto simp: header_address_def inet_ntop_def dotted_def andThen_Inr_iff dest!: byteE_header)

lemma port_at_header: "header_port v off = Inr s \<Longrightarrow> \<exists>n. port_at v off = Inr n \<and> s = dec n"
  by (auto simp: header_port_def port_at_def andThen_Inr_iff dest!: byteE_header)

text \<open>A complete IPv4 header of at least five words is not read past its end.\<close>

lemma header_address_ok: "off + 4 \<le> length v \<Longrightarrow> \<exists>s. header_address v off = Inr s"
  by (simp add: header_address_def header_byte_def)

lemma header_port_ok: "off + 2 \<le> length v \<Longrightarrow> \<exists>s. header_port v off = Inr s"
  by (simp add: header_port_def header_byte_def)

lemma print_src_dst_ips_ok: "20 \<le> length v \<Longrightarrow> \<exists>text. print_src_dst_ips v = Inr text"
  using header_address_ok [of 12 v] header_address_ok [of 16 v]
  by (auto simp: print_src_dst_ips_def header_byte_def)

lemma print_endpoints_ok:
  assumes "20 \<le> length v" "(byte v 0 mod 16) * 4 + 4 \<le> length v"
  shows "\<exists>text. print_tcp_endpoints v delay = Inr text" "print_udp_endpoints v delay = print_tcp_endpoints v delay"
  using assms header_address_ok [of 12 v] header_address_ok [of 16 v]
    header_port_ok [of "(byte v 0 mod 16) * 4" v] header_port_ok [of "(byte v 0 mod 16) * 4 + 2" v]
  by (auto simp: print_tcp_endpoints_def print_udp_endpoints_def header_byte_def Let_def)

text \<open>
  The ends printed are the ends that the emulator writes to its packet log for the same header, for a
  protocol that has ports.
\<close>

lemma printed_ends_are_logged:
  assumes "print_tcp_endpoints v delay = Inr text" "text \<noteq> []" "byte v 9 = 6 \<or> byte v 9 = 17"
  shows "\<exists>src dst. get_pkt_header_info v 0 =
      Inr (join_tab [if byte v 9 = 6 then ''TCP'' else ''UDP'', src, dst]) \<and>
    text = ''#- '' @ src @ '' => '' @ dst @ ''  '' @ dec (unat delay) @ '' ms'' @ [CHR 0x0A]"
proof -
  from assms(1,2) obtain vi src sp dst dp where h: "header_byte v 0 = Inr vi"
    "header_address v 12 = Inr src" "header_port v ((vi mod 16) * 4) = Inr sp"
    "header_address v 16 = Inr dst" "header_port v ((vi mod 16) * 4 + 2) = Inr dp"
    and shown: "text = ''#- '' @ (src @ '':'' @ sp) @ '' => '' @ (dst @ '':'' @ dp) @ ''  '' @
      dec (unat delay) @ '' ms'' @ [CHR 0x0A]"
    by (auto simp: print_tcp_endpoints_def andThen_Inr_iff Let_def split: if_splits)
  obtain m n where p: "port_at v ((vi mod 16) * 4) = Inr m" "sp = dec m"
    "port_at v ((vi mod 16) * 4 + 2) = Inr n" "dp = dec n"
    using port_at_header [OF h(3)] port_at_header [OF h(5)] by blast
  have "byteE v 9 = Inr (byte v 9)"
    using h(4) by (auto simp: header_address_def andThen_Inr_iff header_byte_def byteE_def byte_def split: if_splits)
  with assms(3) have "get_pkt_header_info v 0 =
      Inr (join_tab [if byte v 9 = 6 then ''TCP'' else ''UDP'', src @ '':'' @ sp, dst @ '':'' @ dp])"
    using h(1,2,4) p by (auto simp: get_pkt_header_info_def Let_def inet_ntop_header byteE_header)
  with shown show ?thesis by blast
qed

end
