(* ===== verification/Spec2Isabelle.thy ===== *)
theory Spec2Isabelle
  imports Main Prelude Float_Round Ezio Kernel Packets Packet_Queues Delay_Queue
    Link_Packet_Queue Cellular_State Link_Queue Release_Time Ferry Cellular_Queue Cellular_Channel
    Cellular_Start Cellular_Drain Link_Count Train_Text Codel_Queue Pie_Queue Bytestream_Queue Poller
    Util Child_Process System_Runner Event_Loop Ferry_Loop Addresses Interfaces Cellular_Shell
    Syscalls Sockets Net_Setup Dns_Proxy Privileges Packet_Shell Downlink_Loop
    Shell_Main Shell_Rules Shell_Run Packet_Info
begin

text \<open>
  A model of cellreplay's C++ programs (\<open>src/src\<close>): the \<open>CellularQueue\<close> that replays a recorded
  cellular link on the datagrams of a TUN device, the packet queues it can use, the event
  loop that drives it, the program's start, and the utilities they rest on.

  \<^bold>\<open>How the program works.\<close> \<open>cellularshell\<close> builds one \<open>CellularQueue\<close> per direction and runs
  \<open>PacketShell::Ferry::loop\<close> on it. A datagram read from the TUN device enters the delay stage: it
  gets a release time from the packet train trace (base delay and light PDOs) and waits in a
  priority queue. Once released it is written straight to the sibling device, if it belongs to the
  light PDOs and the link is empty, or enters the link stage: a packet queue served by the delivery
  opportunities of the heavy PDO trace, 1400 bytes each.

  \<^bold>\<open>The theories, in the order of the code's layers.\<close>
  \<^item> \<open>Prelude\<close>: integer widths; exceptions, failed assertions and undefined behaviour as values
    (\<open>exn\<close>); sequencing of calls that may fail (\<open>andThen\<close>) or not return (\<open>andThenO\<close>); decimal text.
  \<^item> \<open>Float_Round\<close>: \<open>float\<close> and \<open>double\<close> arithmetic as rationals with IEEE rounding.
  \<^item> \<open>Ezio\<close> (\<open>util/ezio.cc\<close>): \<open>myatoi\<close> and \<open>myatof\<close> over \<open>strtol\<close> and \<open>strtod\<close>.
  \<^item> \<open>Kernel\<close> (\<open>util/timestamp.cc\<close>, \<open>util/file_descriptor.cc\<close>, \<open>util/exception.hh\<close>): the \<open>world\<close>,
    which holds the kernel's answers, and the calls that consume them.
  \<^item> \<open>Packets\<close>, \<open>Packet_Queues\<close> (\<open>packet/*_packet_queue.*\<close>): the packet records, the queue interface
    as the locales \<open>packet_queue\<close>, \<open>total_packet_queue\<close>, \<open>lossless_packet_queue\<close>, and the queues that
    interpret them; \<open>Codel_Queue\<close> and \<open>Pie_Queue\<close>: the two AQM queues, which interpret
    \<open>total_packet_queue\<close>.
  \<^item> \<open>Link_Packet_Queue\<close>: the \<open>unique_ptr<AbstractPacketQueue>\<close> of the link, and \<open>get_packet_queue\<close>
    (\<open>frontend/cellularshell.cc\<close>).
  \<^item> \<open>Delay_Queue\<close>: the \<open>std::priority_queue\<close> of the delay stage, as the locale \<open>priority_queue\<close>.
  \<^item> \<open>Cellular_State\<close>, \<open>Link_Queue\<close>, \<open>Release_Time\<close>, \<open>Cellular_Queue\<close> (\<open>frontend/cellular_queue.*\<close>):
    the state and constructor; \<open>rationalize\<close> and entering the link; the release time; the calls of
    the event loop.
  \<^item> \<open>Ferry\<close> (\<open>packet/packetshell.cc\<close>): what the event loop asks of its queue, as the locale
    \<open>ferry_queue\<close>; \<open>Cellular_Channel\<close> interprets it; \<open>Cellular_Start\<close> starts from the constructor;
    \<open>Cellular_Drain\<close>: nothing stays in it; \<open>Link_Count\<close>: \<open>current_link_queue_size_\<close> against what the
    link holds, for every packet queue; \<open>Train_Text\<close>: a packet train trace written as text, and one
    that stays at time 0.
  \<^item> \<open>Bytestream_Queue\<close> (\<open>util/bytestream_queue.*\<close>): the ring buffer between two descriptors, as the
    locale \<open>byte_pipe\<close>.
  \<^item> \<open>Poller\<close> (\<open>util/poller.*\<close>): the actions, one round of \<open>poll\<close>, and what the poller's user must
    provide, as the locale \<open>poll_client\<close>.
  \<^item> \<open>Util\<close> (\<open>util/util.*\<close>): the identity of the process and dropping its privileges, the environment,
    the working directory, the shell and its text.
  \<^item> \<open>Child_Process\<close> (\<open>util/child_process.*\<close>), \<open>System_Runner\<close> (\<open>util/system_runner.*\<close>): the state machine
    of a child under \<open>waitid\<close>, its destructor, and running a command to its end.
  \<^item> \<open>Event_Loop\<close> (\<open>util/event_loop.*\<close>, \<open>util/signalfd.*\<close>): signal masks, the handling of a signal, and
    the loop over the poller; \<open>Ferry_Loop\<close>: \<open>Ferry::loop\<close> on top of it, which interprets \<open>poll_client\<close>.
  \<^item> \<open>Addresses\<close>, \<open>Interfaces\<close> (\<open>util/address.*\<close>, \<open>util/interfaces.*\<close>): socket addresses, and the search
    for addresses no interface uses.
  \<^item> \<open>Cellular_Shell\<close> (\<open>frontend/cellularshell.cc\<close>): \<open>main\<close>, from its options to the arguments of the
    two queues and the command line kept for the logs.
  \<^item> \<open>Syscalls\<close>: for the parts whose correctness is the order of their calls, programs over a trace
    of system calls, with exceptions, destructors, \<open>fork\<close> and \<open>exec\<close>; the calls a program can make,
    and under which identity and environment, as judgements (\<open>only_calls\<close>, \<open>steps\<close>) with a rule per
    construct.
  \<^item> \<open>Sockets\<close> (\<open>util/socket.*\<close>, \<open>util/socketpair.*\<close>): UDP and TCP sockets, and handing a
    descriptor to another process; \<open>Net_Setup\<close> (\<open>util/netdevice.*\<close>, \<open>util/nat.*\<close>,
    \<open>util/temp_file.*\<close>, \<open>util/dns_server.cc\<close>): devices, rules of address translation, temporary files,
    dnsmasq; \<open>Dns_Proxy\<close> (\<open>util/dns_proxy.*\<close>): the DNS proxy, whose relay interprets \<open>poll_client\<close>.
  \<^item> \<open>Privileges\<close> (\<open>util/util.cc\<close>, \<open>packet/packetshell.cc\<close>): identities and environment of a process
    as calls, and the one look at the user's environment before the privileges are dropped;
    \<open>Packet_Shell\<close> (\<open>packet/packetshell.*\<close>, \<open>packet/tun_packetshell.*\<close>): construction and destruction,
    the processes of the uplink and the downlink, the wait; \<open>Downlink_Loop\<close>: the downlink's event loop,
    with the DNS proxy's handlers beside the emulator, which interprets \<open>poll_client\<close> once more.
  \<^item> \<open>Shell_Main\<close> (\<open>frontend/cellularshell.cc\<close>): \<open>main\<close> as a whole, and the programs it starts;
    \<open>Shell_Rules\<close>: the commands it runs, by the way out; \<open>Shell_Run\<close>: two runs of it, evaluated, up
    to the start of the user's program and up to the failure of a \<open>fork\<close>.
  \<^item> \<open>Packet_Info\<close> (\<open>util/pktinfo.cc\<close>): the ends of a packet as text.
  This theory holds the properties that span components.

  \<^bold>\<open>How state corresponds.\<close> \<open>cellular_queue\<close> is the class, field by field, in three record
  extensions (link stage, delay stage, the rest), so a function of the link stage is defined for
  every extension and leaves the other fields alone by its type. A method is a function that
  returns the new state; a call that may throw returns \<open>exn + 'a\<close>; a loop without an obvious bound
  is a \<open>partial_function\<close> with \<open>None\<close> for "does not return". \<open>int\<close>, \<open>unsigned\<close> and \<open>uint64_t\<close> are
  words, read signed or unsigned where the code does; wrap-around is the words' own. The clock is
  read where the code reads it: each reading is the next answer of the \<open>world\<close>.

  \<^bold>\<open>What the lemmas show.\<close> Termination of every loop under the stated conditions, and divergence
  where they fail; that no assertion of \<open>rationalize\<close>, \<open>read_packet\<close> or \<open>get_pkt_release_time\<close> can
  fail on a usable trace; the exact use of delivery opportunities and light PDOs; that the emulator
  is a FIFO channel; that it releases nothing early, sleeps through nothing and empties once its
  opportunities have come; what the queues drop, and when; what the event loop does for each
  answer about its children; and the outcomes where the code does not do what it means to.

  \<^bold>\<open>Bounds.\<close> Times are below \<open>2^62\<close> ms (\<open>clock_ok\<close>) and traces end below it, so sums of two stay
  below \<open>2^64\<close>; base delays are at most \<open>2^24\<close>, where single precision is exact; a history keeps a
  queue's bytes plus packets below \<open>2^31\<close>, the range of its \<open>int\<close> counters, and reads fewer than
  \<open>2^30\<close> packets, so \<open>current_pdo_idx_\<close> cannot wrap. \<open>clock_steady\<close> adds that \<open>CLOCK_REALTIME\<close> is not
  set back while the emulator runs. No fuel is used.

  The outcome of an event loop is bounded from above for any kernel (a \<open>partial_function\<close>, no fuel);
  that it fails no assertion is claimed of histories with fewer than \<open>2^18\<close> rounds of \<open>poll\<close>
  (\<open>2^17\<close> for the downlink, whose proxy can be called too), and only of a machine that does not set
  the clock back, takes every write whole (\<open>whole_writes\<close>) and hands out datagrams the header parser
  can read (\<open>tun_delivers\<close>): shorter ones are read past their end.

  \<^bold>\<open>Parameters.\<close> What the code asks of the kernel or of a library it only calls is an argument:
  the identity calls (\<open>id_calls\<close>, with their documented laws \<open>id_laws\<close>), \<open>getopt_long\<close>,
  \<open>getaddrinfo\<close>, \<open>getifaddrs\<close>, and, in the \<open>world\<close>, the clock, the descriptors and \<open>waitid\<close>; in the
  \<open>sys_world\<close>, the answer to the n-th system call and the outcome of the n-th \<open>fork\<close>, which decides
  which of the two processes the run goes on in; in the \<open>platform\<close>, what \<open>main\<close> and \<open>PacketShell\<close> ask
  of libraries and the rest of the machine, and the paths of the generated \<open>config.h\<close>. A run that is
  still in an event loop when the answers of \<open>poll\<close> end has no result, and nothing is claimed of it.

  \<^bold>\<open>Not modelled.\<close> The second constructors of \<open>PacketShell\<close> and \<open>TunPacketShell\<close> (they call a function
  the repository does not have), the random engine (the drop distribution is never drawn from),
  console output other than a packet's ends, threads running side by side (each thread of the DNS proxy is modelled by itself),
  and the recording tools under \<open>src/record\<close> (Java, Python).
\<close>

section \<open>Properties of the emulator\<close>

text \<open>
  C1. The emulated link is a FIFO channel. From the construction of a \<open>CellularQueue\<close> on, over every
  sequence of the calls the event loop makes, in every order and at every time a clock that does
  not run back can show: each call returns (no exception, no failed assertion, no undefined
  behaviour, no endless loop), and the datagrams written to the descriptor, followed by those the
  queue still holds, are the datagrams read, unchanged and in order. No packet is lost, doubled or
  overtaken on its way through the delay queue, the bypass or the link. (An unbounded packet queue,
  a usable trace, and datagrams the header parser can read.)
\<close>

theorem emulator_fifo:
  assumes "CellularQueue train heavy log_prefix rep queue up start loss offs timer w = Inr (c, w')"
    and "clock_steady w" "whole_writes w" "config_ok queue c"
    and "\<forall>x \<in> set (datagrams calls). datagram_ok x"
    and "(\<Sum>x \<leftarrow> datagrams calls. length x + 1) < 2 ^ 30"
  shows "\<exists>s out. ferry_run cq_read write_packets cq_wait cq_pending calls (fd, c, w') = Some (Inr s) \<and>
     cq_sent s = map snd (w_sent w) @ out \<and> out @ cq_held s = datagrams calls"
proof -
  have "cq_accepts (fd, c, w') (datagrams calls @ [])"
    using CellularQueue_accepts [OF assms] by simp
  from cellular.run_fifo [OF this] CellularQueue_ok [OF assms(1-4)]
  show ?thesis by (auto simp: cq_sent_def cq_held_def)
qed

theorem emulator_fifo_witness:
  "\<exists>s out. ferry_run cq_read write_packets cq_wait cq_pending
       [Read_Packet sample_datagram, Wait_Time, Write_Packets, Read_Packet sample_datagram,
        Pending_Output, Write_Packets] (sample_fd, sample_queue) = Some (Inr s) \<and>
     cq_sent s = out \<and> out @ cq_held s = [sample_datagram, sample_datagram]"
proof -
  let ?calls = "[Read_Packet sample_datagram, Wait_Time, Write_Packets, Read_Packet sample_datagram,
        Pending_Output, Write_Packets]"
  have "w_sent sample_world = []" by (simp add: sample_world_def)
  moreover have "\<forall>x \<in> set (datagrams ?calls). datagram_ok x"
    "(\<Sum>x \<leftarrow> datagrams ?calls. length x + 1) < 2 ^ 30"
    by (simp_all add: sample_datagram_ok sample_datagram_length)
  ultimately show ?thesis
    using emulator_fifo [OF sample_queue_new(1) sample_world_steady sample_queue_new(2), of ?calls sample_fd]
    by simp
qed

text \<open>
  C13. Taking in a datagram. In a well-formed state \<open>read_packet\<close> returns, writes nothing, and puts
  the datagram, with the next sequence number, behind everything the emulator holds: its release
  time is never before that of an earlier packet, so the function's assertion holds and the
  priority queue never reorders.
\<close>

theorem read_packet_behind:
  assumes "cq_ok c" "world_ok c w" "datagram_ok x" "unat (pkt_counter c) < 2 ^ 30 - 1"
  shows "\<exists>c' w'. read_packet x c w = Some (Inr (c', w')) \<and> cq_ok c' \<and> world_ok c' w' \<and>
    w_sent w' = w_sent w \<and> channel c' = channel c @ [(pkt_counter c, x)] \<and>
    end_release_time c \<le> end_release_time c'"
proof -
  obtain info where "get_pkt_header_info x 4 = Inr info"
    using assms(3) by (auto simp: datagram_ok_def split: sum.splits)
  from read_packet_ok [OF assms(1,2) _ _ this assms(4)] assms(3) show ?thesis
    by (auto simp: datagram_ok_def)
qed

theorem read_packet_behind_witness:
  "\<exists>c' w'. read_packet sample_datagram (fst sample_queue) (snd sample_queue) = Some (Inr (c', w')) \<and>
    channel c' = [(0, sample_datagram)]"
proof -
  note ok = CellularQueue_ok [OF sample_queue_new(1) sample_world_steady sample_queue_new(2)]
  from read_packet_behind [OF ok(1,2) sample_datagram_ok] ok(3,4) show ?thesis by auto
qed

text \<open>
  C2. Writing out. \<open>write_packets\<close> returns; it sends a prefix of the channel, in order, each packet
  whole; the output queue is empty afterwards; and it deals with exactly what is due: every packet
  that left the delay queue had reached its release time (never early), and every packet still in
  it is released after the time the call began (none that was due is left behind).
\<close>

theorem write_packets_due:
  assumes "cq_ok c" "world_ok c w" "channel_room (channel c)"
  shows "\<exists>fd' c' w' sent. write_packets (fd, c, w) = Some (Inr (fd', c', w')) \<and>
    cq_ok c' \<and> world_ok c' w' \<and>
    sent @ channel c' = channel c \<and> w_sent w' = w_sent w @ map (\<lambda>x. (fd_num fd, snd x)) sent \<and>
    output_queue c' = [] \<and>
    released (clock_now w) (clock_now w') (delay_packet_queue c) (delay_packet_queue c')"
  using write_packets_ok [OF assms, of fd] by (simp add: wrote_def) blast

theorem write_packets_due_witness:
  "\<exists>fd' c' w'. write_packets (sample_fd, sample_queue) = Some (Inr (fd', c', w')) \<and> channel c' = [] \<and>
    w_sent w' = []"
proof -
  note ok = CellularQueue_ok [OF sample_queue_new(1) sample_world_steady sample_queue_new(2)]
  have "channel_room (channel (fst sample_queue))" by (simp add: ok(3) channel_room_def)
  from write_packets_due [OF ok(1,2) this, of sample_fd] ok(3,5) show ?thesis
    by (auto simp: sample_world_def)
qed

text \<open>
  C7. The event loop never sleeps through an event: the number of milliseconds \<open>wait_time\<close> returns,
  counted from the time of the call, ends no later than the release of any packet in the delay
  queue and no later than the link's next delivery opportunity. The call changes neither what the
  emulator holds nor its order.
\<close>

theorem wait_time_not_late:
  assumes "cq_ok c" "world_ok c w"
  shows "\<exists>t c' w'. wait_time c w = Some (Inr (t, c', w')) \<and> cq_ok c' \<and> channel c' = channel c \<and>
    (\<forall>p \<in> set (delay_packet_queue c').
       clock_now w \<le> dp_release_time p \<longrightarrow>
       unat (clock_now w) + unat t \<le> unat (dp_release_time p)) \<and>
    (\<not> trace_finished c' \<longrightarrow> unat (clock_now w) + unat t \<le> delivery_time c' 0)"
proof -
  from wait_time_ok [OF assms] obtain t c' w' where
    t: "wait_time c w = Some (Inr (t, c', w'))" "cq_ok c'" "channel c' = channel c"
      "\<forall>p \<in> set (delay_packet_queue c'). unat t \<le> unat (dp_release_time p) - unat (clock_now w)"
      "\<not> trace_finished c' \<longrightarrow> unat (clock_now w) + unat t \<le> delivery_time c' 0" by blast
  have "unat (clock_now w) + unat t \<le> unat (dp_release_time p)"
    if "p \<in> set (delay_packet_queue c')" "clock_now w \<le> dp_release_time p" for p
    using t(4) that by (fastforce simp: word_le_nat_alt)
  with t show ?thesis by blast
qed

theorem wait_time_not_late_witness:
  "\<exists>t c' w'. wait_time (fst sample_queue) (snd sample_queue) = Some (Inr (t, c', w')) \<and>
    channel c' = [] \<and>
    (\<not> trace_finished c' \<longrightarrow> unat (clock_now (snd sample_queue)) + unat t \<le> delivery_time c' 0)"
proof -
  note ok = CellularQueue_ok [OF sample_queue_new(1) sample_world_steady sample_queue_new(2)]
  from wait_time_not_late [OF ok(1,2)] ok(3) show ?thesis by auto
qed

text \<open>
  C14. The write callback is not missed: \<open>pending_output\<close> answers yes whenever a packet waits in the
  output queue or one of the delay queue has reached its release time.
\<close>

theorem pending_output_complete:
  assumes "cq_ok c" "world_ok c w"
    and "output_queue c \<noteq> [] \<or> (\<exists>p \<in> set (delay_packet_queue c). dp_release_time p \<le> clock_now w)"
  shows "\<exists>w'. pending_output c w = Inr (True, w')"
  using pending_output_ok [OF assms(1,2)] assms(3) by auto

theorem pending_output_complete_witness:
  "\<exists>c w'. output_queue c = [sample_packet ''x''] \<and> delay_packet_queue c = [] \<and>
    pending_output c (snd sample_queue) = Inr (True, w')"
proof -
  note ok = CellularQueue_ok [OF sample_queue_new(1) sample_world_steady sample_queue_new(2)]
  note init = CellularQueue_initial [OF sample_queue_new(1) sample_world_steady(1)]
  let ?c = "(fst sample_queue)\<lparr>output_queue := [sample_packet ''x''],
    current_link_queue_size := 1, start_tick := True\<rparr>"
  have empty: "link_contents (fst sample_queue) = []"
    using ok(1) init(8) by (simp add: cq_ok_def)
  then have contents: "link_contents ?c = [sample_packet ''x'']"
    by (auto simp: link_contents_def in_transit_def split: if_splits)
  have p: "link_packet_ok (sample_packet ''x'')" by (simp add: link_packet_ok_def PACKET_SIZE_def)
  have "arrived_by t ?c = arrived_by t (fst sample_queue)"
    "delivery_time ?c 0 = delivery_time (fst sample_queue) 0" for t
    by (simp_all add: arrived_by_def in_transit_def delivery_time_def)
  then have "link_wf ?c"
    using ok(1) contents p
    by (simp add: cq_ok_def link_wf_def transit_ok_def)
  then have "cq_ok ?c"
    using ok(1) contents
    by (simp add: cq_ok_def) (simp add: delay_wf_def delay_queue_ok_def train_begun_def
        current_instance_def)
  moreover have "world_ok ?c (snd sample_queue)"
    using ok(2) by (simp add: world_ok_def delay_by_def train_begun_def current_instance_def)
  ultimately have "\<exists>w'. pending_output ?c (snd sample_queue) = Inr (True, w')"
    by (rule pending_output_complete) simp
  moreover have "delay_packet_queue ?c = []" using init(10) by simp
  ultimately show ?thesis by (intro exI [of _ ?c]) simp
qed

text \<open>
  C23. \<open>read_packet\<close> lets a datagram of 20 to 22 bytes pass its size check and then reads the
  destination address of an IPv4 header that starts at byte 4, past the end of the string: the
  check compares with the size of the IPv4 header alone and forgets the four bytes before it.
\<close>

theorem short_datagram_undefined:
  assumes "clock_ok w" "20 \<le> length x" "length x \<le> 22"
  shows "read_packet x c w = Some (Inl (Undefined ''read past the packet''))"
proof -
  have "length x = 20 \<or> length x = 21 \<or> length x = 22" using assms(2,3) by linarith
  then have "get_pkt_header_info x 4 = Inl (Undefined ''read past the packet'')"
    by (elim disjE) (simp_all add: get_pkt_header_info_def inet_ntop_def byteE_def)
  with assms show ?thesis
    by (simp add: read_packet_def sizeof_iphdr_def PACKET_SIZE_def timestamp_ok)
qed

theorem short_datagram_undefined_witness:
  "read_packet (replicate 20 (CHR ''x'')) (fst sample_queue) (snd sample_queue)
     = Some (Inl (Undefined ''read past the packet''))"
proof -
  have "clock_ok (snd sample_queue)"
    using CellularQueue_ok(2) [OF sample_queue_new(1) sample_world_steady sample_queue_new(2)]
    by (simp add: world_ok_def)
  then show ?thesis by (rule short_datagram_undefined) simp_all
qed

end
